(* ===== verification/Lifecycle.thy ===== *)
theory Lifecycle
  imports Go_Prelude
begin

text \<open>
  The canonical lifecycle vocabulary (package \<open>state\<close>): the seven states, the reasons stored
  beside them, and the total translation of every historical state string. A \<open>State\<close> is a Go
  string type, so values outside the vocabulary exist and pass through unchanged.
\<close>

section \<open>Definitions\<close>

type_synonym lifecycle_state = string
type_synonym reason = string

definition Queued :: lifecycle_state where "Queued = ''queued''"
definition Running :: lifecycle_state where "Running = ''running''"
definition Blocked :: lifecycle_state where "Blocked = ''blocked''"
definition Done :: lifecycle_state where "Done = ''done''"
definition Failed :: lifecycle_state where "Failed = ''failed''"
definition Canceled :: lifecycle_state where "Canceled = ''canceled''"
definition Skipped :: lifecycle_state where "Skipped = ''skipped''"

lemmas lifecycle_states =
  Queued_def Running_def Blocked_def Done_def Failed_def Canceled_def Skipped_def

definition canonical_states :: "lifecycle_state list" where
  "canonical_states = [Queued, Running, Blocked, Done, Failed, Canceled, Skipped]"

definition ReasonApproval :: reason where "ReasonApproval = ''approval''"
definition ReasonCI :: reason where "ReasonCI = ''ci''"
definition ReasonDependency :: reason where "ReasonDependency = ''dependency''"
definition ReasonRetryBackoff :: reason where "ReasonRetryBackoff = ''retry_backoff''"
definition ReasonInterrupted :: reason where "ReasonInterrupted = ''interrupted''"
definition ReasonCached :: reason where "ReasonCached = ''cached''"

lemmas lifecycle_reasons =
  ReasonApproval_def ReasonCI_def ReasonDependency_def ReasonRetryBackoff_def
  ReasonInterrupted_def ReasonCached_def

definition IsTerminal :: "lifecycle_state \<Rightarrow> bool" where
  "IsTerminal s \<longleftrightarrow> s \<in> {Done, Failed, Canceled, Skipped}"

definition legacy_table :: "(string \<times> (lifecycle_state \<times> reason)) list" where
  "legacy_table =
    [(''queued'', (Queued, [])), (''running'', (Running, [])), (''blocked'', (Blocked, [])),
     (''done'', (Done, [])), (''failed'', (Failed, [])), (''canceled'', (Canceled, [])),
     (''skipped'', (Skipped, [])),
     (''registered'', (Queued, [])), (''pending'', (Queued, [])),
     (''leased'', (Running, [])),
     (''approval_waiting'', (Blocked, ReasonApproval)),
     (''waiting'', (Blocked, ReasonCI)),
     (''interrupted'', (Blocked, ReasonInterrupted)),
     (''passed'', (Done, [])), (''succeeded'', (Done, [])), (''success'', (Done, [])),
     (''skipped_cached'', (Skipped, ReasonCached))]"

definition legacy :: "string \<Rightarrow> (lifecycle_state \<times> reason) option" where
  "legacy = map_of legacy_table"

definition Normalize :: "string \<Rightarrow> lifecycle_state" where
  "Normalize s = (case legacy s of Some (st, _) \<Rightarrow> st | None \<Rightarrow> s)"

definition NormalizeWithReason :: "string \<Rightarrow> lifecycle_state \<times> reason" where
  "NormalizeWithReason s = (case legacy s of Some (st, r) \<Rightarrow> (st, r) | None \<Rightarrow> (s, []))"

section \<open>Facts\<close>

lemma legacy_canonical:
  "legacy s = Some (st, r) \<Longrightarrow> st \<in> set canonical_states"
proof -
  assume "legacy s = Some (st, r)"
  then have "(s, st, r) \<in> set legacy_table" unfolding legacy_def by (rule map_of_SomeD)
  then show ?thesis by (auto simp: legacy_table_def canonical_states_def)
qed

lemma Normalize_canonical_id:
  assumes "st \<in> set canonical_states"
  shows "Normalize st = st"
proof -
  have "\<forall>st\<in>set canonical_states. Normalize st = st"
    by (simp add: canonical_states_def Normalize_def legacy_def legacy_table_def lifecycle_states)
  with assms show ?thesis by blast
qed

lemma Normalize_cases:
  obtains "Normalize s \<in> set canonical_states" | "legacy s = None" "Normalize s = s"
proof (cases "legacy s")
  case (Some p)
  then obtain st r where p: "legacy s = Some (st, r)" by (cases p) auto
  then have "Normalize s = st" by (simp add: Normalize_def)
  with legacy_canonical [OF p] that show ?thesis by blast
qed (simp add: Normalize_def that)

lemma fst_NormalizeWithReason: "fst (NormalizeWithReason s) = Normalize s"
  by (simp add: NormalizeWithReason_def Normalize_def split: option.splits prod.splits)

text \<open>
  A reason is only ever produced for a parked or a skipped state, so a caller that stores it
  beside the state never labels a running or finished row with one.
\<close>

lemma legacy_reason:
  assumes "legacy s = Some (st, r)" and "r \<noteq> []"
  shows "st = Blocked \<or> st = Skipped"
proof -
  from assms(1) have "(s, st, r) \<in> set legacy_table" unfolding legacy_def by (rule map_of_SomeD)
  with assms(2) show ?thesis by (auto simp: legacy_table_def)
qed

end
