(* ===== verification/Float64.thy ===== *)
theory Float64
  imports Go_Prelude
begin

text \<open>
  The part of Go's \<open>float64\<close> that the condition language uses: conversion of an \<open>int\<close>, and
  \<open>strconv.ParseFloat\<close> on the decimal literals its lexer produces (an optional sign, then
  digits and dots). A finite \<open>float64\<close> is kept as its canonical pair of an integer
  significand and a binary exponent, so \<open>==\<close> on two floats is equality of the pairs (both
  zeros are the pair \<open>(0, 0)\<close>). Rounding is to nearest, ties to even, with gradual underflow
  at exponent -1074, on exact natural-number arithmetic.
\<close>

section \<open>Rounding a fraction of naturals\<close>

type_synonym float64 = "int \<times> int"

text \<open>Scale the numerator up, or the denominator, until the quotient has 53 bits.\<close>

function scale_up :: "nat \<Rightarrow> nat \<Rightarrow> int \<Rightarrow> nat \<times> int" where
  "scale_up num den e =
     (if num < 2 ^ 52 * den \<and> -1074 < e then scale_up (2 * num) den (e - 1) else (num, e))"
  by pat_completeness auto
termination by (relation "measure (\<lambda>(num, den, e). nat (e + 1074))") auto

declare scale_up.simps [simp del]

function scale_down :: "nat \<Rightarrow> nat \<Rightarrow> int \<Rightarrow> nat \<times> int" where
  "scale_down num den e =
     (if 0 < den \<and> 2 ^ 53 * den \<le> num then scale_down num (2 * den) (e + 1) else (den, e))"
  by pat_completeness auto
termination
  by (relation "measure (\<lambda>(num, den, e). num - den)") auto

declare scale_down.simps [simp del]

definition round_half_even :: "nat \<Rightarrow> nat \<Rightarrow> nat" where
  "round_half_even num den =
     (let q = num div den; r = num mod den in
      if 2 * r < den then q
      else if den < 2 * r then q + 1
      else if even q then q else q + 1)"

definition round64 :: "nat \<Rightarrow> nat \<Rightarrow> (nat \<times> int) option" where
  "round64 num den =
     (if num = 0 then Some (0, 0)
      else
        let (num', e) = scale_up num den 0;
            (den', e') = scale_down num' den e;
            m = round_half_even num' den';
            (m', e'') = (if m = 2 ^ 53 then (2 ^ 52, e' + 1) else (m, e'))
        in if m' = 0 then Some (0, 0)
           else if 971 < e'' then None
           else Some (m', e''))"

text \<open>The conversion \<open>float64(n)\<close> of an \<open>int\<close>; 64-bit values never overflow the range.\<close>

definition signed :: "bool \<Rightarrow> nat \<times> int \<Rightarrow> float64" where
  "signed neg p = (if neg then - int (fst p) else int (fst p), snd p)"

definition float_of_int64 :: "int \<Rightarrow> float64" where
  "float_of_int64 n =
     (case round64 (nat \<bar>n\<bar>) 1 of Some p \<Rightarrow> signed (n < 0) p | None \<Rightarrow> (0, 0))"

section \<open>Parsing\<close>

definition is_digit :: "char \<Rightarrow> bool" where
  "is_digit c \<longleftrightarrow> 48 \<le> (of_char c :: nat) \<and> (of_char c :: nat) \<le> 57"

definition digit_val :: "char \<Rightarrow> nat" where
  "digit_val c = of_char c - 48"

fun digits_val :: "nat \<Rightarrow> string \<Rightarrow> nat" where
  "digits_val acc [] = acc"
| "digits_val acc (c # cs) = digits_val (10 * acc + digit_val c) cs"

text \<open>
  \<open>ParseFloat\<close> on an optional minus sign, digits, and at most one dot; \<open>None\<close> is a syntax or
  range error. Every token the lexer calls a number starts with a digit after the sign, and
  contains nothing but digits and dots.
\<close>

definition ParseFloat :: "string \<Rightarrow> float64 option" where
  "ParseFloat s =
     (let neg = has_prefix s ''-'';
          body = (if neg then tl s else s);
          ip = takeWhile is_digit body;
          rest = drop (length ip) body
      in if rest = [] then
           (if ip = [] then None else map_option (signed neg) (round64 (digits_val 0 ip) 1))
         else if hd rest = CHR ''.'' \<and> list_all is_digit (tl rest) \<and> (ip \<noteq> [] \<or> tl rest \<noteq> [])
         then map_option (signed neg) (round64 (digits_val 0 (ip @ tl rest)) (10 ^ length (tl rest)))
         else None)"

section \<open>Exactness on integers\<close>

lemma scale_up_exact:
  assumes "scale_up num den e = (num', e')" "e \<le> 0"
  shows "\<exists>k. num' = 2 ^ k * num \<and> e' = e - int k"
  using assms
proof (induction num den e arbitrary: num' e' rule: scale_up.induct)
  case (1 num den e)
  show ?case
  proof (cases "num < 2 ^ 52 * den \<and> -1074 < e")
    case True
    with "1.prems" have "scale_up (2 * num) den (e - 1) = (num', e')"
      by (simp add: scale_up.simps [of num den e])
    with "1.IH" [OF True, of num' e'] "1.prems" obtain k
      where "num' = 2 ^ k * (2 * num)" "e' = e - 1 - int k" by auto
    then show ?thesis by (intro exI [of _ "Suc k"]) simp
  next
    case False
    with "1.prems" show ?thesis
      by (auto simp: scale_up.simps [of num den e] intro!: exI [of _ 0])
  qed
qed

lemma scale_up_bound:
  assumes "scale_up num den e = (num', e')" "num < 2 ^ 53 * den"
  shows "num' < 2 ^ 53 * den"
  using assms
proof (induction num den e arbitrary: num' e' rule: scale_up.induct)
  case (1 num den e)
  show ?case
  proof (cases "num < 2 ^ 52 * den \<and> -1074 < e")
    case True
    with "1.prems" have "scale_up (2 * num) den (e - 1) = (num', e')"
      by (simp add: scale_up.simps [of num den e])
    with "1.IH" [OF True, of num' e'] True show ?thesis by simp
  next
    case False
    with "1.prems" show ?thesis by (auto simp: scale_up.simps [of num den e])
  qed
qed

lemma round_half_even_1 [simp]: "round_half_even n (Suc 0) = n"
  by (simp add: round_half_even_def)

lemma round64_exact:
  assumes "0 < n" "n < 2 ^ 53"
  shows "\<exists>k. round64 n 1 = Some (2 ^ k * n, - int k)"
proof -
  obtain num' e where up: "scale_up n 1 0 = (num', e)" by fastforce
  then obtain k where k: "num' = 2 ^ k * n" "e = - int k" using scale_up_exact by fastforce
  have b: "num' < 2 ^ 53" using scale_up_bound [OF up] assms(2) by simp
  then have "scale_down num' 1 e = (1, e)" by (simp add: scale_down.simps [of num' "Suc 0"])
  with up b k assms(1) show ?thesis
    by (auto simp: round64_def split: if_splits intro!: exI [of _ k])
qed

lemma round64_exact_53: "round64 (2 ^ 53) 1 = Some (2 ^ 52, 1)"
  by (simp add: round64_def scale_up.simps scale_down.simps [of _ "Suc 0"] scale_down.simps [of _ 2]
    round_half_even_def)

text \<open>
  The value a canonical pair stands for, scaled by the largest shift in use so that it stays an
  integer, is injective on the exact range.
\<close>

lemma round64_cases:
  assumes "n \<le> 2 ^ 53"
  shows "n = 0 \<and> round64 n 1 = Some (0, 0) \<or> n = 2 ^ 53 \<and> round64 n 1 = Some (2 ^ 52, 1)
      \<or> (\<exists>k. 0 < n \<and> n < 2 ^ 53 \<and> round64 n 1 = Some (2 ^ k * n, - int k))"
proof -
  consider "n = 0" | "n = 2 ^ 53" | "0 < n" "n < 2 ^ 53" using assms by fastforce
  then show ?thesis
  proof cases
    case 1 then show ?thesis by (simp add: round64_def)
  next
    case 2 then show ?thesis using round64_exact_53 by simp
  next
    case 3 then show ?thesis using round64_exact by blast
  qed
qed

lemma round64_inj:
  assumes "n \<le> 2 ^ 53" "m \<le> 2 ^ 53" "round64 n 1 = round64 m 1"
  shows "n = m"
  using round64_cases [OF assms(1)] round64_cases [OF assms(2)] assms(3) by auto

lemma float_of_int64_inj:
  assumes "\<bar>a\<bar> \<le> 2 ^ 53" "\<bar>b\<bar> \<le> 2 ^ 53"
  shows "float_of_int64 a = float_of_int64 b \<longleftrightarrow> a = b"
proof -
  have some: "\<exists>p. round64 (nat \<bar>c\<bar>) 1 = Some p \<and> (fst p = 0 \<longrightarrow> c = 0)" if "\<bar>c\<bar> \<le> 2 ^ 53" for c
  proof -
    from that have "nat \<bar>c\<bar> \<le> 2 ^ 53" by simp
    from round64_cases [OF this] show ?thesis by auto
  qed
  obtain p q where p: "round64 (nat \<bar>a\<bar>) 1 = Some p" "fst p = 0 \<longrightarrow> a = 0"
    and q: "round64 (nat \<bar>b\<bar>) 1 = Some q" "fst q = 0 \<longrightarrow> b = 0"
    using some assms by meson
  have sgn: "p = q \<and> (a < 0 \<longleftrightarrow> b < 0)" if eq: "float_of_int64 a = float_of_int64 b"
  proof -
    have "signed (a < 0) p = signed (b < 0) q"
      using eq p(1) q(1) by (simp add: float_of_int64_def)
    moreover have "\<not> fst p = 0" if "a < 0" using that p(2) by simp
    moreover have "\<not> fst q = 0" if "b < 0" using that q(2) by simp
    ultimately show ?thesis by (cases p; cases q) (auto simp: signed_def split: if_splits)
  qed
  have "a = b" if "float_of_int64 a = float_of_int64 b"
  proof -
    have "round64 (nat \<bar>a\<bar>) 1 = round64 (nat \<bar>b\<bar>) 1" using sgn [OF that] p(1) q(1) by simp
    then have "nat \<bar>a\<bar> = nat \<bar>b\<bar>" using assms by (intro round64_inj) simp_all
    with sgn [OF that] show ?thesis by linarith
  qed
  then show ?thesis by blast
qed

end
