(* ===== verification/Model_Types.thy ===== *)
theory Model_Types
  imports Float64
begin

text \<open>
  The data the layers exchange (package \<open>model\<close>): source items and their comments, source
  events, internal tasks with their routing metadata, the classification of runner failures,
  and the layering of MCP server definitions. Times are nanosecond counts, with the zero
  \<open>time.Time\<close> as 0; a value decoded from JSON or YAML is a \<open>gval\<close>; only YAML
  yields a \<open>GInt\<close>, the other numbers are floats.
\<close>

section \<open>Values\<close>

type_synonym time = int

datatype gval =
    GNil
  | GBool bool
  | GInt int
  | GNum float64
  | GStr string
  | GArr "gval list"
  | GObj "(string \<times> gval) list"

section \<open>Source items\<close>

record comment =
  cm_ID :: string
  cm_Body :: string
  cm_CreatedAt :: time

record source_item =
  si_ID :: string
  si_SourceID :: string
  si_Number :: string
  si_Title :: string
  si_Description :: string
  si_Labels :: "string list"
  si_Type :: string
  si_Priority :: string
  si_State :: string
  si_URL :: string
  si_Metadata :: "(string \<times> gval) list"
  si_CreatedAt :: time
  si_UpdatedAt :: time
  si_Comments :: "comment list"

definition empty_item :: source_item where
  "empty_item = \<lparr>si_ID = [], si_SourceID = [], si_Number = [], si_Title = [], si_Description = [],
     si_Labels = [], si_Type = [], si_Priority = [], si_State = [], si_URL = [], si_Metadata = [],
     si_CreatedAt = 0, si_UpdatedAt = 0, si_Comments = []\<rparr>"

definition trim_prefix :: "string \<Rightarrow> string \<Rightarrow> string" where
  "trim_prefix s p = (if has_prefix s p then drop (length p) s else s)"

definition LogLabel :: "source_item \<Rightarrow> string" where
  "LogLabel s =
     (if si_Number s = [] \<or> trim_prefix (si_Number s) ''#'' = si_ID s then si_ID s
      else si_ID s @ '' '' @ si_Number s)"

section \<open>Tasks and events\<close>

record task_metadata =
  tm_Labels :: "string list"
  tm_Priority :: string
  tm_Type :: string
  tm_Source :: string
  tm_State :: string

record internal_task =
  it_ID :: string
  it_ParentTaskID :: string
  it_Title :: string
  it_Description :: string
  it_Input :: "(string \<times> gval) list"
  it_DedupKey :: string
  it_State :: string
  it_BlockedReason :: string
  it_Metadata :: task_metadata
  it_OutstandingWorkflows :: int
  it_CreatedAt :: time
  it_UpdatedAt :: time

definition EventPRComment :: string where "EventPRComment = ''pr_comment''"
definition EventPRReviewApproved :: string where "EventPRReviewApproved = ''pr_review_approved''"
definition EventPRReviewChangesRequest :: string where
  "EventPRReviewChangesRequest = ''pr_review_changes_requested''"

record source_event =
  se_ID :: string
  se_SourceID :: string
  se_Kind :: string
  se_PRNumber :: int
  se_PRURL :: string
  se_PRAuthor :: string
  se_Author :: string
  se_AuthorAssociation :: string
  se_Body :: string
  se_SubmittedAt :: time
  se_RelatedItemID :: string

section \<open>Runner failures\<close>

datatype failure_kind = FailureNone | FailureRateLimited | FailureCreditExhausted | FailureAborted

fun FailureKind_String :: "failure_kind \<Rightarrow> string" where
  "FailureKind_String FailureNone = ''none''"
| "FailureKind_String FailureRateLimited = ''rate_limited''"
| "FailureKind_String FailureCreditExhausted = ''credit_exhausted''"
| "FailureKind_String FailureAborted = ''aborted''"

section \<open>MCP servers\<close>

record mcp_server =
  mcp_Name :: string
  mcp_Command :: string
  mcp_Args :: "string list"
  mcp_Env :: "(string \<times> string) list"

text \<open>
  The Go code keeps \<open>idx\<close>, a map from a name to a position of \<open>out\<close>; filling it in a loop
  leaves the last position of a repeated name.
\<close>

fun index_names :: "nat \<Rightarrow> mcp_server list \<Rightarrow> (string \<rightharpoonup> nat) \<Rightarrow> (string \<rightharpoonup> nat)" where
  "index_names i [] idx = idx"
| "index_names i (s # ss) idx = index_names (Suc i) ss (idx(mcp_Name s \<mapsto> i))"

fun overlay_mcp :: "mcp_server list \<Rightarrow> (string \<rightharpoonup> nat) \<Rightarrow> mcp_server list \<Rightarrow> mcp_server list" where
  "overlay_mcp out idx [] = out"
| "overlay_mcp out idx (ov # os) =
     (case idx (mcp_Name ov) of
        Some i \<Rightarrow> overlay_mcp (out[i := ov]) idx os
      | None \<Rightarrow> overlay_mcp (out @ [ov]) (idx(mcp_Name ov \<mapsto> length out)) os)"

definition MergeMCPServers :: "mcp_server list \<Rightarrow> mcp_server list \<Rightarrow> mcp_server list" where
  "MergeMCPServers base overrides =
     (if overrides = [] then base
      else if base = [] then overrides
      else overlay_mcp base (index_names 0 base Map.empty) overrides)"

subsection \<open>The overlay as a finite map\<close>

text \<open>
  When the names of \<open>base\<close> are distinct the index is exact, and stays exact through the loop:
  every name of \<open>out\<close> is at its indexed position.
\<close>

definition idx_exact :: "mcp_server list \<Rightarrow> (string \<rightharpoonup> nat) \<Rightarrow> bool" where
  "idx_exact out idx \<longleftrightarrow>
     (\<forall>n i. idx n = Some i \<longleftrightarrow> i < length out \<and> mcp_Name (out ! i) = n)"

definition mcp_lookup :: "mcp_server list \<Rightarrow> string \<Rightarrow> mcp_server option" where
  "mcp_lookup ss n = find (\<lambda>s. mcp_Name s = n) ss"

lemma index_names_exact:
  assumes "idx_exact pre idx" "distinct (map mcp_Name (pre @ ss))"
  shows "idx_exact (pre @ ss) (index_names (length pre) ss idx)"
  using assms
proof (induction ss arbitrary: pre idx)
  case (Cons s ss)
  have "idx_exact (pre @ [s]) (idx(mcp_Name s \<mapsto> length pre))"
    using Cons.prems unfolding idx_exact_def
    by (auto simp: nth_append less_Suc_eq image_iff) (metis nth_mem)
  from Cons.IH [OF this] Cons.prems show ?case by (simp del: fun_upd_apply)
qed simp

lemma idx_exact_distinct:
  assumes "idx_exact out idx"
  shows "distinct (map mcp_Name out)"
  using assms unfolding idx_exact_def distinct_conv_nth
  by (metis length_map nth_map option.inject)

lemma idx_exact_update:
  assumes "idx_exact out idx" "idx (mcp_Name ov) = Some i"
  shows "idx_exact (out[i := ov]) idx"
  using assms unfolding idx_exact_def by (metis length_list_update nth_list_update)

lemma idx_exact_names:
  assumes "idx_exact out idx" "idx (mcp_Name ov) = Some i"
  shows "map mcp_Name (out[i := ov]) = map mcp_Name out"
proof -
  have "i < length out" "mcp_Name (out ! i) = mcp_Name ov"
    using assms by (auto simp: idx_exact_def)
  then show ?thesis by (metis list_update_id map_update)
qed

lemma idx_exact_append:
  assumes "idx_exact out idx" "idx (mcp_Name ov) = None"
  shows "idx_exact (out @ [ov]) (idx(mcp_Name ov \<mapsto> length out))"
  using assms unfolding idx_exact_def
  by (auto simp: nth_append less_Suc_eq) (metis option.distinct(1))

lemma mcp_lookup_nth:
  assumes "distinct (map mcp_Name ss)" "i < length ss"
  shows "mcp_lookup ss (mcp_Name (ss ! i)) = Some (ss ! i)"
proof -
  have "mcp_Name (ss ! j) \<noteq> mcp_Name (ss ! i)" if "j < i" for j
    using assms that by (simp add: distinct_conv_nth)
  then show ?thesis
    using assms(2) unfolding mcp_lookup_def find_Some_iff by (intro exI [of _ i]) simp
qed

lemma mcp_lookup_simps [simp]:
  "mcp_lookup [] n = None"
  "mcp_lookup [s] n = (if mcp_Name s = n then Some s else None)"
  by (simp_all add: mcp_lookup_def)

lemma mcp_lookup_append:
  "mcp_lookup (xs @ ys) n =
     (case mcp_lookup xs n of Some s \<Rightarrow> Some s | None \<Rightarrow> mcp_lookup ys n)"
  unfolding mcp_lookup_def by (induction xs) auto

lemma mcp_lookup_update:
  assumes "idx_exact out idx" "idx (mcp_Name ov) = Some i"
  shows "mcp_lookup (out[i := ov]) n = (if n = mcp_Name ov then Some ov else mcp_lookup out n)"
proof -
  have i: "i < length out" "mcp_Name (out ! i) = mcp_Name ov"
    using assms by (auto simp: idx_exact_def)
  have nm: "map mcp_Name (out[i := ov]) = map mcp_Name out" using assms by (rule idx_exact_names)
  have d: "distinct (map mcp_Name out)" using assms(1) by (rule idx_exact_distinct)
  show ?thesis
  proof (cases "n = mcp_Name ov")
    case True
    with mcp_lookup_nth [of "out[i := ov]" i] nm d i show ?thesis by simp
  next
    case False
    have "find (\<lambda>s. mcp_Name s = n) (out[i := ov]) = find (\<lambda>s. mcp_Name s = n) out"
      using False i
    proof (induction out arbitrary: i)
      case (Cons a out)
      then show ?case by (cases i) auto
    qed simp
    with False show ?thesis by (simp add: mcp_lookup_def)
  qed
qed

text \<open>The loop: later overrides win, a name without one keeps its entry.\<close>

lemma overlay_lookup:
  assumes "idx_exact out idx"
  shows "mcp_lookup (overlay_mcp out idx os) n =
      (case mcp_lookup (rev os) n of Some s \<Rightarrow> Some s | None \<Rightarrow> mcp_lookup out n)"
  using assms
proof (induction os arbitrary: out idx)
  case (Cons ov os)
  show ?case
  proof (cases "idx (mcp_Name ov)")
    case None
    then have "mcp_lookup out (mcp_Name ov) = None"
      using Cons.prems unfolding idx_exact_def mcp_lookup_def find_None_iff in_set_conv_nth
      by (metis option.distinct(1))
    with None Cons.IH [OF idx_exact_append [OF Cons.prems None]] show ?thesis
      by (auto simp: mcp_lookup_append simp del: fun_upd_apply split: option.splits)
  next
    case (Some i)
    with Cons.IH [OF idx_exact_update [OF Cons.prems Some]]
      mcp_lookup_update [OF Cons.prems Some, of n] show ?thesis
      by (auto simp: mcp_lookup_append split: option.splits)
  qed
qed simp

lemma overlay_distinct:
  assumes "idx_exact out idx"
  shows "distinct (map mcp_Name (overlay_mcp out idx os))"
  using assms
  by (induction os arbitrary: out idx)
    (auto simp: idx_exact_distinct idx_exact_update idx_exact_append split: option.split)

lemma overlay_prefix:
  assumes "idx_exact out idx"
  shows "take (length out) (map mcp_Name (overlay_mcp out idx os)) = map mcp_Name out"
  using assms
proof (induction os arbitrary: out idx)
  case (Cons ov os)
  show ?case
  proof (cases "idx (mcp_Name ov)")
    case None
    have "take (Suc (length out)) (map mcp_Name (overlay_mcp (out @ [ov]) (idx(mcp_Name ov \<mapsto> length out)) os))
        = map mcp_Name (out @ [ov])"
      using Cons.IH [OF idx_exact_append [OF Cons.prems None]] by (simp del: fun_upd_apply)
    then have "take (length out) (take (Suc (length out))
        (map mcp_Name (overlay_mcp (out @ [ov]) (idx(mcp_Name ov \<mapsto> length out)) os))) = map mcp_Name out"
      by simp
    with None show ?thesis by (simp add: min_def)
  next
    case (Some i)
    then have "map mcp_Name (out[i := ov]) = map mcp_Name out"
      using Cons.prems idx_exact_names by blast
    with Some Cons.IH [OF idx_exact_update [OF Cons.prems Some]] show ?thesis by simp
  qed
qed (simp add: take_map)

lemma index_names_base:
  "distinct (map mcp_Name base) \<Longrightarrow> idx_exact base (index_names 0 base Map.empty)"
  using index_names_exact [of "[]" Map.empty base] by (simp add: idx_exact_def)

end
