(* ===== verification/Expr_Parse.thy ===== *)
theory Expr_Parse
  imports Expr_Lang
begin

text \<open>
  Facts on the lexer and the parser of the condition language: the token list is never empty
  and ends in the end marker, every parsing function that succeeds consumes tokens, the fuel
  \<open>ParseExpr\<close> passes is enough, and more fuel never changes a result.
\<close>

section \<open>Token lists\<close>

definition wf_toks :: "token list \<Rightarrow> bool" where
  "wf_toks ts \<longleftrightarrow> ts \<noteq> [] \<and> tok_kind (last ts) = tEOF"

lemma wf_toks_Cons [simp]: "ts \<noteq> [] \<Longrightarrow> wf_toks (t # ts) = wf_toks ts"
  by (simp add: wf_toks_def)

lemma cons_tok_Inr: "cons_tok t r = Inr ts \<longleftrightarrow> (\<exists>us. r = Inr us \<and> ts = t # us)"
  by (cases r) (auto simp: cons_tok_def)

lemma cons_tok_Inl: "cons_tok t r = Inl e \<longleftrightarrow> r = Inl e"
  by (cases r) (auto simp: cons_tok_def)

lemma cons_tok_simps [simp]:
  "cons_tok t (Inr ts) = Inr (t # ts)"
  "cons_tok t (Inl e) = Inl e"
  by (simp_all add: cons_tok_def)

lemma lex_step_not_fuel: "lex_step i c cs \<noteq> LexFail ExprOutOfFuel"
  by (simp add: lex_step_def Let_def)

lemma lex_from_not_fuel: "lex_from i s \<noteq> Inl ExprOutOfFuel"
  by (induction i s rule: lex_from.induct)
    (auto simp: cons_tok_Inl lex_step_not_fuel split: lex_action.splits)

lemma lex_from_wf: "lex_from i s = Inr ts \<Longrightarrow> wf_toks ts"
proof (induction i s arbitrary: ts rule: lex_from.induct)
  case (1 i)
  then show ?case by (auto simp: wf_toks_def)
next
  case (2 i c cs)
  have step: "wf_toks (t # us)" if "wf_toks us" for t us
    using that by (auto simp: wf_toks_def)
  show ?case
    using 2 by (auto simp: cons_tok_Inr intro!: step split: lex_action.splits)
qed

lemma next_tok_wf:
  assumes "wf_toks ts" "tok_kind (peek ts) \<noteq> tEOF"
  shows "wf_toks (next_tok ts)" "length (next_tok ts) < length ts"
  using assms by (cases ts rule: next_tok.cases; simp add: wf_toks_def peek_def)+

lemma isKeyword_not_EOF [simp]: "isKeyword kw ts \<Longrightarrow> tok_kind (peek ts) \<noteq> tEOF"
  by (simp add: isKeyword_def)

section \<open>Consumption\<close>

definition consumes :: "token list \<Rightarrow> expr_error + ('a \<times> token list) \<Rightarrow> bool" where
  "consumes ts r \<longleftrightarrow> (case r of Inl _ \<Rightarrow> True | Inr (_, us) \<Rightarrow> wf_toks us \<and> length us < length ts)"

definition keeps :: "token list \<Rightarrow> expr_error + ('a \<times> token list) \<Rightarrow> bool" where
  "keeps ts r \<longleftrightarrow> (case r of Inl _ \<Rightarrow> True | Inr (_, us) \<Rightarrow> wf_toks us \<and> length us \<le> length ts)"

lemma consumes_simps [simp]:
  "consumes ts (Inl e)"
  "consumes ts (Inr (x, us)) \<longleftrightarrow> wf_toks us \<and> length us < length ts"
  "keeps ts (Inl e)"
  "keeps ts (Inr (x, us)) \<longleftrightarrow> wf_toks us \<and> length us \<le> length ts"
  by (simp_all add: consumes_def keeps_def)

lemma consumes_bind:
  assumes "keeps ts r" "\<And>x us. wf_toks us \<Longrightarrow> length us \<le> length ts \<Longrightarrow> consumes ts (f (x, us))"
  shows "consumes ts (bind_res r f)"
  using assms by (cases r) auto

lemma keeps_bind:
  assumes "keeps ts r" "\<And>x us. wf_toks us \<Longrightarrow> length us \<le> length ts \<Longrightarrow> keeps us (f (x, us))"
  shows "keeps ts (bind_res r f)"
proof (cases r)
  case (Inr p)
  obtain x us where p: "p = (x, us)" by fastforce
  with Inr assms have "keeps us (f (x, us))" "length us \<le> length ts" by auto
  then show ?thesis using Inr p by (cases "f (x, us)") auto
qed simp

lemma consumes_bind_keeps:
  assumes "consumes ts r" "\<And>x us. wf_toks us \<Longrightarrow> length us < length ts \<Longrightarrow> keeps us (f (x, us))"
  shows "consumes ts (bind_res r f)"
proof (cases r)
  case (Inr p)
  obtain x us where p: "p = (x, us)" by fastforce
  with Inr assms have "keeps us (f (x, us))" "length us < length ts" by auto
  then show ?thesis using Inr p by (cases "f (x, us)") auto
qed simp

lemma parsePath_keeps: "wf_toks ts \<Longrightarrow> keeps ts (parsePath path ts)"
proof (induction path ts rule: parsePath.induct)
  case (1 path ts)
  show ?case
  proof (cases "tok_kind (peek ts) = tDot \<and> tok_kind (peek (next_tok ts)) = tIdent")
    case True
    then have a: "wf_toks (next_tok ts)" "length (next_tok ts) < length ts"
      using next_tok_wf [OF "1.prems"] by auto
    with True have b: "wf_toks (next_tok (next_tok ts))"
        "length (next_tok (next_tok ts)) < length (next_tok ts)"
      using next_tok_wf [OF a(1)] by auto
    let ?r = "parsePath (path @ [tok_val (peek (next_tok ts))]) (next_tok (next_tok ts))"
    have "keeps (next_tok (next_tok ts)) ?r" using "1.IH" True b(1) by simp
    then have "keeps ts ?r" using a(2) b(2) by (cases ?r) auto
    with True show ?thesis by (simp add: parsePath.simps [of path ts])
  qed (use "1.prems" in \<open>auto simp: parsePath.simps [of path ts]\<close>)
qed

lemma parseOperand_consumes: "wf_toks ts \<Longrightarrow> consumes ts (parseOperand path op ts)"
  using next_tok_wf [of ts] by (auto simp: parseOperand_def)

lemma parseOperator_consumes:
  assumes "wf_toks ts"
  shows "consumes ts (parseOperator path ts)"
proof -
  have "consumes ts (parseOperand path op (next_tok ts))" if "tok_kind (peek ts) \<noteq> tEOF" for op
    using parseOperand_consumes [OF next_tok_wf(1) [OF assms that], of path op]
      next_tok_wf(2) [OF assms that]
    by (cases "parseOperand path op (next_tok ts)") auto
  then show ?thesis by (simp add: parseOperator_def isKeyword_def)
qed

lemma parseComparison_consumes:
  assumes "wf_toks ts"
  shows "consumes ts (parseComparison ts)"
proof (cases "tok_kind (peek ts) = tIdent")
  case True
  let ?ts = "next_tok ts"
  have n: "wf_toks ?ts" "length ?ts < length ts" using next_tok_wf [OF assms] True by auto
  have k: "keeps ?ts (parsePath [tok_val (peek ts)] ?ts)" using n(1) by (rule parsePath_keeps)
  have "consumes ts (parseOperator path us)" if "wf_toks us" "length us \<le> length ?ts" for path us
  proof -
    have "consumes us (parseOperator path us)" using that(1) by (rule parseOperator_consumes)
    then show ?thesis using that(2) n(2) by (cases "parseOperator path us") auto
  qed
  then show ?thesis using True k
    by (cases "parsePath [tok_val (peek ts)] ?ts") (auto simp: parseComparison_def)
qed (simp add: parseComparison_def)

lemma parser_consumes:
  "wf_toks ts \<Longrightarrow> consumes ts (parseOr f ts)"
  "wf_toks ts \<Longrightarrow> keeps ts (parseOrLoop f l ts)"
  "wf_toks ts \<Longrightarrow> consumes ts (parseAnd f ts)"
  "wf_toks ts \<Longrightarrow> keeps ts (parseAndLoop f l ts)"
  "wf_toks ts \<Longrightarrow> consumes ts (parseNot f ts)"
  "wf_toks ts \<Longrightarrow> consumes ts (parseAtom f ts)"
proof (induction f arbitrary: ts l)
  case (Suc f)
  have weak: "keeps ts r" if "consumes us r" "length us \<le> length ts" for us r and ts :: "token list"
    using that by (cases r) auto
  have nx: "wf_toks (next_tok ts)" "length (next_tok ts) < length ts" if "wf_toks ts" "isKeyword kw ts" for kw ts
    using next_tok_wf [OF that(1)] that(2) by auto
  {
    case 1 then show ?case by (auto intro!: consumes_bind_keeps Suc.IH)
  next
    case 2
    show ?case
    proof (cases "isKeyword ''or'' ts")
      case True
      have "consumes (next_tok ts) (bind_res (parseAnd f (next_tok ts))
          (\<lambda>(right, ts). parseOrLoop f (orNode l right) ts))"
        using nx [OF 2 True] by (auto intro!: consumes_bind_keeps Suc.IH)
      with True show ?thesis by (simp add: weak)
    qed (use 2 in simp)
  next
    case 3 then show ?case by (auto intro!: consumes_bind_keeps Suc.IH)
  next
    case 4
    show ?case
    proof (cases "isKeyword ''and'' ts")
      case True
      have "consumes (next_tok ts) (bind_res (parseNot f (next_tok ts))
          (\<lambda>(right, ts). parseAndLoop f (andNode l right) ts))"
        using nx [OF 4 True] by (auto intro!: consumes_bind_keeps Suc.IH)
      with True show ?thesis by (simp add: weak)
    qed (use 4 in simp)
  next
    case 5
    show ?case
    proof (cases "isKeyword ''not'' ts")
      case True
      have "consumes (next_tok ts) (parseNot f (next_tok ts))" using nx [OF 5 True] Suc.IH by blast
      with True nx [OF 5 True] show ?thesis by (cases "parseNot f (next_tok ts)") auto
    qed (use 5 Suc.IH in simp)
  next
    case 6
    show ?case
    proof (cases "tok_kind (peek ts) = tLParen")
      case True
      then have n: "wf_toks (next_tok ts)" "length (next_tok ts) < length ts"
        using next_tok_wf [OF 6] by auto
      have "consumes (next_tok ts) (parseOr f (next_tok ts))" using n Suc.IH by blast
      moreover have "wf_toks (next_tok us) \<and> length (next_tok us) < length us"
        if "wf_toks us" "tok_kind (peek us) = tRParen" for us
        using next_tok_wf [OF that(1)] that(2) by simp
      ultimately show ?thesis using True n
        by (cases "parseOr f (next_tok ts)") (auto, fastforce)
    qed (use 6 in \<open>simp add: parseComparison_consumes\<close>)
  }
qed simp_all

section \<open>Fuel\<close>

definition fuelled :: "expr_error + 'a \<Rightarrow> bool" where
  "fuelled r \<longleftrightarrow> r \<noteq> Inl ExprOutOfFuel"

lemma fuelled_simps [simp]:
  "fuelled (Inr x)"
  "fuelled (Inl e) \<longleftrightarrow> e \<noteq> ExprOutOfFuel"
  by (simp_all add: fuelled_def)

lemma fuelled_bind:
  assumes "fuelled r" "\<And>x. r = Inr x \<Longrightarrow> fuelled (f x)"
  shows "fuelled (bind_res r f)"
  using assms by (cases r) auto

lemma fuelled_bind_wf:
  assumes "consumes ts r" "fuelled r"
    "\<And>x us. wf_toks us \<Longrightarrow> length us < length ts \<Longrightarrow> fuelled (f (x, us))"
  shows "fuelled (bind_res r f)"
  using assms by (cases r) auto

lemma parsePath_fuelled: "fuelled (parsePath path ts)"
  by (induction path ts rule: parsePath.induct) (subst parsePath.simps, simp)

lemma parseComparison_fuelled: "fuelled (parseComparison ts)"
  unfolding parseComparison_def parseOperator_def parseOperand_def
  by (auto intro!: fuelled_bind parsePath_fuelled)

text \<open>Six units of fuel per token ahead, and a constant that depends on the nesting level.\<close>

lemma parser_fuelled:
  "wf_toks ts \<Longrightarrow> 6 * length ts + 4 \<le> f \<Longrightarrow> fuelled (parseOr f ts)"
  "wf_toks ts \<Longrightarrow> 6 * length ts + 4 \<le> f \<Longrightarrow> fuelled (parseOrLoop f l ts)"
  "wf_toks ts \<Longrightarrow> 6 * length ts + 3 \<le> f \<Longrightarrow> fuelled (parseAnd f ts)"
  "wf_toks ts \<Longrightarrow> 6 * length ts + 3 \<le> f \<Longrightarrow> fuelled (parseAndLoop f l ts)"
  "wf_toks ts \<Longrightarrow> 6 * length ts + 2 \<le> f \<Longrightarrow> fuelled (parseNot f ts)"
  "wf_toks ts \<Longrightarrow> 6 * length ts + 1 \<le> f \<Longrightarrow> fuelled (parseAtom f ts)"
proof (induction f arbitrary: ts l)
  case (Suc f)
  have nx: "wf_toks (next_tok ts) \<and> length (next_tok ts) < length ts"
    if "wf_toks ts" "tok_kind (peek ts) \<noteq> tEOF" for ts
    using next_tok_wf [OF that] by simp
  {
    case 1 then show ?case by (auto intro!: fuelled_bind_wf [OF parser_consumes(3)] Suc.IH)
  next
    case 2
    then show ?case using nx [of ts]
      by (auto intro!: fuelled_bind_wf [OF parser_consumes(3)] Suc.IH)
  next
    case 3 then show ?case by (auto intro!: fuelled_bind_wf [OF parser_consumes(5)] Suc.IH)
  next
    case 4
    then show ?case using nx [of ts]
      by (auto intro!: fuelled_bind_wf [OF parser_consumes(5)] Suc.IH)
  next
    case 5
    then show ?case using nx [of ts]
      by (auto intro!: fuelled_bind_wf [OF parser_consumes(5)] Suc.IH)
  next
    case 6
    then show ?case using nx [of ts]
      by (auto intro!: fuelled_bind_wf [OF parser_consumes(1)] Suc.IH parseComparison_fuelled)
  }
qed simp_all

text \<open>More fuel never changes a result.\<close>

lemma parser_more_fuel:
  "fuelled (parseOr f ts) \<Longrightarrow> f \<le> g \<Longrightarrow> parseOr g ts = parseOr f ts"
  "fuelled (parseOrLoop f l ts) \<Longrightarrow> f \<le> g \<Longrightarrow> parseOrLoop g l ts = parseOrLoop f l ts"
  "fuelled (parseAnd f ts) \<Longrightarrow> f \<le> g \<Longrightarrow> parseAnd g ts = parseAnd f ts"
  "fuelled (parseAndLoop f l ts) \<Longrightarrow> f \<le> g \<Longrightarrow> parseAndLoop g l ts = parseAndLoop f l ts"
  "fuelled (parseNot f ts) \<Longrightarrow> f \<le> g \<Longrightarrow> parseNot g ts = parseNot f ts"
  "fuelled (parseAtom f ts) \<Longrightarrow> f \<le> g \<Longrightarrow> parseAtom g ts = parseAtom f ts"
proof (induction f arbitrary: ts l g)
  case (Suc f)
  have fb: "fuelled r" if "fuelled (bind_res r h)" for r :: "expr_error + exprNode \<times> token list"
      and h :: "exprNode \<times> token list \<Rightarrow> expr_error + exprNode \<times> token list"
    using that by (cases r) auto
  have bind: "bind_res r' h' = bind_res r h"
    if "fuelled (bind_res r h)" "fuelled r \<Longrightarrow> r' = r"
      "\<And>x us. fuelled (h (x, us)) \<Longrightarrow> h' (x, us) = h (x, us)"
    for r r' :: "expr_error + exprNode \<times> token list"
      and h h' :: "exprNode \<times> token list \<Rightarrow> expr_error + exprNode \<times> token list"
    using that by (cases r) auto
  {
    case 1 then show ?case by (cases g) (auto intro!: bind Suc.IH(2,3))
  next
    case 2 then show ?case by (cases g) (auto intro!: bind Suc.IH(2,3) split: if_splits)
  next
    case 3 then show ?case by (cases g) (auto intro!: bind Suc.IH(4,5))
  next
    case 4 then show ?case by (cases g) (auto intro!: bind Suc.IH(4,5) split: if_splits)
  next
    case 5 then show ?case by (cases g) (auto intro!: bind Suc.IH(5,6) split: if_splits)
  next
    case 6 then show ?case by (cases g) (auto intro!: bind Suc.IH(1) split: if_splits)
  }
qed simp_all

lemma parseOr_enough:
  assumes "wf_toks ts"
  shows "fuelled (parseOr (parse_fuel ts) ts)"
  using parser_fuelled(1) [OF assms] by (simp add: parse_fuel_def)

text \<open>Any fuel that yields a result yields the one \<open>ParseExpr\<close> computes.\<close>

lemma parseOr_parse_fuel:
  assumes "wf_toks ts" "parseOr f ts = Inr r"
  shows "parseOr (parse_fuel ts) ts = Inr r"
proof -
  have "fuelled (parseOr f ts)" using assms(2) by simp
  then have "parseOr (max f (parse_fuel ts)) ts = parseOr f ts"
    by (rule parser_more_fuel(1)) simp
  moreover have "parseOr (max f (parse_fuel ts)) ts = parseOr (parse_fuel ts) ts"
    using parseOr_enough [OF assms(1)] by (rule parser_more_fuel(1)) simp
  ultimately show ?thesis using assms(2) by simp
qed

lemma ParseExpr_total: "ParseExpr s \<noteq> Inl ExprOutOfFuel"
proof (cases "lex s")
  case (Inl e)
  then show ?thesis using lex_from_not_fuel [of 0 s] by (simp add: ParseExpr_def lex_def)
next
  case (Inr ts)
  then have "wf_toks ts" using lex_from_wf by (simp add: lex_def)
  from parseOr_enough [OF this] Inr show ?thesis
    by (cases "parseOr (parse_fuel ts) ts") (auto simp: ParseExpr_def split: if_splits)
qed

end
