(* ===== verification/Expr_Roundtrip.thy ===== *)
theory Expr_Roundtrip
  imports Expr_Parse
begin

text \<open>
  A canonical spelling for the syntax trees of the condition language, and the round trip:
  every tree that \<open>ParseExpr\<close> returns is well formed, and parsing the spelling of a well-formed
  tree gives the tree back.
\<close>

section \<open>Spelling\<close>

definition show_tok :: "token \<Rightarrow> string" where
  "show_tok t =
     (if tok_kind t = tString
      then (let q = (if CHR 34 \<in> set (tok_val t) then CHR 39 else CHR 34) in q # tok_val t @ [q])
      else tok_val t)"

definition show_toks :: "token list \<Rightarrow> string" where
  "show_toks ts = concat (map (\<lambda>t. show_tok t @ '' '') ts)"

definition op_tok :: "string \<Rightarrow> token" where
  "op_tok op = (if op = ''=='' then Token tEq op else if op = ''!='' then Token tNeq op else Token tIdent op)"

fun path_toks :: "string list \<Rightarrow> token list" where
  "path_toks [] = []"
| "path_toks (p # ps) = Token tDot ''.'' # Token tIdent p # path_toks ps"

primrec node_toks :: "exprNode \<Rightarrow> token list" where
  "node_toks (orNode l r) =
     Token tLParen ''('' # node_toks l @ Token tIdent ''or'' # node_toks r @ [Token tRParen '')'']"
| "node_toks (andNode l r) =
     Token tLParen ''('' # node_toks l @ Token tIdent ''and'' # node_toks r @ [Token tRParen '')'']"
| "node_toks (notNode x) =
     Token tLParen ''('' # Token tIdent ''not'' # node_toks x @ [Token tRParen '')'']"
| "node_toks (cmpNode path op operand isNumber) =
     Token tIdent (hd path) # path_toks (tl path)
       @ [op_tok op, Token (if isNumber then tNumber else tString) operand]"

definition spell :: "exprNode \<Rightarrow> string" where
  "spell e = show_toks (node_toks e)"

section \<open>Well-formed tokens and trees\<close>

definition is_ident :: "string \<Rightarrow> bool" where
  "is_ident v \<longleftrightarrow> v \<noteq> [] \<and> isIdentStart (hd v) \<and> list_all isIdentChar (tl v)"

definition is_number :: "string \<Rightarrow> bool" where
  "is_number v \<longleftrightarrow> v \<noteq> [] \<and> list_all lex_number_char (tl v) \<and>
     (is_digit (hd v) \<or> hd v = CHR ''-'' \<and> tl v \<noteq> [] \<and> is_digit (hd (tl v)))"

definition is_quotable :: "string \<Rightarrow> bool" where
  "is_quotable v \<longleftrightarrow> \<not> (CHR 34 \<in> set v \<and> CHR 39 \<in> set v)"

definition wf_tok :: "token \<Rightarrow> bool" where
  "wf_tok t \<longleftrightarrow>
     (case tok_kind t of
        tEOF \<Rightarrow> False
      | tIdent \<Rightarrow> is_ident (tok_val t)
      | tString \<Rightarrow> is_quotable (tok_val t)
      | tNumber \<Rightarrow> is_number (tok_val t)
      | tDot \<Rightarrow> tok_val t = ''.''
      | tLParen \<Rightarrow> tok_val t = ''(''
      | tRParen \<Rightarrow> tok_val t = '')''
      | tEq \<Rightarrow> tok_val t = ''==''
      | tNeq \<Rightarrow> tok_val t = ''!='')"

primrec wf_node :: "exprNode \<Rightarrow> bool" where
  "wf_node (orNode l r) \<longleftrightarrow> wf_node l \<and> wf_node r"
| "wf_node (andNode l r) \<longleftrightarrow> wf_node l \<and> wf_node r"
| "wf_node (notNode x) \<longleftrightarrow> wf_node x"
| "wf_node (cmpNode path op operand isNumber) \<longleftrightarrow>
     path \<noteq> [] \<and> hd path \<noteq> ''not'' \<and> list_all is_ident path
     \<and> op \<in> {''=='', ''!='', ''contains'', ''matches''}
     \<and> (if isNumber then is_number operand else is_quotable operand)"

section \<open>Lexing a spelling\<close>

lemma char_classes:
  "isIdentStart c \<Longrightarrow> c \<notin> {CHR '' '', CHR 0x09, CHR 0x0A, CHR 0x0D, CHR ''('', CHR '')'', CHR ''.'',
     CHR ''='', CHR ''!'', CHR ''&'', CHR ''|'', CHR 34, CHR 39, CHR ''-''} \<and> \<not> is_digit c"
  "is_digit c \<Longrightarrow> c \<notin> {CHR '' '', CHR 0x09, CHR 0x0A, CHR 0x0D, CHR ''('', CHR '')'', CHR ''.'',
     CHR ''='', CHR ''!'', CHR ''&'', CHR ''|'', CHR 34, CHR 39, CHR ''-''}"
  by (auto simp: isIdentStart_def is_digit_def)

definition stops :: "char \<Rightarrow> bool" where
  "stops d \<longleftrightarrow> \<not> isIdentChar d \<and> \<not> lex_number_char d \<and> d \<noteq> CHR ''=''"

lemma stops_space: "stops (CHR '' '')" and stops_paren: "stops (CHR '')'')"
  by (simp_all add: stops_def isIdentChar_def isIdentStart_def lex_number_char_def is_digit_def)

lemma takeWhile_stop:
  "list_all P xs \<Longrightarrow> \<not> P d \<Longrightarrow> takeWhile P (xs @ d # ys) = xs"
  by (induction xs) auto

lemma lex_step_quote:
  assumes "q = CHR 34 \<or> q = CHR 39"
  shows "lex_step i q cs =
    (let b = takeWhile (\<lambda>d. d \<noteq> q) cs in
     if length b = length cs then LexFail LexUnterminated
     else LexEmit (Token tString b) (length b + 2))"
  using assms
proof
  assume "q = CHR 34" then show ?thesis by (simp add: lex_step_def lex_space_def is_digit_def)
next
  assume "q = CHR 39" then show ?thesis by (simp add: lex_step_def lex_space_def is_digit_def)
qed

lemma lex_step_number:
  assumes "is_digit c \<or> (c = CHR ''-'' \<and> cs \<noteq> [] \<and> is_digit (hd cs))"
  shows "lex_step i c cs =
    LexEmit (Token tNumber (c # takeWhile lex_number_char cs)) (length (takeWhile lex_number_char cs) + 1)"
proof (cases "is_digit c")
  case True
  with char_classes(2) [OF True] show ?thesis by (simp add: lex_step_def lex_space_def Let_def)
next
  case False
  with assms have "c = CHR ''-''" "cs \<noteq> []" "is_digit (hd cs)" by auto
  then show ?thesis by (simp add: lex_step_def lex_space_def Let_def)
qed

lemma lex_step_ident:
  assumes "isIdentStart c"
  shows "lex_step i c cs =
    LexEmit (Token tIdent (c # takeWhile isIdentChar cs)) (length (takeWhile isIdentChar cs) + 1)"
  using assms char_classes(1) [OF assms] by (simp add: lex_step_def lex_space_def Let_def)

text \<open>The lexer splits a spelled token off the front, and counts its bytes.\<close>

lemma lex_show_tok:
  assumes "wf_tok t" "stops d"
  shows "\<exists>c cs. show_tok t = c # cs \<and>
    lex_step i c (cs @ d # s) = LexEmit t (length (show_tok t))"
proof (cases "tok_kind t")
  case tIdent
  with assms obtain c cs where v: "tok_val t = c # cs" "isIdentStart c" "list_all isIdentChar cs"
    by (cases "tok_val t") (auto simp: wf_tok_def is_ident_def)
  then have "takeWhile isIdentChar (cs @ d # s) = cs"
    using assms(2) by (intro takeWhile_stop) (auto simp: stops_def)
  then show ?thesis using tIdent v(1) lex_step_ident [OF v(2)]
    by (cases t) (simp add: show_tok_def)
next
  case tNumber
  with assms obtain c cs where v: "tok_val t = c # cs" "list_all lex_number_char cs"
      "is_digit c \<or> c = CHR ''-'' \<and> cs \<noteq> [] \<and> is_digit (hd cs)"
    by (cases "tok_val t") (auto simp: wf_tok_def is_number_def)
  then have "takeWhile lex_number_char (cs @ d # s) = cs"
    using assms(2) by (intro takeWhile_stop) (auto simp: stops_def)
  moreover have "lex_step i c (cs @ d # s) =
      LexEmit (Token tNumber (c # takeWhile lex_number_char (cs @ d # s)))
        (length (takeWhile lex_number_char (cs @ d # s)) + 1)"
    using v(3) by (intro lex_step_number) auto
  ultimately show ?thesis using tNumber v(1) by (cases t) (simp add: show_tok_def)
next
  case tString
  define q where "q = (if CHR 34 \<in> set (tok_val t) then CHR 39 else CHR 34)"
  have q: "q = CHR 34 \<or> q = CHR 39" "q \<notin> set (tok_val t)" "show_tok t = q # tok_val t @ [q]"
    using tString assms(1)
    by (simp_all add: q_def wf_tok_def is_quotable_def show_tok_def Let_def)
  have "takeWhile (\<lambda>x. x \<noteq> q) (tok_val t @ q # d # s) = tok_val t"
    using q(2) by (intro takeWhile_stop) (auto simp: list_all_iff)
  then show ?thesis using tString q(3) by (cases t) (simp add: lex_step_quote [OF q(1)])
qed (use assms in \<open>cases t; auto simp: wf_tok_def show_tok_def lex_step_def lex_space_def\<close>)+

lemma lex_step_index:
  "lex_step j c cs = lex_step i c cs \<or> (\<exists>e e'. lex_step i c cs = LexFail e \<and> lex_step j c cs = LexFail e')"
  by (simp add: lex_step_def Let_def)

lemma lex_from_index: "lex_from i s = Inr ts \<Longrightarrow> lex_from j s = Inr ts"
proof (induction i s arbitrary: j ts rule: lex_from.induct)
  case (2 i c cs)
  have eq: "lex_step j c cs = lex_step i c cs" if "\<And>e. lex_step i c cs \<noteq> LexFail e"
    using lex_step_index [of j c cs i] that by blast
  show ?case
  proof (cases "lex_step i c cs")
    case (LexSkip n)
    with "2.prems" have "lex_from (i + n) (drop n (c # cs)) = Inr ts" by simp
    from "2.IH"(1) [OF LexSkip this] LexSkip eq show ?thesis by simp
  next
    case (LexEmit t n)
    with "2.prems" obtain us where us: "lex_from (i + n) (drop n (c # cs)) = Inr us" "ts = t # us"
      by (auto simp: cons_tok_Inr)
    from "2.IH"(2) [OF LexEmit us(1)] LexEmit us(2) eq show ?thesis by simp
  qed (use "2.prems" in simp)
qed simp

lemma lex_from_show_tok:
  assumes "wf_tok t" "stops d" "lex_from j (d # s) = Inr ts"
  shows "lex_from i (show_tok t @ d # s) = Inr (t # ts)"
proof -
  obtain c cs where c: "show_tok t = c # cs"
      "lex_step i c (cs @ d # s) = LexEmit t (length (show_tok t))"
    using lex_show_tok [OF assms(1,2)] by metis
  have "drop (length (show_tok t)) (show_tok t @ d # s) = d # s" by simp
  with c lex_from_index [OF assms(3)] show ?thesis
    by (simp del: drop_append)
qed

lemma lex_show_toks:
  "list_all wf_tok ts \<Longrightarrow> lex_from i (show_toks ts) = Inr (ts @ [Token tEOF []])"
proof (induction ts arbitrary: i)
  case (Cons t ts)
  have sp: "lex_step j (CHR '' '') cs = LexSkip 1" for j cs by (simp add: lex_step_def lex_space_def)
  have "lex_from 0 (CHR '' '' # show_toks ts) = Inr (ts @ [Token tEOF []])"
    using Cons by (simp add: sp)
  from lex_from_show_tok [OF _ stops_space this] Cons.prems show ?case
    by (simp add: show_toks_def)
qed (simp add: show_toks_def)

section \<open>Parsing a spelling\<close>

lemma next_tok_Cons [simp]: "ts \<noteq> [] \<Longrightarrow> next_tok (t # ts) = ts"
  by (cases ts) simp_all

lemma peek_Cons [simp]: "peek (t # ts) = t"
  by (simp add: peek_def)

lemma isKeyword_Cons [simp]: "isKeyword kw (t # ts) \<longleftrightarrow> t = Token tIdent kw"
  by (cases t) (auto simp: isKeyword_def)

lemma parsePath_toks:
  assumes "rest \<noteq> []" "tok_kind (peek rest) \<noteq> tDot"
  shows "parsePath path (path_toks ps @ rest) = Inr (path @ ps, rest)"
  using assms
proof (induction ps arbitrary: path)
  case Nil
  then show ?case by (simp add: parsePath.simps)
next
  case (Cons p ps)
  then show ?case by (subst parsePath.simps) simp
qed

lemma op_tok_kinds:
  assumes "op \<in> {''=='', ''!='', ''contains'', ''matches''}"
  shows "tok_kind (op_tok op) \<noteq> tDot"
  using assms by (auto simp: op_tok_def)

lemma parseComparison_toks:
  assumes "wf_node (cmpNode path op operand isNumber)" "rest \<noteq> []"
  shows "parseComparison (node_toks (cmpNode path op operand isNumber) @ rest)
    = Inr (cmpNode path op operand isNumber, rest)"
proof -
  obtain p ps where p: "path = p # ps" using assms(1) by (cases path) auto
  let ?o = "Token (if isNumber then tNumber else tString) operand"
  have op: "op \<in> {''=='', ''!='', ''contains'', ''matches''}" using assms(1) by simp
  have "parsePath [p] (path_toks ps @ op_tok op # ?o # rest) = Inr ([p] @ ps, op_tok op # ?o # rest)"
    using op_tok_kinds [OF op] by (intro parsePath_toks) simp_all
  moreover have "parseOperand path op' (?o # rest) = Inr (cmpNode path op' operand isNumber, rest)" for op'
    using assms(2) by (simp add: parseOperand_def)
  ultimately show ?thesis using p op
    by (auto simp: parseComparison_def parseOperator_def op_tok_def)
qed

lemma node_toks_not_keyword: "wf_node e \<Longrightarrow> \<not> isKeyword ''not'' (node_toks e @ rest)"
  by (cases e) auto

lemma node_toks_ne [simp]: "node_toks e \<noteq> []"
  by (cases e) auto

text \<open>One grammar level to the next, when no operator of that level follows.\<close>

lemma parseNot_atom:
  "parseAtom f ts = Inr r \<Longrightarrow> \<not> isKeyword ''not'' ts \<Longrightarrow> parseNot (Suc f) ts = Inr r"
  by simp

lemma parseAnd_not:
  "parseNot (Suc f) ts = Inr (e, us) \<Longrightarrow> \<not> isKeyword ''and'' us \<Longrightarrow> parseAnd (Suc (Suc f)) ts = Inr (e, us)"
  by (simp del: parseNot.simps(2))

lemma parseOr_and:
  "parseAnd (Suc f) ts = Inr (e, us) \<Longrightarrow> \<not> isKeyword ''or'' us \<Longrightarrow> parseOr (Suc (Suc f)) ts = Inr (e, us)"
  by (simp del: parseAnd.simps(2))

lemma parseAnd_pair:
  assumes "parseNot (Suc (Suc f)) ts = Inr (l, Token tIdent ''and'' # us)" "us \<noteq> []"
    and "parseNot (Suc f) us = Inr (r, vs)" "\<not> isKeyword ''and'' vs"
  shows "parseAnd (Suc (Suc (Suc f))) ts = Inr (andNode l r, vs)"
  using assms by (simp del: parseNot.simps(2))

lemma parseOr_pair:
  assumes "parseAnd (Suc (Suc f)) ts = Inr (l, Token tIdent ''or'' # us)" "us \<noteq> []"
    and "parseAnd (Suc f) us = Inr (r, vs)" "\<not> isKeyword ''or'' vs"
  shows "parseOr (Suc (Suc (Suc f))) ts = Inr (orNode l r, vs)"
  using assms by (simp del: parseAnd.simps(2))

lemma parseAtom_paren:
  assumes "parseOr f ts = Inr (e, Token tRParen v # us)" "ts \<noteq> []" "us \<noteq> []"
  shows "parseAtom (Suc f) (Token tLParen w # ts) = Inr (e, us)"
  using assms by simp

lemma parseAnd_atom:
  assumes "parseAtom f ts = Inr (e, us)" "\<not> isKeyword ''not'' ts" "\<not> isKeyword ''and'' us"
  shows "parseAnd (Suc (Suc f)) ts = Inr (e, us)"
  using assms by (intro parseAnd_not parseNot_atom)

text \<open>Every well-formed tree has a fuel from which its spelling is read as an atom.\<close>

definition atom_at :: "nat \<Rightarrow> exprNode \<Rightarrow> bool" where
  "atom_at f e \<longleftrightarrow>
     (\<forall>g\<ge>f. \<forall>rest. rest \<noteq> [] \<longrightarrow> parseAtom g (node_toks e @ rest) = Inr (e, rest))"

lemma atom_atI:
  assumes "\<And>h rest. f \<le> h \<Longrightarrow> rest \<noteq> [] \<Longrightarrow> parseAtom (h + n) (node_toks e @ rest) = Inr (e, rest)"
  shows "atom_at (f + n) e"
  unfolding atom_at_def
proof (intro allI impI)
  fix g and rest :: "token list" assume "f + n \<le> g" "rest \<noteq> []"
  then show "parseAtom g (node_toks e @ rest) = Inr (e, rest)" using assms [of "g - n" rest] by simp
qed

lemma atom_at_and:
  assumes "atom_at f e" "f \<le> g" "wf_node e" "us \<noteq> []" "\<not> isKeyword ''and'' us"
  shows "parseAnd (Suc (Suc g)) (node_toks e @ us) = Inr (e, us)"
  using assms node_toks_not_keyword by (intro parseAnd_atom) (auto simp: atom_at_def)

lemma atom_at_not:
  assumes "atom_at f e" "f \<le> g" "wf_node e" "us \<noteq> []"
  shows "parseNot (Suc g) (node_toks e @ us) = Inr (e, us)"
  using assms node_toks_not_keyword by (intro parseNot_atom) (auto simp: atom_at_def)

lemma parseAtom_node_toks: "wf_node e \<Longrightarrow> \<exists>f. atom_at f e"
proof (induction e)
  case (orNode l r)
  then obtain a b where ab: "atom_at a l" "atom_at b r" by auto
  have "parseAtom (h + 6) (node_toks (orNode l r) @ rest) = Inr (orNode l r, rest)"
    if "max a b \<le> h" "rest \<noteq> []" for h rest
  proof -
    let ?us = "node_toks r @ Token tRParen '')'' # rest"
    have "parseAnd (Suc (Suc (h + 2))) (node_toks l @ Token tIdent ''or'' # ?us)
        = Inr (l, Token tIdent ''or'' # ?us)"
      using that orNode.prems by (intro atom_at_and [OF ab(1)]) auto
    moreover have "parseAnd (Suc (Suc (h + 1))) ?us = Inr (r, Token tRParen '')'' # rest)"
      using that orNode.prems by (intro atom_at_and [OF ab(2)]) auto
    ultimately have "parseOr (h + 5) (node_toks l @ Token tIdent ''or'' # ?us)
        = Inr (orNode l r, Token tRParen '')'' # rest)"
      using parseOr_pair [of "h + 2"] by (simp add: eval_nat_numeral)
    from parseAtom_paren [OF this] that(2) show ?thesis by (simp add: eval_nat_numeral)
  qed
  then show ?case using atom_atI by blast
next
  case (andNode l r)
  then obtain a b where ab: "atom_at a l" "atom_at b r" by auto
  have "parseAtom (h + 6) (node_toks (andNode l r) @ rest) = Inr (andNode l r, rest)"
    if "max a b \<le> h" "rest \<noteq> []" for h rest
  proof -
    let ?us = "node_toks r @ Token tRParen '')'' # rest"
    have "parseNot (Suc (h + 2)) (node_toks l @ Token tIdent ''and'' # ?us)
        = Inr (l, Token tIdent ''and'' # ?us)"
      using that andNode.prems by (intro atom_at_not [OF ab(1)]) auto
    moreover have "parseNot (Suc (h + 1)) ?us = Inr (r, Token tRParen '')'' # rest)"
      using that andNode.prems by (intro atom_at_not [OF ab(2)]) auto
    ultimately have "parseAnd (h + 4) (node_toks l @ Token tIdent ''and'' # ?us)
        = Inr (andNode l r, Token tRParen '')'' # rest)"
      using parseAnd_pair [of "h + 1"] by (simp add: eval_nat_numeral)
    then have "parseOr (h + 5) (node_toks l @ Token tIdent ''and'' # ?us)
        = Inr (andNode l r, Token tRParen '')'' # rest)"
      using parseOr_and [of "h + 3"] by (simp add: eval_nat_numeral)
    from parseAtom_paren [OF this] that(2) show ?thesis by (simp add: eval_nat_numeral)
  qed
  then show ?case using atom_atI by blast
next
  case (notNode x)
  then obtain a where a: "atom_at a x" by auto
  have "parseAtom (h + 6) (node_toks (notNode x) @ rest) = Inr (notNode x, rest)"
    if "a \<le> h" "rest \<noteq> []" for h rest
  proof -
    let ?us = "node_toks x @ Token tRParen '')'' # rest"
    have "parseNot (Suc (h + 1)) ?us = Inr (x, Token tRParen '')'' # rest)"
      using that notNode.prems by (intro atom_at_not [OF a]) auto
    then have "parseNot (Suc (Suc (h + 1))) (Token tIdent ''not'' # ?us)
        = Inr (notNode x, Token tRParen '')'' # rest)" by (subst parseNot.simps(2)) simp
    then have "parseAnd (Suc (Suc (Suc (h + 1)))) (Token tIdent ''not'' # ?us)
        = Inr (notNode x, Token tRParen '')'' # rest)" by (rule parseAnd_not) simp
    then have "parseOr (Suc (Suc (Suc (Suc (h + 1))))) (Token tIdent ''not'' # ?us)
        = Inr (notNode x, Token tRParen '')'' # rest)" by (rule parseOr_and) simp
    from parseAtom_paren [OF this] that(2) show ?thesis by (simp add: eval_nat_numeral)
  qed
  then show ?case using atom_atI by blast
next
  case (cmpNode path op operand isNumber)
  have "parseAtom (h + 1) (node_toks (cmpNode path op operand isNumber) @ rest)
      = Inr (cmpNode path op operand isNumber, rest)" if "0 \<le> h" "rest \<noteq> []" for h rest
    using parseComparison_toks [OF cmpNode that(2)] by simp
  then show ?case using atom_atI [of 0 1] by blast
qed

lemma wf_tok_simps [simp]:
  "wf_tok (Token tIdent v) = is_ident v"
  "wf_tok (Token tString v) = is_quotable v"
  "wf_tok (Token tNumber v) = is_number v"
  "wf_tok (Token tDot ''.'')"
  "wf_tok (Token tLParen ''('')"
  "wf_tok (Token tRParen '')'')"
  by (simp_all add: wf_tok_def)

lemma node_toks_wf: "wf_node e \<Longrightarrow> list_all wf_tok (node_toks e)"
proof (induction e)
  case (cmpNode path op operand isNumber)
  have "list_all wf_tok (path_toks ps)" if "list_all is_ident ps" for ps
    using that by (induction ps) auto
  moreover have "wf_tok (op_tok op)" using cmpNode
    by (auto simp: op_tok_def wf_tok_def is_ident_def isIdentStart_def isIdentChar_def)
  ultimately show ?case using cmpNode by (cases path) auto
qed (auto simp: is_ident_def isIdentStart_def isIdentChar_def)

lemma ParseExpr_spell:
  assumes "wf_node e"
  shows "ParseExpr (spell e) = Inr \<lparr>expr_root = e, expr_src = spell e\<rparr>"
proof -
  let ?ts = "node_toks e @ [Token tEOF []]"
  have lx: "lex (spell e) = Inr ?ts"
    using lex_show_toks [OF node_toks_wf [OF assms]] by (simp add: lex_def spell_def)
  obtain f where "atom_at f e" using parseAtom_node_toks [OF assms] by blast
  then have "parseAnd (Suc (Suc f)) ?ts = Inr (e, [Token tEOF []])"
    using assms by (intro atom_at_and) auto
  then have "parseOr (Suc (Suc (Suc f))) ?ts = Inr (e, [Token tEOF []])"
    by (rule parseOr_and) simp
  from parseOr_parse_fuel [OF _ this] have "parseOr (parse_fuel ?ts) ?ts = Inr (e, [Token tEOF []])"
    by (simp add: wf_toks_def)
  then show ?thesis by (simp add: ParseExpr_def lx)
qed

section \<open>Parsed trees are well formed\<close>

lemma lex_step_emits_wf: "lex_step i c cs = LexEmit t n \<Longrightarrow> wf_tok t"
proof -
  assume a: "lex_step i c cs = LexEmit t n"
  show ?thesis
  proof (cases "c = CHR 34 \<or> c = CHR 39")
    case True
    then have "t = Token tString (takeWhile (\<lambda>d. d \<noteq> c) cs)"
      using a by (auto simp: lex_step_quote [OF True] Let_def split: if_splits)
    moreover have "c \<notin> set (takeWhile (\<lambda>d. d \<noteq> c) cs)" by (auto dest: set_takeWhileD)
    ultimately show ?thesis using True by (auto simp: is_quotable_def)
  next
    case False
    consider "is_digit c \<or> (c = CHR ''-'' \<and> cs \<noteq> [] \<and> is_digit (hd cs))" | "isIdentStart c"
      | "\<not> (is_digit c \<or> (c = CHR ''-'' \<and> cs \<noteq> [] \<and> is_digit (hd cs)))" "\<not> isIdentStart c" by blast
    then show ?thesis
    proof cases
      case 1
      have "is_digit (hd (takeWhile lex_number_char cs)) \<and> takeWhile lex_number_char cs \<noteq> []"
        if "cs \<noteq> []" "is_digit (hd cs)"
        using that by (cases cs) (auto simp: lex_number_char_def)
      with 1 a show ?thesis
        by (auto simp: lex_step_number is_number_def list_all_iff dest: set_takeWhileD)
    next
      case 2
      with a show ?thesis by (auto simp: lex_step_ident is_ident_def list_all_iff dest: set_takeWhileD)
    next
      case 3
      then show ?thesis using a False
        by (simp add: lex_step_def split: if_splits) (auto simp: wf_tok_def)
    qed
  qed
qed

lemma lex_from_tokens:
  "lex_from i s = Inr ts \<Longrightarrow> \<exists>us. ts = us @ [Token tEOF []] \<and> list_all wf_tok us"
proof (induction i s arbitrary: ts rule: lex_from.induct)
  case (2 i c cs)
  show ?case
  proof (cases "lex_step i c cs")
    case (LexSkip n)
    with 2 show ?thesis by simp
  next
    case (LexEmit t n)
    with "2.prems" obtain vs where vs: "lex_from (i + n) (drop n (c # cs)) = Inr vs" "ts = t # vs"
      by (auto simp: cons_tok_Inr)
    from "2.IH"(2) [OF LexEmit vs(1)] obtain us where "vs = us @ [Token tEOF []]" "list_all wf_tok us"
      by blast
    with vs(2) lex_step_emits_wf [OF LexEmit] show ?thesis by (intro exI [of _ "t # us"]) simp
  qed (use "2.prems" in simp)
qed simp

definition toks_ok :: "token list \<Rightarrow> bool" where
  "toks_ok ts \<longleftrightarrow> (\<exists>us. ts = us @ [Token tEOF []] \<and> list_all wf_tok us)"

lemma wf_tok_not_EOF: "wf_tok t \<Longrightarrow> tok_kind t \<noteq> tEOF"
  by (auto simp: wf_tok_def)

lemma toks_ok_next: "toks_ok ts \<Longrightarrow> toks_ok (next_tok ts)"
proof -
  assume "toks_ok ts"
  then obtain us where us: "ts = us @ [Token tEOF []]" "list_all wf_tok us" by (auto simp: toks_ok_def)
  show ?thesis
  proof (cases us)
    case Nil
    with us show ?thesis by (auto simp: toks_ok_def)
  next
    case (Cons t vs)
    with us show ?thesis by (auto simp: toks_ok_def)
  qed
qed

lemma toks_ok_peek:
  assumes "toks_ok ts" "tok_kind (peek ts) = k" "k \<noteq> tEOF"
  shows "wf_tok (Token k (tok_val (peek ts)))"
proof -
  obtain us where us: "ts = us @ [Token tEOF []]" "list_all wf_tok us" using assms(1) by (auto simp: toks_ok_def)
  with assms(2,3) show ?thesis by (cases us) auto
qed

lemma toks_ok_end:
  assumes "toks_ok ts" "tok_kind (peek ts) = tEOF"
  shows "ts = [Token tEOF []]"
proof -
  obtain us where us: "ts = us @ [Token tEOF []]" "list_all wf_tok us" using assms(1) by (auto simp: toks_ok_def)
  with assms(2) show ?thesis by (cases us) (auto dest: wf_tok_not_EOF)
qed

lemma parsePath_wf:
  assumes "parsePath path ts = Inr (path', us)" "toks_ok ts" "list_all is_ident path" "path \<noteq> []"
  shows "toks_ok us \<and> list_all is_ident path' \<and> path' \<noteq> [] \<and> hd path' = hd path"
  using assms
proof (induction path ts arbitrary: path' us rule: parsePath.induct)
  case (1 path ts)
  show ?case
  proof (cases "tok_kind (peek ts) = tDot \<and> tok_kind (peek (next_tok ts)) = tIdent")
    case True
    let ?i = "tok_val (peek (next_tok ts))"
    have "parsePath (path @ [?i]) (next_tok (next_tok ts)) = Inr (path', us)"
      using "1.prems"(1) True by (simp add: parsePath.simps [of path ts])
    moreover have "is_ident ?i"
      using toks_ok_peek [of "next_tok ts" tIdent] True toks_ok_next "1.prems"(2) by simp
    ultimately have "toks_ok us \<and> list_all is_ident path' \<and> path' \<noteq> [] \<and> hd path' = hd (path @ [?i])"
      using True "1.prems" toks_ok_next by (intro "1.IH") auto
    then show ?thesis using "1.prems"(4) by simp
  next
    case False
    with "1.prems" show ?thesis by (auto simp: parsePath.simps [of path ts] split: if_splits)
  qed
qed

lemma parseOperand_wf:
  assumes "parseOperand path op ts = Inr (e, us)" "toks_ok ts"
    and "path \<noteq> []" "hd path \<noteq> ''not''" "list_all is_ident path"
    and "op \<in> {''=='', ''!='', ''contains'', ''matches''}"
  shows "toks_ok us \<and> wf_node e"
  using assms toks_ok_peek [OF assms(2), of tString] toks_ok_peek [OF assms(2), of tNumber]
  by (auto simp: parseOperand_def toks_ok_next simp del: insert_iff split: if_splits)

lemma parseComparison_wf:
  assumes "parseComparison ts = Inr (e, us)" "toks_ok ts" "\<not> isKeyword ''not'' ts"
  shows "toks_ok us \<and> wf_node e"
proof -
  have k: "tok_kind (peek ts) = tIdent" using assms(1) by (auto simp: parseComparison_def split: if_splits)
  let ?p = "[tok_val (peek ts)]"
  obtain path vs where p: "parsePath ?p (next_tok ts) = Inr (path, vs)"
    using assms(1) k by (cases "parsePath ?p (next_tok ts)") (auto simp: parseComparison_def)
  have "is_ident (tok_val (peek ts))" using toks_ok_peek [OF assms(2) k] by simp
  with parsePath_wf [OF p] assms(2) toks_ok_next
  have w: "toks_ok vs" "list_all is_ident path" "path \<noteq> []" "hd path = tok_val (peek ts)" by auto
  have "hd path \<noteq> ''not''" using assms(3) k w(4) by (simp add: isKeyword_def)
  moreover obtain op where "parseOperand path op (next_tok vs) = Inr (e, us)"
      "op \<in> {''=='', ''!='', ''contains'', ''matches''}"
    using assms(1) k p by (auto simp: parseComparison_def parseOperator_def split: if_splits)
  ultimately show ?thesis using w toks_ok_next parseOperand_wf by blast
qed

lemma parser_wf:
  "parseOr f ts = Inr (e, us) \<Longrightarrow> toks_ok ts \<Longrightarrow> toks_ok us \<and> wf_node e"
  "parseOrLoop f l ts = Inr (e, us) \<Longrightarrow> toks_ok ts \<Longrightarrow> wf_node l \<Longrightarrow> toks_ok us \<and> wf_node e"
  "parseAnd f ts = Inr (e, us) \<Longrightarrow> toks_ok ts \<Longrightarrow> toks_ok us \<and> wf_node e"
  "parseAndLoop f l ts = Inr (e, us) \<Longrightarrow> toks_ok ts \<Longrightarrow> wf_node l \<Longrightarrow> toks_ok us \<and> wf_node e"
  "parseNot f ts = Inr (e, us) \<Longrightarrow> toks_ok ts \<Longrightarrow> toks_ok us \<and> wf_node e"
  "parseAtom f ts = Inr (e, us) \<Longrightarrow> toks_ok ts \<Longrightarrow> \<not> isKeyword ''not'' ts \<Longrightarrow> toks_ok us \<and> wf_node e"
proof (induction f arbitrary: ts l e us)
  case (Suc f)
  {
    case 1
    then obtain l vs where "parseAnd f ts = Inr (l, vs)" "parseOrLoop f l vs = Inr (e, us)"
      by (auto simp: bind_res_Inr_iff)
    with Suc.IH(2,3) 1(2) show ?case by metis
  next
    case (2 ts l e us)
    show ?case
    proof (cases "isKeyword ''or'' ts")
      case True
      with 2(1) obtain r vs where "parseAnd f (next_tok ts) = Inr (r, vs)"
          "parseOrLoop f (orNode l r) vs = Inr (e, us)"
        by (auto simp: bind_res_Inr_iff)
      with Suc.IH(2,3) 2(2,3) toks_ok_next wf_node.simps(1) show ?thesis by metis
    qed (use 2 in simp)
  next
    case 3
    then obtain l vs where "parseNot f ts = Inr (l, vs)" "parseAndLoop f l vs = Inr (e, us)"
      by (auto simp: bind_res_Inr_iff)
    with Suc.IH(4,5) 3(2) show ?case by metis
  next
    case (4 ts l e us)
    show ?case
    proof (cases "isKeyword ''and'' ts")
      case True
      with 4(1) obtain r vs where "parseNot f (next_tok ts) = Inr (r, vs)"
          "parseAndLoop f (andNode l r) vs = Inr (e, us)"
        by (auto simp: bind_res_Inr_iff)
      with Suc.IH(4,5) 4(2,3) toks_ok_next wf_node.simps(2) show ?thesis by metis
    qed (use 4 in simp)
  next
    case 5
    show ?case
    proof (cases "isKeyword ''not'' ts")
      case True
      with 5(1) obtain x where "parseNot f (next_tok ts) = Inr (x, us)" "e = notNode x"
        by (auto simp: bind_res_Inr_iff)
      with Suc.IH(5) 5(2) toks_ok_next show ?thesis by fastforce
    qed (use 5 Suc.IH(6) in simp)
  next
    case 6
    show ?case
    proof (cases "tok_kind (peek ts) = tLParen")
      case True
      with 6(1) obtain vs where "parseOr f (next_tok ts) = Inr (e, vs)" "us = next_tok vs"
        by (auto simp: bind_res_Inr_iff split: if_splits)
      with Suc.IH(1) 6(2) toks_ok_next show ?thesis by blast
    qed (use 6 parseComparison_wf in simp)
  }
qed simp_all

lemma ParseExpr_Inr:
  assumes "ParseExpr s = Inr e"
  obtains ts where "lex s = Inr (ts @ [Token tEOF []])"
    "parseOr (parse_fuel (ts @ [Token tEOF []])) (ts @ [Token tEOF []]) = Inr (expr_root e, [Token tEOF []])"
    "wf_node (expr_root e)" "expr_src e = s"
proof -
  obtain ts where ts: "lex s = Inr ts" using assms by (cases "lex s") (auto simp: ParseExpr_def)
  obtain n us where n: "parseOr (parse_fuel ts) ts = Inr (n, us)" "e = \<lparr>expr_root = n, expr_src = s\<rparr>"
      "tok_kind (peek us) = tEOF"
    using assms ts by (auto simp: ParseExpr_def bind_res_Inr_iff split: if_splits)
  have ok: "toks_ok ts" using lex_from_tokens ts by (fastforce simp: lex_def toks_ok_def)
  with parser_wf(1) n(1) have w: "toks_ok us" "wf_node n" by auto
  from toks_ok_end [OF w(1) n(3)] ok w n ts that show ?thesis by (auto simp: toks_ok_def)
qed

end
