(* ===== verification/Expr_Eval.thy ===== *)
theory Expr_Eval
  imports Expr_Roundtrip
begin

text \<open>
  Evaluation facts of the condition language: an expression reads nothing of the workflow
  memory but the keys \<open>MemoryRefs\<close> lists, boolean operators short-circuit on the left operand,
  and the comparison of an exit code with an integer literal is exact up to two to the 53rd.
\<close>

section \<open>Memory references\<close>

lemma collectMemoryRefs_seen: "collectMemoryRefs e seen = collectMemoryRefs e {} \<union> seen"
proof (induction e arbitrary: seen)
  case (orNode l r)
  have "collectMemoryRefs r (collectMemoryRefs l seen) = collectMemoryRefs r {} \<union> (collectMemoryRefs l {} \<union> seen)"
    using orNode(1) [of seen] orNode(2) [of "collectMemoryRefs l seen"] by simp
  moreover have "collectMemoryRefs r (collectMemoryRefs l {}) = collectMemoryRefs r {} \<union> collectMemoryRefs l {}"
    by (rule orNode(2))
  ultimately show ?case by auto
next
  case (andNode l r)
  have "collectMemoryRefs r (collectMemoryRefs l seen) = collectMemoryRefs r {} \<union> (collectMemoryRefs l {} \<union> seen)"
    using andNode(1) [of seen] andNode(2) [of "collectMemoryRefs l seen"] by simp
  moreover have "collectMemoryRefs r (collectMemoryRefs l {}) = collectMemoryRefs r {} \<union> collectMemoryRefs l {}"
    by (rule andNode(2))
  ultimately show ?case by auto
next
  case (notNode x)
  show ?case using notNode [of seen] by simp
next
  case (cmpNode path op operand isNumber)
  show ?case by (auto split: list.splits)
qed

lemma finite_collectMemoryRefs: "finite seen \<Longrightarrow> finite (collectMemoryRefs e seen)"
  by (induction e arbitrary: seen) (auto split: list.splits)

lemma set_MemoryRefs: "set (MemoryRefs e) = collectMemoryRefs (expr_root e) {}"
  by (simp add: MemoryRefs_def finite_collectMemoryRefs)

lemma sorted_MemoryRefs: "sorted (MemoryRefs e)" "distinct (MemoryRefs e)"
  by (simp_all add: MemoryRefs_def)

lemma collectMemoryRefs_binary:
  "collectMemoryRefs r (collectMemoryRefs l {}) = collectMemoryRefs r {} \<union> collectMemoryRefs l {}"
  by (rule collectMemoryRefs_seen)

lemma resolveAccessor_memory:
  assumes "\<And>f. path = [''memory'', f] \<Longrightarrow> m f = ec_Memory ctx f"
  shows "resolveAccessor path (ctx\<lparr>ec_Memory := m\<rparr>) = resolveAccessor path ctx"
proof (cases "\<exists>f. path = [''memory'', f]")
  case True
  with assms show ?thesis by (auto simp: resolveAccessor_def lookup_value_def)
next
  case False
  then show ?thesis by (auto simp: resolveAccessor_def split: list.splits)
qed

lemma eval_node_memory:
  assumes "\<forall>k\<in>collectMemoryRefs e {}. m k = ec_Memory ctx k"
  shows "eval_node re (ctx\<lparr>ec_Memory := m\<rparr>) e = eval_node re ctx e"
  using assms
proof (induction e)
  case (orNode l r)
  then show ?case by (simp add: collectMemoryRefs_binary cong: if_cong)
next
  case (andNode l r)
  then show ?case by (simp add: collectMemoryRefs_binary cong: if_cong)
next
  case (notNode x)
  then show ?case by simp
next
  case (cmpNode path op operand isNumber)
  then have "resolveAccessor path (ctx\<lparr>ec_Memory := m\<rparr>) = resolveAccessor path ctx"
    by (intro resolveAccessor_memory) auto
  then show ?case by (simp add: eval_cmp_def)
qed

section \<open>The wrapper\<close>

lemma strip_wrapped:
  "stripExprDelimiters (''${{'' @ s @ ''}}'') = trim_space s"
proof -
  let ?w = "''${{'' @ s @ ''}}''"
  have "trim_space ?w = ?w" by (rule trim_space_id) (simp add: is_space_def)
  moreover have "has_prefix ?w ''${{''" by (simp add: has_prefix_def)
  moreover have "has_suffix ?w ''}}''" by (auto simp: has_suffix_iff intro!: exI [of _ "''${{'' @ s"])
  ultimately show ?thesis by (simp add: stripExprDelimiters_def Let_def)
qed

lemma strip_plain:
  assumes "\<not> has_prefix (trim_space s) ''${{''"
  shows "stripExprDelimiters s = trim_space s"
  using assms by (simp add: stripExprDelimiters_def Let_def)

text \<open>The slice \<open>s[3 : len(s)-2]\<close> is in range whenever it is taken: prefix and suffix cannot overlap.\<close>

lemma strip_slice_in_range:
  assumes "has_prefix s ''${{''" "has_suffix s ''}}''"
  shows "5 \<le> length s"
proof -
  obtain t where t: "s = ''${{'' @ t" using assms(1) by (auto simp: has_prefix_iff)
  obtain u where u: "s = u @ ''}}''" using assms(2) by (auto simp: has_suffix_iff)
  from t u have "''${{'' @ t = u @ ''}}''" by simp
  then have "2 \<le> length t"
    by (cases t; cases "tl t"; cases u; cases "tl u"; cases "tl (tl u)") auto
  with t show ?thesis by simp
qed

section \<open>Integer literals\<close>

lemma digit_char_digit: "d < 10 \<Longrightarrow> is_digit (digit_char d) \<and> digit_val (digit_char d) = d"
  by (simp add: is_digit_def digit_char_def digit_val_def)

lemma digits_val_append: "digits_val acc (xs @ ys) = digits_val (digits_val acc xs) ys"
  by (induction xs arbitrary: acc) auto

lemma nat_digits_digit: "list_all is_digit (nat_digits n)"
proof (induction n rule: nat_digits.induct)
  case (1 n)
  show ?case
    by (subst nat_digits.simps) (use 1 digit_char_digit in auto)
qed

lemma nat_digits_ne: "nat_digits n \<noteq> []"
  by (subst nat_digits.simps) simp

lemma digits_val_nat_digits: "digits_val 0 (nat_digits n) = n"
proof (induction n rule: nat_digits.induct)
  case (1 n)
  show ?case
    by (subst nat_digits.simps) (use 1 digit_char_digit in \<open>auto simp: digits_val_append\<close>)
qed

lemma ParseFloat_itoa:
  assumes "\<bar>n\<bar> \<le> 2 ^ 53"
  shows "ParseFloat (itoa n) = Some (float_of_int64 n)"
proof -
  let ?d = "nat_digits (nat \<bar>n\<bar>)"
  have dig: "takeWhile is_digit ?d = ?d"
    using nat_digits_digit [of "nat \<bar>n\<bar>"] by (simp add: list_all_iff)
  have "hd ?d \<noteq> CHR ''-''"
    using nat_digits_digit [of "nat \<bar>n\<bar>"] nat_digits_ne [of "nat \<bar>n\<bar>"] char_classes(2) [of "hd ?d"]
    by (cases ?d) auto
  then have np: "\<not> has_prefix ?d ''-''" using nat_digits_ne [of "nat \<bar>n\<bar>"]
    by (cases ?d) (auto simp: has_prefix_def)
  obtain p where p: "round64 (nat \<bar>n\<bar>) 1 = Some p"
  proof -
    have "nat \<bar>n\<bar> \<le> 2 ^ 53" using assms by simp
    from round64_cases [OF this] that show ?thesis by auto
  qed
  show ?thesis
  proof (cases "n < 0")
    case True
    then have i: "itoa n = CHR ''-'' # ?d" by (simp add: itoa_def)
    have "has_prefix (itoa n) ''-''" using i by (simp add: has_prefix_def)
    with True p dig show ?thesis
      by (simp add: ParseFloat_def i float_of_int64_def digits_val_nat_digits nat_digits_ne Let_def
        del: takeWhile_eq_all_conv)
  next
    case False
    then have i: "itoa n = ?d" by (simp add: itoa_def)
    with False np p dig show ?thesis
      by (simp add: ParseFloat_def i float_of_int64_def digits_val_nat_digits nat_digits_ne Let_def
        del: takeWhile_eq_all_conv)
  qed
qed

lemma exit_code_cmp:
  assumes "ec_Steps ctx sid = Some st" "\<bar>ss_ExitCode st\<bar> \<le> 2 ^ 53" "\<bar>n\<bar> \<le> 2 ^ 53"
  shows "eval_cmp re ctx [''steps'', sid, ''exit_code''] ''=='' (itoa n) True = Inr (ss_ExitCode st = n)"
  using assms
  by (simp add: eval_cmp_def resolveAccessor_def rv_number_def equals_cmp_def ParseFloat_itoa
      float_of_int64_inj)

end
