(* ===== verification/Expr_Embed.thy ===== *)
theory Expr_Embed
  imports Expr_Roundtrip
begin

text \<open>
  Parsing a complete expression that stands between parentheses: the lexer and the parser read
  it exactly as they read it alone, and stop at the closing parenthesis. This is what makes the
  conjunction that the lowering pass writes, \<open>(a) and (b)\<close>, mean the conjunction of its parts.
\<close>

section \<open>Lexing\<close>

lemma takeWhile_append_stop: "\<not> P d \<Longrightarrow> takeWhile P (cs @ d # s) = takeWhile P cs"
  by (induction cs) auto

lemma takeWhile_append_inner:
  "length (takeWhile P cs) \<noteq> length cs \<Longrightarrow> takeWhile P (cs @ s) = takeWhile P cs"
  by (induction cs) auto

lemma lex_step_append_quote:
  assumes q: "c = CHR 34 \<or> c = CHR 39" and a: "\<And>e. lex_step i c cs \<noteq> LexFail e"
  shows "lex_step i c (cs @ s) = lex_step i c cs"
proof -
  have "length (takeWhile (\<lambda>d. d \<noteq> c) cs) \<noteq> length cs"
    using a [of LexUnterminated] by (auto simp: lex_step_quote [OF q] Let_def)
  moreover from this have "length (takeWhile (\<lambda>d. d \<noteq> c) cs) < length cs"
    by (simp add: length_takeWhile_le order_le_neq_trans)
  ultimately show ?thesis by (simp add: lex_step_quote [OF q] takeWhile_append_inner)
qed

lemma lex_step_append:
  assumes "stops d" "\<And>e. lex_step i c cs \<noteq> LexFail e"
  shows "lex_step i c (cs @ d # s) = lex_step i c cs"
proof -
  have st: "\<not> isIdentChar d" "\<not> lex_number_char d" "d \<noteq> CHR ''=''" using assms(1) by (auto simp: stops_def)
  consider "c = CHR 34 \<or> c = CHR 39" | "is_digit c \<or> (c = CHR ''-'' \<and> cs \<noteq> [] \<and> is_digit (hd cs))"
    | "isIdentStart c"
    | "\<not> (c = CHR 34 \<or> c = CHR 39)" "\<not> (is_digit c \<or> (c = CHR ''-'' \<and> cs \<noteq> [] \<and> is_digit (hd cs)))"
      "\<not> isIdentStart c" by blast
  then show ?thesis
  proof cases
    case 1
    then show ?thesis using lex_step_append_quote assms(2) by blast
  next
    case 2
    then have "is_digit c \<or> (c = CHR ''-'' \<and> cs @ d # s \<noteq> [] \<and> is_digit (hd (cs @ d # s)))" by auto
    with 2 show ?thesis by (simp add: lex_step_number takeWhile_append_stop st)
  next
    case 3
    then show ?thesis by (simp add: lex_step_ident takeWhile_append_stop st)
  next
    case 4
    have "c \<noteq> CHR ''-''" using 4 assms(2) [of "LexMinus i"] by (auto simp: lex_step_def lex_space_def)
    with 4 assms(2) show ?thesis using st
      by (cases cs) (auto simp: lex_step_def)
  qed
qed

lemma lex_step_within:
  "lex_step i c cs = LexSkip n \<Longrightarrow> n \<le> Suc (length cs)"
  "lex_step i c cs = LexEmit t n \<Longrightarrow> n \<le> Suc (length cs)"
proof -
  have le: "length (takeWhile P cs) \<le> length cs" for P :: "char \<Rightarrow> bool" by (rule length_takeWhile_le)
  have two: "2 \<le> Suc (length cs)" if "cs \<noteq> []" using that by (cases cs) auto
  show "n \<le> Suc (length cs)" if "lex_step i c cs = LexSkip n"
    using that by (auto simp: lex_step_def Let_def split: if_splits)
  show "n \<le> Suc (length cs)" if a: "lex_step i c cs = LexEmit t n"
  proof -
    consider "c = CHR 34 \<or> c = CHR 39" | "is_digit c \<or> (c = CHR ''-'' \<and> cs \<noteq> [] \<and> is_digit (hd cs))"
      | "isIdentStart c"
      | "\<not> (c = CHR 34 \<or> c = CHR 39)" "\<not> (is_digit c \<or> (c = CHR ''-'' \<and> cs \<noteq> [] \<and> is_digit (hd cs)))"
        "\<not> isIdentStart c" by blast
    then show ?thesis
    proof cases
      case 1
      have "n = length (takeWhile (\<lambda>d. d \<noteq> c) cs) + 2" "length (takeWhile (\<lambda>d. d \<noteq> c) cs) \<noteq> length cs"
        using a by (simp_all add: lex_step_quote [OF 1] Let_def split: if_splits)
      with le [of "\<lambda>d. d \<noteq> c"] show ?thesis by simp
    next
      case 2
      with a le [of lex_number_char] show ?thesis by (simp add: lex_step_number)
    next
      case 3
      with a le [of isIdentChar] show ?thesis by (simp add: lex_step_ident)
    next
      case 4
      with a two show ?thesis by (simp add: lex_step_def split: if_splits)
    qed
  qed
qed

lemma lex_from_append:
  assumes "lex_from i a = Inr (ts @ [Token tEOF []])" "stops d" "lex_from k (d # s) = Inr us"
  shows "lex_from i (a @ d # s) = Inr (ts @ us)"
  using assms(1)
proof (induction i a arbitrary: ts rule: lex_from.induct)
  case (1 i)
  then show ?case using lex_from_index [OF assms(3)] by simp
next
  case (2 i c cs)
  have eq: "lex_step i c (cs @ d # s) = lex_step i c cs" if "\<And>e. lex_step i c cs \<noteq> LexFail e"
    using that assms(2) by (intro lex_step_append)
  have dr: "drop n (c # cs @ d # s) = drop n (c # cs) @ d # s" if "n \<le> Suc (length cs)" for n
    using that drop_append [of n "c # cs" "d # s"] by simp
  show ?case
  proof (cases "lex_step i c cs")
    case (LexSkip n)
    have "lex_from (i + n) (drop n (c # cs)) = Inr (ts @ [Token tEOF []])"
      using "2.prems" LexSkip by simp
    from "2.IH"(1) [OF LexSkip this] have "lex_from (i + n) (drop n (c # cs) @ d # s) = Inr (ts @ us)" .
    then show ?thesis using LexSkip eq dr [OF lex_step_within(1) [OF LexSkip]] by simp
  next
    case (LexEmit t n)
    with "2.prems" obtain vs where vs: "lex_from (i + n) (drop n (c # cs)) = Inr vs" "ts @ [Token tEOF []] = t # vs"
      by (auto simp: cons_tok_Inr)
    have "wf_tok t" using lex_step_emits_wf [OF LexEmit] .
    with vs(2) obtain ts' where t: "ts = t # ts'" "vs = ts' @ [Token tEOF []]"
      by (cases ts) (auto simp: wf_tok_def)
    have "lex_from (i + n) (drop n (c # cs) @ d # s) = Inr (ts' @ us)"
      using vs(1) unfolding t(2) by (rule "2.IH"(2) [OF LexEmit])
    then show ?thesis using LexEmit eq t(1) dr [OF lex_step_within(2) [OF LexEmit]] by simp
  qed (use "2.prems" in simp)
qed

section \<open>Parsing\<close>

text \<open>
  \<open>E\<close> is the end marker and \<open>P\<close> a closing parenthesis followed by anything: no parsing function
  can tell them apart while it succeeds.
\<close>

definition embeds :: "token list \<Rightarrow> token list \<Rightarrow> expr_error + ('a \<times> token list) \<Rightarrow> expr_error + ('a \<times> token list) \<Rightarrow> bool" where
  "embeds E P r r' \<longleftrightarrow>
     (\<forall>x us'. r = Inr (x, us') \<longrightarrow> (\<exists>us. us' = us @ E \<and> r' = Inr (x, us @ P)))"

lemma embedsI [intro]:
  "(\<And>x us'. r = Inr (x, us') \<Longrightarrow> \<exists>us. us' = us @ E \<and> r' = Inr (x, us @ P)) \<Longrightarrow> embeds E P r r'"
  by (auto simp: embeds_def)

lemma embeds_simps [simp]:
  "embeds E P (Inl e) r'"
  "embeds E P (Inr (x, us @ E)) (Inr (x, us @ P))"
  by (auto simp: embeds_def)

lemma embeds_bind:
  assumes "embeds E P r r'" "\<And>x us. embeds E P (f (x, us @ E)) (f' (x, us @ P))"
  shows "embeds E P (bind_res r f) (bind_res r' f')"
  using assms by (fastforce simp: embeds_def bind_res_Inr_iff)

locale closing =
  fixes E P :: "token list" and e p :: token
  assumes E: "E = [e]" "tok_kind e = tEOF"
    and P: "hd P = p" "P \<noteq> []" "tok_kind p = tRParen"
begin

lemma peek_same: "ts \<noteq> [] \<Longrightarrow> peek (ts @ P) = peek (ts @ E)"
  by (cases ts) auto

lemma peek_end: "peek ([] @ E) = e" "peek ([] @ P) = p"
  using E P by (auto simp: peek_def)

lemma peek_kind:
  assumes "k \<noteq> tEOF" "k \<noteq> tRParen"
  shows "tok_kind (peek (ts @ P)) = k \<longleftrightarrow> tok_kind (peek (ts @ E)) = k"
  using assms peek_same peek_end E P by (cases "ts = []") auto

lemma keyword_same: "isKeyword kw (ts @ P) \<longleftrightarrow> isKeyword kw (ts @ E)"
  using peek_same peek_end E P by (cases "ts = []") (auto simp: isKeyword_def)

lemma peek_ne: "tok_kind (peek (ts @ E)) \<noteq> tEOF \<Longrightarrow> ts \<noteq> []"
  using peek_end E by auto

lemma next_same:
  assumes "ts \<noteq> []"
  shows "next_tok (ts @ E) = tl ts @ E" "next_tok (ts @ P) = tl ts @ P"
  using assms E P by (cases ts; auto)+

lemma parsePath_embeds: "embeds E P (parsePath path (ts @ E)) (parsePath path (ts @ P))"
proof (induction "length ts" arbitrary: path ts rule: less_induct)
  case less
  show ?case
  proof (cases "tok_kind (peek (ts @ E)) = tDot")
    case True
    then have ne: "ts \<noteq> []" using peek_ne by simp
    show ?thesis
    proof (cases "tok_kind (peek (tl ts @ E)) = tIdent")
      case id: True
      then have ne': "tl ts \<noteq> []" using peek_ne by simp
      have "embeds E P (parsePath (path @ [tok_val (peek (tl ts @ E))]) (tl (tl ts) @ E))
          (parsePath (path @ [tok_val (peek (tl ts @ E))]) (tl (tl ts) @ P))"
        using ne by (intro less) (simp add: less_le_trans)
      with True id ne ne' show ?thesis
        by (simp add: parsePath.simps [of path "ts @ E"] parsePath.simps [of path "ts @ P"]
            peek_same next_same)
    next
      case False
      with True ne show ?thesis by (simp add: parsePath.simps [of path "ts @ E"] next_same)
    qed
  next
    case False
    then have "tok_kind (peek (ts @ P)) \<noteq> tDot" using peek_kind [of tDot ts] by simp
    with False show ?thesis
      by (simp add: parsePath.simps [of path "ts @ E"] parsePath.simps [of path "ts @ P"])
  qed
qed

lemma parseOperand_embeds: "embeds E P (parseOperand path op (ts @ E)) (parseOperand path op (ts @ P))"
proof (cases "tok_kind (peek (ts @ E)) \<in> {tString, tNumber}")
  case True
  then have "ts \<noteq> []" by (intro peek_ne) auto
  with True show ?thesis by (auto simp: parseOperand_def peek_same next_same)
qed (simp add: parseOperand_def)

lemma parseOperator_embeds: "embeds E P (parseOperator path (ts @ E)) (parseOperator path (ts @ P))"
proof (cases "ts = []")
  case True
  then show ?thesis using peek_end E by (simp add: parseOperator_def isKeyword_def)
next
  case False
  then show ?thesis
    by (simp add: parseOperator_def peek_same keyword_same next_same parseOperand_embeds)
qed

lemma parseComparison_embeds: "embeds E P (parseComparison (ts @ E)) (parseComparison (ts @ P))"
proof (cases "tok_kind (peek (ts @ E)) = tIdent")
  case True
  then have ne: "ts \<noteq> []" by (intro peek_ne) auto
  show ?thesis using True ne
    by (auto simp: parseComparison_def peek_same next_same
        intro!: embeds_bind parsePath_embeds parseOperator_embeds)
qed (simp add: parseComparison_def)

lemma parser_embeds:
  "embeds E P (parseOr f (ts @ E)) (parseOr f (ts @ P))"
  "embeds E P (parseOrLoop f l (ts @ E)) (parseOrLoop f l (ts @ P))"
  "embeds E P (parseAnd f (ts @ E)) (parseAnd f (ts @ P))"
  "embeds E P (parseAndLoop f l (ts @ E)) (parseAndLoop f l (ts @ P))"
  "embeds E P (parseNot f (ts @ E)) (parseNot f (ts @ P))"
  "embeds E P (parseAtom f (ts @ E)) (parseAtom f (ts @ P))"
proof (induction f arbitrary: ts l)
  case (Suc f)
  have kw: "next_tok (ts @ E) = tl ts @ E \<and> next_tok (ts @ P) = tl ts @ P"
    if "tok_kind (peek (ts @ E)) \<noteq> tEOF" for ts
    using next_same [OF peek_ne [OF that]] by simp
  {
    case 1 show ?case by (auto intro!: embeds_bind Suc.IH)
  next
    case 2 show ?case using kw [of ts] by (auto simp: keyword_same intro!: embeds_bind Suc.IH)
  next
    case 3 show ?case by (auto intro!: embeds_bind Suc.IH)
  next
    case 4 show ?case using kw [of ts] by (auto simp: keyword_same intro!: embeds_bind Suc.IH)
  next
    case 5 show ?case using kw [of ts] by (auto simp: keyword_same intro!: embeds_bind Suc.IH)
  next
    case 6
    have rp: "embeds E P (if tok_kind (peek (us @ E)) \<noteq> tRParen then Inl ParseParen else Inr (x, next_tok (us @ E)))
        (if tok_kind (peek (us @ P)) \<noteq> tRParen then Inl ParseParen else Inr (x, next_tok (us @ P)))" for x :: exprNode and us
      using kw [of us] peek_same [of us] peek_ne [of us] by auto
    show ?case using kw [of ts] peek_kind [of tLParen ts]
      by (auto intro!: embeds_bind Suc.IH parseComparison_embeds rp)
  }
qed simp_all

end

interpretation paren: closing "[Token tEOF []]" "Token tRParen '')'' # rest"
    "Token tEOF []" "Token tRParen '')''" for rest
  by unfold_locales simp_all

section \<open>Conjunction of two complete expressions\<close>

definition conj_src :: "string \<Rightarrow> string \<Rightarrow> string" where
  "conj_src a b = ''('' @ a @ '') and ('' @ b @ '')''"

lemma lex_paren:
  assumes "lex_from k b = Inr (tb @ [Token tEOF []])" "lex_from l ('')'' @ s) = Inr us"
  shows "lex_from j (''('' @ b @ '')'' @ s) = Inr (Token tLParen ''('' # tb @ us)"
proof -
  have "lex_from (j + 1) (b @ CHR '')'' # s) = Inr (tb @ us)"
    using lex_from_append [OF lex_from_index [OF assms(1)] stops_paren, of l] assms(2) by simp
  then show ?thesis by (simp add: lex_step_def lex_space_def)
qed

lemma lex_conj_src:
  assumes "lex a = Inr (ta @ [Token tEOF []])" "lex b = Inr (tb @ [Token tEOF []])"
  shows "lex (conj_src a b) = Inr (Token tLParen ''('' # ta @ Token tRParen '')'' # Token tIdent ''and''
    # Token tLParen ''('' # tb @ [Token tRParen '')'', Token tEOF []])"
proof -
  have cl: "lex_from j ('')'' @ s) = Inr (Token tRParen '')'' # us)" if "lex_from (j + 1) s = Inr us" for j s us
    using that by (simp add: lex_step_def lex_space_def)
  have sp: "lex_from j ('' '' @ s) = Inr us" if "lex_from (j + 1) s = Inr us" for j s us
    using that by (simp add: lex_step_def lex_space_def)
  have andw: "show_tok (Token tIdent ''and'') = ''and''" "wf_tok (Token tIdent ''and'')"
    by (simp_all add: show_tok_def is_ident_def isIdentStart_def isIdentChar_def)
  let ?B = "Token tLParen ''('' # tb @ [Token tRParen '')'', Token tEOF []]"
  have nil: "lex_from j [] = Inr [Token tEOF []]" for j by simp
  have B: "lex_from j (''('' @ b @ '')'' @ []) = Inr ?B" for j
    using lex_paren [OF assms(2) [unfolded lex_def] cl [OF nil]] by simp
  have "lex_from j ('' '' @ ''('' @ b @ '')'' @ []) = Inr ?B" for j by (rule sp, rule B)
  then have "lex_from j (CHR '' '' # ''('' @ b @ '')'') = Inr ?B" for j by (simp del: lex_from.simps)
  from lex_from_show_tok [OF andw(2) stops_space this]
  have "lex_from j (''and'' @ CHR '' '' # ''('' @ b @ '')'') = Inr (Token tIdent ''and'' # ?B)" for j
    unfolding andw(1) .
  from sp [OF this] have "lex_from j ('' '' @ ''and'' @ CHR '' '' # ''('' @ b @ '')'')
      = Inr (Token tIdent ''and'' # ?B)" for j .
  from lex_paren [OF assms(1) [unfolded lex_def] cl [OF this], of 0] show ?thesis
    by (simp add: lex_def conj_src_def del: lex_from.simps)
qed

lemma parseAtom_embedded:
  assumes "parseOr f (ts @ [Token tEOF []]) = Inr (e, [Token tEOF []])" "f \<le> g" "rest \<noteq> []"
  shows "parseAtom (Suc g) (Token tLParen ''('' # ts @ Token tRParen '')'' # rest) = Inr (e, rest)"
proof -
  have "parseOr f (ts @ Token tRParen '')'' # rest) = Inr (e, Token tRParen '')'' # rest)"
    using paren.parser_embeds(1) [of rest f ts] assms(1) by (auto simp: embeds_def)
  then have "parseOr g (ts @ Token tRParen '')'' # rest) = Inr (e, Token tRParen '')'' # rest)"
    using parser_more_fuel(1) [of f _ g] assms(2) by simp
  then show ?thesis using assms(3) by (intro parseAtom_paren) auto
qed

lemma ParseExpr_conj_src:
  assumes "ParseExpr a = Inr ea" "ParseExpr b = Inr eb"
  shows "ParseExpr (conj_src a b) =
    Inr \<lparr>expr_root = andNode (expr_root ea) (expr_root eb), expr_src = conj_src a b\<rparr>"
proof -
  let ?E = "[Token tEOF []]"
  obtain ta where ta: "lex a = Inr (ta @ ?E)"
      "parseOr (parse_fuel (ta @ ?E)) (ta @ ?E) = Inr (expr_root ea, ?E)"
    using ParseExpr_Inr [OF assms(1)] by metis
  obtain tb where tb: "lex b = Inr (tb @ ?E)"
      "parseOr (parse_fuel (tb @ ?E)) (tb @ ?E) = Inr (expr_root eb, ?E)"
    using ParseExpr_Inr [OF assms(2)] by metis
  let ?B = "Token tLParen ''('' # tb @ Token tRParen '')'' # ?E"
  let ?T = "Token tLParen ''('' # ta @ Token tRParen '')'' # Token tIdent ''and'' # ?B"
  define f where "f = max (parse_fuel (ta @ ?E)) (parse_fuel (tb @ ?E))"
  have "parseAtom (Suc (Suc f)) ?T = Inr (expr_root ea, Token tIdent ''and'' # ?B)"
    by (rule parseAtom_embedded [OF ta(2)]) (simp_all add: f_def)
  then have 1: "parseNot (Suc (Suc (Suc f))) ?T = Inr (expr_root ea, Token tIdent ''and'' # ?B)"
    by (intro parseNot_atom) simp_all
  have "parseAtom (Suc f) ?B = Inr (expr_root eb, ?E)"
    by (rule parseAtom_embedded [OF tb(2)]) (simp_all add: f_def)
  then have 2: "parseNot (Suc (Suc f)) ?B = Inr (expr_root eb, ?E)"
    by (intro parseNot_atom) simp_all
  have "parseAnd (Suc (Suc (Suc (Suc f)))) ?T = Inr (andNode (expr_root ea) (expr_root eb), ?E)"
    by (rule parseAnd_pair [OF 1 _ 2]) simp_all
  then have "parseOr (Suc (Suc (Suc (Suc (Suc f))))) ?T = Inr (andNode (expr_root ea) (expr_root eb), ?E)"
    by (rule parseOr_and) simp
  from parseOr_parse_fuel [OF _ this] have "parseOr (parse_fuel ?T) ?T = Inr (andNode (expr_root ea) (expr_root eb), ?E)"
    by (simp add: wf_toks_def)
  moreover have "lex (conj_src a b) = Inr ?T" using lex_conj_src [OF ta(1) tb(1)] by simp
  ultimately show ?thesis by (simp add: ParseExpr_def)
qed

end
