(* ===== verification/Expr_Properties.thy ===== *)
theory Expr_Properties
  imports Expr_Eval Expr_Embed
begin

text \<open>
  The properties of the condition language: parsing ends and is a left inverse of spelling, an
  evaluation reads no memory but the keys \<open>MemoryRefs\<close> reports, the \<open>${{ }}\<close> wrapper is transparent to
  the linter, and exit codes compare exactly.
\<close>

section \<open>Examples\<close>

definition ex_src :: string where
  "ex_src = ''not memory.a == 1 or cell.labels contains '' @ squote ''x''
     @ '' and steps.s.state != '' @ squote ''failed''"

definition ex_ctx :: eval_context where
  "ex_ctx = \<lparr>ec_Cell = empty_item, ec_Memory = Map.empty, ec_Steps = Map.empty, ec_Event = Map.empty\<rparr>"

section \<open>Properties\<close>

text \<open>
  Parsing terminates on every input: the recursive descent never runs out of the
  fuel that \<open>ParseExpr\<close> gives it, so each string is either a tree or one of the parser's own errors.
\<close>

theorem parse_terminates: "ParseExpr s \<noteq> Inl ExprOutOfFuel"
  by (rule ParseExpr_total)

text \<open>
  C8. Every tree the parser returns, written out in the canonical spelling and parsed
  again, gives the same tree; precedence and associativity survive because the spelling is fully
  parenthesised.
\<close>

theorem parse_spell_roundtrip:
  assumes "ParseExpr s = Inr e"
  shows "ParseExpr (spell (expr_root e)) = Inr \<lparr>expr_root = expr_root e, expr_src = spell (expr_root e)\<rparr>"
  using assms by (elim ParseExpr_Inr) (rule ParseExpr_spell)

theorem parse_spell_roundtrip_witness:
  "\<exists>e. ParseExpr ex_src = Inr e \<and> map_sum id expr_root (ParseExpr (spell (expr_root e))) = Inr (expr_root e)"
proof -
  have "\<not> isl (ParseExpr ex_src)" by code_simp
  then obtain e where "ParseExpr ex_src = Inr e" by (cases "ParseExpr ex_src") auto
  with parse_spell_roundtrip [OF this] show ?thesis by simp
qed

text \<open>
  The value of an expression depends on memory only through the keys that
  \<open>MemoryRefs\<close> lists: two contexts that agree on those keys give the same verdict, or the same error.
\<close>

theorem eval_reads_only_refs:
  assumes "\<forall>k\<in>set (MemoryRefs e). m k = ec_Memory ctx k"
  shows "Eval re e (ctx\<lparr>ec_Memory := m\<rparr>) = Eval re e ctx"
  using assms by (simp add: Eval_def eval_node_memory set_MemoryRefs)

theorem eval_reads_only_refs_witness:
  "Eval (\<lambda>_. Inl []) \<lparr>expr_root = cmpNode [''memory'', ''a''] ''=='' ''1'' True, expr_src = []\<rparr>
     (ex_ctx\<lparr>ec_Memory := [''b'' \<mapsto> ''1'']\<rparr>)
   = Eval (\<lambda>_. Inl []) \<lparr>expr_root = cmpNode [''memory'', ''a''] ''=='' ''1'' True, expr_src = []\<rparr> ex_ctx"
  by (rule eval_reads_only_refs) (simp add: set_MemoryRefs ex_ctx_def)

text \<open>
  Wrapping an expression in the \<open>${{ }}\<close> delimiters changes nothing for the linter nor for
  \<open>evalExpr\<close>: both see the trimmed body.
\<close>

theorem lint_transparent:
  assumes "\<not> has_prefix (trim_space s) ''${{''"
  shows "LintExpr (''${{'' @ s @ ''}}'') = LintExpr s \<and> evalExpr re (''${{'' @ s @ ''}}'') ctx = evalExpr re s ctx"
  unfolding LintExpr_def evalExpr_def strip_wrapped strip_plain [OF assms] by simp

theorem lint_transparent_witness:
  "LintExpr (''${{'' @ '' memory.a == 1 '' @ ''}}'') = LintExpr '' memory.a == 1 ''"
proof -
  have "\<not> has_prefix (trim_space '' memory.a == 1 '') ''${{''" by code_simp
  from lint_transparent [OF this] show ?thesis by blast
qed

text \<open>
  Comparing \<open>steps.<id>.exit_code\<close> with an integer literal goes through a 64-bit float, and
  is still exact for every exit code and literal of magnitude up to two to the 53.
\<close>

theorem exit_code_exact:
  assumes "ec_Steps ctx sid = Some st" "\<bar>ss_ExitCode st\<bar> \<le> 2 ^ 53" "\<bar>n\<bar> \<le> 2 ^ 53"
  shows "eval_cmp re ctx [''steps'', sid, ''exit_code''] ''=='' (itoa n) True = Inr (ss_ExitCode st = n)"
  using assms by (rule exit_code_cmp)

theorem exit_code_exact_witness:
  "eval_cmp (\<lambda>_. Inl []) (ex_ctx\<lparr>ec_Steps := [''s'' \<mapsto> \<lparr>ss_State = [], ss_ExitCode = 3, ss_Output = []\<rparr>]\<rparr>)
     [''steps'', ''s'', ''exit_code''] ''=='' (itoa 3) True = Inr True"
  using exit_code_exact [of _ "''s''" "\<lparr>ss_State = [], ss_ExitCode = 3, ss_Output = []\<rparr>" 3] by (simp add: ex_ctx_def)

end
