(* ===== verification/Wf_Config.thy ===== *)
theory Wf_Config
  imports Model_Types
begin

text \<open>
  Workflow configuration (\<open>internal/config/workflow.go\<close>): the step record with its outcome, memory,
  branch, approval, wait and schema parts, and the accessors that apply the documented defaults.
  A pointer is an option; a map from names is an association list. \<open>StepConfig\<close> nests through
  \<open>SubSteps\<close>, \<open>ParallelSteps\<close> and \<open>Step\<close>, so it is a datatype around the record of its flat
  fields. \<open>OnPass\<close> is the \<open>Next\<close> field of the pointed-to
  \<open>StepNext\<close>.

  \<open>time.ParseDuration\<close> is the argument \<open>pd\<close>, giving nanoseconds or \<open>None\<close> for an error.
\<close>

section \<open>Constants\<close>

definition StepTypeAgent :: string where "StepTypeAgent = ''agent''"
definition StepTypeSplit :: string where "StepTypeSplit = ''split''"
definition StepTypeApproval :: string where "StepTypeApproval = ''approval''"
definition StepTypeForeach :: string where "StepTypeForeach = ''foreach''"
definition StepTypeWorkflow :: string where "StepTypeWorkflow = ''workflow''"
definition StepTypeWaitFor :: string where "StepTypeWaitFor = ''wait_for''"
definition StepTypeParallel :: string where "StepTypeParallel = ''parallel''"

lemmas step_types =
  StepTypeAgent_def StepTypeSplit_def StepTypeApproval_def StepTypeForeach_def
  StepTypeWorkflow_def StepTypeWaitFor_def StepTypeParallel_def

definition JoinAll :: string where "JoinAll = ''all''"
definition JoinAny :: string where "JoinAny = ''any''"

definition OnMissingOutputWarn :: string where "OnMissingOutputWarn = ''warn''"
definition OnMissingOutputFail :: string where "OnMissingOutputFail = ''fail''"
definition OnMissingOutputIgnore :: string where "OnMissingOutputIgnore = ''ignore''"

definition WaitKindCI :: string where "WaitKindCI = ''ci''"
definition WaitKindDependency :: string where "WaitKindDependency = ''dependency''"
definition OnTimeoutFail :: string where "OnTimeoutFail = ''fail''"
definition OnTimeoutHold :: string where "OnTimeoutHold = ''hold''"
definition BlockerSatisfiedMerged :: string where "BlockerSatisfiedMerged = ''merged''"
definition BlockerSatisfiedDone :: string where "BlockerSatisfiedDone = ''done''"

section \<open>Parts of a step\<close>

datatype schema_field = SchemaField
  (sf_Type: string)
  (sf_Enum: "string list")
  (sf_Items: "schema_field option")
  (sf_Properties: "(string \<times> schema_field) list")
  (sf_Required: "string list")

record output_schema =
  os_Type :: string
  os_Properties :: "(string \<times> schema_field) list"
  os_Required :: "string list"

record memory_config =
  mc_Read :: "bool option"
  mc_Write :: "string list"
  mc_Recall :: "string list"
  mc_Memorize :: string

definition empty_memory :: memory_config where
  "empty_memory = \<lparr>mc_Read = None, mc_Write = [], mc_Recall = [], mc_Memorize = []\<rparr>"

record step_outcome =
  so_Goto :: string
  so_MaxRetries :: int

record on_reject =
  or_RestartFrom :: string
  or_Max :: int

record split_branch =
  sb_If :: string
  sb_Else :: bool
  sb_Goto :: string

record approval_trigger =
  at_CommentContains :: string
  at_LabelAdded :: string
  at_StateChanged :: string

record wait_for_config =
  wf_Kind :: string
  wf_CheckInterval :: string
  wf_MaxDuration :: string
  wf_FailIfNotPassed :: "bool option"
  wf_RemoveLabel :: string
  wf_CISource :: string
  wf_SatisfiedWhen :: "string list"
  wf_BlockerLinkType :: string
  wf_OnTimeout :: string

record approval_field =
  af_Name :: string
  af_Label :: string
  af_Type :: string
  af_Required :: bool
  af_Options :: "string list"

record step_fields =
  ID :: string
  Type :: string
  DependsOn :: "string list"
  SeqDependsOn :: "string list"
  Name :: string
  Condition :: string
  FailWhen :: string
  Agent :: string
  WorkingDir :: string
  Model :: string
  Prompt :: string
  SummaryPrompt :: string
  Idempotent :: bool
  OutputSchema :: "output_schema option"
  OnMissingOutput :: string
  Memory :: "memory_config option"
  OnPass :: "string option"
  OnFail :: "step_outcome option"
  OnConflict :: "step_outcome option"
  Publish :: string
  Spawn :: string
  Materialize :: string
  PullRequestFrom :: string
  Env :: "(string \<times> string) list"
  ActionClass :: string
  Multi :: bool
  Branches :: "split_branch list"
  Message :: string
  ResumeOn :: "approval_trigger option"
  AbortOn :: "approval_trigger option"
  Timeout :: string
  Approvers :: "string list"
  RequiredApprovals :: int
  ApprovalFields :: "approval_field list"
  RemindAfter :: string
  EscalateAfter :: string
  EscalateTo :: "string list"
  Delegates :: "(string \<times> string list) list"
  WaitFor :: "wait_for_config option"
  Items :: string
  As :: string
  Concurrency :: int
  MaxItems :: int
  FailFast :: bool
  Workflow :: string
  Uses :: string
  With :: "(string \<times> gval) list"
  If :: string
  RejectWhen :: string
  OnReject :: "on_reject option"
  Join :: string
  ForEachExpr :: string
  Max :: int
  Output :: "output_schema option"

datatype step_config = Step
  (flds: step_fields)
  (SubSteps: "step_config list")
  (ParallelSteps: "step_config list")
  (InnerStep: "step_config option")

definition zero_fields :: step_fields where
  "zero_fields = \<lparr>ID = [], Type = [], DependsOn = [], SeqDependsOn = [], Name = [], Condition = [],
     FailWhen = [], Agent = [], WorkingDir = [], Model = [], Prompt = [], SummaryPrompt = [], Idempotent = False, OutputSchema = None, OnMissingOutput = [],
     Memory = None, OnPass = None, OnFail = None, OnConflict = None, Publish = [], Spawn = [], Materialize = [], PullRequestFrom = [], Env = [], ActionClass = [],
     Multi = False, Branches = [], Message = [],
     ResumeOn = None, AbortOn = None, Timeout = [], Approvers = [], RequiredApprovals = 0, ApprovalFields = [], RemindAfter = [], EscalateAfter = [],
     EscalateTo = [], Delegates = [],
     WaitFor = None, Items = [], As = [], Concurrency = 0, MaxItems = 0, FailFast = False,
     Workflow = [], Uses = [], With = [], If = [], RejectWhen = [], OnReject = None, Join = [],
     ForEachExpr = [], Max = 0, Output = None\<rparr>"

abbreviation sid :: "step_config \<Rightarrow> string" where "sid s \<equiv> ID (flds s)"

record workflow_config =
  wc_ID :: string
  wc_Steps :: "step_config list"

section \<open>Accessors with defaults\<close>

definition StepType :: "step_config \<Rightarrow> string" where
  "StepType s = (if Type (flds s) = [] then StepTypeAgent else Type (flds s))"

definition IsFallback :: "split_branch \<Rightarrow> bool" where
  "IsFallback b \<longleftrightarrow> sb_Else b \<or> sb_If b = []"

definition Trigger_IsEmpty :: "approval_trigger \<Rightarrow> bool" where
  "Trigger_IsEmpty t \<longleftrightarrow> at_CommentContains t = [] \<and> at_LabelAdded t = [] \<and> at_StateChanged t = []"

definition IsOperatorGate :: "step_config \<Rightarrow> bool" where
  "IsOperatorGate s \<longleftrightarrow>
     StepType s = StepTypeApproval \<and> Approvers (flds s) = []
     \<and> (case ResumeOn (flds s) of None \<Rightarrow> True | Some t \<Rightarrow> Trigger_IsEmpty t)"

definition MemoryReadEnabled :: "step_config \<Rightarrow> bool" where
  "MemoryReadEnabled s =
     (case Memory (flds s) of None \<Rightarrow> True
      | Some m \<Rightarrow> (case mc_Read m of None \<Rightarrow> True | Some b \<Rightarrow> b))"

definition MemoryWriteFields :: "step_config \<Rightarrow> string list" where
  "MemoryWriteFields s = (case Memory (flds s) of None \<Rightarrow> [] | Some m \<Rightarrow> mc_Write m)"

definition MemorizeEnabled :: "step_config \<Rightarrow> bool" where
  "MemorizeEnabled s = (case Memory (flds s) of None \<Rightarrow> True | Some m \<Rightarrow> mc_Memorize m \<noteq> ''off'')"

definition MemoryRecallTiers :: "step_config \<Rightarrow> string list" where
  "MemoryRecallTiers s =
     (case Memory (flds s) of None \<Rightarrow> [''task'', ''global'']
      | Some m \<Rightarrow> if mc_Recall m = [] then [''task'', ''global''] else mc_Recall m)"

type_synonym duration_lib = "string \<Rightarrow> int option"

definition ParsedTimeout :: "duration_lib \<Rightarrow> step_config \<Rightarrow> int" where
  "ParsedTimeout pd s =
     (if Timeout (flds s) = [] then 0
      else (case pd (Timeout (flds s)) of None \<Rightarrow> 0 | Some d \<Rightarrow> d))"

definition minute :: int where "minute = 60000000000"
definition hour :: int where "hour = 3600000000000"

text \<open>The value of \<open>d\<close> after \<open>d, _ := time.ParseDuration(s)\<close>: 0 on an error.\<close>

definition duration_or_zero :: "duration_lib \<Rightarrow> string \<Rightarrow> int" where
  "duration_or_zero pd s = (case pd s of None \<Rightarrow> 0 | Some d \<Rightarrow> d)"

definition ParsedCheckInterval :: "duration_lib \<Rightarrow> wait_for_config option \<Rightarrow> int" where
  "ParsedCheckInterval pd p =
     (case p of None \<Rightarrow> minute
      | Some c \<Rightarrow>
          if wf_CheckInterval c = [] then minute
          else let d = duration_or_zero pd (wf_CheckInterval c) in if d \<le> 0 then minute else d)"

definition ParsedMaxDuration :: "duration_lib \<Rightarrow> wait_for_config option \<Rightarrow> int" where
  "ParsedMaxDuration pd p =
     (let fallback = (case p of None \<Rightarrow> 2 * hour
                      | Some c \<Rightarrow> if wf_Kind c = WaitKindDependency then 0 else 2 * hour) in
      case p of None \<Rightarrow> fallback
      | Some c \<Rightarrow>
          if wf_MaxDuration c = [] then fallback
          else let d = duration_or_zero pd (wf_MaxDuration c) in if d \<le> 0 then fallback else d)"

definition ShouldFailIfNotPassed :: "wait_for_config option \<Rightarrow> bool" where
  "ShouldFailIfNotPassed p =
     (case p of None \<Rightarrow> True | Some c \<Rightarrow> (case wf_FailIfNotPassed c of None \<Rightarrow> True | Some b \<Rightarrow> b))"

definition EffectiveSatisfiedWhen :: "wait_for_config option \<Rightarrow> string list" where
  "EffectiveSatisfiedWhen p =
     (case p of None \<Rightarrow> [BlockerSatisfiedMerged, BlockerSatisfiedDone]
      | Some c \<Rightarrow> if wf_SatisfiedWhen c = [] then [BlockerSatisfiedMerged, BlockerSatisfiedDone]
                 else wf_SatisfiedWhen c)"

definition TimeoutAction :: "wait_for_config option \<Rightarrow> string" where
  "TimeoutAction p =
     (case p of None \<Rightarrow> OnTimeoutFail
      | Some c \<Rightarrow> if wf_OnTimeout c \<noteq> [] then wf_OnTimeout c
                 else if wf_Kind c = WaitKindDependency then OnTimeoutHold else OnTimeoutFail)"

definition IsV2Step :: "step_config \<Rightarrow> bool" where
  "IsV2Step s \<longleftrightarrow>
     Type (flds s) \<noteq> StepTypeParallel \<and>
     (If (flds s) \<noteq> [] \<or> RejectWhen (flds s) \<noteq> [] \<or> OnReject (flds s) \<noteq> None
      \<or> SubSteps s \<noteq> [] \<or> ParallelSteps s \<noteq> [] \<or> ForEachExpr (flds s) \<noteq> []
      \<or> Output (flds s) \<noteq> None)"

section \<open>Facts\<close>

lemma ParsedCheckInterval_pos: "0 < ParsedCheckInterval pd p"
  by (auto simp: ParsedCheckInterval_def minute_def Let_def split: option.splits)

lemma ParsedMaxDuration_nonneg: "0 \<le> ParsedMaxDuration pd p"
  by (auto simp: ParsedMaxDuration_def hour_def Let_def split: option.splits)

lemma EffectiveSatisfiedWhen_ne: "EffectiveSatisfiedWhen p \<noteq> []"
  by (simp add: EffectiveSatisfiedWhen_def split: option.splits)

end
