(* ===== verification/Step_Graph.thy ===== *)
theory Step_Graph
  imports Wf_Config
begin

text \<open>
  Static validation of the step graph (\<open>internal/config/workflow_graph.go\<close>): the edges collected
  from \<open>depends_on\<close> and the sequential edges, cycle detection by depth-first colouring, and the
  ancestor test by breadth-first search behind the loop targets. A Go map from step ids to slices
  is an association list whose missing keys read as the empty slice.

  The depth-first search takes as fuel one unit more than the number of steps; that this is
  always enough is shown below. The breadth-first loop is a total function.
\<close>

section \<open>Definitions\<close>

type_synonym edge_map = "(string \<times> string list) list"

definition targets :: "edge_map \<Rightarrow> string \<Rightarrow> string list" where
  "targets m k = (case map_of m k of None \<Rightarrow> [] | Some vs \<Rightarrow> vs)"

definition add_edge :: "string \<Rightarrow> string \<Rightarrow> edge_map \<Rightarrow> edge_map" where
  "add_edge k v m = (k, targets m k @ [v]) # filter (\<lambda>p. fst p \<noteq> k) m"

datatype graph_error =
    UnknownDep string string
  | SelfDep string
  | CycleAt string
  | FailGotoNotAncestor string string
  | ConflictGotoNotAncestor string string

record edges =
  g_errs :: "graph_error list"
  g_adj :: edge_map
  g_deps :: edge_map

definition add_dep :: "(string \<Rightarrow> bool) \<Rightarrow> string \<Rightarrow> string \<Rightarrow> edges \<Rightarrow> edges" where
  "add_dep stepIDs s d g =
     (if \<not> stepIDs d then g\<lparr>g_errs := g_errs g @ [UnknownDep s d]\<rparr>
      else if d = s then g\<lparr>g_errs := g_errs g @ [SelfDep s]\<rparr>
      else g\<lparr>g_adj := add_edge d s (g_adj g), g_deps := add_edge s d (g_deps g)\<rparr>)"

definition collect_edges :: "(string \<Rightarrow> bool) \<Rightarrow> step_config list \<Rightarrow> edges" where
  "collect_edges stepIDs steps =
     fold (\<lambda>s. fold (add_dep stepIDs (sid s)) (DependsOn (flds s) @ SeqDependsOn (flds s))) steps
       \<lparr>g_errs = [], g_adj = [], g_deps = []\<rparr>"

datatype color = white | gray | black

type_synonym colors = "string \<Rightarrow> color"

text \<open>The result \<open>None\<close> is lack of fuel; the string is the step \<open>visit\<close> returns.\<close>

function visit :: "edge_map \<Rightarrow> nat \<Rightarrow> string \<Rightarrow> colors \<Rightarrow> (string \<times> colors) option"
and visit_all :: "edge_map \<Rightarrow> nat \<Rightarrow> string list \<Rightarrow> colors \<Rightarrow> (string \<times> colors) option" where
  "visit adj 0 node color = None"
| "visit adj (Suc f) node color =
     (case visit_all adj f (targets adj node) (color(node := gray)) of
        None \<Rightarrow> None
      | Some (c, color') \<Rightarrow> if c \<noteq> [] then Some (c, color') else Some ([], color'(node := black)))"
| "visit_all adj f [] color = Some ([], color)"
| "visit_all adj f (n # ns) color =
     (case color n of
        gray \<Rightarrow> Some (n, color)
      | white \<Rightarrow>
          (case visit adj f n color of
             None \<Rightarrow> None
           | Some (c, color') \<Rightarrow> if c \<noteq> [] then Some (c, color') else visit_all adj f ns color')
      | black \<Rightarrow> visit_all adj f ns color)"
  by pat_completeness auto
termination
  by (relation "measures [\<lambda>x. case x of Inl (adj, f, node, color) \<Rightarrow> f | Inr (adj, f, ns, color) \<Rightarrow> f,
      \<lambda>x. case x of Inl (adj, f, node, color) \<Rightarrow> 0 | Inr (adj, f, ns, color) \<Rightarrow> Suc (length ns)]") simp_all

fun visit_roots :: "edge_map \<Rightarrow> nat \<Rightarrow> string list \<Rightarrow> colors \<Rightarrow> string option" where
  "visit_roots adj f [] color = Some []"
| "visit_roots adj f (n # ns) color =
     (if color n = white then
        (case visit adj f n color of
           None \<Rightarrow> None
         | Some (c, color') \<Rightarrow> if c \<noteq> [] then Some c else visit_roots adj f ns color')
      else visit_roots adj f ns color)"

definition findCycle :: "step_config list \<Rightarrow> edge_map \<Rightarrow> string option" where
  "findCycle steps adj = visit_roots adj (length steps + 1) (map sid steps) (\<lambda>_. white)"

function ancestor_loop :: "edge_map \<Rightarrow> string \<Rightarrow> string list \<Rightarrow> string list \<Rightarrow> bool" where
  "ancestor_loop deps candidate visited [] = False"
| "ancestor_loop deps candidate visited (cur # queue) =
     (if cur = candidate then True
      else if cur \<in> set visited then ancestor_loop deps candidate visited queue
      else ancestor_loop deps candidate (cur # visited) (queue @ targets deps cur))"
  by pat_completeness auto
termination
proof (relation "measures [\<lambda>(deps, c, visited, queue). card (fst ` set deps - set visited),
    \<lambda>(deps, c, visited, queue). length queue]", goal_cases)
  case (3 deps candidate visited cur queue)
  show ?case
  proof (cases "cur \<in> fst ` set deps")
    case True
    then have "card (fst ` set deps - set (cur # visited)) < card (fst ` set deps - set visited)"
      using 3 by (intro psubset_card_mono) auto
    then show ?thesis by simp
  next
    case False
    then have "targets deps cur = []" by (simp add: targets_def map_of_eq_None_iff [THEN iffD2])
    moreover have "fst ` set deps - set (cur # visited) = fst ` set deps - set visited"
      using False by auto
    ultimately show ?thesis by simp
  qed
qed simp_all

definition isAncestor :: "string \<Rightarrow> string \<Rightarrow> edge_map \<Rightarrow> bool" where
  "isAncestor node candidate deps = ancestor_loop deps candidate [] (targets deps node)"

text \<open>\<open>seqOrder[id]\<close>, the last index of a repeated id, 0 for an unknown one.\<close>

fun seq_index :: "nat \<Rightarrow> string \<Rightarrow> step_config list \<Rightarrow> nat \<Rightarrow> nat" where
  "seq_index i x [] acc = acc"
| "seq_index i x (s # ss) acc = seq_index (Suc i) x ss (if sid s = x then i else acc)"

definition targetsAncestor :: "step_config list \<Rightarrow> edge_map \<Rightarrow> string \<Rightarrow> string \<Rightarrow> bool" where
  "targetsAncestor steps deps stepID goto =
     (if deps = [] then seq_index 0 goto steps 0 < seq_index 0 stepID steps 0
      else isAncestor stepID goto deps)"

definition check_goto ::
  "(string \<Rightarrow> bool) \<Rightarrow> step_config list \<Rightarrow> edge_map \<Rightarrow> step_config \<Rightarrow> graph_error list" where
  "check_goto stepIDs steps deps s =
     (case OnFail (flds s) of
        Some out \<Rightarrow>
          if so_Goto out \<noteq> [] \<and> stepIDs (so_Goto out) \<and> \<not> targetsAncestor steps deps (sid s) (so_Goto out)
          then [FailGotoNotAncestor (sid s) (so_Goto out)] else []
      | None \<Rightarrow> []) @
     (case OnConflict (flds s) of
        Some out \<Rightarrow>
          if so_Goto out \<noteq> [] \<and> stepIDs (so_Goto out) \<and> \<not> targetsAncestor steps deps (sid s) (so_Goto out)
          then [ConflictGotoNotAncestor (sid s) (so_Goto out)] else []
      | None \<Rightarrow> [])"

definition validateStepGraph :: "step_config list \<Rightarrow> (string \<Rightarrow> bool) \<Rightarrow> graph_error list" where
  "validateStepGraph steps stepIDs =
     (let g = collect_edges stepIDs steps in
      g_errs g
      @ (case findCycle steps (g_adj g) of Some c \<Rightarrow> if c \<noteq> [] then [CycleAt c] else [] | None \<Rightarrow> [])
      @ concat (map (check_goto stepIDs steps (g_deps g)) steps))"

section \<open>The edge relations\<close>

definition edge_rel :: "edge_map \<Rightarrow> (string \<times> string) set" where
  "edge_rel m = {(a, b). b \<in> set (targets m a)}"

lemma edge_rel_iff: "(a, b) \<in> edge_rel m \<longleftrightarrow> b \<in> set (targets m a)"
  by (simp add: edge_rel_def)

lemma targets_Nil [simp]: "targets [] k = []"
  by (simp add: targets_def)

lemma targets_add_edge: "targets (add_edge k v m) x = (if x = k then targets m k @ [v] else targets m x)"
proof -
  have "map_of (filter (\<lambda>p. fst p \<noteq> k) m) x = (if x = k then None else map_of m x)"
    by (induction m) auto
  then show ?thesis by (simp add: add_edge_def targets_def)
qed

lemma edge_rel_add: "edge_rel (add_edge k v m) = insert (k, v) (edge_rel m)"
  by (auto simp: edge_rel_def targets_add_edge split: if_splits)

lemma add_edge_ne [simp]: "add_edge k v m \<noteq> []"
  by (simp add: add_edge_def)

definition dep_pairs :: "step_config list \<Rightarrow> (string \<times> string) set" where
  "dep_pairs steps = {(sid s, d) | s d. s \<in> set steps \<and> d \<in> set (DependsOn (flds s) @ SeqDependsOn (flds s))}"

lemma dep_pairsI:
  "s \<in> set steps \<Longrightarrow> d \<in> set (DependsOn (flds s) @ SeqDependsOn (flds s)) \<Longrightarrow> (sid s, d) \<in> dep_pairs steps"
  by (auto simp: dep_pairs_def)

definition edges_ok :: "edges \<Rightarrow> (string \<times> string) set \<Rightarrow> (string \<Rightarrow> bool) \<Rightarrow> bool" where
  "edges_ok g D stepIDs \<longleftrightarrow>
     edge_rel (g_deps g) = {(s, d) \<in> D. stepIDs d \<and> d \<noteq> s}
     \<and> edge_rel (g_adj g) = (edge_rel (g_deps g))\<inverse>
     \<and> (g_errs g = [] \<longleftrightarrow> (\<forall>(s, d)\<in>D. stepIDs d \<and> d \<noteq> s))
     \<and> (\<forall>e\<in>set (g_errs g). (\<exists>s d. e = UnknownDep s d) \<or> (\<exists>s. e = SelfDep s))
     \<and> (g_deps g = [] \<longleftrightarrow> edge_rel (g_deps g) = {})"

lemma add_dep_ok:
  assumes "edges_ok g D stepIDs"
  shows "edges_ok (add_dep stepIDs s d g) (insert (s, d) D) stepIDs"
  using assms unfolding edges_ok_def add_dep_def by (auto simp: edge_rel_add)

lemma add_deps_ok:
  assumes "edges_ok g D stepIDs"
  shows "edges_ok (fold (add_dep stepIDs s) ds g) (D \<union> {s} \<times> set ds) stepIDs"
  using assms
proof (induction ds arbitrary: g D)
  case (Cons d ds)
  from Cons.IH [OF add_dep_ok [OF Cons.prems, of s d]] show ?case
    by (simp add: insert_Times_insert Un_commute)
qed simp

lemma collect_edges_ok: "edges_ok (collect_edges stepIDs steps) (dep_pairs steps) stepIDs"
proof -
  let ?f = "\<lambda>s. fold (add_dep stepIDs (sid s)) (DependsOn (flds s) @ SeqDependsOn (flds s))"
  have "edges_ok (fold ?f steps g) (D \<union> dep_pairs steps) stepIDs" if "edges_ok g D stepIDs" for g D
    using that
  proof (induction steps arbitrary: g D)
    case Nil
    then show ?case by (simp add: dep_pairs_def)
  next
    case (Cons s steps)
    have "D \<union> {sid s} \<times> set (DependsOn (flds s) @ SeqDependsOn (flds s)) \<union> dep_pairs steps
        = D \<union> dep_pairs (s # steps)" by (auto simp: dep_pairs_def)
    with Cons.IH [OF add_deps_ok [OF Cons.prems, of "sid s" "DependsOn (flds s) @ SeqDependsOn (flds s)"]]
    show ?case by simp
  qed
  moreover have "edges_ok \<lparr>g_errs = [], g_adj = [], g_deps = []\<rparr> {} stepIDs"
    by (simp add: edges_ok_def edge_rel_def)
  ultimately show ?thesis unfolding collect_edges_def by fastforce
qed

section \<open>Cycle detection\<close>

definition blacks :: "colors \<Rightarrow> string set" where "blacks color = {x. color x = black}"
definition grays :: "colors \<Rightarrow> string set" where "grays color = {x. color x = gray}"
definition whites :: "string set \<Rightarrow> colors \<Rightarrow> string set" where "whites V color = {x \<in> V. color x = white}"

text \<open>
  Between two visits the black nodes are closed under the edges and carry no cycle.
\<close>

definition dfs_inv :: "edge_map \<Rightarrow> colors \<Rightarrow> bool" where
  "dfs_inv adj color \<longleftrightarrow>
     edge_rel adj `` blacks color \<subseteq> blacks color \<and> (\<forall>x\<in>blacks color. (x, x) \<notin> (edge_rel adj)\<^sup>+)"

lemma trancl_closed:
  assumes "E `` B \<subseteq> B" "(x, y) \<in> E\<^sup>+" "x \<in> B"
  shows "y \<in> B"
  using assms(2,3,1) by (induction rule: trancl_induct) auto

lemma dfs_inv_blacken:
  assumes inv: "dfs_inv adj color" and succ: "set (targets adj n) \<subseteq> blacks color" and n: "n \<notin> blacks color"
  shows "dfs_inv adj (color(n := black))"
proof -
  let ?E = "edge_rel adj" and ?B = "blacks color"
  have b: "blacks (color(n := black)) = insert n ?B" by (auto simp: blacks_def)
  have closed: "?E `` ?B \<subseteq> ?B" using inv by (simp add: dfs_inv_def)
  have "(n, n) \<notin> ?E\<^sup>+"
  proof
    assume "(n, n) \<in> ?E\<^sup>+"
    then obtain m where m: "(n, m) \<in> ?E" "(m, n) \<in> ?E\<^sup>*" by (meson tranclD)
    then have "m \<in> ?B" using succ by (auto simp: edge_rel_iff)
    with m(2) closed have "n \<in> ?B" by (metis Image_closed_trancl rev_ImageI)
    with n show False by simp
  qed
  then show ?thesis unfolding dfs_inv_def b
    using inv succ by (auto simp: dfs_inv_def edge_rel_iff)
qed

text \<open>What one visit that finds no cycle leaves behind.\<close>

definition dfs_step :: "edge_map \<Rightarrow> colors \<Rightarrow> colors \<Rightarrow> bool" where
  "dfs_step adj color color' \<longleftrightarrow>
     dfs_inv adj color' \<and> grays color' = grays color \<and> blacks color \<subseteq> blacks color'"

lemma dfs_step_refl: "dfs_inv adj color \<Longrightarrow> dfs_step adj color color"
  by (simp add: dfs_step_def)

lemma dfs_step_trans: "dfs_step adj a b \<Longrightarrow> dfs_step adj b c \<Longrightarrow> dfs_step adj a c"
  by (auto simp: dfs_step_def)

lemma dfs_inv_gray: "dfs_inv adj color \<Longrightarrow> color n \<noteq> black \<Longrightarrow> dfs_inv adj (color(n := gray))"
proof -
  assume "dfs_inv adj color" "color n \<noteq> black"
  moreover from this have "blacks (color(n := gray)) = blacks color" by (auto simp: blacks_def)
  ultimately show ?thesis by (simp add: dfs_inv_def)
qed

lemma visit_no_cycle:
  assumes named: "\<And>x. [] \<notin> set (targets adj x)"
  shows "visit adj f n color = Some ([], color') \<Longrightarrow> dfs_inv adj color \<Longrightarrow> color n = white
      \<Longrightarrow> dfs_step adj color color' \<and> n \<in> blacks color'"
    and "visit_all adj f ns color = Some ([], color') \<Longrightarrow> dfs_inv adj color \<Longrightarrow> [] \<notin> set ns
      \<Longrightarrow> dfs_step adj color color' \<and> set ns \<subseteq> blacks color'"
  using named
proof (induction adj f n color and adj f ns color arbitrary: color' and color' rule: visit_visit_all.induct)
  case (2 adj f node color)
  from "2.prems"(1) obtain c2 where c2: "visit_all adj f (targets adj node) (color(node := gray)) = Some ([], c2)"
      "color' = c2(node := black)"
    by (auto split: option.splits if_splits)
  have "dfs_inv adj (color(node := gray))" using "2.prems" by (intro dfs_inv_gray) auto
  from "2.IH" [OF c2(1) this "2.prems"(4) "2.prems"(4)]
  have st: "dfs_step adj (color(node := gray)) c2" and su: "set (targets adj node) \<subseteq> blacks c2" by blast+
  have g: "grays c2 = insert node (grays color)" using st by (auto simp: dfs_step_def grays_def)
  then have "node \<in> grays c2" by simp
  then have nb: "node \<notin> blacks c2" by (simp add: grays_def blacks_def)
  have "dfs_inv adj color'" unfolding c2(2) using st su nb by (intro dfs_inv_blacken) (auto simp: dfs_step_def)
  moreover have "grays color' = grays color"
    using g "2.prems"(3) unfolding c2(2) by (auto simp: grays_def)
  moreover have "blacks color \<subseteq> blacks color'"
    using st "2.prems"(3) unfolding c2(2) by (auto simp: dfs_step_def blacks_def)
  moreover have "node \<in> blacks color'" unfolding c2(2) by (simp add: blacks_def)
  ultimately show ?case by (simp add: dfs_step_def)
next
  case (4 adj f n ns color)
  show ?case
  proof (cases "color n")
    case gray
    with "4.prems" show ?thesis by simp
  next
    case black
    with "4.IH"(3) "4.prems" show ?thesis by (auto simp: blacks_def dfs_step_def)
  next
    case white
    with "4.prems"(1) obtain c2 where c2: "visit adj f n color = Some ([], c2)"
        "visit_all adj f ns c2 = Some ([], color')"
      by (auto split: option.splits if_splits)
    have a: "dfs_step adj color c2" "n \<in> blacks c2"
      using "4.IH"(1) [OF white c2(1)] "4.prems" white by auto
    then have "dfs_inv adj c2" by (simp add: dfs_step_def)
    then have "dfs_step adj c2 color'" "set ns \<subseteq> blacks color'"
      using "4.IH"(2) [OF white c2(1)] c2 "4.prems" by auto
    with a show ?thesis by (auto simp: dfs_step_def)
  qed
qed (auto intro: dfs_step_refl)

text \<open>A step returned as a cycle lies on one: every gray node reaches the node being visited.\<close>

lemma visit_cycle:
  "visit adj f n color = Some (c, color') \<Longrightarrow> c \<noteq> [] \<Longrightarrow> \<forall>g\<in>grays color. (g, n) \<in> (edge_rel adj)\<^sup>+
    \<Longrightarrow> dfs_inv adj color \<Longrightarrow> color n = white \<Longrightarrow> (\<And>x. [] \<notin> set (targets adj x))
    \<Longrightarrow> (c, c) \<in> (edge_rel adj)\<^sup>+"
  "visit_all adj f ns color = Some (c, color') \<Longrightarrow> c \<noteq> [] \<Longrightarrow> set ns \<subseteq> set (targets adj p)
    \<Longrightarrow> \<forall>g\<in>grays color. (g, p) \<in> (edge_rel adj)\<^sup>*
    \<Longrightarrow> dfs_inv adj color \<Longrightarrow> (\<And>x. [] \<notin> set (targets adj x))
    \<Longrightarrow> (c, c) \<in> (edge_rel adj)\<^sup>+"
proof (induction adj f n color and adj f ns color arbitrary: c color' and c color' p rule: visit_visit_all.induct)
  case (2 adj f node color)
  from "2.prems"(1,2) obtain c2 where c2: "visit_all adj f (targets adj node) (color(node := gray)) = Some (c, c2)"
    by (auto split: option.splits if_splits)
  have "dfs_inv adj (color(node := gray))" using "2.prems" by (intro dfs_inv_gray) auto
  moreover have "\<forall>g\<in>grays (color(node := gray)). (g, node) \<in> (edge_rel adj)\<^sup>*"
    using "2.prems"(3) by (auto simp: grays_def)
  ultimately show ?case using "2.IH" [OF c2] "2.prems" by blast
next
  case (4 adj f n ns color)
  have e: "(p, n) \<in> edge_rel adj" using "4.prems"(3) by (simp add: edge_rel_iff)
  have to_n: "\<forall>g\<in>grays color. (g, n) \<in> (edge_rel adj)\<^sup>+"
    using "4.prems"(4) e by (meson rtrancl_into_trancl1)
  show ?case
  proof (cases "color n")
    case gray
    with "4.prems"(1) to_n show ?thesis by (auto simp: grays_def)
  next
    case black
    then show ?thesis using "4.IH"(3) [OF black, of c color' p] "4.prems" by simp
  next
    case white
    show ?thesis
    proof (cases "\<exists>c2. visit adj f n color = Some ([], c2)")
      case True
      then obtain c2 where c2: "visit adj f n color = Some ([], c2)" by blast
      then have "visit_all adj f ns c2 = Some (c, color')" using "4.prems"(1) white by simp
      moreover have "dfs_step adj color c2"
        using visit_no_cycle(1) [OF "4.prems"(6) c2 "4.prems"(5) white] by simp
      ultimately show ?thesis
        using "4.IH"(2) [OF white c2 refl, of c color' p] "4.prems" by (simp add: dfs_step_def)
    next
      case False
      then have "visit adj f n color = Some (c, color')"
        using "4.prems"(1) white by (auto split: option.splits if_splits)
      then show ?thesis using "4.IH"(1) [OF white] "4.prems" to_n white by blast
    qed
  qed
qed auto

text \<open>Fuel: a visit turns a white node gray, and no node turns white again.\<close>

lemma whites_mono:
  "visit adj f n color = Some (c, color') \<Longrightarrow> whites V color' \<subseteq> whites V color"
  "visit_all adj f ns color = Some (c, color') \<Longrightarrow> whites V color' \<subseteq> whites V color"
proof (induction adj f n color and adj f ns color arbitrary: c color' and c color' rule: visit_visit_all.induct)
  case (2 adj f node color)
  then obtain c2 where c2: "visit_all adj f (targets adj node) (color(node := gray)) = Some (c, c2)"
      "\<forall>x. color' x = white \<longrightarrow> c2 x = white"
    by (auto split: option.splits if_splits)
  have "whites V color' \<subseteq> whites V c2" "whites V (color(node := gray)) \<subseteq> whites V color"
    using c2(2) by (auto simp: whites_def split: if_splits)
  with "2.IH" [OF c2(1)] show ?case by blast
next
  case (4 adj f n ns color)
  show ?case
  proof (cases "color n")
    case white
    with "4.prems" consider (found) "visit adj f n color = Some (c, color')"
      | (more) c2 where "visit adj f n color = Some ([], c2)" "visit_all adj f ns c2 = Some (c, color')"
      by (auto split: option.splits if_splits)
    then show ?thesis
    proof cases
      case found
      then show ?thesis using "4.IH"(1) white by blast
    next
      case more
      then show ?thesis using "4.IH"(1) [OF white more(1)] "4.IH"(2) [OF white more(1) refl _ more(2)] by blast
    qed
  qed (use 4 in auto)
qed auto

lemma whites_gray:
  assumes "finite V" "n \<in> V" "color n = white"
  shows "card (whites V (color(n := gray))) < card (whites V color)"
proof -
  have "whites V (color(n := gray)) \<subset> whites V color" using assms by (auto simp: whites_def)
  then show ?thesis using assms(1) by (intro psubset_card_mono) (auto simp: whites_def)
qed

lemma visit_fuel:
  "n \<in> V \<Longrightarrow> color n = white \<Longrightarrow> card (whites V color) \<le> f \<Longrightarrow> finite V
    \<Longrightarrow> (\<And>x. x \<in> V \<Longrightarrow> set (targets adj x) \<subseteq> V) \<Longrightarrow> visit adj f n color \<noteq> None"
  "set ns \<subseteq> V \<Longrightarrow> card (whites V color) \<le> f \<Longrightarrow> finite V
    \<Longrightarrow> (\<And>x. x \<in> V \<Longrightarrow> set (targets adj x) \<subseteq> V) \<Longrightarrow> visit_all adj f ns color \<noteq> None"
proof (induction adj f n color and adj f ns color rule: visit_visit_all.induct)
  case (1 adj node color)
  then have "whites V color = {}" by (auto simp: whites_def)
  with 1 show ?case by (auto simp: whites_def)
next
  case (2 adj f node color)
  have "card (whites V (color(node := gray))) \<le> f"
    using whites_gray [of V node color] "2.prems"(1,2,4) "2.prems"(3) by linarith
  then have "visit_all adj f (targets adj node) (color(node := gray)) \<noteq> None"
    using "2.IH" "2.prems" by blast
  then show ?case by (auto split: option.splits)
next
  case (4 adj f n ns color)
  show ?case
  proof (cases "color n")
    case white
    then have "visit adj f n color \<noteq> None" using "4.IH"(1) "4.prems" by auto
    then obtain c c2 where v: "visit adj f n color = Some (c, c2)" by auto
    have "card (whites V c2) \<le> card (whites V color)"
      using whites_mono(1) [OF v, of V] "4.prems"(3) by (intro card_mono) (auto simp: whites_def)
    then show ?thesis using "4.IH"(2) [OF white v refl] "4.prems" white v by auto
  qed (use 4 in auto)
qed simp

lemma visit_roots_no_cycle:
  "visit_roots adj f ns color = Some [] \<Longrightarrow> dfs_inv adj color \<Longrightarrow> grays color = {}
    \<Longrightarrow> (\<And>x. [] \<notin> set (targets adj x))
    \<Longrightarrow> \<forall>n\<in>set ns \<union> blacks color. (n, n) \<notin> (edge_rel adj)\<^sup>+"
proof (induction adj f ns color rule: visit_roots.induct)
  case (1 adj f color)
  then show ?case by (simp add: dfs_inv_def)
next
  case (2 adj f n ns color)
  show ?case
  proof (cases "color n = white")
    case True
    with "2.prems"(1) obtain c2 where c2: "visit adj f n color = Some ([], c2)" "visit_roots adj f ns c2 = Some []"
      by (auto split: option.splits if_splits)
    have st: "dfs_step adj color c2" "n \<in> blacks c2"
      using visit_no_cycle(1) [OF "2.prems"(4) c2(1) "2.prems"(2) True] by auto
    then have "\<forall>n\<in>set ns \<union> blacks c2. (n, n) \<notin> (edge_rel adj)\<^sup>+"
      using "2.IH"(1) [OF True c2(1) refl _ c2(2)] "2.prems" by (auto simp: dfs_step_def)
    with st show ?thesis by (auto simp: dfs_step_def)
  next
    case False
    then have "n \<in> blacks color" using "2.prems"(3) by (cases "color n") (auto simp: grays_def blacks_def)
    with False "2.IH"(2) "2.prems" show ?thesis by auto
  qed
qed

lemma visit_roots_cycle:
  "visit_roots adj f ns color = Some c \<Longrightarrow> c \<noteq> [] \<Longrightarrow> dfs_inv adj color \<Longrightarrow> grays color = {}
    \<Longrightarrow> (\<And>x. [] \<notin> set (targets adj x)) \<Longrightarrow> (c, c) \<in> (edge_rel adj)\<^sup>+"
proof (induction adj f ns color rule: visit_roots.induct)
  case (2 adj f n ns color)
  show ?case
  proof (cases "color n = white")
    case True
    with "2.prems"(1) consider (found) c2 where "visit adj f n color = Some (c, c2)"
      | (more) c2 where "visit adj f n color = Some ([], c2)" "visit_roots adj f ns c2 = Some c"
      by (auto split: option.splits if_splits)
    then show ?thesis
    proof cases
      case found
      show ?thesis by (rule visit_cycle(1) [OF found]) (use "2.prems" True in auto)
    next
      case more
      have "dfs_step adj color c2"
        using visit_no_cycle(1) [OF "2.prems"(5) more(1) "2.prems"(3) True] by simp
      then show ?thesis using "2.IH"(1) [OF True more(1) refl _ more(2)] "2.prems" by (auto simp: dfs_step_def)
    qed
  next
    case False
    then show ?thesis using "2.IH"(2) [OF False] "2.prems" by simp
  qed
qed simp

lemma visit_roots_fuel:
  "set ns \<subseteq> V \<Longrightarrow> card (whites V color) \<le> f \<Longrightarrow> finite V
    \<Longrightarrow> (\<And>x. x \<in> V \<Longrightarrow> set (targets adj x) \<subseteq> V) \<Longrightarrow> visit_roots adj f ns color \<noteq> None"
proof (induction adj f ns color rule: visit_roots.induct)
  case (2 adj f n ns color)
  show ?case
  proof (cases "color n = white")
    case True
    then have "visit adj f n color \<noteq> None" using "2.prems" by (intro visit_fuel(1)) auto
    then obtain c c2 where v: "visit adj f n color = Some (c, c2)" by auto
    have "card (whites V c2) \<le> card (whites V color)"
      using whites_mono(1) [OF v, of V] "2.prems"(3) by (intro card_mono) (auto simp: whites_def)
    then show ?thesis using "2.IH"(1) [OF True v refl] "2.prems" True v by auto
  next
    case False
    then show ?thesis using "2.IH"(2) [OF False] "2.prems" by simp
  qed
qed simp

lemma findCycle_correct:
  assumes V: "edge_rel adj \<subseteq> set (map sid steps) \<times> set (map sid steps)" and named: "[] \<notin> set (map sid steps)"
  obtains (acyclic) "findCycle steps adj = Some []" "acyclic (edge_rel adj)"
  | (cycle) c where "findCycle steps adj = Some c" "c \<noteq> []" "(c, c) \<in> (edge_rel adj)\<^sup>+"
proof -
  let ?V = "set (map sid steps)" and ?w = "\<lambda>_ :: string. white"
  have nm: "[] \<notin> set (targets adj x)" for x using V named by (auto simp: edge_rel_def)
  have cl: "set (targets adj x) \<subseteq> ?V" for x using V by (auto simp: edge_rel_def)
  have inv: "dfs_inv adj ?w" "grays ?w = {}" by (auto simp: dfs_inv_def blacks_def grays_def)
  have "card (whites ?V ?w) \<le> length steps"
    using card_length [of "map sid steps"] by (simp add: whites_def)
  then have "findCycle steps adj \<noteq> None"
    unfolding findCycle_def using cl by (intro visit_roots_fuel [where V = ?V]) auto
  then obtain c where c: "findCycle steps adj = Some c" by auto
  show thesis
  proof (cases "c = []")
    case True
    with c have "\<forall>n\<in>?V. (n, n) \<notin> (edge_rel adj)\<^sup>+"
      using visit_roots_no_cycle [OF _ inv nm] by (auto simp: findCycle_def)
    moreover have "n \<in> ?V" if "(n, n) \<in> (edge_rel adj)\<^sup>+" for n
      using that V by (meson SigmaD1 subsetD tranclD)
    ultimately have "acyclic (edge_rel adj)" by (auto simp: acyclic_def)
    with True c acyclic show ?thesis by simp
  next
    case False
    with c have "(c, c) \<in> (edge_rel adj)\<^sup>+"
      using visit_roots_cycle [OF _ False inv nm] by (auto simp: findCycle_def)
    with False c cycle show ?thesis by simp
  qed
qed

section \<open>Ancestors\<close>

lemma ancestor_loop_sound:
  "ancestor_loop deps candidate visited queue \<Longrightarrow> \<exists>q\<in>set queue. (q, candidate) \<in> (edge_rel deps)\<^sup>*"
proof (induction deps candidate visited queue rule: ancestor_loop.induct)
  case (2 deps candidate visited cur queue)
  show ?case
  proof (cases "cur = candidate \<or> cur \<in> set visited")
    case True
    with 2 show ?thesis by (auto split: if_splits)
  next
    case False
    with 2 obtain q where q: "q \<in> set (queue @ targets deps cur)" "(q, candidate) \<in> (edge_rel deps)\<^sup>*" by auto
    then show ?thesis by (auto simp: edge_rel_iff intro: converse_rtrancl_into_rtrancl)
  qed
qed simp

lemma ancestor_loop_complete:
  "\<not> ancestor_loop deps candidate visited queue \<Longrightarrow> candidate \<notin> set visited
    \<Longrightarrow> \<forall>v\<in>set visited. set (targets deps v) \<subseteq> set visited \<union> set queue
    \<Longrightarrow> \<forall>q\<in>set visited \<union> set queue. (q, candidate) \<notin> (edge_rel deps)\<^sup>*"
proof (induction deps candidate visited queue rule: ancestor_loop.induct)
  case (1 deps candidate visited)
  have "edge_rel deps `` set visited \<subseteq> set visited" using "1.prems"(3) by (auto simp: edge_rel_def)
  then have "y \<in> set visited" if "(x, y) \<in> (edge_rel deps)\<^sup>*" "x \<in> set visited" for x y
    using that by (metis Image_closed_trancl rev_ImageI)
  with "1.prems"(2) show ?case by auto
next
  case (2 deps candidate visited cur queue)
  then show ?case by (auto split: if_splits)
qed

lemma isAncestor_iff: "isAncestor node candidate deps \<longleftrightarrow> (node, candidate) \<in> (edge_rel deps)\<^sup>+"
proof
  assume "isAncestor node candidate deps"
  then obtain q where "q \<in> set (targets deps node)" "(q, candidate) \<in> (edge_rel deps)\<^sup>*"
    unfolding isAncestor_def using ancestor_loop_sound by blast
  then show "(node, candidate) \<in> (edge_rel deps)\<^sup>+"
    by (metis edge_rel_iff rtrancl_into_trancl2)
next
  assume "(node, candidate) \<in> (edge_rel deps)\<^sup>+"
  then obtain q where "q \<in> set (targets deps node)" "(q, candidate) \<in> (edge_rel deps)\<^sup>*"
    by (metis edge_rel_iff tranclD)
  then show "isAncestor node candidate deps"
    using ancestor_loop_complete [of deps candidate "[]" "targets deps node"] by (auto simp: isAncestor_def)
qed

section \<open>Validated graphs\<close>

lemma dep_pairs_src: "(a, b) \<in> dep_pairs steps \<Longrightarrow> a \<in> set (map sid steps)"
  by (auto simp: dep_pairs_def)

lemma validateStepGraph_Nil:
  assumes ids: "\<And>x. stepIDs x \<longleftrightarrow> x \<in> set (map sid steps)" and named: "[] \<notin> set (map sid steps)"
    and ok: "validateStepGraph steps stepIDs = []"
  shows "\<forall>(s, d)\<in>dep_pairs steps. stepIDs d \<and> d \<noteq> s"
    and "acyclic (dep_pairs steps)"
    and "\<forall>s\<in>set steps. check_goto stepIDs steps (g_deps (collect_edges stepIDs steps)) s = []"
    and "edge_rel (g_deps (collect_edges stepIDs steps)) = dep_pairs steps"
proof -
  let ?g = "collect_edges stepIDs steps" and ?V = "set (map sid steps)"
  have e: "edges_ok ?g (dep_pairs steps) stepIDs" by (rule collect_edges_ok)
  have errs: "g_errs ?g = []" using ok by (simp add: validateStepGraph_def Let_def)
  with e show known: "\<forall>(s, d)\<in>dep_pairs steps. stepIDs d \<and> d \<noteq> s" by (simp add: edges_ok_def)
  with e show rel: "edge_rel (g_deps ?g) = dep_pairs steps" by (auto simp: edges_ok_def)
  with e have adj: "edge_rel (g_adj ?g) = (dep_pairs steps)\<inverse>" by (simp add: edges_ok_def)
  have "edge_rel (g_adj ?g) \<subseteq> ?V \<times> ?V"
    unfolding adj using known ids dep_pairs_src by fastforce
  then have "acyclic (edge_rel (g_adj ?g))"
    by (rule findCycle_correct [OF _ named]) (use ok in \<open>auto simp: validateStepGraph_def Let_def\<close>)
  then show "acyclic (dep_pairs steps)" unfolding adj by simp
  show "\<forall>s\<in>set steps. check_goto stepIDs steps (g_deps ?g) s = []"
    using ok by (simp add: validateStepGraph_def Let_def)
qed

lemma validated_goto:
  assumes ids: "\<And>x. stepIDs x \<longleftrightarrow> x \<in> set (map sid steps)" and named: "[] \<notin> set (map sid steps)"
    and ok: "validateStepGraph steps stepIDs = []"
    and s: "s \<in> set steps" and out: "OnFail (flds s) = Some out \<or> OnConflict (flds s) = Some out"
    and goto: "so_Goto out \<in> set (map sid steps)" and deps: "dep_pairs steps \<noteq> {}"
  shows "(sid s, so_Goto out) \<in> (dep_pairs steps)\<^sup>+"
proof -
  let ?g = "collect_edges stepIDs steps"
  have rel: "edge_rel (g_deps ?g) = dep_pairs steps" using validateStepGraph_Nil(4) [OF ids named ok] .
  have "so_Goto out \<noteq> []" using goto named by auto
  moreover have "check_goto stepIDs steps (g_deps ?g) s = []"
    using validateStepGraph_Nil(3) [OF ids named ok] s by blast
  ultimately have "targetsAncestor steps (g_deps ?g) (sid s) (so_Goto out)"
    using out goto ids by (auto simp: check_goto_def split: if_splits)
  moreover have "g_deps ?g \<noteq> []" using rel deps by (auto simp: edge_rel_def)
  ultimately show ?thesis by (simp add: targetsAncestor_def isAncestor_iff rel)
qed

end
