(* ===== verification/Lowering.thy ===== *)
theory Lowering
  imports Step_Graph Expr_Embed
begin

text \<open>
  The lowering pass (\<open>internal/config/lower_v2.go\<close>): a workflow authored with groups, \<open>if:\<close>,
  \<open>reject_when:\<close>, \<open>parallel:\<close> and \<open>for_each:\<close> becomes a flat list of steps with sequential edges,
  \<open>condition\<close>, \<open>fail_when\<close> and \<open>on_fail\<close>.

  The pass's mutable state is the list of memory fields each step must write
  (\<open>pendingWrites\<close>); it is threaded through the functions. Maps from step ids are association
  lists. The scanners work on the bytes of an expression: the characters they look for are ASCII,
  and every other byte is copied. Errors keep the chain of contexts that wraps them.
\<close>

section \<open>Expression helpers\<close>

definition lowerExpr :: "string \<Rightarrow> string" where
  "lowerExpr e =
     (let s = trim_space e in
      if has_prefix s ''${{'' \<and> has_suffix s ''}}''
      then trim_space (take (length s - 5) (drop 3 s)) else s)"

definition composeCond :: "string \<Rightarrow> string \<Rightarrow> string" where
  "composeCond a0 b0 =
     (let a = trim_space a0; b = trim_space b0 in
      if a = [] \<and> b = [] then []
      else if a = [] then b
      else if b = [] then a
      else ''('' @ a @ '') and ('' @ b @ '')'')"

definition isIdentRune :: "char \<Rightarrow> bool" where
  "isIdentRune r \<longleftrightarrow>
     (let n = (of_char r :: nat) in
      r = CHR ''_'' \<or> (97 \<le> n \<and> n \<le> 122) \<or> (65 \<le> n \<and> n \<le> 90) \<or> (48 \<le> n \<and> n \<le> 57)
      \<or> r = CHR ''-'')"

section \<open>The step index and the staged writes\<close>

type_synonym step_index = "(string \<times> step_config) list"
type_synonym pending = "(string \<times> string list) list"

definition index_put :: "string \<Rightarrow> 'v \<Rightarrow> (string \<times> 'v) list \<Rightarrow> (string \<times> 'v) list" where
  "index_put k v m = (k, v) # filter (\<lambda>p. fst p \<noteq> k) m"

fun walk_index :: "step_config list \<Rightarrow> step_index \<Rightarrow> step_index" where
  "walk_index [] m = m"
| "walk_index (Step f sub par inner # ss) m =
     walk_index ss (walk_index par (walk_index sub
       (if ID f \<noteq> [] then index_put (ID f) (Step f sub par inner) m else m)))"

definition buildStepIndex :: "step_config list \<Rightarrow> step_index" where
  "buildStepIndex steps = walk_index steps []"

definition known_step :: "step_index \<Rightarrow> string \<Rightarrow> bool" where
  "known_step ix k \<longleftrightarrow> map_of ix k \<noteq> None"

definition pending_of :: "pending \<Rightarrow> string \<Rightarrow> string list" where
  "pending_of pw k = (case map_of pw k of None \<Rightarrow> [] | Some fs \<Rightarrow> fs)"

definition ensureMemoryWrite :: "step_index \<Rightarrow> string \<Rightarrow> string \<Rightarrow> pending \<Rightarrow> pending" where
  "ensureMemoryWrite ix stepID field pw =
     (if \<not> known_step ix stepID then pw
      else if field \<in> set (pending_of pw stepID) then pw
      else index_put stepID (pending_of pw stepID @ [field]) pw)"

text \<open>The scan of \<open>rewriteStepRefs\<close>: \<open>word1.word2\<close> with \<open>word1\<close> a known step becomes \<open>memory.word2\<close>.\<close>

function rewriteStepRefs :: "step_index \<Rightarrow> string \<Rightarrow> pending \<Rightarrow> string \<times> pending" where
  "rewriteStepRefs ix [] pw = ([], pw)"
| "rewriteStepRefs ix (c # cs) pw =
     (if isIdentRune c then
        (let word1 = c # takeWhile isIdentRune cs;
             rest = dropWhile isIdentRune cs;
             word2 = (if rest \<noteq> [] \<and> hd rest = CHR ''.'' then takeWhile isIdentRune (tl rest) else [])
         in if word2 \<noteq> [] \<and> known_step ix word1 then
              (let (out, pw') = rewriteStepRefs ix (dropWhile isIdentRune (tl rest))
                                  (ensureMemoryWrite ix word1 word2 pw)
               in (''memory.'' @ word2 @ out, pw'))
            else (let (out, pw') = rewriteStepRefs ix rest pw in (word1 @ out, pw')))
      else (let (out, pw') = rewriteStepRefs ix cs pw in (c # out, pw')))"
  by pat_completeness auto
termination
proof (relation "measure (\<lambda>(ix, s, pw). length s)", goal_cases)
  case (2 ix c cs pw w1 rest w2)
  have "length (dropWhile isIdentRune (tl rest)) \<le> length (tl rest)" by (rule length_dropWhile_le)
  also have "\<dots> \<le> length rest" by simp
  also have "\<dots> \<le> length cs" using 2 by (simp add: length_dropWhile_le)
  finally show ?case by simp
qed (simp_all add: length_dropWhile_le less_Suc_eq_le)

definition rewriteExpr :: "step_index \<Rightarrow> string \<Rightarrow> pending \<Rightarrow> string \<times> pending" where
  "rewriteExpr ix e pw = rewriteStepRefs ix (lowerExpr e) pw"

text \<open>The fields \<open>ensureMemoryWriteForExpr\<close> finds behind \<open>memory.\<close>, in order.\<close>

function memory_fields :: "string \<Rightarrow> string list" where
  "memory_fields [] = []"
| "memory_fields (c # cs) =
     (if isIdentRune c then
        (let word1 = c # takeWhile isIdentRune cs;
             rest = dropWhile isIdentRune cs;
             field = (if word1 = ''memory'' \<and> rest \<noteq> [] \<and> hd rest = CHR ''.''
                      then takeWhile isIdentRune (tl rest) else [])
         in (if field \<noteq> [] then [field] else []) @ memory_fields rest)
      else memory_fields cs)"
  by pat_completeness auto
termination by (relation "measure length") (simp_all add: length_dropWhile_le less_Suc_eq_le)

definition declares_field :: "step_config \<Rightarrow> string \<Rightarrow> bool" where
  "declares_field s field =
     (let schema = (case OutputSchema (flds s) of None \<Rightarrow> Output (flds s) | Some x \<Rightarrow> Some x) in
      case schema of None \<Rightarrow> False | Some sc \<Rightarrow> map_of (os_Properties sc) field \<noteq> None)"

definition ensureMemoryWriteForExpr :: "step_index \<Rightarrow> string \<Rightarrow> pending \<Rightarrow> pending" where
  "ensureMemoryWriteForExpr ix e pw =
     fold (\<lambda>field. fold (\<lambda>(stepID, s) pw.
         if declares_field s field then ensureMemoryWrite ix stepID field pw else pw) ix)
       (memory_fields e) pw"

definition autoWireMemory :: "step_index \<Rightarrow> step_fields \<Rightarrow> pending \<Rightarrow> pending" where
  "autoWireMemory ix f pw =
     fold (\<lambda>e pw. if e = [] then pw else ensureMemoryWriteForExpr ix e pw) [Condition f, FailWhen f] pw"

section \<open>Lowering one step\<close>

datatype lower_error =
    ParallelMissingID
  | ForeachMissingID
  | InForeachBody string lower_error
  | InWorkflow string lower_error

definition lower_outcome :: "step_fields \<Rightarrow> step_outcome option" where
  "lower_outcome f =
     (case OnReject f of None \<Rightarrow> OnFail f
      | Some r \<Rightarrow>
          Some ((case OnFail f of None \<Rightarrow> \<lparr>so_Goto = [], so_MaxRetries = 0\<rparr> | Some out \<Rightarrow> out)
            \<lparr>so_Goto := or_RestartFrom r, so_MaxRetries := or_Max r\<rparr>))"

definition lower_seq :: "string \<Rightarrow> step_fields \<Rightarrow> step_fields" where
  "lower_seq prevID f = (if prevID \<noteq> [] \<and> DependsOn f = [] then f\<lparr>SeqDependsOn := [prevID]\<rparr> else f)"

definition lower_output :: "step_fields \<Rightarrow> step_fields" where
  "lower_output f =
     (if Output f \<noteq> None \<and> OutputSchema f = None then f\<lparr>OutputSchema := Output f\<rparr> else f)\<lparr>Output := None\<rparr>"

definition lower_max :: "step_fields \<Rightarrow> step_fields" where
  "lower_max f = (if Max f > 0 \<and> MaxItems f = 0 then f\<lparr>MaxItems := Max f\<rparr> else f)\<lparr>Max := 0\<rparr>"

definition lower_reject :: "step_index \<Rightarrow> step_fields \<Rightarrow> pending \<Rightarrow> step_fields \<times> pending" where
  "lower_reject ix f pw =
     (let (f', pw') = (if RejectWhen f \<noteq> []
                       then (let (rewritten, pw') = rewriteExpr ix (RejectWhen f) pw
                             in (f\<lparr>FailWhen := rewritten, RejectWhen := []\<rparr>, pw'))
                       else (f, pw))
      in (f'\<lparr>OnFail := lower_outcome f', OnReject := None\<rparr>, pw'))"

definition lowerLeafStep ::
  "step_index \<Rightarrow> step_config \<Rightarrow> string \<Rightarrow> string \<Rightarrow> pending \<Rightarrow> step_config \<times> pending" where
  "lowerLeafStep ix s prevID inheritedCondition pw =
     (let f1 = lower_output (lower_seq prevID (flds s));
          (ownCond, pw1) = rewriteExpr ix (If f1) pw;
          (f2, pw2) = lower_reject ix
            (f1\<lparr>Condition := composeCond inheritedCondition ownCond, If := []\<rparr>) pw1
      in (Step (lower_max f2) (SubSteps s) (ParallelSteps s) (InnerStep s), autoWireMemory ix f2 pw2))"

fun lower_children :: "step_index \<Rightarrow> step_config list \<Rightarrow> pending \<Rightarrow> step_config list \<times> pending" where
  "lower_children ix [] pw = ([], pw)"
| "lower_children ix (c # cs) pw =
     (let (flat, pw1) = lowerLeafStep ix c [] [] pw;
          (rest, pw2) = lower_children ix cs pw1
      in (flat # rest, pw2))"

text \<open>The part that \<open>lowerParallelStep\<close> and \<open>lowerForeachStep\<close> share, from \<open>SeqDependsOn\<close> to the gate.\<close>

definition lower_gate ::
  "step_index \<Rightarrow> step_fields \<Rightarrow> step_fields \<Rightarrow> string \<Rightarrow> string \<Rightarrow> pending \<Rightarrow> step_fields \<times> pending" where
  "lower_gate ix s out prevID inheritedCondition pw =
     (let o1 = (if prevID \<noteq> [] then out\<lparr>SeqDependsOn := [prevID]\<rparr> else out);
          (ownCond, pw1) = rewriteExpr ix (If s) pw;
          (fw, pw2) = (if RejectWhen s \<noteq> [] then rewriteExpr ix (RejectWhen s) pw1 else (FailWhen s, pw1));
          o2 = o1\<lparr>Condition := composeCond inheritedCondition ownCond, FailWhen := fw,
                  OnFail := lower_outcome s\<rparr>
      in (o2, autoWireMemory ix o2 pw2))"

definition lowerParallelStep ::
  "step_index \<Rightarrow> step_config \<Rightarrow> string \<Rightarrow> string \<Rightarrow> pending \<Rightarrow> lower_error + (step_config \<times> pending)" where
  "lowerParallelStep ix s prevID inheritedCondition pw =
     (if sid s = [] then Inl ParallelMissingID
      else
        let (out, pw1) = lower_gate ix (flds s)
              (zero_fields\<lparr>ID := sid s, Name := Name (flds s), Type := StepTypeParallel, Join := Join (flds s)\<rparr>)
              prevID inheritedCondition pw;
            (children, pw2) = lower_children ix (ParallelSteps s) pw1
        in Inr (Step out children [] None, pw2))"

definition drop_field :: "nat \<Rightarrow> string list \<Rightarrow> string" where
  "drop_field n parts = str_join ''.'' (drop n parts)"

definition parseForEachExpr :: "string \<Rightarrow> string \<times> string \<times> string" where
  "parseForEachExpr e =
     (let s = lowerExpr e; parts = split_on (CHR ''.'') s in
      if 2 \<le> length parts \<and> \<not> has_prefix s ''steps.'' \<and> \<not> has_prefix s ''memory.''
      then (''steps.'' @ hd parts @ ''.output.'' @ drop_field 1 parts, hd parts, drop_field 1 parts)
      else if 4 \<le> length parts \<and> hd parts = ''steps'' \<and> (parts ! 2 = ''output'' \<or> parts ! 2 = ''outputs'')
      then (''steps.'' @ parts ! 1 @ ''.output.'' @ drop_field 3 parts, parts ! 1, drop_field 3 parts)
      else (s, [], []))"

text \<open>\<open>lowerForeachStep\<close> up to its body.\<close>

definition lower_foreach_head ::
  "step_index \<Rightarrow> step_config \<Rightarrow> string \<Rightarrow> string \<Rightarrow> pending \<Rightarrow> step_fields \<times> pending" where
  "lower_foreach_head ix s prevID inheritedCondition pw =
     (let f = flds s;
          (out, pw1) = lower_gate ix f
            (zero_fields\<lparr>ID := ID f, Name := Name f, Type := StepTypeForeach, As := As f,
               Concurrency := Concurrency f, FailFast := FailFast f\<rparr>) prevID inheritedCondition pw;
          (itemsPath, stepID, field) = parseForEachExpr (ForEachExpr f);
          pw2 = (if stepID \<noteq> [] \<and> field \<noteq> [] then ensureMemoryWrite ix stepID field pw1 else pw1)
      in (out\<lparr>MaxItems := (if Max f > 0 then Max f else MaxItems f), Items := itemsPath\<rparr>, pw2))"

section \<open>Lowering a list\<close>

text \<open>
  \<open>lowerSteps\<close>, with the recursion of \<open>lowerForeachStep\<close> into a body of several steps written out
  (a body of one step is lowered as a leaf). The accumulated output comes first in the result.
\<close>

fun lowerSteps ::
  "step_index \<Rightarrow> step_config list \<Rightarrow> string \<Rightarrow> string \<Rightarrow> pending \<Rightarrow> lower_error + (step_config list \<times> pending)" where
  "lowerSteps ix [] prevID cond pw = Inr ([], pw)"
| "lowerSteps ix (Step f sub par inner # ss) prevID cond pw =
     (let s = Step f sub par inner;
          emit = (\<lambda>flat pw1. bind_res (lowerSteps ix ss (sid flat) cond pw1)
                               (\<lambda>(rest, pw2). Inr (flat # rest, pw2)))
      in if ForEachExpr f \<noteq> [] then
           (if ID f = [] then Inl ForeachMissingID
            else
              let (out, pw1) = lower_foreach_head ix s prevID cond pw in
              if length sub = 1 then
                (let (body, pw2) = lowerLeafStep ix (hd sub) [] [] pw1 in emit (Step out [] [] (Some body)) pw2)
              else if 1 < length sub then
                (case lowerSteps ix sub [] [] pw1 of
                   Inl e \<Rightarrow> Inl (InForeachBody (ID f) e)
                 | Inr (body, pw2) \<Rightarrow>
                     emit (Step out [] [] (Some (Step (zero_fields\<lparr>ID := ID f @ ''-body'', Type := StepTypeWorkflow\<rparr>)
                       body [] None))) pw2)
              else emit (Step out [] [] None) pw1)
         else if Type f = StepTypeParallel \<or> Type f = StepTypeForeach then
           (let g = (if prevID \<noteq> [] \<and> DependsOn f = [] \<and> SeqDependsOn f = [] then f\<lparr>SeqDependsOn := [prevID]\<rparr> else f)
            in emit (Step g sub par inner) pw)
         else if par \<noteq> [] then
           bind_res (lowerParallelStep ix s prevID cond pw) (\<lambda>(flat, pw1). emit flat pw1)
         else if sub \<noteq> [] then
           (let (ownCond, pw1) = rewriteExpr ix (If f) pw in
            bind_res (lowerSteps ix sub prevID (composeCond cond ownCond) pw1) (\<lambda>(children, pw2).
            bind_res (lowerSteps ix ss (if children \<noteq> [] then sid (last children) else prevID) cond pw2)
              (\<lambda>(rest, pw3). Inr (children @ rest, pw3))))
         else
           (let (flat, pw1) = lowerLeafStep ix s prevID cond pw in emit flat pw1))"

fun apply_writes :: "pending \<Rightarrow> step_config \<Rightarrow> step_config" where
  "apply_writes pw (Step f sub par inner) =
     (let fields = pending_of pw (ID f);
          f' = (if fields = [] then f
                else let m = (case Memory f of None \<Rightarrow> empty_memory | Some m \<Rightarrow> m)
                     in f\<lparr>Memory := Some (fold (\<lambda>x m. if x \<in> set (mc_Write m) then m
                                                      else m\<lparr>mc_Write := mc_Write m @ [x]\<rparr>) fields m)\<rparr>)
      in Step f' (map (apply_writes pw) sub) (map (apply_writes pw) par) (map_option (apply_writes pw) inner))"

section \<open>Sequencing and the pass\<close>

fun last_index :: "nat \<Rightarrow> string \<Rightarrow> step_config list \<Rightarrow> nat \<Rightarrow> nat" where
  "last_index i x [] acc = acc"
| "last_index i x (s # ss) acc = last_index (Suc i) x ss (if sid s = x then i else acc)"

definition branch_targets :: "(string \<Rightarrow> nat) \<Rightarrow> nat \<Rightarrow> step_config \<Rightarrow> (string \<rightharpoonup> string) \<Rightarrow> (string \<rightharpoonup> string)" where
  "branch_targets index i s m =
     (if StepType s \<noteq> StepTypeSplit then m
      else fold (\<lambda>b m. if sb_Goto b \<noteq> [] \<and> m (sb_Goto b) = None \<and> i < index (sb_Goto b)
                      then m(sb_Goto b \<mapsto> sid s) else m) (Branches (flds s)) m)"

fun split_for :: "(string \<Rightarrow> nat) \<Rightarrow> nat \<Rightarrow> step_config list \<Rightarrow> (string \<rightharpoonup> string) \<Rightarrow> (string \<rightharpoonup> string)" where
  "split_for index i [] m = m"
| "split_for index i (s # ss) m = split_for index (Suc i) ss (branch_targets index i s m)"

definition set_seq :: "string list \<Rightarrow> step_config \<Rightarrow> step_config" where
  "set_seq ds s = Step ((flds s)\<lparr>SeqDependsOn := ds\<rparr>) (SubSteps s) (ParallelSteps s) (InnerStep s)"

fun thread_seq :: "(string \<rightharpoonup> string) \<Rightarrow> string \<Rightarrow> step_config list \<Rightarrow> step_config list" where
  "thread_seq splitFor prevID [] = []"
| "thread_seq splitFor prevID (s # ss) =
     (if DependsOn (flds s) = [] \<and> SeqDependsOn (flds s) = [] then
        (case splitFor (sid s) of
           Some split \<Rightarrow> set_seq [split] s
         | None \<Rightarrow> if prevID \<noteq> [] then set_seq [prevID] s else s)
      else s) # thread_seq splitFor (if sid s \<noteq> [] then sid s else prevID) ss"

definition sequenceSteps :: "step_config list \<Rightarrow> step_config list" where
  "sequenceSteps steps =
     thread_seq (split_for (\<lambda>x. last_index 0 x steps 0) 0 steps Map.empty) [] steps"

fun anyV2Steps :: "step_config list \<Rightarrow> bool" where
  "anyV2Steps [] = False"
| "anyV2Steps (Step f sub par inner # ss) =
     (IsV2Step (Step f sub par inner) \<or> anyV2Steps sub \<or> anyV2Steps par \<or> anyV2Steps ss)"

definition LowerV2Workflow :: "workflow_config \<Rightarrow> lower_error + workflow_config" where
  "LowerV2Workflow w =
     (if \<not> anyV2Steps (wc_Steps w) then Inr (w\<lparr>wc_Steps := sequenceSteps (wc_Steps w)\<rparr>)
      else (case lowerSteps (buildStepIndex (wc_Steps w)) (wc_Steps w) [] [] [] of
              Inl e \<Rightarrow> Inl (InWorkflow (wc_ID w) e)
            | Inr (lowered, pw) \<Rightarrow> Inr (w\<lparr>wc_Steps := map (apply_writes pw) lowered\<rparr>)))"

section \<open>Conditions\<close>

lemma lowerExpr_strip: "lowerExpr = stripExprDelimiters"
  by (rule ext) (simp add: lowerExpr_def stripExprDelimiters_def)

lemma composeCond_conj_src:
  "trim_space a \<noteq> [] \<Longrightarrow> trim_space b \<noteq> [] \<Longrightarrow> composeCond a b = conj_src (trim_space a) (trim_space b)"
  by (simp add: composeCond_def conj_src_def Let_def)

lemma composeCond_empty [simp]:
  "composeCond [] b = trim_space b"
  "composeCond a [] = trim_space a"
  by (simp_all add: composeCond_def Let_def)

section \<open>Sequencing\<close>

lemma set_seq_simps [simp]:
  "sid (set_seq ds s) = sid s"
  "DependsOn (flds (set_seq ds s)) = DependsOn (flds s)"
  "SeqDependsOn (flds (set_seq ds s)) = ds"
  "Branches (flds (set_seq ds s)) = Branches (flds s)"
  "StepType (set_seq ds s) = StepType s"
  "SubSteps (set_seq ds s) = SubSteps s"
  "ParallelSteps (set_seq ds s) = ParallelSteps s"
  "IsV2Step (set_seq ds s) = IsV2Step s"
  by (simp_all add: set_seq_def StepType_def IsV2Step_def)

lemma branch_targets_set_seq [simp]: "branch_targets ix i (set_seq ds s) = branch_targets ix i s"
  by (simp add: branch_targets_def fun_eq_iff cong: if_cong)

definition seq_one :: "(string \<rightharpoonup> string) \<Rightarrow> string \<Rightarrow> step_config \<Rightarrow> step_config" where
  "seq_one splitFor prevID s =
     (if DependsOn (flds s) = [] \<and> SeqDependsOn (flds s) = [] then
        (case splitFor (sid s) of
           Some split \<Rightarrow> set_seq [split] s
         | None \<Rightarrow> if prevID \<noteq> [] then set_seq [prevID] s else s)
      else s)"

lemma thread_seq_Cons:
  "thread_seq m p (s # ss) = seq_one m p s # thread_seq m (if sid s \<noteq> [] then sid s else p) ss"
  by (simp add: seq_one_def)

declare thread_seq.simps(2) [simp del]
declare thread_seq_Cons [simp]

lemma seq_one_same [simp]:
  "sid (seq_one m p s) = sid s"
  "DependsOn (flds (seq_one m p s)) = DependsOn (flds s)"
  "branch_targets ix i (seq_one m p s) = branch_targets ix i s"
  "SubSteps (seq_one m p s) = SubSteps s"
  "ParallelSteps (seq_one m p s) = ParallelSteps s"
  "IsV2Step (seq_one m p s) = IsV2Step s"
  by (auto simp: seq_one_def split: option.split)

lemma seq_one_idem [simp]: "seq_one m p (seq_one m p s) = seq_one m p s"
  by (auto simp: seq_one_def split: option.split)

lemma thread_seq_ids: "map sid (thread_seq m p ss) = map sid ss"
  by (induction ss arbitrary: p) auto

lemma thread_seq_last_index: "last_index i x (thread_seq m p ss) acc = last_index i x ss acc"
  by (induction ss arbitrary: i p acc) auto

lemma thread_seq_split_for: "split_for ix i (thread_seq m p ss) m' = split_for ix i ss m'"
  by (induction ss arbitrary: i p m') auto

lemma thread_seq_idem: "thread_seq m p (thread_seq m p ss) = thread_seq m p ss"
  by (induction ss arbitrary: p) auto

lemma sequenceSteps_idem: "sequenceSteps (sequenceSteps ss) = sequenceSteps ss"
  by (simp add: sequenceSteps_def thread_seq_last_index thread_seq_split_for thread_seq_idem)

lemma anyV2Steps_Cons:
  "anyV2Steps (s # ss) = (IsV2Step s \<or> anyV2Steps (SubSteps s) \<or> anyV2Steps (ParallelSteps s) \<or> anyV2Steps ss)"
  by (cases s) simp

lemma thread_seq_anyV2: "anyV2Steps (thread_seq m p ss) = anyV2Steps ss"
  by (induction ss arbitrary: p) (auto simp: anyV2Steps_Cons)

subsection \<open>The edges that sequencing adds\<close>

lemma last_index_notin: "x \<notin> set (map sid ss) \<Longrightarrow> last_index i x ss acc = acc"
  by (induction ss arbitrary: i acc) auto

lemma last_index_nth:
  assumes "distinct (map sid ss)" "k < length ss"
  shows "last_index i (sid (ss ! k)) ss acc = i + k"
  using assms
proof (induction ss arbitrary: i k acc)
  case (Cons s ss)
  then show ?case by (cases k) (auto simp: last_index_notin)
qed simp

lemma split_for_earlier:
  assumes "\<And>x y. m x = Some y \<Longrightarrow> \<exists>k<index x. k < length (pre @ ss) \<and> y = sid ((pre @ ss) ! k)"
  shows "split_for index (length pre) ss m x = Some y
    \<Longrightarrow> \<exists>k<index x. k < length (pre @ ss) \<and> y = sid ((pre @ ss) ! k)"
  using assms
proof (induction ss arbitrary: pre m)
  case (Cons s ss)
  have "\<exists>k<index x. k < length (pre @ s # ss) \<and> y = sid ((pre @ s # ss) ! k)"
    if "branch_targets index (length pre) s m x = Some y" for x y
  proof -
    have "\<exists>k<index x. k < length (pre @ s # ss) \<and> y = sid ((pre @ s # ss) ! k)"
      if "fold (\<lambda>b m. if sb_Goto b \<noteq> [] \<and> m (sb_Goto b) = None \<and> length pre < index (sb_Goto b)
                      then m(sb_Goto b \<mapsto> sid s) else m) bs m' x = Some y"
        and "\<And>x y. m' x = Some y \<Longrightarrow> \<exists>k<index x. k < length (pre @ s # ss) \<and> y = sid ((pre @ s # ss) ! k)" for bs m'
      using that
    proof (induction bs arbitrary: m')
      case (Cons b bs)
      show ?case
      proof (rule Cons.IH)
        fix x y
        assume "(if sb_Goto b \<noteq> [] \<and> m' (sb_Goto b) = None \<and> length pre < index (sb_Goto b)
          then m'(sb_Goto b \<mapsto> sid s) else m') x = Some y"
        then show "\<exists>k<index x. k < length (pre @ s # ss) \<and> y = sid ((pre @ s # ss) ! k)"
          using Cons.prems(2) by (auto split: if_splits intro!: exI [of _ "length pre"])
      qed (use Cons.prems(1) in simp)
    qed simp
    then show ?thesis using that Cons.prems(2) by (auto simp: branch_targets_def split: if_splits)
  qed
  then show ?case using Cons.IH [of "pre @ [s]"] Cons.prems(1) by simp
qed simp

lemma thread_seq_nth:
  assumes "[] \<notin> set (map sid ss)" "i < length ss"
  shows "thread_seq m p ss ! i = seq_one m (if i = 0 then p else sid (ss ! (i - 1))) (ss ! i)"
  using assms
proof (induction ss arbitrary: i p)
  case (Cons s ss)
  then show ?case by (cases i) (auto simp: nth_Cons split: nat.splits)
qed simp

lemma length_thread_seq [simp]: "length (thread_seq m p ss) = length ss"
  by (induction ss arbitrary: p) auto

lemma length_sequenceSteps [simp]: "length (sequenceSteps ss) = length ss"
  by (simp add: sequenceSteps_def)

lemma sequenceSteps_ids: "map sid (sequenceSteps ss) = map sid ss"
  by (simp add: sequenceSteps_def thread_seq_ids)

lemma sequenceSteps_edge:
  assumes d: "distinct (map sid ss)" and n: "[] \<notin> set (map sid ss)" and i: "i < length ss"
    and free: "DependsOn (flds (ss ! i)) = []" "SeqDependsOn (flds (ss ! i)) = []"
  shows "DependsOn (flds (sequenceSteps ss ! i)) = []"
    and "i = 0 \<Longrightarrow> SeqDependsOn (flds (sequenceSteps ss ! i)) = []"
    and "0 < i \<Longrightarrow> \<exists>j<i. SeqDependsOn (flds (sequenceSteps ss ! i)) = [sid (ss ! j)]"
proof -
  let ?index = "\<lambda>x. last_index 0 x ss 0"
  define m where "m = split_for ?index 0 ss Map.empty"
  have nth: "sequenceSteps ss ! i = seq_one m (if i = 0 then [] else sid (ss ! (i - 1))) (ss ! i)"
    unfolding sequenceSteps_def m_def by (rule thread_seq_nth [OF n i])
  have sp: "\<exists>k<i. y = sid (ss ! k)" if "m (sid (ss ! i)) = Some y" for y
  proof -
    have "split_for ?index (length ([] :: step_config list)) ss Map.empty (sid (ss ! i)) = Some y"
      using that by (simp add: m_def)
    from split_for_earlier [OF _ this] show ?thesis using last_index_nth [OF d i, of 0 0] by auto
  qed
  show "DependsOn (flds (sequenceSteps ss ! i)) = []" using nth free by simp
  show "SeqDependsOn (flds (sequenceSteps ss ! i)) = []" if "i = 0"
  proof (cases "m (sid (ss ! i))")
    case None
    with nth free that show ?thesis by (simp add: seq_one_def)
  next
    case (Some y)
    with sp that show ?thesis by auto
  qed
  show "\<exists>j<i. SeqDependsOn (flds (sequenceSteps ss ! i)) = [sid (ss ! j)]" if "0 < i"
  proof (cases "m (sid (ss ! i))")
    case None
    have "sid (ss ! (i - 1)) \<in> set (map sid ss)" using i by simp
    then have "sid (ss ! (i - 1)) \<noteq> []" using n by metis
    with None nth free that have "SeqDependsOn (flds (sequenceSteps ss ! i)) = [sid (ss ! (i - 1))]"
      by (simp add: seq_one_def)
    with that show ?thesis by (intro exI [of _ "i - 1"]) simp
  next
    case (Some y)
    with sp obtain k where "k < i" "y = sid (ss ! k)" by blast
    with Some nth free show ?thesis by (auto simp: seq_one_def)
  qed
qed

lemma acyclic_by_index:
  assumes "\<And>a b. (a, b) \<in> R \<Longrightarrow> f b < (f a :: nat)"
  shows "acyclic R"
  by (rule acyclicI_order [of _ f]) (use assms in auto)

lemma sequenceSteps_acyclic:
  assumes d: "distinct (map sid ss)" and n: "[] \<notin> set (map sid ss)"
    and free: "\<forall>s\<in>set ss. DependsOn (flds s) = [] \<and> SeqDependsOn (flds s) = []"
  shows "acyclic (dep_pairs (sequenceSteps ss))"
proof (rule acyclic_by_index [where f = "\<lambda>x. last_index 0 x ss 0"])
  fix a b assume "(a, b) \<in> dep_pairs (sequenceSteps ss)"
  then obtain s where s: "s \<in> set (sequenceSteps ss)" "a = sid s" "b \<in> set (DependsOn (flds s) @ SeqDependsOn (flds s))"
    by (auto simp: dep_pairs_def)
  then obtain i where i: "i < length ss" "s = sequenceSteps ss ! i" by (auto simp: in_set_conv_nth)
  have fr: "DependsOn (flds (ss ! i)) = []" "SeqDependsOn (flds (ss ! i)) = []" using free i(1) by auto
  note e = sequenceSteps_edge [OF d n i(1) fr]
  from s(3) i(2) e(1,2) have "0 < i" by (cases "i = 0") auto
  with e(1,3) s(3) i(2) obtain j where j: "j < i" "b = sid (ss ! j)" by auto
  have "sid (sequenceSteps ss ! i) = sid (ss ! i)"
    using sequenceSteps_ids [of ss] i(1) by (metis length_sequenceSteps nth_map)
  then show "last_index 0 b ss 0 < last_index 0 a ss 0"
    using j s(2) i d by (simp add: last_index_nth)
qed

subsection \<open>Declared order is execution order\<close>

text \<open>Without split steps each step depends on the one declared before it.\<close>

lemma split_for_no_split:
  "\<forall>s\<in>set ss. StepType s \<noteq> StepTypeSplit \<Longrightarrow> split_for index i ss m = m"
  by (induction ss arbitrary: i m) (auto simp: branch_targets_def)

lemma sequenceSteps_pred:
  assumes n: "[] \<notin> set (map sid ss)" and i: "Suc i < length ss"
    and free: "DependsOn (flds (ss ! Suc i)) = []" "SeqDependsOn (flds (ss ! Suc i)) = []"
    and nosplit: "\<forall>s\<in>set ss. StepType s \<noteq> StepTypeSplit"
  shows "(sid (ss ! Suc i), sid (ss ! i)) \<in> dep_pairs (sequenceSteps ss)"
proof -
  have "sid (ss ! i) \<in> set (map sid ss)" using i by simp
  then have ne: "sid (ss ! i) \<noteq> []" using n by metis
  have "sequenceSteps ss ! Suc i = seq_one Map.empty (sid (ss ! i)) (ss ! Suc i)"
    unfolding sequenceSteps_def split_for_no_split [OF nosplit] using thread_seq_nth [OF n i] by simp
  then have "sid (sequenceSteps ss ! Suc i) = sid (ss ! Suc i)"
      "SeqDependsOn (flds (sequenceSteps ss ! Suc i)) = [sid (ss ! i)]"
    using free ne by (simp_all add: seq_one_def)
  moreover have "sequenceSteps ss ! Suc i \<in> set (sequenceSteps ss)" using i by simp
  ultimately show ?thesis
    using dep_pairsI [of "sequenceSteps ss ! Suc i" "sequenceSteps ss" "sid (ss ! i)"] by simp
qed

lemma sequenceSteps_order:
  assumes n: "[] \<notin> set (map sid ss)" and ij: "i < j" "j < length ss"
    and free: "\<forall>s\<in>set ss. DependsOn (flds s) = [] \<and> SeqDependsOn (flds s) = []"
    and nosplit: "\<forall>s\<in>set ss. StepType s \<noteq> StepTypeSplit"
  shows "(sid (ss ! j), sid (ss ! i)) \<in> (dep_pairs (sequenceSteps ss))\<^sup>+"
  using ij
proof (induction j)
  case (Suc j)
  have e: "(sid (ss ! Suc j), sid (ss ! j)) \<in> dep_pairs (sequenceSteps ss)"
    using Suc.prems(2) free by (intro sequenceSteps_pred [OF n]) (auto simp: nosplit)
  show ?case
  proof (cases "i = j")
    case True
    with e show ?thesis by auto
  next
    case False
    with Suc have "(sid (ss ! j), sid (ss ! i)) \<in> (dep_pairs (sequenceSteps ss))\<^sup>+" by simp
    with e show ?thesis by (rule trancl_into_trancl2)
  qed
qed simp

section \<open>Lowered steps carry no authored field\<close>

definition leaf_lowered :: "step_config \<Rightarrow> string \<Rightarrow> step_config \<Rightarrow> bool" where
  "leaf_lowered s prevID t \<longleftrightarrow>
     sid t = sid s \<and> Type (flds t) = Type (flds s) \<and> If (flds t) = [] \<and> RejectWhen (flds t) = []
     \<and> OnReject (flds t) = None \<and> Output (flds t) = None \<and> ForEachExpr (flds t) = ForEachExpr (flds s)
     \<and> SubSteps t = SubSteps s \<and> ParallelSteps t = ParallelSteps s
     \<and> (prevID \<noteq> [] \<longrightarrow> DependsOn (flds t) \<noteq> [] \<or> SeqDependsOn (flds t) = [prevID])"

lemma lower_parts_fields [simp]:
  "ID (lower_seq p f) = ID f" "Type (lower_seq p f) = Type f" "ForEachExpr (lower_seq p f) = ForEachExpr f"
  "DependsOn (lower_seq p f) = DependsOn f" "RejectWhen (lower_seq p f) = RejectWhen f"
  "ID (lower_output f) = ID f" "Type (lower_output f) = Type f" "ForEachExpr (lower_output f) = ForEachExpr f"
  "DependsOn (lower_output f) = DependsOn f" "SeqDependsOn (lower_output f) = SeqDependsOn f"
  "Output (lower_output f) = None" "RejectWhen (lower_output f) = RejectWhen f"
  "ID (lower_max f) = ID f" "Type (lower_max f) = Type f" "ForEachExpr (lower_max f) = ForEachExpr f"
  "DependsOn (lower_max f) = DependsOn f" "SeqDependsOn (lower_max f) = SeqDependsOn f"
  "Output (lower_max f) = Output f" "If (lower_max f) = If f" "RejectWhen (lower_max f) = RejectWhen f"
  "OnReject (lower_max f) = OnReject f"
  by (simp_all add: lower_seq_def lower_output_def lower_max_def)

lemma lower_reject_fields:
  assumes "lower_reject ix f pw = (g, pw')"
  shows "ID g = ID f" "Type g = Type f" "ForEachExpr g = ForEachExpr f" "DependsOn g = DependsOn f"
    "SeqDependsOn g = SeqDependsOn f" "Output g = Output f" "If g = If f" "RejectWhen g = []" "OnReject g = None"
  using assms by (auto simp: lower_reject_def Let_def split: prod.splits if_splits)

lemma lowerLeafStep_lowered: "leaf_lowered s prevID (fst (lowerLeafStep ix s prevID cond pw))"
proof -
  let ?f1 = "lower_output (lower_seq prevID (flds s))"
  obtain own pw1 where o: "rewriteExpr ix (If ?f1) pw = (own, pw1)" by fastforce
  obtain f2 pw2 where f2: "lower_reject ix (?f1\<lparr>Condition := composeCond cond own, If := []\<rparr>) pw1 = (f2, pw2)"
    by fastforce
  have "fst (lowerLeafStep ix s prevID cond pw)
      = Step (lower_max f2) (SubSteps s) (ParallelSteps s) (InnerStep s)"
    by (simp add: lowerLeafStep_def o f2)
  then show ?thesis using lower_reject_fields [OF f2]
    by (auto simp: leaf_lowered_def lower_seq_def)
qed

lemma lower_gate_fields:
  "lower_gate ix s out prevID cond pw = (f, pw') \<Longrightarrow>
     ID f = ID out \<and> Type f = Type out \<and> If f = If out \<and> RejectWhen f = RejectWhen out
     \<and> OnReject f = OnReject out \<and> Output f = Output out \<and> ForEachExpr f = ForEachExpr out
     \<and> (prevID \<noteq> [] \<longrightarrow> SeqDependsOn f = [prevID])"
  by (auto simp: lower_gate_def Let_def split: prod.splits if_splits)

text \<open>
  Authored steps as validation accepts them: the two types only the pass emits do not occur, and
  the children of a \<open>parallel:\<close> group are plain.
\<close>

definition plain_child :: "step_config \<Rightarrow> bool" where
  "plain_child c \<longleftrightarrow> SubSteps c = [] \<and> ParallelSteps c = [] \<and> ForEachExpr (flds c) = []"

fun authored_ok :: "step_config list \<Rightarrow> bool" where
  "authored_ok [] = True"
| "authored_ok (Step f sub par inner # ss) \<longleftrightarrow>
     Type f \<noteq> StepTypeParallel \<and> Type f \<noteq> StepTypeForeach \<and> list_all plain_child par
     \<and> authored_ok sub \<and> authored_ok ss"

fun chained :: "string \<Rightarrow> step_config list \<Rightarrow> bool" where
  "chained p [] = True"
| "chained p (s # ss) \<longleftrightarrow>
     (p \<noteq> [] \<longrightarrow> DependsOn (flds s) \<noteq> [] \<or> SeqDependsOn (flds s) \<noteq> []) \<and> chained (sid s) ss"

lemma chained_append:
  "chained p (xs @ ys) \<longleftrightarrow> chained p xs \<and> chained (if xs = [] then p else sid (last xs)) ys"
  by (induction xs arbitrary: p) auto

lemma anyV2Steps_append: "anyV2Steps (xs @ ys) = (anyV2Steps xs \<or> anyV2Steps ys)"
  by (induction xs) (auto simp: anyV2Steps_Cons)

lemma leaf_not_v2:
  assumes "leaf_lowered s p t" "plain_child s"
  shows "\<not> anyV2Steps [t]"
  using assms by (simp add: leaf_lowered_def plain_child_def anyV2Steps_Cons IsV2Step_def)

lemma lower_children_not_v2:
  "list_all plain_child cs \<Longrightarrow> \<not> anyV2Steps (fst (lower_children ix cs pw))"
proof (induction cs arbitrary: pw)
  case (Cons c cs)
  obtain flat pw1 where l: "lowerLeafStep ix c [] [] pw = (flat, pw1)" by fastforce
  obtain rest pw2 where r: "lower_children ix cs pw1 = (rest, pw2)" by fastforce
  have "\<not> anyV2Steps [flat]"
    using leaf_not_v2 [OF lowerLeafStep_lowered, of c ix "[]" "[]" pw] Cons.prems l by simp
  moreover have "\<not> anyV2Steps rest" using Cons.IH [of pw1] Cons.prems r by simp
  ultimately show ?case using l r by (simp add: anyV2Steps_Cons)
qed simp

lemma lowerParallelStep_ok:
  assumes "lowerParallelStep ix s p cond pw = Inr (flat, pw')" "list_all plain_child (ParallelSteps s)"
  shows "\<not> anyV2Steps [flat]" "p \<noteq> [] \<Longrightarrow> SeqDependsOn (flds flat) = [p]" "sid flat = sid s"
proof -
  obtain out pw1 where o: "lower_gate ix (flds s)
      (zero_fields\<lparr>ID := sid s, Name := Name (flds s), Type := StepTypeParallel, Join := Join (flds s)\<rparr>)
      p cond pw = (out, pw1)" by fastforce
  obtain ch pw2 where ch: "lower_children ix (ParallelSteps s) pw1 = (ch, pw2)" by fastforce
  have flat: "flat = Step out ch [] None"
    using assms(1) o ch by (auto simp: lowerParallelStep_def split: if_splits)
  note f = lower_gate_fields [OF o]
  have "\<not> anyV2Steps ch" using lower_children_not_v2 [OF assms(2), of ix pw1] ch by simp
  then show "\<not> anyV2Steps [flat]" using f flat by (simp add: IsV2Step_def)
  show "p \<noteq> [] \<Longrightarrow> SeqDependsOn (flds flat) = [p]" "sid flat = sid s" using f flat by simp_all
qed

lemma lower_foreach_head_fields:
  assumes "lower_foreach_head ix s p cond pw = (out, pw')"
  shows "ID out = sid s" "Type out = StepTypeForeach" "If out = []" "RejectWhen out = []" "OnReject out = None"
    "Output out = None" "ForEachExpr out = []" "p \<noteq> [] \<Longrightarrow> SeqDependsOn out = [p]"
proof -
  obtain o1 pw1 where o: "lower_gate ix (flds s)
      (zero_fields\<lparr>ID := sid s, Name := Name (flds s), Type := StepTypeForeach, As := As (flds s),
         Concurrency := Concurrency (flds s), FailFast := FailFast (flds s)\<rparr>) p cond pw = (o1, pw1)" by fastforce
  have "\<exists>mi it. out = o1\<lparr>MaxItems := mi, Items := it\<rparr>"
    using assms o by (auto simp: lower_foreach_head_def Let_def split: prod.splits)
  with lower_gate_fields [OF o]
  show "ID out = sid s" "Type out = StepTypeForeach" "If out = []" "RejectWhen out = []" "OnReject out = None"
    "Output out = None" "ForEachExpr out = []" "p \<noteq> [] \<Longrightarrow> SeqDependsOn out = [p]"
    by (auto simp: zero_fields_def)
qed

text \<open>The result of a list, by the branch its first step takes.\<close>

lemma lowerSteps_Cons_cases:
  assumes "lowerSteps ix (Step f sub par inner # ss) p cond pw = Inr (out, pw')"
    and ty: "Type f \<noteq> StepTypeParallel" "Type f \<noteq> StepTypeForeach"
  obtains (emit) flat pw1 rest where "lowerSteps ix ss (sid flat) cond pw1 = Inr (rest, pw')" "out = flat # rest"
      "(\<exists>hd pw0 pw2 bd. lower_foreach_head ix (Step f sub par inner) p cond pw0 = (hd, pw2) \<and> flat = Step hd [] [] bd)
       \<or> (\<exists>pw2. lowerParallelStep ix (Step f sub par inner) p cond pw = Inr (flat, pw2))
       \<or> ForEachExpr f = [] \<and> par = [] \<and> sub = [] \<and> leaf_lowered (Step f sub par inner) p flat"
  | (group) c pw1 pw2 children rest where "lowerSteps ix sub p c pw1 = Inr (children, pw2)"
      "lowerSteps ix ss (if children \<noteq> [] then sid (last children) else p) cond pw2 = Inr (rest, pw')"
      "out = children @ rest"
proof (cases "ForEachExpr f = []")
  case False
  obtain hd pw1 where h: "lower_foreach_head ix (Step f sub par inner) p cond pw = (hd, pw1)" by fastforce
  have "\<exists>bd pw2 rest. lowerSteps ix ss (sid (Step hd [] [] bd)) cond pw2 = Inr (rest, pw') \<and> out = Step hd [] [] bd # rest"
    using assms(1) False h
    by (auto simp: Let_def bind_res_Inr_iff split: if_splits prod.splits sum.splits)
  then show ?thesis using emit h by blast
next
  case True
  show ?thesis
  proof (cases "par = []")
    case par: False
    then show ?thesis using assms True emit
      by (auto simp: Let_def bind_res_Inr_iff)
  next
    case par: True
    show ?thesis
    proof (cases "sub = []")
      case sub: True
      obtain flat pw1 where l: "lowerLeafStep ix (Step f sub par inner) p cond pw = (flat, pw1)" by fastforce
      have "leaf_lowered (Step f sub par inner) p flat" using lowerLeafStep_lowered l by (metis fst_conv)
      with l assms True par sub emit show ?thesis by (auto simp: Let_def bind_res_Inr_iff)
    next
      case False
      then show ?thesis using assms True par group
        by (auto simp: Let_def bind_res_Inr_iff split: prod.splits)
    qed
  qed
qed

lemma lowerSteps_ok:
  "lowerSteps ix ss p cond pw = Inr (out, pw') \<Longrightarrow> authored_ok ss \<Longrightarrow> \<not> anyV2Steps out \<and> chained p out"
proof (induction "size_list size ss" arbitrary: ss p cond pw out pw' rule: less_induct)
  case less
  show ?case
  proof (cases ss)
    case Nil
    with less.prems show ?thesis by simp
  next
    case (Cons s ss')
    obtain f sub par inner where s: "s = Step f sub par inner" by (cases s)
    have ok: "authored_ok ss'" "authored_ok sub" "list_all plain_child par"
        "Type f \<noteq> StepTypeParallel" "Type f \<noteq> StepTypeForeach"
      using less.prems(2) Cons s by auto
    have sz: "size_list size ss' < size_list size ss" "size_list size sub < size_list size ss"
      using Cons s by auto
    have pr: "lowerSteps ix (Step f sub par inner # ss') p cond pw = Inr (out, pw')"
      using less.prems(1) Cons s by simp
    from pr ok(4,5) show ?thesis
    proof (cases rule: lowerSteps_Cons_cases)
      case (emit flat pw1 rest)
      have "\<not> anyV2Steps [flat] \<and> (p \<noteq> [] \<longrightarrow> DependsOn (flds flat) \<noteq> [] \<or> SeqDependsOn (flds flat) \<noteq> [])"
        using emit(3)
      proof (elim disjE exE conjE)
        fix hd pw0 pw2 bd
        assume a: "lower_foreach_head ix (Step f sub par inner) p cond pw0 = (hd, pw2)" "flat = Step hd [] [] bd"
        show ?thesis using lower_foreach_head_fields [OF a(1)] a(2)
          by (auto simp: IsV2Step_def)
      next
        fix pw2 assume a: "lowerParallelStep ix (Step f sub par inner) p cond pw = Inr (flat, pw2)"
        show ?thesis using lowerParallelStep_ok [OF a] ok(3) by simp
      next
        assume a: "ForEachExpr f = []" "par = []" "sub = []" "leaf_lowered (Step f sub par inner) p flat"
        then show ?thesis using leaf_not_v2 [OF a(4)] by (auto simp: plain_child_def leaf_lowered_def)
      qed
      moreover have "\<not> anyV2Steps rest \<and> chained (sid flat) rest" by (rule less.hyps [OF sz(1) emit(1) ok(1)])
      ultimately show ?thesis using emit(2) by (auto simp: anyV2Steps_Cons)
    next
      case (group c pw1 pw2 children rest)
      have "\<not> anyV2Steps children \<and> chained p children" by (rule less.hyps [OF sz(2) group(1) ok(2)])
      moreover have "\<not> anyV2Steps rest \<and> chained (if children \<noteq> [] then sid (last children) else p) rest"
        by (rule less.hyps [OF sz(1) group(2) ok(1)])
      ultimately show ?thesis using group(3) by (auto simp: anyV2Steps_append chained_append)
    qed
  qed
qed

section \<open>Staged writes and idempotence\<close>

lemma apply_writes_same [simp]:
  "sid (apply_writes pw s) = sid s"
  "DependsOn (flds (apply_writes pw s)) = DependsOn (flds s)"
  "SeqDependsOn (flds (apply_writes pw s)) = SeqDependsOn (flds s)"
  "IsV2Step (apply_writes pw s) = IsV2Step s"
  by (cases s; simp add: Let_def IsV2Step_def)+

lemma apply_writes_anyV2: "anyV2Steps (map (apply_writes pw) ss) = anyV2Steps ss"
proof (induction ss rule: anyV2Steps.induct)
  case (2 f sub par inner ss)
  have "SubSteps (apply_writes pw (Step f sub par inner)) = map (apply_writes pw) sub"
    "ParallelSteps (apply_writes pw (Step f sub par inner)) = map (apply_writes pw) par"
    by (simp_all add: Let_def)
  with 2 show ?case by (simp add: anyV2Steps_Cons del: apply_writes.simps)
qed simp

lemma apply_writes_chained: "chained p (map (apply_writes pw) ss) = chained p ss"
  by (induction ss arbitrary: p) auto

lemma chained_thread_seq:
  assumes "chained p ss" "[] \<notin> set (map sid ss)" "p = [] \<Longrightarrow> ss \<noteq> [] \<Longrightarrow> m (sid (hd ss)) = None"
  shows "thread_seq m p ss = ss"
  using assms
proof (induction ss arbitrary: p)
  case (Cons s ss)
  have "seq_one m p s = s" using Cons.prems by (cases "p = []") (auto simp: seq_one_def)
  moreover have "thread_seq m (sid s) ss = ss" using Cons.prems by (intro Cons.IH) auto
  moreover have "sid s \<noteq> []" using Cons.prems(2) by auto
  ultimately show ?case by simp
qed simp

lemma split_for_first:
  assumes "distinct (map sid ss)" "ss \<noteq> []"
  shows "split_for (\<lambda>x. last_index 0 x ss 0) 0 ss Map.empty (sid (hd ss)) = None"
proof (rule ccontr)
  let ?index = "\<lambda>x. last_index 0 x ss 0"
  assume "split_for ?index 0 ss Map.empty (sid (hd ss)) \<noteq> None"
  then obtain y where "split_for ?index (length ([] :: step_config list)) ss Map.empty (sid (hd ss)) = Some y"
    by auto
  from split_for_earlier [OF _ this] have "0 < ?index (sid (hd ss))" by auto
  then show False using last_index_nth [OF assms(1), of 0 0 0] assms(2) by (simp add: hd_conv_nth)
qed

lemma chained_sequenceSteps:
  assumes "chained [] ss" "distinct (map sid ss)" "[] \<notin> set (map sid ss)"
  shows "sequenceSteps ss = ss"
  unfolding sequenceSteps_def using assms split_for_first by (intro chained_thread_seq) auto

lemma LowerV2Workflow_idem:
  assumes low: "LowerV2Workflow w = Inr w'" and ok: "anyV2Steps (wc_Steps w) \<Longrightarrow> authored_ok (wc_Steps w)"
    and ids: "distinct (map sid (wc_Steps w'))" "[] \<notin> set (map sid (wc_Steps w'))"
  shows "LowerV2Workflow w' = Inr w'"
proof (cases "anyV2Steps (wc_Steps w)")
  case False
  with low have w': "w' = w\<lparr>wc_Steps := sequenceSteps (wc_Steps w)\<rparr>" by (simp add: LowerV2Workflow_def)
  with False have "\<not> anyV2Steps (wc_Steps w')" by (simp add: sequenceSteps_def thread_seq_anyV2)
  with w' show ?thesis by (simp add: LowerV2Workflow_def sequenceSteps_idem)
next
  case True
  then obtain lowered pw where l: "lowerSteps (buildStepIndex (wc_Steps w)) (wc_Steps w) [] [] [] = Inr (lowered, pw)"
      "w' = w\<lparr>wc_Steps := map (apply_writes pw) lowered\<rparr>"
    using low by (auto simp: LowerV2Workflow_def split: sum.splits)
  from lowerSteps_ok [OF l(1) ok [OF True]] have "\<not> anyV2Steps (wc_Steps w')" "chained [] (wc_Steps w')"
    using l(2) by (simp_all add: apply_writes_anyV2 apply_writes_chained)
  with ids chained_sequenceSteps show ?thesis by (simp add: LowerV2Workflow_def)
qed

section \<open>Rewriting references\<close>

lemma rewriteStepRefs_no_index: "rewriteStepRefs [] s pw = (s, pw)"
proof (induction "[] :: step_index" s pw rule: rewriteStepRefs.induct)
  case (2 c cs pw)
  have nk: "\<not> known_step [] w" for w by (simp add: known_step_def)
  show ?case using 2 by (auto simp: nk Let_def)
qed simp

lemma takeWhile_word:
  "list_all P xs \<Longrightarrow> s = [] \<or> \<not> P (hd s) \<Longrightarrow> takeWhile P (xs @ s) = xs \<and> dropWhile P (xs @ s) = s"
  by (induction xs) (cases s; auto)+

text \<open>One identifier at the front of the expression.\<close>

lemma rewriteStepRefs_word:
  assumes w: "w \<noteq> []" "list_all isIdentRune w" and s: "s = [] \<or> \<not> isIdentRune (hd s)"
  shows "rewriteStepRefs ix (w @ s) pw =
    (let word2 = (if s \<noteq> [] \<and> hd s = CHR ''.'' then takeWhile isIdentRune (tl s) else []) in
     if word2 \<noteq> [] \<and> known_step ix w then
       (let (out, pw') = rewriteStepRefs ix (dropWhile isIdentRune (tl s)) (ensureMemoryWrite ix w word2 pw)
        in (''memory.'' @ word2 @ out, pw'))
     else (let (out, pw') = rewriteStepRefs ix s pw in (w @ out, pw')))"
proof -
  obtain c cs where c: "w = c # cs" using w(1) by (cases w) auto
  with w(2) have i: "isIdentRune c" "list_all isIdentRune cs" by auto
  note tw = takeWhile_word [OF i(2) s]
  show ?thesis using c i(1) tw by (simp add: Let_def)
qed

lemma dot_not_ident: "\<not> isIdentRune (CHR ''.'')"
  by (simp add: isIdentRune_def)

lemma rewriteStepRefs_dot: "rewriteStepRefs ix (CHR ''.'' # s) pw =
    (let (out, pw') = rewriteStepRefs ix s pw in (CHR ''.'' # out, pw'))"
  by (simp add: dot_not_ident)

lemma rewrite_known:
  assumes "known_step ix w" "w \<noteq> []" "list_all isIdentRune w" "v \<noteq> []" "list_all isIdentRune v"
    and "s = [] \<or> \<not> isIdentRune (hd s)"
  shows "rewriteStepRefs ix (w @ ''.'' @ v @ s) pw =
    (let (out, pw') = rewriteStepRefs ix s (ensureMemoryWrite ix w v pw) in (''memory.'' @ v @ out, pw'))"
  using assms takeWhile_word [OF assms(5,6)] dot_not_ident
  by (simp add: rewriteStepRefs_word Let_def)

lemma rewrite_steps_accessor:
  assumes "\<not> known_step ix ''steps''"
    and "known_step ix w" "w \<noteq> []" "list_all isIdentRune w" "v \<noteq> []" "list_all isIdentRune v"
    and "s = [] \<or> \<not> isIdentRune (hd s)"
  shows "fst (rewriteStepRefs ix (''steps.'' @ w @ ''.'' @ v @ s) pw) =
    ''steps.memory.'' @ v @ fst (rewriteStepRefs ix s (ensureMemoryWrite ix w v pw))"
proof -
  let ?r = "w @ ''.'' @ v @ s"
  have "list_all isIdentRune ''steps''" by (simp add: isIdentRune_def)
  then have "rewriteStepRefs ix (''steps'' @ CHR ''.'' # ?r) pw =
      (let (out, pw') = rewriteStepRefs ix (CHR ''.'' # ?r) pw in (''steps'' @ out, pw'))"
    using assms(1) dot_not_ident by (subst rewriteStepRefs_word) (auto simp: Let_def)
  then show ?thesis
    using rewrite_known [OF assms(2-7)] by (simp add: rewriteStepRefs_dot split: prod.splits del: rewriteStepRefs.simps)
qed

end
