(* ===== verification/Config_Properties.thy ===== *)
theory Config_Properties
  imports Lowering
begin

text \<open>
  The properties of the configuration layer: what a validated step graph guarantees, and what lowering
  and implicit sequencing do to a workflow.
\<close>

section \<open>Examples\<close>

definition ex_step :: "string \<Rightarrow> string list \<Rightarrow> step_config" where
  "ex_step i deps = Step (zero_fields\<lparr>ID := i, DependsOn := deps\<rparr>) [] [] None"

definition ex_retry :: step_config where
  "ex_retry = Step (zero_fields\<lparr>ID := ''c'', DependsOn := [''b''],
     OnFail := Some \<lparr>so_Goto = ''a'', so_MaxRetries = 2\<rparr>\<rparr>) [] [] None"

definition ex_steps3 :: "step_config list" where
  "ex_steps3 = [ex_step ''a'' [], ex_step ''b'' [''a''], ex_retry]"

definition ex_plain :: "step_config list" where
  "ex_plain = [ex_step ''a'' [], ex_step ''b'' [], ex_step ''c'' []]"

definition ex_v2 :: workflow_config where
  "ex_v2 = \<lparr>wc_ID = ''w'', wc_Steps =
     [Step (zero_fields\<lparr>ID := ''classify''\<rparr>) [] [] None,
      Step (zero_fields\<lparr>ID := ''build'', If := ''${{ classify.track == 1 }}''\<rparr>) [] [] None]\<rparr>"

section \<open>Step graphs\<close>

text \<open>
  The coloured depth-first search of \<open>findCycle\<close> reports no cycle exactly when the
  edge relation has none, and its recursion always fits the fuel of one unit per step and one more.
\<close>

theorem cycle_detection_exact:
  assumes "edge_rel adj \<subseteq> set (map sid steps) \<times> set (map sid steps)" and "[] \<notin> set (map sid steps)"
  shows "findCycle steps adj \<noteq> None \<and> (findCycle steps adj = Some [] \<longleftrightarrow> acyclic (edge_rel adj))"
  by (rule findCycle_correct [OF assms]) (auto simp: acyclic_def)

theorem cycle_detection_exact_witness:
  "findCycle ex_steps3 [(''a'', [''b'']), (''b'', [''a''])] = Some ''a''
   \<and> \<not> acyclic (edge_rel [(''a'', [''b'']), (''b'', [''a''])])"
proof -
  have "edge_rel [(''a'', [''b'']), (''b'', [''a''])] \<subseteq> set (map sid ex_steps3) \<times> set (map sid ex_steps3)"
    by (auto simp: edge_rel_def targets_def ex_steps3_def ex_step_def ex_retry_def split: if_splits)
  moreover have "[] \<notin> set (map sid ex_steps3)" by code_simp
  moreover have c: "findCycle ex_steps3 [(''a'', [''b'']), (''b'', [''a''])] = Some ''a''" by code_simp
  ultimately show ?thesis using cycle_detection_exact [of "[(''a'', [''b'']), (''b'', [''a''])]" ex_steps3] by simp
qed

text \<open>
  The breadth-first search \<open>isAncestor\<close> decides the transitive closure of the
  dependency edges.
\<close>

theorem ancestor_search_exact: "isAncestor node candidate deps \<longleftrightarrow> (node, candidate) \<in> (edge_rel deps)\<^sup>+"
  by (rule isAncestor_iff)

text \<open>
  A step list accepted by \<open>validateStepGraph\<close> has only dependencies on existing other steps,
  no dependency cycle, and every retry edge (\<open>on_fail\<close> or \<open>on_conflict\<close>) that names a step leads
  back to a transitive dependency of the step that carries it.
\<close>

theorem validated_graph:
  assumes "validateStepGraph steps (\<lambda>x. x \<in> set (map sid steps)) = []" and "[] \<notin> set (map sid steps)"
  shows "(\<forall>(s, d)\<in>dep_pairs steps. d \<in> set (map sid steps) \<and> d \<noteq> s)
    \<and> acyclic (dep_pairs steps)
    \<and> (\<forall>s\<in>set steps. \<forall>out. OnFail (flds s) = Some out \<or> OnConflict (flds s) = Some out \<longrightarrow>
         so_Goto out \<in> set (map sid steps) \<longrightarrow> dep_pairs steps \<noteq> {} \<longrightarrow> (sid s, so_Goto out) \<in> (dep_pairs steps)\<^sup>+)"
  using validateStepGraph_Nil(1,2) [OF refl assms(2,1)] validated_goto [OF refl assms(2,1)] by blast

theorem validated_graph_witness: "acyclic (dep_pairs ex_steps3) \<and> (''c'', ''a'') \<in> (dep_pairs ex_steps3)\<^sup>+"
proof -
  have v: "validateStepGraph ex_steps3 (\<lambda>x. x \<in> set (map sid ex_steps3)) = []" and n: "[] \<notin> set (map sid ex_steps3)"
    by code_simp+
  have r: "ex_retry \<in> set ex_steps3" and i: "sid ex_retry = ''c''"
    and o: "OnFail (flds ex_retry) = Some \<lparr>so_Goto = ''a'', so_MaxRetries = 2\<rparr>"
    by (simp_all add: ex_steps3_def ex_retry_def)
  have t: "''a'' \<in> set (map sid ex_steps3)" by code_simp
  have "(''c'', ''b'') \<in> dep_pairs ex_steps3"
    using dep_pairsI [of ex_retry ex_steps3 "''b''"] by (simp add: ex_retry_def ex_steps3_def)
  then have ne: "dep_pairs ex_steps3 \<noteq> {}" by blast
  note g = validated_graph [OF v n]
  have "(sid ex_retry, so_Goto \<lparr>so_Goto = ''a'', so_MaxRetries = 2\<rparr>) \<in> (dep_pairs ex_steps3)\<^sup>+"
    using g [THEN conjunct2, THEN conjunct2, rule_format, OF r disjI1, OF o] t ne by simp
  with i g show ?thesis by simp
qed

section \<open>Lowering\<close>

text \<open>
  A guard composed from two guards means their conjunction: the composed text parses, and
  its value is the first guard's error or false, else the second guard's result.
\<close>

theorem guard_conjunction:
  assumes "ParseExpr (trim_space a) = Inr ea" and "ParseExpr (trim_space b) = Inr eb"
    and "trim_space a \<noteq> []" and "trim_space b \<noteq> []"
  shows "\<exists>e. ParseExpr (composeCond a b) = Inr e \<and>
    Eval re e ctx = bind_res (Eval re ea ctx) (\<lambda>x. if x then Eval re eb ctx else Inr False)"
  using ParseExpr_conj_src [OF assms(1,2)] composeCond_conj_src [OF assms(3,4)]
  by (auto simp: Eval_def intro!: arg_cong2 [where f = bind_res])

theorem guard_conjunction_witness:
  "\<exists>e. ParseExpr (composeCond ''memory.a == 1'' ''memory.b == 2 or memory.c == 3'') = Inr e"
proof -
  obtain ea eb where "ParseExpr (trim_space ''memory.a == 1'') = Inr ea"
    "ParseExpr (trim_space ''memory.b == 2 or memory.c == 3'') = Inr eb"
  proof -
    have "\<not> isl (ParseExpr (trim_space ''memory.a == 1''))"
      "\<not> isl (ParseExpr (trim_space ''memory.b == 2 or memory.c == 3''))" by code_simp+
    then show thesis using that
      by (cases "ParseExpr (trim_space ''memory.a == 1'')"; cases "ParseExpr (trim_space ''memory.b == 2 or memory.c == 3'')") auto
  qed
  moreover have "trim_space ''memory.a == 1'' \<noteq> []" "trim_space ''memory.b == 2 or memory.c == 3'' \<noteq> []" by code_simp+
  ultimately show ?thesis using guard_conjunction by blast
qed

text \<open>
  Lowering is idempotent: the output of \<open>LowerV2Workflow\<close> is its own lowering, given
  distinct non-empty step ids and that no authored step already carries a lowered group type.
\<close>

theorem lowering_idempotent:
  assumes "LowerV2Workflow w = Inr w'" and "anyV2Steps (wc_Steps w) \<Longrightarrow> authored_ok (wc_Steps w)"
    and "distinct (map sid (wc_Steps w'))" "[] \<notin> set (map sid (wc_Steps w'))"
  shows "LowerV2Workflow w' = Inr w'"
  using assms by (rule LowerV2Workflow_idem)

theorem lowering_idempotent_witness:
  "\<exists>w'. LowerV2Workflow ex_v2 = Inr w' \<and> w' \<noteq> ex_v2 \<and> LowerV2Workflow w' = Inr w'"
proof -
  have "\<not> isl (LowerV2Workflow ex_v2)" by code_simp
  then obtain w' where w': "LowerV2Workflow ex_v2 = Inr w'" by (cases "LowerV2Workflow ex_v2") auto
  then have p: "w' = projr (LowerV2Workflow ex_v2)" by simp
  have "distinct (map sid (wc_Steps w'))" "[] \<notin> set (map sid (wc_Steps w'))" "w' \<noteq> ex_v2" unfolding p by code_simp+
  moreover have "authored_ok (wc_Steps ex_v2)" by code_simp
  ultimately show ?thesis using lowering_idempotent [OF w'] w' by blast
qed

text \<open>
  In a workflow with neither declared dependencies nor splits, implicit sequencing makes
  declaration order execution order: each step transitively depends on every earlier one, and the
  dependency relation stays acyclic.
\<close>

theorem sequencing_order:
  assumes "distinct (map sid ss)" and "[] \<notin> set (map sid ss)"
    and "\<forall>s\<in>set ss. DependsOn (flds s) = [] \<and> SeqDependsOn (flds s) = []"
    and "\<forall>s\<in>set ss. StepType s \<noteq> StepTypeSplit"
  shows "acyclic (dep_pairs (sequenceSteps ss)) \<and>
    (\<forall>i j. i < j \<longrightarrow> j < length ss \<longrightarrow> (sid (ss ! j), sid (ss ! i)) \<in> (dep_pairs (sequenceSteps ss))\<^sup>+)"
  using sequenceSteps_acyclic [OF assms(1-3)] sequenceSteps_order [OF assms(2) _ _ assms(3,4)] by blast

theorem sequencing_order_witness: "(''c'', ''a'') \<in> (dep_pairs (sequenceSteps ex_plain))\<^sup>+"
proof -
  have d: "distinct (map sid ex_plain)" "[] \<notin> set (map sid ex_plain)" by code_simp+
  have f: "\<forall>s\<in>set ex_plain. DependsOn (flds s) = [] \<and> SeqDependsOn (flds s) = []"
    "\<forall>s\<in>set ex_plain. StepType s \<noteq> StepTypeSplit" by code_simp+
  have "(sid (ex_plain ! 2), sid (ex_plain ! 0)) \<in> (dep_pairs (sequenceSteps ex_plain))\<^sup>+"
    using sequencing_order [OF d f, THEN conjunct2, rule_format, of 0 2] by (simp add: ex_plain_def)
  moreover have "sid (ex_plain ! 2) = ''c''" "sid (ex_plain ! 0) = ''a''" by code_simp+
  ultimately show ?thesis by simp
qed

text \<open>
  Rewriting turns the shorthand \<open><step>.<field>\<close> into \<open>memory.<field>\<close>, but it applies the
  same rule inside the explicit accessor: \<open>steps.<step>.<field>\<close> becomes \<open>steps.memory.<field>\<close>, which the
  evaluator reads as the state of a step called memory.
\<close>

theorem steps_accessor_rewritten:
  assumes "\<not> known_step ix ''steps''"
    and "known_step ix w" "w \<noteq> []" "list_all isIdentRune w" "v \<noteq> []" "list_all isIdentRune v"
  shows "fst (rewriteStepRefs ix (''steps.'' @ w @ ''.'' @ v) pw) = ''steps.memory.'' @ v"
  using rewrite_steps_accessor [OF assms, of "[]" pw] by simp

theorem steps_accessor_rewritten_witness:
  "fst (rewriteStepRefs (buildStepIndex (wc_Steps ex_v2)) (''steps.'' @ ''classify'' @ ''.'' @ ''state'') []) = ''steps.memory.state''"
  by (subst steps_accessor_rewritten) code_simp+

text \<open>
  Lowering a leaf step overwrites an authored \<open>condition:\<close>: the result is the same whatever
  the step's own condition was, so the guard of such a step in a v2 workflow is dropped.
\<close>

theorem authored_condition_lost:
  "lowerLeafStep ix (Step (f\<lparr>Condition := c\<rparr>) sub par inner) prevID cond pw =
   lowerLeafStep ix (Step f sub par inner) prevID cond pw"
  by (simp add: lowerLeafStep_def lower_seq_def lower_output_def)

end
