(* ===== verification/Graph_Search.thy ===== *)
theory Graph_Search
  imports Go_Prelude
begin

text \<open>
  Depth-first marking, the recursion behind \<open>resetLoop\<close> and \<open>markSkipped\<close>: starting at a node,
  mark it and everything reachable from it through nodes that are not marked yet. With at least as
  much fuel as there are unmarked nodes the marking is exactly reachability.
\<close>

section \<open>Definitions\<close>

function dfs :: "('a \<Rightarrow> 'a list) \<Rightarrow> nat \<Rightarrow> 'a \<Rightarrow> 'a set \<Rightarrow> 'a set"
and dfs_list :: "('a \<Rightarrow> 'a list) \<Rightarrow> nat \<Rightarrow> 'a list \<Rightarrow> 'a set \<Rightarrow> 'a set" where
  "dfs g 0 x V = V"
| "dfs g (Suc f) x V = (if x \<in> V then V else dfs_list g f (g x) (insert x V))"
| "dfs_list g f [] V = V"
| "dfs_list g f (y # ys) V = dfs_list g f ys (dfs g f y V)"
  by pat_completeness auto
termination
  by (relation "measures [\<lambda>x. case x of Inl (g, f, y, V) \<Rightarrow> f | Inr (g, f, ys, V) \<Rightarrow> f,
      \<lambda>x. case x of Inl (g, f, y, V) \<Rightarrow> 0 | Inr (g, f, ys, V) \<Rightarrow> Suc (length ys)]") simp_all

definition succ_rel :: "('a \<Rightarrow> 'a list) \<Rightarrow> ('a \<times> 'a) set" where
  "succ_rel g = {(a, b). b \<in> set (g a)}"

text \<open>The nodes reachable from \<open>x\<close> on paths whose later nodes are outside \<open>V\<close>.\<close>

definition avoid :: "('a \<Rightarrow> 'a list) \<Rightarrow> 'a set \<Rightarrow> ('a \<times> 'a) set" where
  "avoid g V = succ_rel g \<inter> (UNIV \<times> - V)"

definition reach_avoid :: "('a \<Rightarrow> 'a list) \<Rightarrow> 'a set \<Rightarrow> 'a \<Rightarrow> 'a set" where
  "reach_avoid g V x = (avoid g V)\<^sup>* `` {x}"

section \<open>Reachability\<close>

lemma avoid_iff [simp]: "(a, b) \<in> avoid g V \<longleftrightarrow> b \<in> set (g a) \<and> b \<notin> V"
  by (auto simp: avoid_def succ_rel_def)

lemma avoid_empty: "avoid g {} = succ_rel g"
  by (auto simp: avoid_def)

lemma reach_avoid_self [simp]: "x \<in> reach_avoid g V x"
  by (simp add: reach_avoid_def)

lemma avoid_mono: "V \<subseteq> W \<Longrightarrow> avoid g W \<subseteq> avoid g V"
  by (auto simp: avoid_def)

lemma reach_avoid_mono: "V \<subseteq> W \<Longrightarrow> reach_avoid g W x \<subseteq> reach_avoid g V x"
  unfolding reach_avoid_def using rtrancl_mono [OF avoid_mono] by blast

lemma reach_avoid_trans:
  "y \<in> reach_avoid g V x \<Longrightarrow> z \<in> reach_avoid g V y \<Longrightarrow> z \<in> reach_avoid g V x"
  by (auto simp: reach_avoid_def)

lemma reach_avoid_outside: "y \<in> reach_avoid g V x \<Longrightarrow> x \<notin> V \<Longrightarrow> y \<notin> V"
  unfolding reach_avoid_def by (auto elim: rtranclE)

text \<open>After its first node a path need not come back to it.\<close>

lemma rtrancl_last_visit:
  assumes "(x, z) \<in> R\<^sup>*"
  shows "z = x \<or> (\<exists>y. (x, y) \<in> R \<and> y \<noteq> x \<and> (y, z) \<in> (R \<inter> (UNIV \<times> - {x}))\<^sup>*)"
  using assms
proof (induction rule: rtrancl_induct)
  case (step z w)
  show ?case
  proof (cases "w = x")
    case False
    with step.hyps(2) have e: "(z, w) \<in> R \<inter> (UNIV \<times> - {x})" by simp
    from step.IH show ?thesis
    proof
      assume "z = x"
      with step.hyps(2) False show ?thesis by blast
    next
      assume "\<exists>y. (x, y) \<in> R \<and> y \<noteq> x \<and> (y, z) \<in> (R \<inter> (UNIV \<times> - {x}))\<^sup>*"
      with e show ?thesis by (meson rtrancl_into_rtrancl)
    qed
  qed simp
qed simp

lemma avoid_insert: "avoid g V \<inter> (UNIV \<times> - {x}) = avoid g (insert x V)"
  by (auto simp: avoid_def)

lemma reach_avoid_step:
  "reach_avoid g V x = insert x (\<Union>y\<in>set (g x) - insert x V. reach_avoid g (insert x V) y)"
proof (intro equalityI subsetI)
  fix z assume "z \<in> reach_avoid g V x"
  then have "(x, z) \<in> (avoid g V)\<^sup>*" by (simp add: reach_avoid_def)
  from rtrancl_last_visit [OF this]
  show "z \<in> insert x (\<Union>y\<in>set (g x) - insert x V. reach_avoid g (insert x V) y)"
    unfolding avoid_insert by (auto simp: reach_avoid_def)
next
  fix z assume "z \<in> insert x (\<Union>y\<in>set (g x) - insert x V. reach_avoid g (insert x V) y)"
  then consider "z = x" | y where "y \<in> set (g x)" "y \<notin> V" "z \<in> reach_avoid g (insert x V) y" by auto
  then show "z \<in> reach_avoid g V x"
  proof cases
    case 2
    then have "(x, y) \<in> avoid g V" by simp
    moreover have "(y, z) \<in> (avoid g V)\<^sup>*"
      using 2(3) reach_avoid_mono [of V "insert x V" g y] by (auto simp: reach_avoid_def)
    ultimately show ?thesis by (simp add: reach_avoid_def converse_rtrancl_into_rtrancl)
  qed simp
qed

lemma reach_avoid_split:
  assumes "z \<in> reach_avoid g V y'" "y' \<notin> W" and W: "W = V \<union> reach_avoid g V y"
  shows "z \<in> W \<or> z \<in> reach_avoid g W y'"
proof -
  have "(y', z) \<in> (avoid g V)\<^sup>*" using assms(1) by (simp add: reach_avoid_def)
  then show ?thesis
  proof (induction rule: rtrancl_induct)
    case (step z w)
    show ?case
    proof (cases "w \<in> W")
      case False
      have "z \<notin> W"
      proof
        assume "z \<in> W"
        with step.hyps(2) W False have "z \<in> V" "z \<notin> reach_avoid g V y"
          by (auto simp: reach_avoid_def intro: rtrancl_into_rtrancl)
        with assms(2) step.hyps W show False
          by (metis UnI1 avoid_iff rtranclE)
      qed
      with step.IH have "z \<in> reach_avoid g W y'" by blast
      with step.hyps(2) False show ?thesis
        by (auto simp: reach_avoid_def intro!: rtrancl_into_rtrancl [of y' z])
    qed simp
  qed simp
qed

lemma dfs_reach:
  "x \<in> U \<Longrightarrow> finite U \<Longrightarrow> (\<And>u. u \<in> U \<Longrightarrow> set (g u) \<subseteq> U) \<Longrightarrow> x \<notin> V \<Longrightarrow> card (U - V) \<le> f
    \<Longrightarrow> dfs g f x V = V \<union> reach_avoid g V x"
  "set ys \<subseteq> U \<Longrightarrow> finite U \<Longrightarrow> (\<And>u. u \<in> U \<Longrightarrow> set (g u) \<subseteq> U) \<Longrightarrow> card (U - V) \<le> f
    \<Longrightarrow> dfs_list g f ys V = V \<union> (\<Union>y\<in>set ys - V. reach_avoid g V y)"
proof (induction g f x V and g f ys V rule: dfs_dfs_list.induct)
  case (1 g x V)
  then have "U - V = {}" by simp
  with 1 show ?case by auto
next
  case (2 g f x V)
  have "card (U - insert x V) < card (U - V)"
    using 2 by (intro psubset_card_mono) auto
  then have "card (U - insert x V) \<le> f" using "2.prems"(5) by linarith
  then have "dfs_list g f (g x) (insert x V) =
      insert x V \<union> (\<Union>y\<in>set (g x) - insert x V. reach_avoid g (insert x V) y)"
    using "2.IH" "2.prems" by blast
  then show ?case using "2.prems"(4) reach_avoid_step [of g V x] by auto
next
  case (3 g f V)
  then show ?case by simp
next
  case (4 g f y ys V)
  show ?case
  proof (cases "y \<in> V")
    case True
    then have "dfs g f y V = V" by (cases f) auto
    with 4 True show ?thesis by auto
  next
    case False
    define W where "W = V \<union> reach_avoid g V y"
    have w: "dfs g f y V = W" using "4.IH"(1) "4.prems" False by (simp add: W_def)
    have "card (U - W) \<le> card (U - V)" using "4.prems"(2) by (intro card_mono) (auto simp: W_def)
    then have r: "dfs_list g f ys W = W \<union> (\<Union>y\<in>set ys - W. reach_avoid g W y)"
      using "4.IH"(2) "4.prems" w by auto
    have "W \<union> (\<Union>y\<in>set ys - W. reach_avoid g W y) = V \<union> (\<Union>y\<in>set (y # ys) - V. reach_avoid g V y)"
    proof (intro equalityI subsetI)
      fix z assume "z \<in> W \<union> (\<Union>y\<in>set ys - W. reach_avoid g W y)"
      then show "z \<in> V \<union> (\<Union>y\<in>set (y # ys) - V. reach_avoid g V y)"
        using False reach_avoid_mono [of V W g] by (auto simp: W_def)
    next
      fix z assume "z \<in> V \<union> (\<Union>y\<in>set (y # ys) - V. reach_avoid g V y)"
      then consider "z \<in> W" | y' where "y' \<in> set ys" "y' \<notin> V" "z \<in> reach_avoid g V y'"
        by (auto simp: W_def)
      then show "z \<in> W \<union> (\<Union>y\<in>set ys - W. reach_avoid g W y)"
      proof cases
        case 2
        show ?thesis
        proof (cases "y' \<in> W")
          case True
          then have "z \<in> W" using 2 reach_avoid_trans [of y' g V y z] by (auto simp: W_def)
          then show ?thesis by simp
        next
          case False
          with reach_avoid_split [OF 2(3) False W_def] 2(1) show ?thesis by auto
        qed
      qed simp
    qed
    with w r show ?thesis by simp
  qed
qed

corollary dfs_from_empty:
  assumes "x \<in> U" "finite U" "\<And>u. u \<in> U \<Longrightarrow> set (g u) \<subseteq> U" "card U \<le> f"
  shows "dfs g f x {} = (succ_rel g)\<^sup>* `` {x}"
  using dfs_reach(1) [of x U g "{}" f] assms by (simp add: reach_avoid_def avoid_empty)

end
