(* ===== verification/Memory_Doc.thy ===== *)
theory Memory_Doc
  imports Wf_Config Expr_Eval
begin

text \<open>
  Workflow memory (\<open>internal/workflow/memory.go\<close>, and \<open>memoryValuesFrom\<close> of \<open>dag.go\<close>): what the
  completed steps contribute, the flat key/value view that conditions read, and the bounded
  document injected into a prompt.

  The record \<open>golib\<close> collects the library routines whose text formats are not modelled: compiling
  a regular expression, the verb \<open>%g\<close> on a non-integral float, \<open>json.Marshal\<close> on an array or object,
  and \<open>time.ParseDuration\<close>.
\<close>

section \<open>Definitions\<close>

record golib =
  lib_re :: regex_lib
  lib_fmt_g :: "float64 \<Rightarrow> string"
  lib_json :: "gval \<Rightarrow> string"
  lib_duration :: duration_lib

record memory_step =
  ms_StepID :: string
  ms_WriteFields :: "string list"
  ms_Structured :: "(string \<times> gval) list"
  ms_Summary :: string

text \<open>
  \<open>int64(x)\<close> for an integral float in range; \<open>None\<close> where the round trip through \<open>int64\<close> changes
  the value. Outside the range the conversion is implementation-dependent; this is what amd64 does.
\<close>

definition float_to_int64 :: "float64 \<Rightarrow> int option" where
  "float_to_int64 x =
     (let m = fst x; e = snd x in
      if 0 \<le> e then (let v = m * 2 ^ nat e in if - (2 ^ 63) \<le> v \<and> v < 2 ^ 63 then Some v else None)
      else if m mod 2 ^ nat (- e) = 0 then Some (m div 2 ^ nat (- e))
      else None)"

fun renderValue :: "golib \<Rightarrow> gval \<Rightarrow> string" where
  "renderValue lib (GStr s) = s"
| "renderValue lib (GBool b) = (if b then ''true'' else ''false'')"
| "renderValue lib (GNum x) = (case float_to_int64 x of Some i \<Rightarrow> itoa i | None \<Rightarrow> lib_fmt_g lib x)"
| "renderValue lib GNil = []"
| "renderValue lib v = lib_json lib v"

definition write_field :: "golib \<Rightarrow> memory_step \<Rightarrow> string \<Rightarrow> (string \<rightharpoonup> string) \<Rightarrow> (string \<rightharpoonup> string)" where
  "write_field lib s field vals =
     (case map_of (ms_Structured s) field of
        None \<Rightarrow> vals | Some v \<Rightarrow> vals(field \<mapsto> renderValue lib v))"

definition memoryValuesFrom :: "golib \<Rightarrow> memory_step list \<Rightarrow> (string \<rightharpoonup> string)" where
  "memoryValuesFrom lib steps =
     fold (\<lambda>s. fold (write_field lib s) (ms_WriteFields s)) steps Map.empty"

text \<open>\<open>keyOrder\<close> and \<open>values\<close> of \<open>Build\<close>, filled in one loop.\<close>

definition step_data :: "golib \<Rightarrow> memory_step list \<Rightarrow> string list \<times> (string \<rightharpoonup> string)" where
  "step_data lib steps =
     fold (\<lambda>s. fold (\<lambda>field (order, vals).
         if map_of (ms_Structured s) field = None then (order, vals)
         else (if vals field = None then order @ [field] else order, write_field lib s field vals))
       (ms_WriteFields s)) steps ([], Map.empty)"

definition nl :: string where "nl = [CHR 0x0A]"

definition writeKV :: "string \<Rightarrow> string \<Rightarrow> string" where
  "writeKV key v = key @ '': '' @ v @ nl"

definition trim_right_nl :: "string \<Rightarrow> string" where
  "trim_right_nl s = rev (dropWhile (\<lambda>c. c = CHR 0x0A) (rev s))"

definition summaries_of :: "memory_step list \<Rightarrow> (string \<times> string) list" where
  "summaries_of steps =
     map (\<lambda>s. (ms_StepID s, ms_Summary s)) (filter (\<lambda>s. trim_space (ms_Summary s) \<noteq> []) steps)"

definition render_summary :: "string \<times> string \<Rightarrow> string" where
  "render_summary p =
     fst p @ '': |'' @ nl
     @ concat (map (\<lambda>line. ''  '' @ line @ nl) (split_on (CHR 0x0A) (trim_right_nl (snd p))))"

definition render_head :: "golib \<Rightarrow> source_item \<Rightarrow> memory_step list \<Rightarrow> string" where
  "render_head lib cell steps =
     (let (keyOrder, vals) = step_data lib steps in
      ''=== Workflow Memory ==='' @ nl @ nl @ ''[Cell]'' @ nl
      @ writeKV ''title'' (si_Title cell)
      @ (if si_Labels cell \<noteq> [] then writeKV ''labels'' (str_join '', '' (si_Labels cell)) else [])
      @ (if si_Type cell \<noteq> [] then writeKV ''type'' (si_Type cell) else [])
      @ (if si_Priority cell \<noteq> [] then writeKV ''priority'' (si_Priority cell) else [])
      @ (if si_SourceID cell \<noteq> [] then writeKV ''source'' (si_SourceID cell) else [])
      @ (if keyOrder \<noteq> []
         then nl @ ''[Step Data]'' @ nl
              @ concat (map (\<lambda>k. writeKV k (case vals k of Some v \<Rightarrow> v | None \<Rightarrow> [])) keyOrder)
         else []))"

text \<open>\<open>render(n)\<close> with the newest \<open>n\<close> summaries; \<open>render(-1)\<close> is the case of all of them.\<close>

definition render_doc :: "golib \<Rightarrow> source_item \<Rightarrow> memory_step list \<Rightarrow> nat \<Rightarrow> string" where
  "render_doc lib cell steps n =
     (let summaries = summaries_of steps;
          shown = drop (length summaries - n) summaries in
      render_head lib cell steps
      @ (if shown \<noteq> [] then nl @ ''[Summaries]'' @ nl @ concat (map render_summary shown) else [])
      @ nl @ ''======================'')"

definition DefaultMemoryMaxChars :: int where "DefaultMemoryMaxChars = 4000"

text \<open>The loop that drops the oldest summary, from \<open>keep\<close> summaries downwards.\<close>

fun drop_oldest :: "(nat \<Rightarrow> string) \<Rightarrow> int \<Rightarrow> nat \<Rightarrow> string" where
  "drop_oldest render maxChars 0 = render 0"
| "drop_oldest render maxChars (Suc keep) =
     (let doc = render keep in
      if int (length doc) \<le> maxChars then doc else drop_oldest render maxChars keep)"

definition Build :: "golib \<Rightarrow> int \<Rightarrow> source_item \<Rightarrow> memory_step list \<Rightarrow> string" where
  "Build lib MaxChars cell steps =
     (let maxChars = (if MaxChars \<le> 0 then DefaultMemoryMaxChars else MaxChars);
          n = length (summaries_of steps);
          doc = render_doc lib cell steps n in
      if int (length doc) \<le> maxChars then doc
      else drop_oldest (render_doc lib cell steps) maxChars n)"

section \<open>Facts\<close>

text \<open>The document and the conditions read the same values.\<close>

lemma step_data_values: "snd (step_data lib steps) = memoryValuesFrom lib steps"
proof -
  let ?g = "\<lambda>s field (order, vals).
         if map_of (ms_Structured s) field = None then (order, vals)
         else (if vals field = None then order @ [field] else order, write_field lib s field vals)"
  have one: "snd (?g s field ov) = write_field lib s field (snd ov)" for s field and ov :: "string list \<times> (string \<rightharpoonup> string)"
    by (cases ov) (simp add: write_field_def)
  have inner: "snd (fold (?g s) fs ov) = fold (write_field lib s) fs (snd ov)"
    for s fs and ov :: "string list \<times> (string \<rightharpoonup> string)"
    by (induction fs arbitrary: ov) (simp_all add: one del: split_paired_All)
  have "snd (fold (\<lambda>s. fold (?g s) (ms_WriteFields s)) steps ov)
      = fold (\<lambda>s. fold (write_field lib s) (ms_WriteFields s)) steps (snd ov)"
    for ov :: "string list \<times> (string \<rightharpoonup> string)"
    by (induction steps arbitrary: ov) (simp_all add: inner)
  from this [of "([], Map.empty)"] show ?thesis by (simp add: step_data_def memoryValuesFrom_def)
qed

lemma write_fields_other:
  "key \<notin> set fs \<or> map_of (ms_Structured s) key = None \<Longrightarrow> fold (write_field lib s) fs vals key = vals key"
  by (induction fs arbitrary: vals) (auto simp: write_field_def split: option.splits)

lemma write_fields_hit:
  "key \<in> set fs \<Longrightarrow> map_of (ms_Structured s) key = Some v
    \<Longrightarrow> fold (write_field lib s) fs vals key = Some (renderValue lib v)"
proof (induction fs arbitrary: vals)
  case (Cons f fs)
  show ?case
  proof (cases "key \<in> set fs")
    case True
    with Cons show ?thesis by simp
  next
    case False
    with Cons.prems have "f = key" by simp
    moreover have "write_field lib s key vals key = Some (renderValue lib v)"
      using Cons.prems(2) by (simp add: write_field_def)
    ultimately show ?thesis
      using False write_fields_other [of key fs s lib "write_field lib s key vals"] by simp
  qed
qed simp

definition writes_key :: "memory_step \<Rightarrow> string \<Rightarrow> bool" where
  "writes_key s key \<longleftrightarrow> key \<in> set (ms_WriteFields s) \<and> map_of (ms_Structured s) key \<noteq> None"

lemma memoryValuesFrom_snoc:
  "memoryValuesFrom lib (steps @ [s]) key =
     (if writes_key s key then Some (renderValue lib (the (map_of (ms_Structured s) key)))
      else memoryValuesFrom lib steps key)"
  unfolding memoryValuesFrom_def
  by (auto simp: writes_key_def write_fields_other write_fields_hit)

lemma memoryValuesFrom_last_write:
  assumes "writes_key s key" "\<forall>t\<in>set after. \<not> writes_key t key"
  shows "memoryValuesFrom lib (before @ s # after) key
    = Some (renderValue lib (the (map_of (ms_Structured s) key)))"
  using assms(2)
proof (induction after rule: rev_induct)
  case Nil
  then show ?case using assms(1) memoryValuesFrom_snoc [of lib before s key] by simp
next
  case (snoc t after)
  then show ?case using memoryValuesFrom_snoc [of lib "before @ s # after" t key] by simp
qed

lemma memoryValuesFrom_None:
  "memoryValuesFrom lib steps key = None \<longleftrightarrow> (\<forall>s\<in>set steps. \<not> writes_key s key)"
proof (induction steps rule: rev_induct)
  case Nil
  then show ?case by (simp add: memoryValuesFrom_def)
next
  case (snoc s steps)
  then show ?case by (auto simp: memoryValuesFrom_snoc)
qed

lemma drop_oldest_result:
  "\<exists>k. k \<le> n - 1 \<and> drop_oldest render m n = render k \<and> (k = 0 \<or> int (length (render k)) \<le> m)
     \<and> (\<forall>j. k < j \<and> j < n \<longrightarrow> m < int (length (render j)))"
proof (induction n)
  case (Suc n)
  show ?case
  proof (cases "int (length (render n)) \<le> m")
    case True
    then show ?thesis by (intro exI [of _ n]) (auto simp: Let_def)
  next
    case False
    from Suc obtain k where k: "k \<le> n - 1" "drop_oldest render m n = render k"
      "k = 0 \<or> int (length (render k)) \<le> m" "\<forall>j. k < j \<and> j < n \<longrightarrow> m < int (length (render j))" by blast
    with False show ?thesis by (intro exI [of _ k]) (auto simp: Let_def less_Suc_eq)
  qed
qed simp

lemma Build_result:
  fixes MaxChars :: int
  defines "m \<equiv> (if MaxChars \<le> 0 then DefaultMemoryMaxChars else MaxChars)"
  shows "\<exists>k\<le>length (summaries_of steps).
    Build lib MaxChars cell steps = render_doc lib cell steps k
    \<and> (k = 0 \<or> int (length (render_doc lib cell steps k)) \<le> m)
    \<and> (\<forall>j. k < j \<and> j \<le> length (summaries_of steps) \<longrightarrow> m < int (length (render_doc lib cell steps j)))"
proof (cases "int (length (render_doc lib cell steps (length (summaries_of steps)))) \<le> m")
  case True
  then show ?thesis
    by (intro exI [of _ "length (summaries_of steps)"]) (auto simp: Build_def m_def Let_def)
next
  case False
  let ?n = "length (summaries_of steps)"
  obtain k where k: "k \<le> ?n - 1" "drop_oldest (render_doc lib cell steps) m ?n = render_doc lib cell steps k"
      "k = 0 \<or> int (length (render_doc lib cell steps k)) \<le> m"
      "\<forall>j. k < j \<and> j < ?n \<longrightarrow> m < int (length (render_doc lib cell steps j))"
    using drop_oldest_result by blast
  have "Build lib MaxChars cell steps = render_doc lib cell steps k"
    using False k(2) by (simp add: Build_def m_def Let_def)
  with k False show ?thesis by (intro exI [of _ k]) (auto simp: le_less)
qed

end
