(* ===== verification/Dag_Run.thy ===== *)
theory Dag_Run
  imports Lowering Graph_Search Memory_Doc
begin

text \<open>
  The state of one workflow instance's step graph and the operations the scheduler applies to it
  (\<open>internal/workflow/dag.go\<close>): initialisation, the runnable steps, skip propagation, splits,
  loop-back resets, memory views, the gates evaluated after a step, and parking.

  A Go map with zero-value reads is a total function where the zero value is all the code can see
  (\<open>activated\<close>, \<open>retries\<close>, \<open>feedback\<close>), and a partial one where presence is tested. The recursion of
  \<open>markSkipped\<close> takes one unit of fuel more than there are steps, which the facts below show to be
  enough: the result is exactly the reachable set. Logging, comments posted to the source, and rows
  written to the store are not part of the state.
\<close>

section \<open>State\<close>

datatype dstate = stPending | stRunning | stPassed | stFailed | stSkipped | stCondSkipped | stWaiting

fun dstate_name :: "dstate \<Rightarrow> string" where
  "dstate_name stPending = ''pending''"
| "dstate_name stRunning = ''running''"
| "dstate_name stPassed = ''passed''"
| "dstate_name stFailed = ''failed''"
| "dstate_name stSkipped = ''skipped''"
| "dstate_name stCondSkipped = ''cond_skipped''"
| "dstate_name stWaiting = ''waiting''"

record step_result =
  sr_Success :: bool
  sr_Output :: string
  sr_Structured :: "(string \<times> gval) list"
  sr_Summary :: string
  sr_Pending :: bool
  sr_Conflict :: bool

type_synonym states = "string \<Rightarrow> dstate option"

record dag_run =
  r_instID :: string
  r_wf :: workflow_config
  r_taskID :: string
  r_cell :: source_item
  r_seed :: "memory_step list"
  r_event :: "string \<rightharpoonup> string"
  r_byID :: "string \<rightharpoonup> step_config"
  r_order :: "string list"
  r_childByID :: "string \<rightharpoonup> step_config"
  r_parentOfChild :: "string \<rightharpoonup> string"
  r_state :: states
  r_activated :: "string \<Rightarrow> bool"
  r_splitTarget :: "string \<Rightarrow> bool"
  r_retries :: "string \<Rightarrow> int"
  r_conflictRetries :: "string \<Rightarrow> int"
  r_stepStates :: "string \<rightharpoonup> step_state"
  r_contrib :: "string \<rightharpoonup> memory_step"
  r_feedback :: "string \<Rightarrow> memory_step list"
  r_passedOrder :: "string list"
  r_waitingStep :: string
  r_parkedAt :: time
  r_waitingChild :: string
  r_parallelDone :: "string \<rightharpoonup> (string \<times> step_result) list"
  r_waitDeadline :: time
  r_stopped :: bool

abbreviation r_steps :: "dag_run \<Rightarrow> step_config list" where "r_steps r \<equiv> wc_Steps (r_wf r)"

definition zero_step :: step_config where
  "zero_step = Step zero_fields [] [] None"

definition step_of :: "dag_run \<Rightarrow> string \<Rightarrow> step_config" where
  "step_of r i = (case r_byID r i of None \<Rightarrow> zero_step | Some s \<Rightarrow> s)"

definition index_children :: "step_config \<Rightarrow> dag_run \<Rightarrow> dag_run" where
  "index_children s r =
     (if StepType s = StepTypeParallel
      then fold (\<lambda>child r. r\<lparr>r_childByID := (r_childByID r)(sid child \<mapsto> child),
                            r_parentOfChild := (r_parentOfChild r)(sid child \<mapsto> sid s)\<rparr>) (SubSteps s) r
      else r)"

definition split_targets :: "step_config list \<Rightarrow> string \<Rightarrow> bool" where
  "split_targets steps i \<longleftrightarrow>
     i \<noteq> [] \<and> list_ex (\<lambda>s. StepType s = StepTypeSplit \<and> list_ex (\<lambda>b. sb_Goto b = i) (Branches (flds s))) steps"

text \<open>
  The task enters with its id and the item view that \<open>sourceItemView\<close> derives from it.
\<close>

definition initDAG :: "string \<Rightarrow> workflow_config \<Rightarrow> string \<Rightarrow> source_item \<Rightarrow> memory_step list \<Rightarrow> dag_run" where
  "initDAG instID w taskID cell seed =
     (let r0 = \<lparr>r_instID = instID, r_wf = w, r_taskID = taskID, r_cell = cell, r_seed = seed, r_event = Map.empty, r_byID = Map.empty,
            r_order = [], r_childByID = Map.empty, r_parentOfChild = Map.empty, r_state = Map.empty,
            r_activated = (\<lambda>_. False), r_splitTarget = (\<lambda>_. False), r_retries = (\<lambda>_. 0),
            r_conflictRetries = (\<lambda>_. 0), r_stepStates = Map.empty, r_contrib = Map.empty,
            r_feedback = (\<lambda>_. []), r_passedOrder = [], r_waitingStep = [], r_parkedAt = 0,
            r_waitingChild = [], r_parallelDone = Map.empty, r_waitDeadline = 0, r_stopped = False\<rparr>;
          r1 = fold (\<lambda>s r. index_children s
                  (r\<lparr>r_byID := (r_byID r)(sid s \<mapsto> s), r_order := r_order r @ [sid s],
                     r_state := (r_state r)(sid s \<mapsto> stPending)\<rparr>)) (wc_Steps w) r0;
          r2 = r1\<lparr>r_splitTarget := split_targets (wc_Steps w)\<rparr>
      in r2\<lparr>r_activated := (\<lambda>i. i \<in> set (r_order r2) \<and> \<not> split_targets (wc_Steps w) i)\<rparr>)"

section \<open>Runnable steps\<close>

definition depsPassed :: "dag_run \<Rightarrow> string \<Rightarrow> bool" where
  "depsPassed r i \<longleftrightarrow>
     list_all (\<lambda>dep. r_state r dep = Some stPassed) (DependsOn (flds (step_of r i)))
     \<and> list_all (\<lambda>dep. r_state r dep = Some stPassed \<or> r_state r dep = Some stCondSkipped)
         (SeqDependsOn (flds (step_of r i)))"

definition runnable :: "dag_run \<Rightarrow> string \<Rightarrow> bool" where
  "runnable r i \<longleftrightarrow> r_state r i = Some stPending \<and> r_activated r i \<and> depsPassed r i"

definition pickAllRunnable :: "dag_run \<Rightarrow> string list" where
  "pickAllRunnable r = filter (runnable r) (r_order r)"

definition firstRunnableApproval :: "dag_run \<Rightarrow> string option" where
  "firstRunnableApproval r = find (\<lambda>i. StepType (step_of r i) = StepTypeApproval) (pickAllRunnable r)"

fun first_wait :: "dag_run \<Rightarrow> string list \<Rightarrow> (string \<times> string) option" where
  "first_wait r [] = None"
| "first_wait r (i # is) =
     (if StepType (step_of r i) = StepTypeWaitFor then Some (i, [])
      else if StepType (step_of r i) = StepTypeParallel then
        (case find (\<lambda>c. StepType c = StepTypeWaitFor) (SubSteps (step_of r i)) of
           Some c \<Rightarrow> Some (i, sid c) | None \<Rightarrow> first_wait r is)
      else first_wait r is)"

definition firstRunnableWait :: "dag_run \<Rightarrow> (string \<times> string) option" where
  "firstRunnableWait r = first_wait r (pickAllRunnable r)"

definition strandedSteps :: "dag_run \<Rightarrow> string list" where
  "strandedSteps r = filter (\<lambda>i. r_state r i = Some stPending) (r_order r)"

section \<open>Skipping\<close>

function mark_skipped :: "dag_run \<Rightarrow> nat \<Rightarrow> string \<Rightarrow> states \<Rightarrow> states"
and mark_dependents :: "dag_run \<Rightarrow> nat \<Rightarrow> string \<Rightarrow> string list \<Rightarrow> states \<Rightarrow> states" where
  "mark_skipped r 0 i st = st"
| "mark_skipped r (Suc f) i st =
     (if st i = Some stSkipped \<or> st i = Some stCondSkipped then st
      else mark_dependents r f i (r_order r) (st(i \<mapsto> stSkipped)))"
| "mark_dependents r f i [] st = st"
| "mark_dependents r f i (j # js) st =
     (if st j \<noteq> Some stPending then mark_dependents r f i js st
      else
        let st1 = (if i \<in> set (DependsOn (flds (step_of r j))) then mark_skipped r f j st else st) in
        if st1 j \<noteq> Some stPending then mark_dependents r f i js st1
        else mark_dependents r f i js
          (if i \<in> set (SeqDependsOn (flds (step_of r j))) then mark_skipped r f j st1 else st1))"
  by pat_completeness auto
termination
  by (relation "measures [\<lambda>x. case x of Inl (r, f, i, st) \<Rightarrow> f | Inr (r, f, i, js, st) \<Rightarrow> f,
      \<lambda>x. case x of Inl (r, f, i, st) \<Rightarrow> 0 | Inr (r, f, i, js, st) \<Rightarrow> Suc (length js)]") simp_all

definition markSkipped :: "string \<Rightarrow> dag_run \<Rightarrow> dag_run" where
  "markSkipped i r = r\<lparr>r_state := mark_skipped r (length (r_order r) + 1) i (r_state r)\<rparr>"

definition markCondSkipped :: "string \<Rightarrow> dag_run \<Rightarrow> dag_run" where
  "markCondSkipped i r =
     r\<lparr>r_state := (r_state r)(i \<mapsto> stCondSkipped),
       r_stepStates := (r_stepStates r)(i \<mapsto> \<lparr>ss_State = dstate_name stCondSkipped, ss_ExitCode = 0, ss_Output = []\<rparr>)\<rparr>"

definition feedingSplitsDone :: "dag_run \<Rightarrow> string \<Rightarrow> bool" where
  "feedingSplitsDone r i \<longleftrightarrow>
     list_all (\<lambda>s. StepType s = StepTypeSplit \<longrightarrow>
        list_all (\<lambda>b. sb_Goto b = i \<longrightarrow> r_state r (sid s) \<noteq> Some stPending) (Branches (flds s))) (r_steps r)"

definition dead_dep :: "dag_run \<Rightarrow> string \<Rightarrow> bool" where
  "dead_dep r dep \<longleftrightarrow> r_state r dep = Some stSkipped \<or> r_state r dep = Some stFailed"

text \<open>One round of the loop of \<open>skipUnreachable\<close>: the first of the three reasons that applies.\<close>

definition skip_reason :: "dag_run \<Rightarrow> string \<Rightarrow> bool" where
  "skip_reason r i \<longleftrightarrow>
     list_ex (\<lambda>dep. dead_dep r dep \<or> r_state r dep = Some stCondSkipped) (DependsOn (flds (step_of r i)))
     \<or> list_ex (dead_dep r) (SeqDependsOn (flds (step_of r i)))
     \<or> (r_splitTarget r i \<and> \<not> r_activated r i \<and> feedingSplitsDone r i)"

definition skip_one :: "string \<Rightarrow> bool \<times> dag_run \<Rightarrow> bool \<times> dag_run" where
  "skip_one i pr =
     (let (progress, r) = pr in
      if r_state r i = Some stPending \<and> skip_reason r i then (True, markSkipped i r) else (progress, r))"

definition skipUnreachable :: "dag_run \<Rightarrow> bool \<times> dag_run" where
  "skipUnreachable r = fold skip_one (r_order r) (False, r)"

section \<open>Memory\<close>

definition contrib_list :: "dag_run \<Rightarrow> string \<Rightarrow> memory_step list" where
  "contrib_list r i = (case r_contrib r i of None \<Rightarrow> [] | Some c \<Rightarrow> [c])"

definition memSteps :: "dag_run \<Rightarrow> memory_step list" where
  "memSteps r =
     r_seed r @ concat (map (\<lambda>i.
       contrib_list r i
       @ concat (map (\<lambda>child. contrib_list r (sid child)) (SubSteps (step_of r i)))
       @ r_feedback r i) (r_order r))"

definition memoryValues :: "golib \<Rightarrow> dag_run \<Rightarrow> (string \<rightharpoonup> string)" where
  "memoryValues lib r = memoryValuesFrom lib (memSteps r)"

definition eval_ctx :: "golib \<Rightarrow> dag_run \<Rightarrow> eval_context" where
  "eval_ctx lib r = \<lparr>ec_Cell = r_cell r, ec_Memory = memoryValues lib r, ec_Steps = r_stepStates r, ec_Event = r_event r\<rparr>"

definition own_contrib :: "step_config \<Rightarrow> step_result \<Rightarrow> memory_step" where
  "own_contrib s res = \<lparr>ms_StepID = sid s, ms_WriteFields = MemoryWriteFields s,
     ms_Structured = sr_Structured res, ms_Summary = sr_Summary res\<rparr>"

definition failedContribs :: "step_config \<Rightarrow> step_result \<Rightarrow> memory_step list \<Rightarrow> memory_step list" where
  "failedContribs s res parallelContribs =
     (if StepType s = StepTypeParallel then parallelContribs
      else if sr_Structured res = [] then []
      else [own_contrib s res])"

section \<open>Splits and loops\<close>

datatype split_error = BranchError string expr_error

fun choose_branches ::
  "golib \<Rightarrow> eval_context \<Rightarrow> bool \<Rightarrow> split_branch list \<Rightarrow> string list \<Rightarrow> split_error + string list" where
  "choose_branches lib ctx multi [] chosen = Inr chosen"
| "choose_branches lib ctx multi (b # bs) chosen =
     (let verdict = (if IsFallback b then Inr True
                     else bind_res (ParseExpr (sb_If b)) (\<lambda>e. Eval (lib_re lib) e ctx)) in
      case verdict of
        Inl err \<Rightarrow> Inl (BranchError (sb_If b) err)
      | Inr True \<Rightarrow> if multi then choose_branches lib ctx multi bs (sb_Goto b # chosen) else Inr (sb_Goto b # chosen)
      | Inr False \<Rightarrow> choose_branches lib ctx multi bs chosen)"

definition passed_state :: step_state where
  "passed_state = \<lparr>ss_State = dstate_name stPassed, ss_ExitCode = 0, ss_Output = []\<rparr>"

definition runSplitStep :: "golib \<Rightarrow> step_config \<Rightarrow> dag_run \<Rightarrow> split_error + dag_run" where
  "runSplitStep lib s r =
     bind_res (choose_branches lib (eval_ctx lib r) (Multi (flds s)) (Branches (flds s)) []) (\<lambda>chosen.
       let r1 = r\<lparr>r_state := (r_state r)(sid s \<mapsto> stPassed), r_stepStates := (r_stepStates r)(sid s \<mapsto> passed_state)\<rparr>;
           r2 = fold (\<lambda>b r. if sb_Goto b \<noteq> [] \<and> sb_Goto b \<in> set chosen
                           then r\<lparr>r_activated := (r_activated r)(sb_Goto b := True)\<rparr> else r) (Branches (flds s)) r1
       in Inr (fold (\<lambda>b r. if sb_Goto b \<noteq> [] \<and> sb_Goto b \<notin> set chosen \<and> \<not> r_activated r (sb_Goto b)
                             \<and> feedingSplitsDone r (sb_Goto b)
                          then markSkipped (sb_Goto b) r else r) (Branches (flds s)) r2))"

text \<open>The calls \<open>mark(other)\<close> that \<open>mark(id)\<close> makes, in order.\<close>

definition dependents :: "dag_run \<Rightarrow> string \<Rightarrow> string list" where
  "dependents r i =
     concat (map (\<lambda>other. map (\<lambda>_. other) (filter (\<lambda>dep. dep = i)
       (DependsOn (flds (step_of r other)) @ SeqDependsOn (flds (step_of r other))))) (r_order r))"

definition reset_set :: "dag_run \<Rightarrow> string \<Rightarrow> string set" where
  "reset_set r target = dfs (dependents r) (length (r_order r) + 1) target {}"

definition resetLoop :: "string \<Rightarrow> dag_run \<Rightarrow> dag_run" where
  "resetLoop target r =
     (let R = reset_set r target;
          gone = (\<lambda>k. k \<in> R \<or> list_ex (\<lambda>i. i \<in> R \<and> list_ex (\<lambda>c. sid c = k) (SubSteps (step_of r i))) (r_order r));
          r1 = r\<lparr>r_state := (\<lambda>k. if k \<in> R then Some stPending else r_state r k),
                 r_stepStates := (\<lambda>k. if k \<in> R then None else r_stepStates r k),
                 r_contrib := (\<lambda>k. if gone k then None else r_contrib r k)\<rparr>
      in r1\<lparr>r_passedOrder := filter (\<lambda>k. r_contrib r1 k \<noteq> None) (r_order r1)\<rparr>)"

section \<open>Dependents\<close>

definition depends :: "dag_run \<Rightarrow> string \<Rightarrow> string \<Rightarrow> bool" where
  "depends r other i \<longleftrightarrow>
     i \<in> set (DependsOn (flds (step_of r other))) \<or> i \<in> set (SeqDependsOn (flds (step_of r other)))"

lemma set_dependents: "set (dependents r i) = {other \<in> set (r_order r). depends r other i}"
  by (auto simp: dependents_def depends_def)

definition calls :: "dag_run \<Rightarrow> string \<Rightarrow> string list \<Rightarrow> string list" where
  "calls r i js =
     concat (map (\<lambda>other. map (\<lambda>_. other) (filter (\<lambda>dep. dep = i)
       (DependsOn (flds (step_of r other)) @ SeqDependsOn (flds (step_of r other))))) js)"

lemma dependents_calls: "dependents r i = calls r i (r_order r)"
  by (simp add: dependents_def calls_def)

lemma card_order: "card (insert x (set (r_order r)) - V) \<le> length (r_order r) + 1"
proof -
  have "card (insert x (set (r_order r)) - V) \<le> card (insert x (set (r_order r)))"
    by (intro card_mono) auto
  also have "\<dots> \<le> Suc (card (set (r_order r)))" by (simp add: card_insert_if)
  also have "\<dots> \<le> length (r_order r) + 1" using card_length [of "r_order r"] by simp
  finally show ?thesis .
qed

lemma reset_set_reach: "reset_set r target = (succ_rel (dependents r))\<^sup>* `` {target}"
  unfolding reset_set_def
  by (rule dfs_from_empty [where U = "insert target (set (r_order r))"])
    (use card_order [of target r "{}"] in \<open>auto simp: set_dependents\<close>)

subsection \<open>Skipping reaches exactly the pending dependents\<close>

definition open_set :: "states \<Rightarrow> string set \<Rightarrow> bool" where
  "open_set st V \<longleftrightarrow> (\<forall>x. x \<in> V \<longleftrightarrow> st x \<noteq> Some stPending)"

definition skip_new :: "string set \<Rightarrow> string set \<Rightarrow> states \<Rightarrow> states" where
  "skip_new V W st = (\<lambda>x. if x \<in> W - V then Some stSkipped else st x)"

lemma skip_new_same [simp]: "skip_new V V st = st"
  by (simp add: skip_new_def)

lemma skip_new_trans: "V \<subseteq> W \<Longrightarrow> W \<subseteq> X \<Longrightarrow> skip_new W X (skip_new V W st) = skip_new V X st"
  by (auto simp: skip_new_def fun_eq_iff)

lemma open_set_skip_new: "open_set st V \<Longrightarrow> V \<subseteq> W \<Longrightarrow> open_set (skip_new V W st) W"
  by (auto simp: open_set_def skip_new_def)

lemma dfs_grows: "V \<subseteq> dfs g f x V" "V \<subseteq> dfs_list g f ys V"
  by (induction g f x V and g f ys V rule: dfs_dfs_list.induct) auto

lemma dfs_stable: "x \<in> V \<Longrightarrow> dfs g f x V = V"
  by (cases f) auto

lemma dfs_list_append: "dfs_list g f (xs @ ys) V = dfs_list g f ys (dfs_list g f xs V)"
  by (induction xs arbitrary: V) auto

lemma dfs_marks: "x \<in> dfs g (Suc f) x V"
  using dfs_grows(2) [of "insert x V" g f "g x"] by (cases "x \<in> V") auto

lemma dfs_list_replicate:
  assumes "0 < n"
  shows "dfs_list g f (replicate n x) V = dfs g f x V"
proof -
  have st: "dfs g f x (dfs g f x V) = dfs g f x V" for V
    using dfs_marks [of x g _ V] dfs_stable by (cases f) auto
  from assms show ?thesis
  proof (induction n arbitrary: V)
    case (Suc n)
    then show ?case by (cases n) (auto simp: st)
  qed simp
qed

lemma calls_one: "calls r i [j] = replicate (length (filter (\<lambda>dep. dep = i)
    (DependsOn (flds (step_of r j)) @ SeqDependsOn (flds (step_of r j))))) j"
  by (simp add: calls_def map_replicate_const)

lemma calls_one_dfs:
  "dfs_list g f (calls r i [j]) V = (if depends r j i then dfs g f j V else V)"
proof (cases "depends r j i")
  case True
  then have "0 < length (filter (\<lambda>dep. dep = i)
      (DependsOn (flds (step_of r j)) @ SeqDependsOn (flds (step_of r j))))"
    by (auto simp: depends_def filter_empty_conv)
  with True show ?thesis unfolding calls_one by (simp add: dfs_list_replicate)
next
  case False
  then have "filter (\<lambda>dep. dep = i) (DependsOn (flds (step_of r j)) @ SeqDependsOn (flds (step_of r j))) = []"
    by (auto simp: depends_def filter_empty_conv)
  with False show ?thesis unfolding calls_one by simp
qed

lemma mark_dependents_dfs:
  assumes ms: "\<And>st V j. open_set st V \<Longrightarrow> st j = Some stPending \<Longrightarrow>
      mark_skipped r f j st = skip_new V (dfs (dependents r) f j V) st"
    and "open_set st V"
  shows "mark_dependents r f i js st = skip_new V (dfs_list (dependents r) f (calls r i js) V) st"
  using assms(2)
proof (induction js arbitrary: st V)
  case Nil
  then show ?case by (simp add: calls_def)
next
  case (Cons j js)
  let ?g = "dependents r"
  let ?W = "dfs ?g f j V"
  have split: "dfs_list ?g f (calls r i (j # js)) V =
      dfs_list ?g f (calls r i js) (if depends r j i then ?W else V)"
    using dfs_list_append [of ?g f "calls r i [j]" "calls r i js" V] calls_one_dfs [of ?g f r i j V]
    by (simp add: calls_def)
  have W: "V \<subseteq> ?W" by (rule dfs_grows)
  have after: "mark_dependents r f i js (skip_new V ?W st) = skip_new V (dfs_list ?g f (calls r i js) ?W) st"
    using Cons.IH [OF open_set_skip_new [OF Cons.prems W]] skip_new_trans [OF W dfs_grows(2)] by simp
  show ?case
  proof (cases "st j = Some stPending")
    case False
    then have "j \<in> V" using Cons.prems by (simp add: open_set_def)
    with False Cons split show ?thesis by (simp add: dfs_stable)
  next
    case True
    then have m: "mark_skipped r f j st = skip_new V ?W st" using ms Cons.prems by blast
    have jV: "j \<notin> V" using True Cons.prems by (simp add: open_set_def)
    show ?thesis
    proof (cases f)
      case 0
      with True Cons split show ?thesis by (simp add: Let_def)
    next
      case (Suc f')
      then have "j \<in> ?W" by (simp add: dfs_marks del: dfs.simps)
      with jV have "skip_new V ?W st j \<noteq> Some stPending" by (simp add: skip_new_def)
      with True m after split Cons show ?thesis
        by (auto simp: Let_def depends_def)
    qed
  qed
qed

lemma mark_skipped_dfs:
  "open_set st V \<Longrightarrow> st i = Some stPending \<Longrightarrow>
     mark_skipped r f i st = skip_new V (dfs (dependents r) f i V) st"
proof (induction f arbitrary: st V i)
  case (Suc f)
  have i: "i \<notin> V" using Suc.prems by (simp add: open_set_def)
  have o: "open_set (st(i \<mapsto> stSkipped)) (insert i V)" using Suc.prems(1) by (auto simp: open_set_def)
  have "mark_dependents r f i (r_order r) (st(i \<mapsto> stSkipped)) =
      skip_new (insert i V) (dfs_list (dependents r) f (dependents r i) (insert i V)) (st(i \<mapsto> stSkipped))"
    unfolding dependents_calls [of r i] using Suc.IH o by (rule mark_dependents_dfs)
  also have "\<dots> = skip_new V (dfs_list (dependents r) f (dependents r i) (insert i V)) st"
    using i dfs_grows(2) [of "insert i V" "dependents r" f "dependents r i"] by (auto simp: skip_new_def fun_eq_iff)
  finally show ?case using Suc.prems(2) i by simp
qed simp

text \<open>The result of \<open>markSkipped\<close> on a pending step.\<close>

lemma markSkipped_state:
  assumes "r_state r i = Some stPending"
  shows "r_state (markSkipped i r) x =
    (if x \<in> reach_avoid (dependents r) {y. r_state r y \<noteq> Some stPending} i then Some stSkipped else r_state r x)"
proof -
  let ?V = "{y. r_state r y \<noteq> Some stPending}" and ?U = "insert i (set (r_order r))"
  have "open_set (r_state r) ?V" by (simp add: open_set_def)
  then have "r_state (markSkipped i r) = skip_new ?V (dfs (dependents r) (length (r_order r) + 1) i ?V) (r_state r)"
    using mark_skipped_dfs [of "r_state r" ?V i r "length (r_order r) + 1"] assms
    by (simp add: markSkipped_def del: mark_skipped.simps dfs.simps)
  moreover have "dfs (dependents r) (length (r_order r) + 1) i ?V = ?V \<union> reach_avoid (dependents r) ?V i"
    by (rule dfs_reach(1) [where U = ?U]) (use assms card_order [of i r ?V] in \<open>auto simp: set_dependents\<close>)
  moreover have "x \<in> reach_avoid (dependents r) ?V i \<Longrightarrow> x \<notin> ?V"
    using reach_avoid_outside [of x "dependents r" ?V i] assms by simp
  ultimately show ?thesis by (auto simp: skip_new_def)
qed

lemma markSkipped_other [simp]:
  "r_wf (markSkipped i r) = r_wf r" "r_byID (markSkipped i r) = r_byID r"
  "r_order (markSkipped i r) = r_order r" "r_activated (markSkipped i r) = r_activated r"
  "r_splitTarget (markSkipped i r) = r_splitTarget r" "r_retries (markSkipped i r) = r_retries r"
  "r_conflictRetries (markSkipped i r) = r_conflictRetries r" "r_stopped (markSkipped i r) = r_stopped r"
  by (simp_all add: markSkipped_def)

end
