(* ===== verification/Transition.thy ===== *)
theory Transition
  imports Main
begin

text \<open>
  State machines: the states reachable from an initial state under a step relation, and the
  interface through which every stateful component of the library states its invariant.
\<close>

inductive reachable :: "('s \<Rightarrow> bool) \<Rightarrow> ('s \<Rightarrow> 's \<Rightarrow> bool) \<Rightarrow> 's \<Rightarrow> bool" for I T where
  reachable_init: "I s \<Longrightarrow> reachable I T s"
| reachable_step: "reachable I T s \<Longrightarrow> T s s' \<Longrightarrow> reachable I T s'"

inductive_cases reachable_stepE: "reachable I T s"

locale invariant_of =
  fixes I :: "'s \<Rightarrow> bool" and T :: "'s \<Rightarrow> 's \<Rightarrow> bool" and Inv :: "'s \<Rightarrow> bool"
  assumes inv_init: "I s \<Longrightarrow> Inv s"
    and inv_step: "Inv s \<Longrightarrow> T s s' \<Longrightarrow> Inv s'"
begin

lemma inv_reachable:
  assumes "reachable I T s"
  shows "Inv s"
  using assms by induction (auto intro: inv_init inv_step)

lemma inv_steps:
  assumes "T\<^sup>*\<^sup>* s s'" and "Inv s"
  shows "Inv s'"
  using assms by (induction rule: rtranclp_induct) (auto intro: inv_step)

end

text \<open>A property of two states that is reflexive and transitive holds along every run that keeps the invariant.\<close>

locale monotone_run = invariant_of I T Inv
  for I :: "'s \<Rightarrow> bool" and T :: "'s \<Rightarrow> 's \<Rightarrow> bool" and Inv :: "'s \<Rightarrow> bool" +
  fixes R :: "'s \<Rightarrow> 's \<Rightarrow> bool"
  assumes mono_refl: "R s s"
    and mono_trans: "R s t \<Longrightarrow> R t u \<Longrightarrow> R s u"
    and mono_step: "Inv s \<Longrightarrow> T s s' \<Longrightarrow> R s s'"
begin

lemma mono_steps:
  assumes "T\<^sup>*\<^sup>* s s'" and "Inv s"
  shows "R s s'"
  using assms
proof (induction rule: rtranclp_induct)
  case base
  show ?case by (rule mono_refl)
next
  case (step t u)
  have "Inv t" using step.hyps(1) step.prems by (rule inv_steps)
  then have "R t u" using step.hyps(2) by (rule mono_step)
  with step show ?case by (blast intro: mono_trans)
qed

end

end
