(* ===== verification/Approval_Store.thy ===== *)
theory Approval_Store
  imports Wf_Config Transition
begin

text \<open>
  The approval tables of the store (\<open>internal/db/approval_store.go\<close>, constraints from
  \<open>internal/db/schema.go\<close>): \<open>approval_requests\<close> with its primary key and the uniqueness of
  (instance, step, attempt), and \<open>approval_responses\<close> with the uniqueness of the idempotency key and
  of (request, approver). A table is the list of its rows in rowid order. A transaction that returns
  an error leaves the tables as they were. The columns holding JSON are kept as the values they
  encode. \<open>now\<close> is the reading of the clock.
\<close>

section \<open>Tables\<close>

definition ApprovalPending :: string where "ApprovalPending = ''pending''"
definition ApprovalEscalated :: string where "ApprovalEscalated = ''escalated''"
definition ApprovalApproved :: string where "ApprovalApproved = ''approved''"
definition ApprovalRejected :: string where "ApprovalRejected = ''rejected''"
definition ApprovalTimedOut :: string where "ApprovalTimedOut = ''timed_out''"

lemmas approval_status =
  ApprovalPending_def ApprovalEscalated_def ApprovalApproved_def ApprovalRejected_def ApprovalTimedOut_def

record approval_request =
  ar_ID :: string
  ar_Instance :: string
  ar_TaskID :: string
  ar_WorkflowID :: string
  ar_StepID :: string
  ar_Message :: string
  ar_Approvers :: "string list"
  ar_Delegates :: "(string \<times> string list) list"
  ar_Required :: int
  ar_Fields :: "approval_field list"
  ar_Status :: string
  ar_Values :: "(string \<times> gval) list"
  ar_Feedback :: string
  ar_RespondedBy :: string
  ar_ResponseChannel :: string
  ar_IdempotencyKey :: string
  ar_Attempt :: int
  ar_CreatedAt :: time
  ar_ExpiresAt :: "time option"
  ar_RemindedAt :: "time option"
  ar_EscalatedAt :: "time option"
  ar_RespondedAt :: "time option"

record approval_response =
  rp_Decision :: string
  rp_Actor :: string
  rp_Approver :: string
  rp_Channel :: string
  rp_IdempotencyKey :: string
  rp_Feedback :: string
  rp_Values :: "(string \<times> gval) list"

text \<open>A row of \<open>approval_responses\<close>; its \<open>Decision\<close> is the stored status and its \<open>Approver\<close> the effective one.\<close>

record response_row =
  rr_Request :: string
  rr_Response :: approval_response

record approval_db =
  db_requests :: "approval_request list"
  db_responses :: "response_row list"

datatype approval_error = MissingIdentity | MissingKey | NoSuchRequest | DuplicateID

definition unresolved :: "approval_request \<Rightarrow> bool" where
  "unresolved q \<longleftrightarrow> ar_Status q = ApprovalPending \<or> ar_Status q = ApprovalEscalated"

section \<open>Queries\<close>

definition last_by :: "('a \<Rightarrow> int) \<Rightarrow> 'a list \<Rightarrow> 'a option" where
  "last_by key xs = (case rev (sort_key key xs) of [] \<Rightarrow> None | x # _ \<Rightarrow> Some x)"

definition GetApprovalRequest :: "string \<Rightarrow> approval_db \<Rightarrow> approval_request option" where
  "GetApprovalRequest i d = find (\<lambda>q. ar_ID q = i) (db_requests d)"

definition GetApprovalByInstance :: "string \<Rightarrow> approval_db \<Rightarrow> approval_request option" where
  "GetApprovalByInstance inst d = last_by ar_CreatedAt (filter (\<lambda>q. ar_Instance q = inst) (db_requests d))"

definition ListApprovalRequests :: "string \<Rightarrow> int \<Rightarrow> approval_db \<Rightarrow> approval_request list" where
  "ListApprovalRequests status limit d =
     (let lim = (if limit \<le> 0 \<or> limit > 500 then 100 else limit);
          rows = (if status \<noteq> [] then filter (\<lambda>q. ar_Status q = status) (db_requests d) else db_requests d)
      in take (nat lim) (rev (sort_key ar_CreatedAt rows)))"

definition CountPendingApprovals :: "approval_db \<Rightarrow> nat" where
  "CountPendingApprovals d = count_if unresolved (db_requests d)"

definition CountApprovals :: "string \<Rightarrow> approval_db \<Rightarrow> nat" where
  "CountApprovals i d =
     count_if (\<lambda>w. rr_Request w = i \<and> rp_Decision (rr_Response w) = ApprovalApproved) (db_responses d)"

section \<open>Creating a request\<close>

definition same_step :: "approval_request \<Rightarrow> approval_request \<Rightarrow> bool" where
  "same_step q req \<longleftrightarrow> ar_Instance q = ar_Instance req \<and> ar_StepID q = ar_StepID req"

definition request_defaults :: "time \<Rightarrow> approval_request \<Rightarrow> approval_request" where
  "request_defaults now req =
     req\<lparr>ar_Required := (if ar_Required req \<le> 0 then 1 else ar_Required req),
         ar_Status := (if ar_Status req = [] then ApprovalPending else ar_Status req),
         ar_CreatedAt := (if ar_CreatedAt req = 0 then now else ar_CreatedAt req)\<rparr>"

definition next_attempt :: "approval_request \<Rightarrow> approval_db \<Rightarrow> int" where
  "next_attempt req d =
     (case filter (\<lambda>q. same_step q req) (db_requests d) of
        [] \<Rightarrow> 0 | q # qs \<Rightarrow> fold max (map ar_Attempt qs) (ar_Attempt q)) + 1"

definition mint_attempt :: "approval_request \<Rightarrow> approval_db \<Rightarrow> approval_request" where
  "mint_attempt req d =
     (let att = (if ar_Attempt req \<le> 0 then next_attempt req d else ar_Attempt req) in
      req\<lparr>ar_Attempt := att, ar_ID := (if att > 1 then ar_ID req @ ''@'' @ itoa att else ar_ID req)\<rparr>)"

text \<open>The columns the insert does not name take their defaults.\<close>

definition inserted_row :: "approval_request \<Rightarrow> approval_request" where
  "inserted_row req =
     req\<lparr>ar_Values := [], ar_Feedback := [], ar_RespondedBy := [], ar_ResponseChannel := [],
         ar_IdempotencyKey := [], ar_RemindedAt := None, ar_EscalatedAt := None, ar_RespondedAt := None\<rparr>"

text \<open>
  \<open>CreateApprovalRequest\<close> returns the request as the caller's pointer sees it afterwards. The insert
  does nothing when the attempt is already recorded; a clash of the primary key alone is an error.
\<close>

definition CreateApprovalRequest ::
  "time \<Rightarrow> approval_request \<Rightarrow> approval_db \<Rightarrow> approval_error + approval_request \<times> approval_db" where
  "CreateApprovalRequest now req0 d =
     (if ar_ID req0 = [] \<or> ar_Instance req0 = [] \<or> ar_StepID req0 = [] then Inl MissingIdentity
      else let req = request_defaults now req0 in
      case last_by ar_Attempt (filter (\<lambda>q. same_step q req \<and> unresolved q) (db_requests d)) of
        Some opened \<Rightarrow> Inr (opened, d)
      | None \<Rightarrow>
          let req1 = mint_attempt req d
          in if list_ex (\<lambda>q. same_step q req1 \<and> ar_Attempt q = ar_Attempt req1) (db_requests d) then Inr (req1, d)
             else if list_ex (\<lambda>q. ar_ID q = ar_ID req1) (db_requests d) then Inl DuplicateID
             else Inr (req1, d\<lparr>db_requests := db_requests d @ [inserted_row req1]\<rparr>))"

section \<open>Resolving a request\<close>

definition update_where ::
  "(approval_request \<Rightarrow> bool) \<Rightarrow> (approval_request \<Rightarrow> approval_request) \<Rightarrow> approval_db \<Rightarrow> bool \<times> approval_db" where
  "update_where P f d =
     (count_if P (db_requests d) = 1,
      d\<lparr>db_requests := map (\<lambda>q. if P q then f q else q) (db_requests d)\<rparr>)"

definition decision_status :: "string \<Rightarrow> string" where
  "decision_status decision =
     (if equal_fold decision ''reject'' \<or> equal_fold decision ''rejected'' then ApprovalRejected else ApprovalApproved)"

definition response_clash :: "string \<Rightarrow> approval_response \<Rightarrow> approval_db \<Rightarrow> bool" where
  "response_clash i resp d \<longleftrightarrow>
     list_ex (\<lambda>w. rp_IdempotencyKey (rr_Response w) = rp_IdempotencyKey resp
                \<or> rr_Request w = i \<and> rp_Approver (rr_Response w) = rp_Approver resp) (db_responses d)"

definition set_resolution :: "time \<Rightarrow> approval_response \<Rightarrow> approval_request \<Rightarrow> approval_request" where
  "set_resolution now resp q =
     q\<lparr>ar_Status := rp_Decision resp, ar_Values := rp_Values resp, ar_Feedback := rp_Feedback resp,
       ar_RespondedBy := rp_Actor resp, ar_ResponseChannel := rp_Channel resp,
       ar_IdempotencyKey := rp_IdempotencyKey resp, ar_RespondedAt := Some now\<rparr>"

definition ResolveApprovalRequest ::
  "time \<Rightarrow> string \<Rightarrow> approval_response \<Rightarrow> approval_db \<Rightarrow>
     approval_error + (approval_request option \<times> bool) \<times> approval_db" where
  "ResolveApprovalRequest now i response d =
     (if rp_IdempotencyKey response = [] then Inl MissingKey
      else case GetApprovalRequest i d of
        None \<Rightarrow> Inl NoSuchRequest
      | Some current \<Rightarrow>
          if \<not> unresolved current then Inr ((Some current, False), d)
          else
            let row = response\<lparr>rp_Decision := decision_status (rp_Decision response),
                               rp_Approver := (if rp_Approver response = [] then rp_Actor response
                                               else rp_Approver response)\<rparr>
            in if response_clash i row d then Inr ((Some current, False), d)
            else
              let d1 = d\<lparr>db_responses := db_responses d @ [\<lparr>rr_Request = i, rr_Response = row\<rparr>]\<rparr>;
                  resolved = (rp_Decision row = ApprovalRejected \<or> int (CountApprovals i d1) \<ge> ar_Required current);
                  d2 = (if resolved
                        then snd (update_where (\<lambda>q. ar_ID q = i \<and> unresolved q) (set_resolution now row) d1)
                        else d1)
              in Inr ((GetApprovalRequest i d2, resolved), d2))"

definition updateApprovalStatus ::
  "time \<Rightarrow> string \<Rightarrow> string \<Rightarrow> string list \<Rightarrow> approval_db \<Rightarrow> bool \<times> approval_db" where
  "updateApprovalStatus now i status fromStates d =
     update_where (\<lambda>q. ar_ID q = i \<and> ar_Status q \<in> set fromStates)
       (\<lambda>q. q\<lparr>ar_Status := status, ar_RespondedAt := Some now\<rparr>) d"

definition MarkApprovalTimedOut :: "time \<Rightarrow> string \<Rightarrow> approval_db \<Rightarrow> bool \<times> approval_db" where
  "MarkApprovalTimedOut now i d = updateApprovalStatus now i ApprovalTimedOut [ApprovalPending, ApprovalEscalated] d"

definition MarkApprovalReminded :: "time \<Rightarrow> string \<Rightarrow> approval_db \<Rightarrow> bool \<times> approval_db" where
  "MarkApprovalReminded now i d =
     update_where (\<lambda>q. ar_ID q = i \<and> unresolved q \<and> ar_RemindedAt q = None) (\<lambda>q. q\<lparr>ar_RemindedAt := Some now\<rparr>) d"

definition EscalateApproval :: "time \<Rightarrow> string \<Rightarrow> approval_db \<Rightarrow> bool \<times> approval_db" where
  "EscalateApproval now i d =
     update_where (\<lambda>q. ar_ID q = i \<and> ar_Status q = ApprovalPending)
       (\<lambda>q. q\<lparr>ar_Status := ApprovalEscalated, ar_EscalatedAt := Some now\<rparr>) d"

section \<open>The store as a state machine\<close>

text \<open>The engine creates requests without a status, which the store reads as pending.\<close>

inductive approval_step :: "approval_db \<Rightarrow> approval_db \<Rightarrow> bool" where
  create: "CreateApprovalRequest now req d = Inr (req', d') \<Longrightarrow> ar_Status req = [] \<Longrightarrow> approval_step d d'"
| resolve: "ResolveApprovalRequest now i resp d = Inr (out, d') \<Longrightarrow> approval_step d d'"
| time_out: "MarkApprovalTimedOut now i d = (won, d') \<Longrightarrow> approval_step d d'"
| remind: "MarkApprovalReminded now i d = (won, d') \<Longrightarrow> approval_step d d'"
| escalate: "EscalateApproval now i d = (won, d') \<Longrightarrow> approval_step d d'"

definition empty_db :: approval_db where
  "empty_db = \<lparr>db_requests = [], db_responses = []\<rparr>"

definition one_open :: "approval_db \<Rightarrow> bool" where
  "one_open d \<longleftrightarrow> (\<forall>p\<in>set (db_requests d). \<forall>q\<in>set (db_requests d).
     unresolved p \<longrightarrow> unresolved q \<longrightarrow> same_step p q \<longrightarrow> p = q)"

definition quorum_met :: "approval_db \<Rightarrow> bool" where
  "quorum_met d \<longleftrightarrow> (\<forall>q\<in>set (db_requests d).
     ar_Status q = ApprovalApproved \<longrightarrow> ar_Required q \<le> int (CountApprovals (ar_ID q) d))"

definition approval_inv :: "approval_db \<Rightarrow> bool" where
  "approval_inv d \<longleftrightarrow>
     distinct (map ar_ID (db_requests d))
     \<and> distinct (map (\<lambda>q. (ar_Instance q, ar_StepID q, ar_Attempt q)) (db_requests d))
     \<and> (\<forall>q\<in>set (db_requests d). 1 \<le> ar_Required q)
     \<and> one_open d
     \<and> distinct (map (\<lambda>w. rp_IdempotencyKey (rr_Response w)) (db_responses d))
     \<and> distinct (map (\<lambda>w. (rr_Request w, rp_Approver (rr_Response w))) (db_responses d))
     \<and> quorum_met d"

section \<open>Facts\<close>

lemma status_distinct [simp]:
  "ApprovalPending \<noteq> ApprovalApproved" "ApprovalEscalated \<noteq> ApprovalApproved"
  "ApprovalRejected \<noteq> ApprovalApproved" "ApprovalTimedOut \<noteq> ApprovalApproved"
  "ApprovalApproved \<noteq> ApprovalRejected" "ApprovalPending \<noteq> []" "ApprovalTimedOut \<noteq> ApprovalPending"
  "ApprovalTimedOut \<noteq> ApprovalEscalated" "ApprovalApproved \<noteq> ApprovalPending" "ApprovalApproved \<noteq> ApprovalEscalated"
  "ApprovalRejected \<noteq> ApprovalPending" "ApprovalRejected \<noteq> ApprovalEscalated"
  by (simp_all add: approval_status)

lemma last_by_None [simp]: "last_by key xs = None \<longleftrightarrow> xs = []"
  by (auto simp: last_by_def split: list.splits)
     (metis length_0_conv length_sort)

lemma last_by_Nil [simp]: "last_by key [] = None"
  by simp

lemma last_by_Some:
  assumes "last_by key xs = Some x"
  shows "x \<in> set xs" and "\<And>y. y \<in> set xs \<Longrightarrow> key y \<le> key x"
proof -
  obtain ys where ys: "sort_key key xs = ys @ [x]"
    using assms by (auto simp: last_by_def split: list.splits)
  then have "set xs = insert x (set ys)" by (metis set_sort set_append list.simps(15) empty_set Un_insert_right sup_bot.right_neutral)
  then show "x \<in> set xs" by simp
  have "sorted (map key (ys @ [x]))" using sorted_sort_key [of key xs] ys by simp
  then have "\<And>y. y \<in> set ys \<Longrightarrow> key y \<le> key x" by (auto simp: sorted_append)
  with \<open>set xs = _\<close> show "\<And>y. y \<in> set xs \<Longrightarrow> key y \<le> key x" by auto
qed

lemma fold_max_ge: "(a::int) \<le> fold max xs a" "x \<in> set xs \<Longrightarrow> x \<le> fold max xs a"
proof (induction xs arbitrary: a)
  case (Cons y ys)
  { case 1 show ?case using Cons.IH(1) [of "max y a"] by simp }
  { case 2 then show ?case using Cons.IH(1) [of "max y a"] Cons.IH(2) by auto }
qed simp_all

lemma next_attempt_fresh:
  assumes "q \<in> set (db_requests d)" and "same_step q req"
  shows "ar_Attempt q < next_attempt req d"
proof -
  obtain p ps where f: "filter (\<lambda>q. same_step q req) (db_requests d) = p # ps"
    using assms by (metis (mono_tags, lifting) filter_empty_conv neq_Nil_conv)
  moreover have "q \<in> set (filter (\<lambda>q. same_step q req) (db_requests d))" using assms by simp
  ultimately have "q \<in> set (p # ps)" by (simp only:)
  then have "ar_Attempt q \<le> fold max (map ar_Attempt ps) (ar_Attempt p)"
    using fold_max_ge(1) [of "ar_Attempt p" "map ar_Attempt ps"]
      fold_max_ge(2) [of "ar_Attempt q" "map ar_Attempt ps" "ar_Attempt p"] by auto
  with f show ?thesis by (simp add: next_attempt_def)
qed

lemma same_step_simps [simp]:
  "same_step q (request_defaults now req) = same_step q req"
  "same_step q (mint_attempt req d) = same_step q req"
  "same_step q (inserted_row req) = same_step q req"
  by (simp_all add: same_step_def request_defaults_def mint_attempt_def inserted_row_def Let_def)

lemma inserted_row_simps [simp]:
  "ar_ID (inserted_row req) = ar_ID req" "ar_Attempt (inserted_row req) = ar_Attempt req"
  "ar_Required (inserted_row req) = ar_Required req" "ar_Status (inserted_row req) = ar_Status req"
  "ar_Instance (inserted_row req) = ar_Instance req" "ar_StepID (inserted_row req) = ar_StepID req"
  "ar_CreatedAt (inserted_row req) = ar_CreatedAt req" "unresolved (inserted_row req) = unresolved req"
  by (simp_all add: inserted_row_def unresolved_def)

lemma mint_attempt_simps [simp]:
  "ar_Required (mint_attempt req d) = ar_Required req" "ar_Status (mint_attempt req d) = ar_Status req"
  "ar_Instance (mint_attempt req d) = ar_Instance req" "ar_StepID (mint_attempt req d) = ar_StepID req"
  "ar_CreatedAt (mint_attempt req d) = ar_CreatedAt req" "unresolved (mint_attempt req d) = unresolved req"
  by (simp_all add: mint_attempt_def unresolved_def Let_def)

lemma request_defaults_simps [simp]:
  "1 \<le> ar_Required (request_defaults now req)" "ar_ID (request_defaults now req) = ar_ID req"
  "ar_Status (request_defaults now req) = (if ar_Status req = [] then ApprovalPending else ar_Status req)"
  "ar_Instance (request_defaults now req) = ar_Instance req" "ar_StepID (request_defaults now req) = ar_StepID req"
  "ar_Attempt (request_defaults now req) = ar_Attempt req"
  by (simp_all add: request_defaults_def)

text \<open>The shape of a successful create: an open gate is returned as it is, or one row is appended.\<close>

lemma CreateApprovalRequest_cases:
  assumes "CreateApprovalRequest now req d = Inr (req', d')"
  obtains (kept) "d' = d"
  | (added) row where "d' = d\<lparr>db_requests := db_requests d @ [row]\<rparr>"
      "\<forall>q\<in>set (db_requests d). same_step q row \<longrightarrow> \<not> unresolved q"
      "\<forall>q\<in>set (db_requests d). \<not> (same_step q row \<and> ar_Attempt q = ar_Attempt row)"
      "\<forall>q\<in>set (db_requests d). ar_ID q \<noteq> ar_ID row"
      "1 \<le> ar_Required row" "row = inserted_row req'"
      "ar_Status row = (if ar_Status req = [] then ApprovalPending else ar_Status req)"
      "ar_Instance row = ar_Instance req" "ar_StepID row = ar_StepID req"
proof -
  let ?req1 = "mint_attempt (request_defaults now req) d"
  have "d' = d \<or> (\<forall>q\<in>set (db_requests d). same_step q ?req1 \<longrightarrow> \<not> unresolved q)
      \<and> (\<forall>q\<in>set (db_requests d). \<not> (same_step q ?req1 \<and> ar_Attempt q = ar_Attempt ?req1))
      \<and> (\<forall>q\<in>set (db_requests d). ar_ID q \<noteq> ar_ID ?req1)
      \<and> req' = ?req1 \<and> d' = d\<lparr>db_requests := db_requests d @ [inserted_row ?req1]\<rparr>"
    using assms unfolding CreateApprovalRequest_def Let_def list_ex_iff
    by (auto simp: filter_empty_conv split: if_splits option.splits)
  then show ?thesis
  proof
    assume "d' = d"
    then show ?thesis by (rule kept)
  next
    assume a: "(\<forall>q\<in>set (db_requests d). same_step q ?req1 \<longrightarrow> \<not> unresolved q)
      \<and> (\<forall>q\<in>set (db_requests d). \<not> (same_step q ?req1 \<and> ar_Attempt q = ar_Attempt ?req1))
      \<and> (\<forall>q\<in>set (db_requests d). ar_ID q \<noteq> ar_ID ?req1)
      \<and> req' = ?req1 \<and> d' = d\<lparr>db_requests := db_requests d @ [inserted_row ?req1]\<rparr>"
    show ?thesis
      by (rule added [of "inserted_row ?req1"]) (use a in simp_all)
  qed
qed

subsection \<open>Preservation of the invariant\<close>

lemma CreateApprovalRequest_inv:
  assumes "CreateApprovalRequest now req d = Inr (req', d')" and "ar_Status req = []" and inv: "approval_inv d"
  shows "approval_inv d'"
  using assms(1)
proof (cases rule: CreateApprovalRequest_cases)
  case kept
  then show ?thesis using inv by simp
next
  case (added row)
  have cnt: "CountApprovals i d' = CountApprovals i d" for i by (simp add: added(1) CountApprovals_def)
  have "one_open d'"
    using inv added(2) unfolding approval_inv_def one_open_def added(1)
    by (auto simp: same_step_def)
  moreover have "quorum_met d'"
    using inv added(7) assms(2) unfolding approval_inv_def quorum_met_def cnt by (auto simp: added(1))
  moreover have "distinct (map (\<lambda>q. (ar_Instance q, ar_StepID q, ar_Attempt q)) (db_requests d'))"
    using inv added(3) by (auto simp: added(1) approval_inv_def same_step_def)
  moreover have "distinct (map ar_ID (db_requests d'))"
    using inv added(4) by (auto simp: added(1) approval_inv_def)
  ultimately show ?thesis using inv added(5) by (auto simp: approval_inv_def added(1))
qed

text \<open>An update that only touches unresolved rows and keeps their identity.\<close>

definition keeps_identity :: "(approval_request \<Rightarrow> approval_request) \<Rightarrow> bool" where
  "keeps_identity f \<longleftrightarrow> (\<forall>q. ar_ID (f q) = ar_ID q \<and> ar_Instance (f q) = ar_Instance q
     \<and> ar_StepID (f q) = ar_StepID q \<and> ar_Attempt (f q) = ar_Attempt q \<and> ar_Required (f q) = ar_Required q)"

lemma update_where_inv:
  assumes inv: "approval_inv d" and P: "\<And>q. P q \<Longrightarrow> unresolved q" and f: "keeps_identity f"
    and quorum: "\<And>q. q \<in> set (db_requests d) \<Longrightarrow> P q \<Longrightarrow> ar_Status (f q) = ApprovalApproved \<Longrightarrow>
      ar_Required q \<le> int (CountApprovals (ar_ID q) d)"
  shows "approval_inv (snd (update_where P f d))"
proof -
  let ?g = "\<lambda>q. if P q then f q else q"
  have g: "ar_ID (?g q) = ar_ID q" "ar_Instance (?g q) = ar_Instance q" "ar_StepID (?g q) = ar_StepID q"
    "ar_Attempt (?g q) = ar_Attempt q" "ar_Required (?g q) = ar_Required q" for q
    using f by (simp_all add: keeps_identity_def)
  have un: "unresolved q" if "unresolved (?g q)" for q using that P by (cases "P q") auto
  have ss: "same_step p q" if "same_step (?g p) (?g q)" for p q using that by (simp only: same_step_def g)
  have reqs: "db_requests (snd (update_where P f d)) = map ?g (db_requests d)"
    and resp: "db_responses (snd (update_where P f d)) = db_responses d"
    by (simp_all add: update_where_def)
  have "one_open (snd (update_where P f d))"
    unfolding one_open_def reqs
  proof (intro ballI impI)
    fix p' q' assume "p' \<in> set (map ?g (db_requests d))" "q' \<in> set (map ?g (db_requests d))"
      and u: "unresolved p'" "unresolved q'" and s: "same_step p' q'"
    then obtain p q where pq: "p \<in> set (db_requests d)" "p' = ?g p" "q \<in> set (db_requests d)" "q' = ?g q" by auto
    with u s un ss have "unresolved p" "unresolved q" "same_step p q" by blast+
    with pq inv have "p = q" by (auto simp: approval_inv_def one_open_def)
    with pq show "p' = q'" by simp
  qed
  moreover have "quorum_met (snd (update_where P f d))"
    using inv quorum unfolding quorum_met_def reqs approval_inv_def
    using f by (auto simp: CountApprovals_def resp keeps_identity_def)
  moreover have ids: "map ar_ID (map ?g (db_requests d)) = map ar_ID (db_requests d)"
    and laps: "map (\<lambda>q. (ar_Instance q, ar_StepID q, ar_Attempt q)) (map ?g (db_requests d)) =
     map (\<lambda>q. (ar_Instance q, ar_StepID q, ar_Attempt q)) (db_requests d)"
    by (simp_all only: map_map comp_def g)
  moreover have "\<forall>q\<in>set (map ?g (db_requests d)). 1 \<le> ar_Required q"
    using inv f by (auto simp: approval_inv_def keeps_identity_def)
  ultimately show ?thesis
    using inv unfolding approval_inv_def reqs resp ids laps by blast
qed

lemma GetApprovalRequest_Some:
  assumes "GetApprovalRequest i d = Some q"
  shows "q \<in> set (db_requests d)" "ar_ID q = i"
  using assms by (auto simp: GetApprovalRequest_def find_Some_iff)

lemma same_id_same_row:
  assumes "approval_inv d" "p \<in> set (db_requests d)" "q \<in> set (db_requests d)" "ar_ID p = ar_ID q"
  shows "p = q"
  using assms by (auto simp: approval_inv_def distinct_map inj_on_def)

definition effective_row :: "approval_response \<Rightarrow> approval_response" where
  "effective_row response = response\<lparr>rp_Decision := decision_status (rp_Decision response),
     rp_Approver := (if rp_Approver response = [] then rp_Actor response else rp_Approver response)\<rparr>"

definition with_response :: "string \<Rightarrow> approval_response \<Rightarrow> approval_db \<Rightarrow> approval_db" where
  "with_response i row d = d\<lparr>db_responses := db_responses d @ [\<lparr>rr_Request = i, rr_Response = row\<rparr>]\<rparr>"

lemma ResolveApprovalRequest_cases:
  assumes "ResolveApprovalRequest now i resp d = Inr ((q', won), d')"
  obtains (refused) q where "GetApprovalRequest i d = Some q" "q' = Some q" "\<not> won" "d' = d"
      "\<not> unresolved q \<or> response_clash i (effective_row resp) d"
  | (recorded) q where "GetApprovalRequest i d = Some q" "unresolved q" "\<not> won"
      "\<not> response_clash i (effective_row resp) d" "d' = with_response i (effective_row resp) d"
      "q' = GetApprovalRequest i d'"
      "rp_Decision (effective_row resp) \<noteq> ApprovalRejected" "int (CountApprovals i d') < ar_Required q"
  | (settled) q where "GetApprovalRequest i d = Some q" "unresolved q" "won"
      "\<not> response_clash i (effective_row resp) d"
      "d' = snd (update_where (\<lambda>q. ar_ID q = i \<and> unresolved q) (set_resolution now (effective_row resp))
                  (with_response i (effective_row resp) d))"
      "q' = GetApprovalRequest i d'"
      "rp_Decision (effective_row resp) = ApprovalRejected
        \<or> ar_Required q \<le> int (CountApprovals i (with_response i (effective_row resp) d))"
  using assms unfolding ResolveApprovalRequest_def Let_def effective_row_def [symmetric] with_response_def [symmetric]
  by (auto simp: not_le split: if_splits option.splits)

lemma with_response_inv:
  assumes "approval_inv d" and "\<not> response_clash i row d"
  shows "approval_inv (with_response i row d)"
proof -
  have "CountApprovals j d \<le> CountApprovals j (with_response i row d)" for j
    by (simp add: CountApprovals_def with_response_def)
  then have "quorum_met (with_response i row d)"
    using assms(1) by (auto simp: approval_inv_def quorum_met_def with_response_def) (smt (verit) of_nat_mono)
  then show ?thesis using assms
    by (auto simp: approval_inv_def one_open_def with_response_def response_clash_def list_ex_iff)
qed

lemma decision_status_cases: "decision_status x = ApprovalRejected \<or> decision_status x = ApprovalApproved"
  by (simp add: decision_status_def)

lemma ResolveApprovalRequest_inv:
  assumes "ResolveApprovalRequest now i resp d = Inr ((q', won), d')" and inv: "approval_inv d"
  shows "approval_inv d'"
  using assms(1)
proof (cases rule: ResolveApprovalRequest_cases)
  case (refused q)
  then show ?thesis using inv by simp
next
  case (recorded q)
  then show ?thesis using with_response_inv [OF inv] by simp
next
  case (settled q)
  let ?d1 = "with_response i (effective_row resp) d"
  have q: "q \<in> set (db_requests d)" "ar_ID q = i" using GetApprovalRequest_Some settled(1) by auto
  have "ar_Required p \<le> int (CountApprovals (ar_ID p) ?d1)"
    if p: "p \<in> set (db_requests ?d1)" "ar_ID p = i \<and> unresolved p"
      and a: "ar_Status (set_resolution now (effective_row resp) p) = ApprovalApproved" for p
  proof -
    have "p = q" using same_id_same_row [OF inv] p q by (simp add: with_response_def)
    then show ?thesis using settled(7) a q by (auto simp: set_resolution_def)
  qed
  then show ?thesis unfolding settled(5)
    by (intro update_where_inv with_response_inv inv settled(4)) (auto simp: keeps_identity_def set_resolution_def)
qed

lemma approval_step_inv:
  assumes "approval_step d d'" and inv: "approval_inv d"
  shows "approval_inv d'"
  using assms(1)
proof cases
  case (create now req req')
  then show ?thesis using CreateApprovalRequest_inv inv by blast
next
  case (resolve now i resp out)
  then show ?thesis using ResolveApprovalRequest_inv inv by (cases out) blast
next
  case (time_out now i won)
  have "approval_inv (snd (MarkApprovalTimedOut now i d))"
    unfolding MarkApprovalTimedOut_def updateApprovalStatus_def
    by (intro update_where_inv inv) (auto simp: unresolved_def keeps_identity_def)
  then show ?thesis using time_out by simp
next
  case (remind now i won)
  have "approval_inv (snd (MarkApprovalReminded now i d))"
    unfolding MarkApprovalReminded_def
    by (intro update_where_inv inv) (auto simp: keeps_identity_def unresolved_def)
  then show ?thesis using remind by simp
next
  case (escalate now i won)
  have "approval_inv (snd (EscalateApproval now i d))"
    unfolding EscalateApproval_def
    by (intro update_where_inv inv) (auto simp: unresolved_def keeps_identity_def)
  then show ?thesis using escalate by simp
qed

subsection \<open>What later operations keep\<close>

definition settled_kept :: "approval_db \<Rightarrow> approval_db \<Rightarrow> bool" where
  "settled_kept d d' \<longleftrightarrow>
     (\<forall>q\<in>set (db_requests d). \<not> unresolved q \<longrightarrow> q \<in> set (db_requests d'))
     \<and> set (db_responses d) \<subseteq> set (db_responses d')"

lemma settled_kept_update:
  assumes "\<And>q. P q \<Longrightarrow> unresolved q" and "db_requests e = db_requests d" and "set (db_responses d) \<subseteq> set (db_responses e)"
  shows "settled_kept d (snd (update_where P f e))"
  using assms by (force simp: settled_kept_def update_where_def)

lemma approval_step_kept:
  assumes "approval_step d d'"
  shows "settled_kept d d'"
  using assms
proof cases
  case (create now req req')
  from create(1) show ?thesis by (cases rule: CreateApprovalRequest_cases) (auto simp: settled_kept_def)
next
  case (resolve now i resp out)
  obtain q' won where out: "out = (q', won)" by (cases out)
  from resolve(1) [unfolded out] show ?thesis
  proof (cases rule: ResolveApprovalRequest_cases)
    case (settled q)
    show ?thesis unfolding settled(5) by (rule settled_kept_update) (auto simp: with_response_def)
  qed (auto simp: settled_kept_def with_response_def)
next
  case (time_out now i won)
  have "settled_kept d (snd (MarkApprovalTimedOut now i d))"
    unfolding MarkApprovalTimedOut_def updateApprovalStatus_def
    by (rule settled_kept_update) (auto simp: unresolved_def)
  then show ?thesis using time_out by simp
next
  case (remind now i won)
  have "settled_kept d (snd (MarkApprovalReminded now i d))"
    unfolding MarkApprovalReminded_def by (rule settled_kept_update) auto
  then show ?thesis using remind by simp
next
  case (escalate now i won)
  have "settled_kept d (snd (EscalateApproval now i d))"
    unfolding EscalateApproval_def by (rule settled_kept_update) (auto simp: unresolved_def)
  then show ?thesis using escalate by simp
qed

interpretation approvals: monotone_run "\<lambda>d. d = empty_db" approval_step approval_inv settled_kept
proof
  show "approval_inv d" if "d = empty_db" for d
    by (simp add: that empty_db_def approval_inv_def one_open_def quorum_met_def)
  show "approval_inv d'" if "approval_inv d" "approval_step d d'" for d d'
    using that by (blast intro: approval_step_inv)
  show "settled_kept d d" for d by (simp add: settled_kept_def)
  show "settled_kept d f" if "settled_kept d e" "settled_kept e f" for d e f
    using that unfolding settled_kept_def by blast
  show "settled_kept d d'" if "approval_step d d'" for d d'
    using that by (rule approval_step_kept)
qed

text \<open>Counting approvals is counting approvers.\<close>

definition approvers_of :: "string \<Rightarrow> approval_db \<Rightarrow> string set" where
  "approvers_of i d = {rp_Approver (rr_Response w) | w. w \<in> set (db_responses d) \<and> rr_Request w = i
     \<and> rp_Decision (rr_Response w) = ApprovalApproved}"

lemma distinct_of_map: "distinct (map f xs) \<Longrightarrow> distinct xs"
  by (simp add: distinct_map)

lemma card_approvers:
  assumes "approval_inv d"
  shows "card (approvers_of i d) = CountApprovals i d"
proof -
  let ?P = "\<lambda>w. rr_Request w = i \<and> rp_Decision (rr_Response w) = ApprovalApproved"
  let ?ws = "filter ?P (db_responses d)"
  have "distinct (map (\<lambda>w. (rr_Request w, rp_Approver (rr_Response w))) ?ws)"
    using assms by (simp add: approval_inv_def distinct_map_filter)
  moreover have "map (\<lambda>w. (rr_Request w, rp_Approver (rr_Response w))) ?ws =
      map (Pair i) (map (\<lambda>w. rp_Approver (rr_Response w)) ?ws)"
    unfolding map_map by (rule map_cong) simp_all
  ultimately have "distinct (map (Pair i) (map (\<lambda>w. rp_Approver (rr_Response w)) ?ws))"
    by (rule subst [rotated])
  then have dist: "distinct (map (\<lambda>w. rp_Approver (rr_Response w)) ?ws)" by (rule distinct_of_map)
  have "card (set (map (\<lambda>w. rp_Approver (rr_Response w)) ?ws)) = length ?ws"
    unfolding distinct_card [OF dist] by (rule length_map)
  moreover have "approvers_of i d = set (map (\<lambda>w. rp_Approver (rr_Response w)) ?ws)"
    by (auto simp: approvers_of_def)
  ultimately show ?thesis by (simp add: CountApprovals_def count_if_def)
qed

lemma insort_key_last:
  "key y \<le> key x \<Longrightarrow> insort_key key y (ys @ [x]) = insort_key key y ys @ [x]"
  by (induction ys) auto

lemma sort_key_last:
  assumes "\<And>y. y \<in> set xs \<Longrightarrow> key y \<le> key x"
  shows "sort_key key (xs @ [x]) = sort_key key xs @ [x]"
  using assms by (induction xs) (simp_all add: insort_key_last)

lemma last_by_append:
  assumes "\<And>y. y \<in> set xs \<Longrightarrow> key y \<le> key x"
  shows "last_by key (xs @ [x]) = Some x"
  using sort_key_last [of xs key x, OF assms] by (simp add: last_by_def)

section \<open>Properties\<close>

text \<open>
  In every state the store can reach, an approval step of an instance has at most one request
  that still waits for an answer, and no two requests share an id.
\<close>

theorem approval_one_open:
  assumes "reachable (\<lambda>d. d = empty_db) approval_step d"
  shows "one_open d \<and> distinct (map ar_ID (db_requests d))"
  using approvals.inv_reachable [OF assms] by (simp add: approval_inv_def)

text \<open>
  C6. A request is marked approved only when at least as many different approvers as it requires,
  and at least one, have an approving response on record.
\<close>

theorem approval_quorum:
  assumes "reachable (\<lambda>d. d = empty_db) approval_step d"
    and "q \<in> set (db_requests d)" and "ar_Status q = ApprovalApproved"
  shows "1 \<le> ar_Required q \<and> ar_Required q \<le> int (card (approvers_of (ar_ID q) d))"
  using approvals.inv_reachable [OF assms(1)] assms(2,3) card_approvers
  by (simp add: approval_inv_def quorum_met_def)

text \<open>
  C7. An answer is final: once a request is approved, rejected or timed out, no later sequence of
  store operations changes its row, and no recorded response is ever lost.
\<close>

theorem approval_final:
  assumes "approval_inv d" and "approval_step\<^sup>*\<^sup>* d d'"
    and "q \<in> set (db_requests d)" and "\<not> unresolved q"
  shows "q \<in> set (db_requests d') \<and> set (db_responses d) \<subseteq> set (db_responses d')"
  using approvals.mono_steps [OF assms(2,1)] assms(3,4) by (simp add: settled_kept_def)

text \<open>
  When every earlier request of a step is answered, re-entering the step opens a fresh pending
  request with a larger attempt number, and the lookup by instance returns it, provided the clock
  has not gone back.
\<close>

theorem approval_new_lap:
  assumes "CreateApprovalRequest now req d = Inr (req', d')"
    and "ar_Status req = []" and "ar_Attempt req = 0"
    and "\<forall>q\<in>set (db_requests d). same_step q req \<longrightarrow> \<not> unresolved q"
    and "\<forall>q\<in>set (db_requests d). ar_Instance q = ar_Instance req \<longrightarrow> ar_CreatedAt q \<le> ar_CreatedAt req'"
  shows "\<exists>row. GetApprovalByInstance (ar_Instance req) d' = Some row \<and> row \<notin> set (db_requests d)
    \<and> ar_Status row = ApprovalPending \<and> ar_ID row = ar_ID req'
    \<and> (\<forall>q\<in>set (db_requests d). same_step q req \<longrightarrow> ar_Attempt q < ar_Attempt row)"
proof -
  let ?req = "request_defaults now req"
  let ?req1 = "mint_attempt ?req d"
  have att: "ar_Attempt ?req1 = next_attempt ?req d" using assms(3) by (simp add: mint_attempt_def Let_def)
  have lt: "\<forall>q\<in>set (db_requests d). same_step q req \<longrightarrow> ar_Attempt q < ar_Attempt ?req1"
    using next_attempt_fresh [of _ d ?req] unfolding att by auto
  have none: "last_by ar_Attempt (filter (\<lambda>q. same_step q ?req \<and> unresolved q) (db_requests d)) = None"
    using assms(4) by (auto simp: filter_empty_conv)
  have "\<not> list_ex (\<lambda>q. same_step q ?req1 \<and> ar_Attempt q = ar_Attempt ?req1) (db_requests d)"
    using lt by (auto simp: list_ex_iff)
  then have d': "req' = ?req1" "d' = d\<lparr>db_requests := db_requests d @ [inserted_row ?req1]\<rparr>"
    and ids: "\<forall>q\<in>set (db_requests d). ar_ID q \<noteq> ar_ID ?req1"
    using assms(1) none unfolding CreateApprovalRequest_def Let_def
    by (auto simp: list_ex_iff split: if_splits)
  have "GetApprovalByInstance (ar_Instance req) d' = Some (inserted_row ?req1)"
    unfolding GetApprovalByInstance_def d' using assms(5) d'(1) by (simp, intro last_by_append) simp
  moreover have "inserted_row ?req1 \<notin> set (db_requests d)" using ids by force
  ultimately show ?thesis using lt assms(2) d'(1) by auto
qed

text \<open>
  Replaying a response, the same idempotency key or the same approver again, is refused without
  any effect on the store.
\<close>

theorem approval_replay:
  assumes "GetApprovalRequest i d = Some q" and "response_clash i (effective_row resp) d"
    and "rp_IdempotencyKey resp \<noteq> []"
  shows "ResolveApprovalRequest now i resp d = Inr ((Some q, False), d)"
  using assms by (simp add: ResolveApprovalRequest_def effective_row_def Let_def)

section \<open>Examples\<close>

text \<open>One instance, one approval step: two approvers are needed and both answer.\<close>

definition ex_request :: approval_request where
  "ex_request = \<lparr>ar_ID = ''i:gate'', ar_Instance = ''i'', ar_TaskID = ''t'', ar_WorkflowID = ''w'',
     ar_StepID = ''gate'', ar_Message = [], ar_Approvers = [''ann'', ''bob''], ar_Delegates = [], ar_Required = 2,
     ar_Fields = [], ar_Status = [], ar_Values = [], ar_Feedback = [], ar_RespondedBy = [],
     ar_ResponseChannel = [], ar_IdempotencyKey = [], ar_Attempt = 0, ar_CreatedAt = 5, ar_ExpiresAt = None,
     ar_RemindedAt = None, ar_EscalatedAt = None, ar_RespondedAt = None\<rparr>"

definition ex_response :: "string \<Rightarrow> approval_response" where
  "ex_response who = \<lparr>rp_Decision = ''approve'', rp_Actor = who, rp_Approver = [], rp_Channel = ''web'',
     rp_IdempotencyKey = who, rp_Feedback = [], rp_Values = []\<rparr>"

definition ex_open :: approval_db where
  "ex_open = snd (projr (CreateApprovalRequest 5 ex_request empty_db))"

definition approval_ex_half :: approval_db where
  "approval_ex_half = snd (projr (ResolveApprovalRequest 6 ''i:gate'' (ex_response ''ann'') ex_open))"

definition ex_done :: approval_db where
  "ex_done = snd (projr (ResolveApprovalRequest 7 ''i:gate'' (ex_response ''bob'') approval_ex_half))"

lemma Inr_projr: "\<not> isl x \<Longrightarrow> x = Inr (fst (projr x), snd (projr x))"
  by (cases x) auto

lemma approval_ex_steps: "approval_step empty_db ex_open" "approval_step ex_open approval_ex_half" "approval_step approval_ex_half ex_done"
proof -
  have "\<not> isl (CreateApprovalRequest 5 ex_request empty_db)" and status: "ar_Status ex_request = []" by code_simp+
  from approval_step.create [OF Inr_projr [OF this(1)] status] show "approval_step empty_db ex_open"
    by (simp only: ex_open_def)
  have "\<not> isl (ResolveApprovalRequest 6 ''i:gate'' (ex_response ''ann'') ex_open)" by code_simp
  from approval_step.resolve [OF Inr_projr [OF this]] show "approval_step ex_open approval_ex_half"
    by (simp only: approval_ex_half_def)
  have "\<not> isl (ResolveApprovalRequest 7 ''i:gate'' (ex_response ''bob'') approval_ex_half)" by code_simp
  from approval_step.resolve [OF Inr_projr [OF this]] show "approval_step approval_ex_half ex_done"
    by (simp only: ex_done_def)
qed

lemma ex_reachable: "reachable (\<lambda>d. d = empty_db) approval_step ex_done"
  using reachable_init [of "\<lambda>d. d = empty_db" empty_db approval_step] approval_ex_steps
  by (blast intro: reachable_step)

lemma ex_inv: "approval_inv ex_done"
  using approvals.inv_reachable [OF ex_reachable] .

theorem approval_one_open_witness: "one_open ex_done \<and> distinct (map ar_ID (db_requests ex_done))"
  by (rule approval_one_open [OF ex_reachable])

theorem approval_quorum_witness:
  "map ar_Status (db_requests ex_done) = [ApprovalApproved] \<and> map ar_Status (db_requests approval_ex_half) = [ApprovalPending]
   \<and> 2 \<le> card (approvers_of ''i:gate'' ex_done)"
proof -
  have q: "hd (db_requests ex_done) \<in> set (db_requests ex_done)" "ar_Status (hd (db_requests ex_done)) = ApprovalApproved"
    "ar_Required (hd (db_requests ex_done)) = 2" "ar_ID (hd (db_requests ex_done)) = ''i:gate''" by code_simp+
  have "map ar_Status (db_requests ex_done) = [ApprovalApproved]" "map ar_Status (db_requests approval_ex_half) = [ApprovalPending]"
    by code_simp+
  with approval_quorum [OF ex_reachable q(1,2)] q show ?thesis by simp
qed

theorem approval_final_witness:
  "hd (db_requests ex_done) \<in> set (db_requests (snd (MarkApprovalTimedOut 9 ''i:gate'' ex_done)))"
proof -
  have "approval_step ex_done (snd (MarkApprovalTimedOut 9 ''i:gate'' ex_done))"
    by (rule approval_step.time_out [of 9 "''i:gate''" ex_done "fst (MarkApprovalTimedOut 9 ''i:gate'' ex_done)"]) simp
  then have "approval_step\<^sup>*\<^sup>* ex_done (snd (MarkApprovalTimedOut 9 ''i:gate'' ex_done))" by simp
  moreover have "hd (db_requests ex_done) \<in> set (db_requests ex_done)" "\<not> unresolved (hd (db_requests ex_done))"
    by code_simp+
  ultimately show ?thesis using approval_final [OF ex_inv] by blast
qed

theorem approval_new_lap_witness:
  "\<exists>row. GetApprovalByInstance ''i'' (snd (projr (CreateApprovalRequest 8 (ex_request\<lparr>ar_CreatedAt := 8\<rparr>) ex_done))) = Some row
     \<and> ar_Status row = ApprovalPending \<and> ar_ID row = ''i:gate@2''"
proof -
  let ?req = "ex_request\<lparr>ar_CreatedAt := 8\<rparr>"
  let ?x = "CreateApprovalRequest 8 ?req ex_done"
  have "\<not> isl ?x" and st: "ar_Status ?req = []" "ar_Attempt ?req = 0" "ar_Instance ?req = ''i''"
    and resolved: "list_all (\<lambda>q. same_step q ?req \<longrightarrow> \<not> unresolved q) (db_requests ex_done)"
    and clock: "list_all (\<lambda>q. ar_Instance q = ar_Instance ?req \<longrightarrow> ar_CreatedAt q \<le> ar_CreatedAt (fst (projr ?x))) (db_requests ex_done)"
    and new_id: "ar_ID (fst (projr ?x)) = ''i:gate@2''" by code_simp+
  from approval_new_lap [OF Inr_projr [OF this(1)] st(1,2)] resolved clock new_id st(3)
  show ?thesis unfolding list_all_iff by auto
qed

theorem approval_replay_witness:
  "\<exists>q. ResolveApprovalRequest 7 ''i:gate'' (ex_response ''ann'') approval_ex_half = Inr ((Some q, False), approval_ex_half)"
proof -
  have "GetApprovalRequest ''i:gate'' approval_ex_half = Some (hd (db_requests approval_ex_half))"
    "response_clash ''i:gate'' (effective_row (ex_response ''ann'')) approval_ex_half"
    "rp_IdempotencyKey (ex_response ''ann'') \<noteq> []" by code_simp+
  from approval_replay [OF this] show ?thesis by blast
qed

end
