(* ===== verification/Dag_Gates.thy ===== *)
theory Dag_Gates
  imports Dag_Run Approval_Store
begin

text \<open>
  What the scheduler does with a step's result before it records it (\<open>dag.go\<close>): the missing-output
  policy, the \<open>fail_when\<close> gate with its fail-closed rule, and the parking of an instance at an
  approval or a wait.
\<close>

section \<open>Definitions\<close>

definition passFail :: "bool \<Rightarrow> string" where
  "passFail success = (if success then dstate_name stPassed else dstate_name stFailed)"

definition missingOutputPolicy :: "step_config \<Rightarrow> string" where
  "missingOutputPolicy s = (if OnMissingOutput (flds s) = [] then OnMissingOutputWarn else OnMissingOutput (flds s))"

definition applyMissingOutput :: "step_config \<Rightarrow> step_result \<Rightarrow> step_result" where
  "applyMissingOutput s res =
     (if \<not> sr_Success res \<or> OutputSchema (flds s) = None \<or> sr_Structured res \<noteq> []
         \<or> OnMissingOutput (flds s) = OnMissingOutputIgnore
      then res
      else if OnMissingOutput (flds s) = OnMissingOutputFail
      then res\<lparr>sr_Success := False,
               sr_Output := ''on_missing_output=fail: step '' @ go_quote (sid s)
                 @ '' declared an output schema but emitted no APIARY_OUTPUT''\<rparr>
      else res)"

definition unevaluableGateKeys :: "expr \<Rightarrow> step_config \<Rightarrow> step_result \<Rightarrow> memory_step list \<Rightarrow> string list" where
  "unevaluableGateKeys gate s res parallelContribs =
     (let owners = (if StepType s = StepTypeParallel
                    then map (\<lambda>c. (ms_WriteFields c, map fst (ms_Structured c))) parallelContribs
                    else [(MemoryWriteFields s, map fst (sr_Structured res))]);
          declared = concat (map fst owners);
          produced = concat (map snd owners)
      in filter (\<lambda>key. key \<in> set declared \<and> key \<notin> set produced) (MemoryRefs gate))"

text \<open>Overlaying structured output on the memory view, as the loops over \<open>StructuredOutput\<close> do.\<close>

definition overlay :: "golib \<Rightarrow> (string \<times> gval) list \<Rightarrow> (string \<rightharpoonup> string) \<Rightarrow> (string \<rightharpoonup> string)" where
  "overlay lib structured m =
     (\<lambda>k. case map_of structured k of Some v \<Rightarrow> Some (renderValue lib v) | None \<Rightarrow> m k)"

definition transientMem :: "golib \<Rightarrow> dag_run \<Rightarrow> step_config \<Rightarrow> step_result \<Rightarrow> memory_step list \<Rightarrow> (string \<rightharpoonup> string)" where
  "transientMem lib r s res parallelContribs =
     (let m = overlay lib (sr_Structured res) (memoryValues lib r) in
      if StepType s = StepTypeParallel
      then fold (\<lambda>c. overlay lib (ms_Structured c)) parallelContribs m else m)"

definition gate_ctx :: "golib \<Rightarrow> dag_run \<Rightarrow> step_config \<Rightarrow> step_result \<Rightarrow> memory_step list \<Rightarrow> eval_context" where
  "gate_ctx lib r s res parallelContribs =
     (eval_ctx lib r)\<lparr>ec_Memory := transientMem lib r s res parallelContribs\<rparr>"

definition gate_error :: "step_config \<Rightarrow> expr_error \<Rightarrow> string" where
  "gate_error s e = ''fail_when eval error '' @ go_quote (FailWhen (flds s)) @ '': '' @ expr_error_msg e"

definition applyFailWhen :: "golib \<Rightarrow> dag_run \<Rightarrow> step_config \<Rightarrow> step_result \<Rightarrow> memory_step list \<Rightarrow> step_result" where
  "applyFailWhen lib r s res parallelContribs =
     (case ParseExpr (stripExprDelimiters (FailWhen (flds s))) of
        Inl e \<Rightarrow> res\<lparr>sr_Success := False, sr_Output := gate_error s e\<rparr>
      | Inr gate \<Rightarrow>
          let unset = unevaluableGateKeys gate s res parallelContribs in
          if OnMissingOutput (flds s) \<noteq> OnMissingOutputIgnore \<and> unset \<noteq> [] then
            res\<lparr>sr_Success := False,
                sr_Output := ''gate '' @ go_quote (FailWhen (flds s))
                  @ '' cannot be evaluated: step declared memory.write key(s) '' @ str_join '', '' unset
                  @ '' but emitted no value for them (missing or incomplete APIARY_OUTPUT)'' @ dash
                  @ ''failing closed''\<rparr>
          else
            (case Eval (lib_re lib) gate (gate_ctx lib r s res parallelContribs) of
               Inl e \<Rightarrow> res\<lparr>sr_Success := False, sr_Output := gate_error s e\<rparr>
             | Inr True \<Rightarrow> res\<lparr>sr_Success := False\<rparr>
             | Inr False \<Rightarrow> res))"

section \<open>Parking\<close>

text \<open>
  The request an approval step opens. Posting the message, the approval providers and the audit event
  are not modelled; a store error is logged and the run parks all the same.
\<close>

definition approval_request_of :: "golib \<Rightarrow> time \<Rightarrow> dag_run \<Rightarrow> step_config \<Rightarrow> approval_request" where
  "approval_request_of lib now r s =
     (let t = ParsedTimeout (lib_duration lib) s in
      \<lparr>ar_ID = r_instID r @ '':'' @ sid s, ar_Instance = r_instID r, ar_TaskID = r_taskID r, ar_WorkflowID = wc_ID (r_wf r),
       ar_StepID = sid s, ar_Message = Message (flds s), ar_Approvers = Approvers (flds s),
       ar_Delegates = Delegates (flds s), ar_Required = RequiredApprovals (flds s),
       ar_Fields = ApprovalFields (flds s), ar_Status = [], ar_Values = [], ar_Feedback = [], ar_RespondedBy = [],
       ar_ResponseChannel = [], ar_IdempotencyKey = [], ar_Attempt = 0, ar_CreatedAt = now,
       ar_ExpiresAt = (if t > 0 then Some (now + t) else None), ar_RemindedAt = None, ar_EscalatedAt = None,
       ar_RespondedAt = None\<rparr>)"

definition enterApproval ::
  "golib \<Rightarrow> time \<Rightarrow> step_config \<Rightarrow> dag_run \<Rightarrow> approval_db \<Rightarrow> dag_run \<times> approval_db" where
  "enterApproval lib now s r d =
     (r\<lparr>r_state := (r_state r)(sid s \<mapsto> stWaiting), r_waitingStep := sid s, r_parkedAt := now\<rparr>,
      case CreateApprovalRequest now (approval_request_of lib now r s) d of
        Inl _ \<Rightarrow> d | Inr (_, d') \<Rightarrow> d')"

definition waitStepConfig :: "dag_run \<Rightarrow> step_config \<times> bool" where
  "waitStepConfig r =
     (if r_waitingStep r = [] then (zero_step, False)
      else if r_waitingChild r \<noteq> [] then
        (case r_childByID r (r_waitingChild r) of None \<Rightarrow> (zero_step, False) | Some c \<Rightarrow> (c, True))
      else (step_of r (r_waitingStep r), StepType (step_of r (r_waitingStep r)) = StepTypeWaitFor))"

definition enterWait :: "golib \<Rightarrow> time \<Rightarrow> step_config \<Rightarrow> dag_run \<Rightarrow> dag_run" where
  "enterWait lib now s r =
     (let r1 = r\<lparr>r_state := (r_state r)(sid s \<mapsto> stWaiting), r_waitingStep := sid s\<rparr>;
          waitStep = fst (waitStepConfig r1);
          md = ParsedMaxDuration (lib_duration lib) (WaitFor (flds waitStep))
      in if r_waitDeadline r1 = 0 \<and> WaitFor (flds waitStep) \<noteq> None \<and> md > 0
         then r1\<lparr>r_waitDeadline := now + md\<rparr> else r1)"

definition parallelSnapshot :: "dag_run \<Rightarrow> string \<Rightarrow> (string \<times> step_result) list" where
  "parallelSnapshot r i = (case r_parallelDone r i of None \<Rightarrow> [] | Some done \<Rightarrow> done)"

datatype approval_decision = ApprovalWait | ApprovalResume | ApprovalAbort

definition resolveApproval :: "approval_decision \<Rightarrow> dag_run \<Rightarrow> dag_run" where
  "resolveApproval decision r =
     (let s = r_waitingStep r; r1 = r\<lparr>r_waitingStep := []\<rparr> in
      if decision = ApprovalResume
      then r1\<lparr>r_state := (r_state r1)(s \<mapsto> stPassed), r_stepStates := (r_stepStates r1)(s \<mapsto> passed_state)\<rparr>
      else r1\<lparr>r_state := (r_state r1)(s \<mapsto> stFailed)\<rparr>)"

section \<open>Facts\<close>

lemma applyMissingOutput_success:
  "sr_Success (applyMissingOutput s res) \<longleftrightarrow>
     sr_Success res \<and> (OutputSchema (flds s) = None \<or> sr_Structured res \<noteq> []
       \<or> OnMissingOutput (flds s) \<noteq> OnMissingOutputFail)"
  by (auto simp: applyMissingOutput_def OnMissingOutputIgnore_def OnMissingOutputFail_def)

lemma applyMissingOutput_keeps [simp]:
  "sr_Structured (applyMissingOutput s res) = sr_Structured res"
  "sr_Pending (applyMissingOutput s res) = sr_Pending res"
  "sr_Conflict (applyMissingOutput s res) = sr_Conflict res"
  by (simp_all add: applyMissingOutput_def)

lemma applyFailWhen_keeps [simp]:
  "sr_Structured (applyFailWhen lib r s res pc) = sr_Structured res"
  "sr_Pending (applyFailWhen lib r s res pc) = sr_Pending res"
  "sr_Conflict (applyFailWhen lib r s res pc) = sr_Conflict res"
  by (simp_all add: applyFailWhen_def Let_def split: sum.splits bool.splits)

lemma applyFailWhen_success:
  "sr_Success (applyFailWhen lib r s res pc) \<longleftrightarrow>
     sr_Success res \<and> (\<exists>gate. ParseExpr (stripExprDelimiters (FailWhen (flds s))) = Inr gate
       \<and> (OnMissingOutput (flds s) = OnMissingOutputIgnore \<or> unevaluableGateKeys gate s res pc = [])
       \<and> Eval (lib_re lib) gate (gate_ctx lib r s res pc) = Inr False)"
  by (auto simp: applyFailWhen_def Let_def split: sum.splits bool.splits)

lemma unevaluableGateKeys_plain:
  assumes "StepType s \<noteq> StepTypeParallel"
  shows "set (unevaluableGateKeys gate s res pc) =
    {k \<in> set (MemoryRefs gate). k \<in> set (MemoryWriteFields s) \<and> map_of (sr_Structured res) k = None}"
  using assms by (auto simp: unevaluableGateKeys_def Let_def map_of_eq_None_iff image_iff)

text \<open>
  A gate that only reads keys its own step declares does not depend on what earlier steps or an
  earlier attempt left in memory.
\<close>

lemma overlay_produced: "map_of structured k \<noteq> None \<Longrightarrow> overlay lib structured m k = overlay lib structured m' k"
  by (auto simp: overlay_def)

lemma gate_reads_own_output:
  assumes "StepType s \<noteq> StepTypeParallel"
    and own: "set (MemoryRefs gate) \<subseteq> set (MemoryWriteFields s)"
    and none: "unevaluableGateKeys gate s res pc = []"
    and same: "r_cell r' = r_cell r" "r_stepStates r' = r_stepStates r" "r_event r' = r_event r"
  shows "Eval re gate (gate_ctx lib r' s res pc) = Eval re gate (gate_ctx lib r s res pc)"
proof -
  have prod: "map_of (sr_Structured res) k \<noteq> None" if "k \<in> set (MemoryRefs gate)" for k
    using unevaluableGateKeys_plain [OF assms(1), of gate res pc] none own that by auto
  let ?ctx = "gate_ctx lib r s res pc"
  have "gate_ctx lib r' s res pc = ?ctx\<lparr>ec_Memory := transientMem lib r' s res pc\<rparr>"
    using same by (simp add: gate_ctx_def eval_ctx_def)
  moreover have "transientMem lib r' s res pc k = ec_Memory ?ctx k" if "k \<in> collectMemoryRefs (expr_root gate) {}" for k
    using overlay_produced [OF prod] that assms(1)
    by (simp add: gate_ctx_def transientMem_def Let_def set_MemoryRefs)
  ultimately show ?thesis by (simp add: Eval_def eval_node_memory)
qed

lemma enterWait_deadline:
  assumes "r_waitDeadline r \<noteq> 0"
  shows "r_waitDeadline (enterWait lib now s r) = r_waitDeadline r"
  using assms by (simp add: enterWait_def Let_def)

lemma lex_wrapped: "lex (''${{'' @ s @ ''}}'') = Inl (LexChar (CHR ''$'') 0)"
  by (simp add: lex_def lex_step_def lex_space_def is_digit_def isIdentStart_def)

section \<open>Examples\<close>

definition ex_lib :: golib where
  "ex_lib = \<lparr>lib_re = (\<lambda>_. Inl []), lib_fmt_g = (\<lambda>_. []), lib_json = (\<lambda>_. []), lib_duration = (\<lambda>_. None)\<rparr>"

definition ex_gate_step :: step_config where
  "ex_gate_step = Step (zero_fields\<lparr>ID := ''review'', FailWhen := ''memory.verdict == 1'',
     Memory := Some \<lparr>mc_Read = None, mc_Write = [''verdict''], mc_Recall = [], mc_Memorize = []\<rparr>\<rparr>) [] [] None"

definition ex_result :: "(string \<times> gval) list \<Rightarrow> step_result" where
  "ex_result out = \<lparr>sr_Success = True, sr_Output = [], sr_Structured = out, sr_Summary = [], sr_Pending = False,
     sr_Conflict = False\<rparr>"

definition ex_chain :: workflow_config where
  "ex_chain = \<lparr>wc_ID = ''w'', wc_Steps =
     [Step (zero_fields\<lparr>ID := ''a''\<rparr>) [] [] None,
      Step (zero_fields\<lparr>ID := ''b'', DependsOn := [''a'']\<rparr>) [] [] None,
      Step (zero_fields\<lparr>ID := ''c'', SeqDependsOn := [''b'']\<rparr>) [] [] None,
      Step (zero_fields\<lparr>ID := ''d''\<rparr>) [] [] None]\<rparr>"

definition ex_run :: dag_run where
  "ex_run = initDAG ''i'' ex_chain ''t'' empty_item []"

section \<open>Properties\<close>




text \<open>
  A successful step that declares an output schema and emits nothing fails exactly under
  \<open>on_missing_output: fail\<close>; the check never turns a failure into a success and never alters the structured output.
\<close>

theorem missing_output_policy:
  "(sr_Success (applyMissingOutput s res) \<longleftrightarrow>
      sr_Success res \<and> \<not> (OutputSchema (flds s) \<noteq> None \<and> sr_Structured res = []
        \<and> OnMissingOutput (flds s) = OnMissingOutputFail))
   \<and> sr_Structured (applyMissingOutput s res) = sr_Structured res"
  by (auto simp: applyMissingOutput_success)

text \<open>
  Skipping a pending step skips exactly the pending steps that depend on it through a chain of pending
  steps; every other state is untouched.
\<close>

theorem skip_cascade:
  assumes "r_state r i = Some stPending"
  shows "r_state (markSkipped i r) x =
    (if x \<in> reach_avoid (dependents r) {y. r_state r y \<noteq> Some stPending} i then Some stSkipped else r_state r x)"
  using assms by (rule markSkipped_state)

theorem skip_cascade_witness:
  "r_state (markSkipped ''a'' ex_run) ''b'' = Some stSkipped \<and> r_state (markSkipped ''a'' ex_run) ''d'' = Some stPending
   \<and> ''b'' \<in> reach_avoid (dependents ex_run) {y. r_state ex_run y \<noteq> Some stPending} ''a''"
proof -
  have "r_state ex_run ''a'' = Some stPending" "r_state ex_run ''b'' = Some stPending"
    "r_state (markSkipped ''a'' ex_run) ''b'' = Some stSkipped" "r_state (markSkipped ''a'' ex_run) ''d'' = Some stPending"
    by code_simp+
  with skip_cascade [of ex_run "''a''" "''b''"] show ?thesis by (auto split: if_splits)
qed

text \<open>
  A loop-back resets exactly the target and its transitive dependents to pending, and drops exactly the
  memory contributions of the reset steps and of the children of reset groups.
\<close>

theorem loop_reset:
  "(r_state (resetLoop target r) x =
      (if (target, x) \<in> (succ_rel (dependents r))\<^sup>* then Some stPending else r_state r x))
   \<and> r_contrib (resetLoop target r) x =
      (if (target, x) \<in> (succ_rel (dependents r))\<^sup>*
          \<or> (\<exists>i\<in>set (r_order r). (target, i) \<in> (succ_rel (dependents r))\<^sup>* \<and> x \<in> sid ` set (SubSteps (step_of r i)))
       then None else r_contrib r x)"
  by (auto simp: resetLoop_def Let_def reset_set_reach list_ex_iff)

text \<open>
  A split branch written with the \<open>${{ }}\<close> wrapper always fails at run time, whatever its body:
  \<open>runSplitStep\<close> parses the branch text as it stands, although the linter, which strips the
  wrapper, accepts it.
\<close>

theorem split_wrapped_branch:
  "choose_branches lib ctx multi (\<lparr>sb_If = ''${{'' @ s @ ''}}'', sb_Else = False, sb_Goto = g\<rparr> # bs) chosen
     = Inl (BranchError (''${{'' @ s @ ''}}'') (LexChar (CHR ''$'') 0))
   \<and> LintExpr (''${{'' @ s @ ''}}'') = (case ParseExpr (trim_space s) of Inl e \<Rightarrow> Some e | Inr _ \<Rightarrow> None)"
  using lex_wrapped [of s] strip_wrapped [of s] by (simp add: IsFallback_def ParseExpr_def LintExpr_def)

end
