(* ===== verification/Dag_Sched.thy ===== *)
theory Dag_Sched
  imports Dag_Gates
begin

text \<open>
  The scheduler loop of \<open>driveDAG\<close> (\<open>internal/workflow/dag.go\<close>). Only the scheduler goroutine touches
  the run, so its state is the run, the workers it has launched, the results waiting in the channel
  and the two local flags. What happens outside is an input of each round of the loop: which workers
  finish, in which order and with what answer, when the operator's stop becomes visible, the
  cancellation of the context and the clock. The theorems hold for every input, so for every
  behaviour of the workers and every interleaving.

  The counter \<open>inFlight\<close> is the number of workers and waiting results. Posting a comment per step and the
  log are not modelled. The channel is a queue; the semaphore only delays a worker. A park first drains the
  channel and throws the results away, so nothing of the workers reaches the returned run.
\<close>

section \<open>State\<close>

datatype dagOutcome = outcomeDone | outcomeFailed | outcomeWaiting | outcomeStopped

text \<open>A launched worker with the snapshots taken when it was dispatched.\<close>

record worker =
  w_id :: string
  w_step :: step_config
  w_memSnap :: "memory_step list"
  w_contribSnap :: "string \<rightharpoonup> memory_step"
  w_deadline :: time
  w_cache :: "(string \<times> step_result) list"

record worker_result =
  wr_stepID :: string
  wr_step :: step_config
  wr_memSnap :: "memory_step list"
  wr_res :: step_result
  wr_contribs :: "memory_step list"
  wr_waitingChild :: string
  wr_done :: "(string \<times> step_result) list"
  wr_exitCode :: int

text \<open>What the executed step returns to its worker.\<close>

record worker_answer =
  wa_res :: step_result
  wa_contribs :: "memory_step list"
  wa_waitingChild :: string
  wa_done :: "(string \<times> step_result) list"
  wa_failed :: int

record sched =
  s_run :: dag_run
  s_store :: approval_db
  s_workers :: "worker list"
  s_results :: "worker_result list"
  s_termFail :: bool
  s_loopTarget :: string

record sched_input =
  in_stop_dispatch :: bool
  in_stop_idle :: bool
  in_stop_receive :: bool
  in_finished :: "(nat \<times> worker_answer) list"
  in_next :: worker_answer
  in_ctxErr :: "string option"
  in_now :: time

definition inFlight :: "sched \<Rightarrow> nat" where
  "inFlight s = length (s_workers s) + length (s_results s)"

definition concurrencyLimit :: "int \<Rightarrow> nat" where
  "concurrencyLimit configured = (if configured > 0 then nat configured else 1)"

definition start :: "dag_run \<Rightarrow> approval_db \<Rightarrow> sched" where
  "start r d = \<lparr>s_run = r, s_store = d, s_workers = [], s_results = [], s_termFail = False, s_loopTarget = []\<rparr>"

section \<open>Dispatch\<close>

definition plain_result :: "bool \<Rightarrow> string \<Rightarrow> step_result" where
  "plain_result success output = \<lparr>sr_Success = success, sr_Output = output, sr_Structured = [], sr_Summary = [],
     sr_Pending = False, sr_Conflict = False\<rparr>"

definition set_running :: "string \<Rightarrow> dag_run \<Rightarrow> dag_run" where
  "set_running i r = r\<lparr>r_state := (r_state r)(i \<mapsto> stRunning)\<rparr>"

text \<open>A result the scheduler itself puts into the channel.\<close>

definition queue_result :: "string \<Rightarrow> step_config \<Rightarrow> step_result \<Rightarrow> sched \<Rightarrow> sched" where
  "queue_result i step res s =
     s\<lparr>s_run := set_running i (s_run s),
       s_results := s_results s @ [\<lparr>wr_stepID = i, wr_step = step, wr_memSnap = [], wr_res = res,
         wr_contribs = [], wr_waitingChild = [], wr_done = [], wr_exitCode = 0\<rparr>]\<rparr>"

definition launch :: "string \<Rightarrow> step_config \<Rightarrow> sched \<Rightarrow> sched" where
  "launch i step s =
     (let r = set_running i (s_run s) in
      s\<lparr>s_run := r,
        s_workers := s_workers s @ [\<lparr>w_id = i, w_step = step, w_memSnap = memSteps r, w_contribSnap = r_contrib r,
          w_deadline = r_waitDeadline r, w_cache = parallelSnapshot r i\<rparr>]\<rparr>)"

definition condition_error :: "step_config \<Rightarrow> expr_error \<Rightarrow> string" where
  "condition_error step e = ''condition eval error '' @ go_quote (Condition (flds step)) @ '': '' @ expr_error_msg e"

fun split_error_msg :: "split_error \<Rightarrow> string" where
  "split_error_msg (BranchError src e) = ''split condition eval error: branch '' @ go_quote src @ '': '' @ expr_error_msg e"

definition condition_verdict :: "golib \<Rightarrow> step_config \<Rightarrow> dag_run \<Rightarrow> expr_error + bool" where
  "condition_verdict lib step r =
     (if Condition (flds step) \<noteq> [] then evalExpr (lib_re lib) (Condition (flds step)) (eval_ctx lib r) else Inr True)"

fun dispatch_ids :: "golib \<Rightarrow> nat \<Rightarrow> string list \<Rightarrow> sched \<Rightarrow> sched" where
  "dispatch_ids lib limit [] s = s"
| "dispatch_ids lib limit (i # is) s =
     (let step = step_of (s_run s) i in
      case condition_verdict lib step (s_run s) of
        Inl e \<Rightarrow> dispatch_ids lib limit is (queue_result i step (plain_result False (condition_error step e)) s)
      | Inr False \<Rightarrow> dispatch_ids lib limit is (s\<lparr>s_run := markCondSkipped i (s_run s)\<rparr>)
      | Inr True \<Rightarrow>
          if StepType step = StepTypeSplit then
            (case runSplitStep lib step (s_run s) of
               Inl err \<Rightarrow> dispatch_ids lib limit is (queue_result i step (plain_result False (split_error_msg err)) s)
             | Inr r' \<Rightarrow> dispatch_ids lib limit is (s\<lparr>s_run := r'\<rparr>))
          else if StepType step = StepTypeApproval then
            dispatch_ids lib limit is (queue_result i step (plain_result True []) s)
          else if inFlight s \<ge> limit then s
          else dispatch_ids lib limit is (launch i step s))"

definition dispatch :: "golib \<Rightarrow> nat \<Rightarrow> sched \<Rightarrow> sched" where
  "dispatch lib limit s = dispatch_ids lib limit (pickAllRunnable (s_run s)) s"

section \<open>Receiving\<close>

definition report_of :: "worker \<Rightarrow> worker_answer \<Rightarrow> worker_result" where
  "report_of w a =
     \<lparr>wr_stepID = w_id w, wr_step = w_step w, wr_memSnap = w_memSnap w, wr_res = wa_res a,
      wr_contribs = (if StepType (w_step w) = StepTypeParallel then wa_contribs a else []),
      wr_waitingChild = (if StepType (w_step w) = StepTypeParallel then wa_waitingChild a else []),
      wr_done = (if StepType (w_step w) = StepTypeParallel then wa_done a else []),
      wr_exitCode = (if StepType (w_step w) = StepTypeForeach then wa_failed a else 0)\<rparr>"

definition finish :: "nat \<times> worker_answer \<Rightarrow> sched \<Rightarrow> sched" where
  "finish ka s =
     (let (k, a) = ka in
      if k < length (s_workers s)
      then s\<lparr>s_workers := take k (s_workers s) @ drop (Suc k) (s_workers s),
             s_results := s_results s @ [report_of (s_workers s ! k) a]\<rparr>
      else s)"

text \<open>
  The scheduler blocks on the channel: the workers named by the input finish first, and if the channel
  is still empty the oldest worker is the next to finish.
\<close>

definition await :: "sched_input \<Rightarrow> sched \<Rightarrow> sched" where
  "await inp s =
     (let s1 = fold finish (in_finished inp) s in
      if s_results s1 = [] then finish (0, in_next inp) s1 else s1)"

section \<open>Processing a result\<close>

definition canceled :: "string option \<Rightarrow> step_result \<Rightarrow> step_result" where
  "canceled ctxErr res =
     (case ctxErr of None \<Rightarrow> res
      | Some e \<Rightarrow> res\<lparr>sr_Success := False, sr_Output := ''workflow canceled: '' @ e\<rparr>)"

text \<open>The waiting window is cleared when a group or a wait reaches a terminal result.\<close>

definition clear_wait :: "step_config \<Rightarrow> dag_run \<Rightarrow> dag_run" where
  "clear_wait step r =
     (if StepType step = StepTypeParallel then
        (case r_parallelDone r (sid step) of
           Some _ \<Rightarrow> r\<lparr>r_waitDeadline := 0, r_parallelDone := (r_parallelDone r)(sid step := None), r_waitingChild := []\<rparr>
         | None \<Rightarrow> r\<lparr>r_waitingChild := []\<rparr>)
      else if StepType step = StepTypeWaitFor then r\<lparr>r_waitDeadline := 0\<rparr>
      else r)"

definition judged :: "golib \<Rightarrow> dag_run \<Rightarrow> step_config \<Rightarrow> step_result \<Rightarrow> memory_step list \<Rightarrow> step_result" where
  "judged lib r step res contribs =
     (let res1 = applyMissingOutput step res in
      if sr_Success res1 \<and> FailWhen (flds step) \<noteq> [] then applyFailWhen lib r step res1 contribs else res1)"

definition record_state :: "worker_result \<Rightarrow> step_result \<Rightarrow> dag_run \<Rightarrow> dag_run" where
  "record_state wr res r =
     r\<lparr>r_stepStates := (r_stepStates r)(sid (wr_step wr) \<mapsto>
        \<lparr>ss_State = passFail (sr_Success res),
         ss_ExitCode = (if StepType (wr_step wr) = StepTypeForeach then wr_exitCode wr else 0),
         ss_Output = sr_Output res\<rparr>)\<rparr>"

definition record_pass :: "worker_result \<Rightarrow> step_result \<Rightarrow> dag_run \<Rightarrow> dag_run" where
  "record_pass wr res r =
     (let step = wr_step wr; i = sid step in
      r\<lparr>r_state := (r_state r)(i \<mapsto> stPassed),
        r_feedback := (r_feedback r)(i := []),
        r_contrib := (if StepType step = StepTypeParallel
                      then fold (\<lambda>c m. m(ms_StepID c \<mapsto> c)) (wr_contribs wr) (r_contrib r)
                      else (r_contrib r)(i \<mapsto> own_contrib step res)),
        r_passedOrder := r_passedOrder r @ [i],
        r_activated := (case OnPass (flds step) of
                          Some next \<Rightarrow> if next \<noteq> [] then (r_activated r)(next := True) else r_activated r
                        | None \<Rightarrow> r_activated r)\<rparr>)"

definition conflictGoverned :: "step_config \<Rightarrow> step_result \<Rightarrow> bool" where
  "conflictGoverned step res \<longleftrightarrow>
     sr_Conflict res \<and> (case OnConflict (flds step) of None \<Rightarrow> False | Some out \<Rightarrow> so_Goto out \<noteq> [])"

definition retry_left :: "step_outcome option \<Rightarrow> int \<Rightarrow> bool" where
  "retry_left out used = (case out of None \<Rightarrow> False | Some oc \<Rightarrow> so_Goto oc \<noteq> [] \<and> used < so_MaxRetries oc)"

definition goto_of :: "step_outcome option \<Rightarrow> string" where
  "goto_of out = (case out of None \<Rightarrow> [] | Some oc \<Rightarrow> so_Goto oc)"

definition loop_conflict :: "step_config \<Rightarrow> sched \<Rightarrow> sched" where
  "loop_conflict step s =
     (let r = s_run s; i = sid step in
      s\<lparr>s_run := r\<lparr>r_conflictRetries := (r_conflictRetries r)(i := r_conflictRetries r i + 1),
                   r_state := (r_state r)(i \<mapsto> stPending)\<rparr>,
        s_loopTarget := goto_of (OnConflict (flds step))\<rparr>)"

definition loop_fail :: "worker_result \<Rightarrow> step_result \<Rightarrow> sched \<Rightarrow> sched" where
  "loop_fail wr res s =
     (let r = s_run s; step = wr_step wr; i = sid step in
      s\<lparr>s_run := r\<lparr>r_retries := (r_retries r)(i := r_retries r i + 1),
                   r_state := (r_state r)(i \<mapsto> stPending),
                   r_feedback := (r_feedback r)(i := failedContribs step res (wr_contribs wr))\<rparr>,
        s_loopTarget := goto_of (OnFail (flds step))\<rparr>)"

definition fail_step :: "step_config \<Rightarrow> sched \<Rightarrow> sched" where
  "fail_step step s =
     s\<lparr>s_run := (s_run s)\<lparr>r_state := (r_state (s_run s))(sid step \<mapsto> stFailed)\<rparr>,
       s_termFail := True, s_loopTarget := []\<rparr>"

definition settle_failure :: "worker_result \<Rightarrow> step_result \<Rightarrow> sched \<Rightarrow> sched" where
  "settle_failure wr res s =
     (let step = wr_step wr; r = s_run s; free = (\<not> s_termFail s \<and> s_loopTarget s = []) in
      if free \<and> conflictGoverned step res \<and> retry_left (OnConflict (flds step)) (r_conflictRetries r (sid step))
      then loop_conflict step s
      else if free \<and> \<not> conflictGoverned step res \<and> retry_left (OnFail (flds step)) (r_retries r (sid step))
      then loop_fail wr res s
      else fail_step step s)"

text \<open>The rest of a round once the result is judged.\<close>

definition settle_step :: "golib \<Rightarrow> worker_result \<Rightarrow> step_result \<Rightarrow> sched \<Rightarrow> sched" where
  "settle_step lib wr res0 s =
     (let r1 = clear_wait (wr_step wr) (s_run s);
          res = judged lib r1 (wr_step wr) res0 (wr_contribs wr);
          r2 = record_state wr res r1
      in if sr_Success res then s\<lparr>s_run := record_pass wr res r2\<rparr>
         else settle_failure wr res (s\<lparr>s_run := r2\<rparr>))"

type_synonym dag_result = "dagOutcome \<times> dag_run \<times> approval_db"

definition process :: "golib \<Rightarrow> sched_input \<Rightarrow> worker_result \<Rightarrow> sched \<Rightarrow> sched + dag_result" where
  "process lib inp wr s =
     (let step = wr_step wr; res = canceled (in_ctxErr inp) (wr_res wr); r = s_run s in
      if StepType step = StepTypeApproval then
        (let (r', d') = enterApproval lib (in_now inp) step r (s_store s) in Inr (outcomeWaiting, r', d'))
      else if StepType step = StepTypeParallel \<and> sr_Pending res then
        Inr (outcomeWaiting,
             enterWait lib (in_now inp) step
               (r\<lparr>r_parallelDone := (r_parallelDone r)(sid step \<mapsto> wr_done wr), r_waitingChild := wr_waitingChild wr\<rparr>),
             s_store s)
      else if StepType step = StepTypeWaitFor \<and> sr_Pending res then
        Inr (outcomeWaiting, enterWait lib (in_now inp) step r, s_store s)
      else Inl (settle_step lib wr res s))"

section \<open>The loop\<close>

definition see_stop :: "bool \<Rightarrow> sched \<Rightarrow> sched" where
  "see_stop b s = s\<lparr>s_run := (s_run s)\<lparr>r_stopped := r_stopped (s_run s) \<or> b\<rparr>\<rparr>"

definition final_outcome :: "dag_run \<Rightarrow> dagOutcome" where
  "final_outcome r =
     (if list_ex (\<lambda>i. r_state r i = Some stFailed) (r_order r) then outcomeFailed
      else if strandedSteps r \<noteq> [] then outcomeFailed
      else outcomeDone)"

definition idle :: "sched \<Rightarrow> sched + dag_result" where
  "idle s =
     (let r = s_run s in
      if r_stopped r then Inr (outcomeStopped, r, s_store s)
      else if s_termFail s then Inr (outcomeFailed, r, s_store s)
      else if s_loopTarget s \<noteq> [] then
        Inl (s\<lparr>s_run := resetLoop (s_loopTarget s) r, s_loopTarget := []\<rparr>)
      else
        let (progress, r') = skipUnreachable r; s' = s\<lparr>s_run := r'\<rparr> in
        if progress then Inl s'
        else if pickAllRunnable r' \<noteq> [] then Inl s'
        else Inr (final_outcome r', r', s_store s))"

definition iterate :: "golib \<Rightarrow> nat \<Rightarrow> sched_input \<Rightarrow> sched \<Rightarrow> sched + dag_result" where
  "iterate lib limit inp s =
     (let s0 = see_stop (in_stop_dispatch inp) s;
          s1 = (if \<not> s_termFail s0 \<and> s_loopTarget s0 = [] \<and> \<not> r_stopped (s_run s0) then dispatch lib limit s0 else s0)
      in if inFlight s1 = 0 then idle (see_stop (in_stop_idle inp) s1)
         else
           let s2 = await inp s1;
               wr = hd (s_results s2);
               s3 = see_stop (in_stop_receive inp) (s2\<lparr>s_results := tl (s_results s2)\<rparr>)
           in if r_stopped (s_run s3) then Inl s3 else process lib inp wr s3)"

text \<open>The loop on a finite list of inputs; \<open>None\<close> when the list ends before the loop does.\<close>

fun drive :: "golib \<Rightarrow> nat \<Rightarrow> sched_input list \<Rightarrow> sched \<Rightarrow> dag_result option" where
  "drive lib limit [] s = None"
| "drive lib limit (inp # inps) s =
     (case iterate lib limit inp s of Inl s' \<Rightarrow> drive lib limit inps s' | Inr out \<Rightarrow> Some out)"

definition driveDAG :: "golib \<Rightarrow> int \<Rightarrow> sched_input list \<Rightarrow> dag_run \<Rightarrow> approval_db \<Rightarrow> dag_result option" where
  "driveDAG lib configured inps r d = drive lib (concurrencyLimit configured) inps (start r d)"

end
