(* ===== verification/Dag_Invariant.thy ===== *)
theory Dag_Invariant
  imports Dag_Sched
begin

text \<open>
  The invariant of the scheduler and what each of its operations keeps of it. A run is well formed when its
  steps have distinct ids, splits name existing steps, a step control flow has not reached is pending or
  skipped, and a step that has left the pending state had its dependencies satisfied and still has.
  The scheduler adds that the steps in flight are exactly the running ones, each once.
\<close>

section \<open>Definitions\<close>

definition graph_ok :: "dag_run \<Rightarrow> bool" where
  "graph_ok r \<longleftrightarrow> distinct (r_order r) \<and> (\<forall>i\<in>set (r_order r). sid (step_of r i) = i)
     \<and> (\<forall>i\<in>set (r_order r). StepType (step_of r i) = StepTypeSplit \<longrightarrow>
          (\<forall>b\<in>set (Branches (flds (step_of r i))). sb_Goto b \<noteq> [] \<longrightarrow> sb_Goto b \<in> set (r_order r)))"

definition inert_ok :: "dag_run \<Rightarrow> bool" where
  "inert_ok r \<longleftrightarrow> (\<forall>i\<in>set (r_order r). r_state r i \<noteq> None
     \<and> (\<not> r_activated r i \<longrightarrow> r_state r i = Some stPending \<or> r_state r i = Some stSkipped))"

definition active :: "dstate option \<Rightarrow> bool" where
  "active st \<longleftrightarrow> st \<in> {Some stRunning, Some stPassed, Some stCondSkipped, Some stFailed, Some stWaiting}"

definition deps_ok :: "dag_run \<Rightarrow> bool" where
  "deps_ok r \<longleftrightarrow> (\<forall>i\<in>set (r_order r). active (r_state r i) \<longrightarrow> depsPassed r i)"

definition run_ok :: "dag_run \<Rightarrow> bool" where
  "run_ok r \<longleftrightarrow> graph_ok r \<and> inert_ok r \<and> deps_ok r"

definition flights :: "sched \<Rightarrow> (string \<times> step_config) list" where
  "flights s = map (\<lambda>w. (w_id w, w_step w)) (s_workers s) @ map (\<lambda>x. (wr_stepID x, wr_step x)) (s_results s)"

definition flights_ok :: "sched \<Rightarrow> bool" where
  "flights_ok s \<longleftrightarrow> distinct (map fst (flights s))
     \<and> (\<forall>(i, st)\<in>set (flights s). i \<in> set (r_order (s_run s)) \<and> st = step_of (s_run s) i
           \<and> r_state (s_run s) i = Some stRunning)
     \<and> (\<forall>i\<in>set (r_order (s_run s)). r_state (s_run s) i = Some stRunning \<longrightarrow> i \<in> fst ` set (flights s))"

definition sched_ok :: "sched \<Rightarrow> bool" where
  "sched_ok s \<longleftrightarrow> run_ok (s_run s) \<and> flights_ok s
     \<and> (\<forall>i\<in>set (r_order (s_run s)). r_state (s_run s) i \<noteq> Some stWaiting)"

text \<open>A run with nothing executing: freshly initialised, or resumed.\<close>

definition quiet :: "dag_run \<Rightarrow> bool" where
  "quiet r \<longleftrightarrow> (\<forall>i\<in>set (r_order r). r_state r i \<noteq> Some stRunning \<and> r_state r i \<noteq> Some stWaiting)"

section \<open>Moves of a run\<close>

text \<open>The parts of a run that no scheduler operation changes.\<close>

definition same_graph :: "dag_run \<Rightarrow> dag_run \<Rightarrow> bool" where
  "same_graph r r' \<longleftrightarrow> r_wf r' = r_wf r \<and> r_order r' = r_order r \<and> r_byID r' = r_byID r"

lemma same_graph_refl [simp]: "same_graph r r"
  by (simp add: same_graph_def)

lemma same_graph_trans: "same_graph r r' \<Longrightarrow> same_graph r' r'' \<Longrightarrow> same_graph r r''"
  by (simp add: same_graph_def)

lemma same_graphD:
  assumes "same_graph r r'"
  shows "r_order r' = r_order r" "step_of r' = step_of r" "graph_ok r' = graph_ok r" "r_wf r' = r_wf r"
  using assms by (auto simp: same_graph_def step_of_def graph_ok_def fun_eq_iff)

definition finished :: "dstate option \<Rightarrow> bool" where
  "finished st \<longleftrightarrow> st = Some stPassed \<or> st = Some stCondSkipped"

lemma depsPassed_mono:
  assumes "same_graph r r'" and "\<And>d. finished (r_state r d) \<Longrightarrow> r_state r' d = r_state r d" and "depsPassed r i"
  shows "depsPassed r' i"
  using assms(2,3) unfolding depsPassed_def same_graphD(2) [OF assms(1)] list_all_iff finished_def by metis

text \<open>
  One step \<open>i\<close> leaves the pending state and nothing else changes: the states that satisfy a dependency stay, so
  every other dependency verdict is kept.
\<close>

lemma deps_ok_move:
  assumes g: "same_graph r r'" and fin: "\<And>d. finished (r_state r d) \<Longrightarrow> r_state r' d = r_state r d"
    and ok: "deps_ok r"
    and new: "\<And>j. j \<in> set (r_order r) \<Longrightarrow> active (r_state r' j) \<Longrightarrow> active (r_state r j) \<or> depsPassed r j"
  shows "deps_ok r'"
  unfolding deps_ok_def same_graphD(1) [OF g]
proof (intro ballI impI)
  fix j assume j: "j \<in> set (r_order r)" "active (r_state r' j)"
  with new ok have "depsPassed r j" by (auto simp: deps_ok_def)
  then show "depsPassed r' j" using depsPassed_mono [OF g fin] by blast
qed

text \<open>
  Skipping: pending steps may become skipped, runnable ones never, and steps may become activated.
\<close>

definition calm :: "dag_run \<Rightarrow> dag_run \<Rightarrow> bool" where
  "calm r r' \<longleftrightarrow> same_graph r r'
     \<and> (\<forall>x. r_state r' x = r_state r x \<or> r_state r x = Some stPending \<and> r_state r' x = Some stSkipped)
     \<and> (\<forall>x. r_activated r x \<longrightarrow> depsPassed r x \<longrightarrow> r_state r' x = r_state r x)
     \<and> (\<forall>x. r_activated r x \<longrightarrow> r_activated r' x)
     \<and> r_retries r' = r_retries r \<and> r_conflictRetries r' = r_conflictRetries r \<and> r_stopped r' = r_stopped r"

lemma calm_refl [simp]: "calm r r"
  by (simp add: calm_def)

lemma calm_deps: "calm r r' \<Longrightarrow> depsPassed r x \<Longrightarrow> depsPassed r' x"
  by (rule depsPassed_mono [of r r']) (auto simp: calm_def finished_def)

lemma calm_state:
  "calm r r' \<Longrightarrow> r_state r' x = r_state r x \<or> r_state r x = Some stPending \<and> r_state r' x = Some stSkipped"
  by (simp add: calm_def)

lemma calm_kept: "calm r r' \<Longrightarrow> r_activated r x \<Longrightarrow> depsPassed r x \<Longrightarrow> r_state r' x = r_state r x"
  by (simp add: calm_def)

lemma calm_activated: "calm r r' \<Longrightarrow> r_activated r x \<Longrightarrow> r_activated r' x"
  by (simp add: calm_def)

lemma calm_same:
  assumes "calm r r'"
  shows "same_graph r r'" "r_retries r' = r_retries r" "r_conflictRetries r' = r_conflictRetries r"
    "r_stopped r' = r_stopped r"
  using assms by (simp_all add: calm_def)

lemma calm_trans:
  assumes "calm r r'" "calm r' r''"
  shows "calm r r''"
proof -
  have "r_state r'' x = r_state r x \<or> r_state r x = Some stPending \<and> r_state r'' x = Some stSkipped" for x
    using calm_state [OF assms(1), of x] calm_state [OF assms(2), of x] by auto
  moreover have "r_state r'' x = r_state r x" if "r_activated r x" "depsPassed r x" for x
    using calm_kept [OF assms(1) that] calm_kept [OF assms(2)] calm_activated [OF assms(1) that(1)]
      calm_deps [OF assms(1) that(2)] by simp
  moreover have "same_graph r r''" using same_graph_trans calm_same(1) assms by blast
  ultimately show ?thesis
    using calm_activated [OF assms(1)] calm_activated [OF assms(2)] calm_same(2-4) [OF assms(1)] calm_same(2-4) [OF assms(2)]
    by (simp add: calm_def)
qed

lemma calm_inert:
  assumes "calm r r'" "inert_ok r"
  shows "inert_ok r'"
  unfolding inert_ok_def same_graphD(1) [OF calm_same(1) [OF assms(1)]]
proof (intro ballI conjI impI)
  fix i assume i: "i \<in> set (r_order r)"
  then show "r_state r' i \<noteq> None" using calm_state [OF assms(1), of i] assms(2) by (auto simp: inert_ok_def)
  assume "\<not> r_activated r' i"
  then have "\<not> r_activated r i" using calm_activated [OF assms(1)] by blast
  then show "r_state r' i = Some stPending \<or> r_state r' i = Some stSkipped"
    using calm_state [OF assms(1), of i] assms(2) i by (auto simp: inert_ok_def)
qed

lemma calm_active: "calm r r' \<Longrightarrow> active (r_state r' j) \<longleftrightarrow> active (r_state r j)"
  using calm_state [of r r' j] by (auto simp: active_def)

lemma calm_deps_ok:
  assumes "calm r r'" "deps_ok r"
  shows "deps_ok r'"
  unfolding deps_ok_def same_graphD(1) [OF calm_same(1) [OF assms(1)]] calm_active [OF assms(1)]
  using assms(2) calm_deps [OF assms(1)] by (simp add: deps_ok_def)

lemma calm_run_ok: "calm r r' \<Longrightarrow> run_ok r \<Longrightarrow> run_ok r'"
  using calm_inert calm_deps_ok same_graphD(3) [OF calm_same(1)] by (simp add: run_ok_def)

lemma calm_runnable:
  assumes "calm r r'" "runnable r x"
  shows "runnable r' x"
  using assms calm_deps [OF assms(1)] calm_kept [OF assms(1)] calm_activated [OF assms(1)] by (simp add: runnable_def)

lemma markSkipped_calm:
  assumes "r_state r g = Some stPending \<or> r_state r g = Some stSkipped" and "\<not> r_activated r g \<or> \<not> depsPassed r g"
  shows "calm r (markSkipped g r)"
proof (cases "r_state r g = Some stPending")
  case True
  have kept: "r_state (markSkipped g r) x = r_state r x" if x: "r_activated r x" "depsPassed r x" for x
  proof -
    have "x \<notin> reach_avoid (dependents r) {y. r_state r y \<noteq> Some stPending} g"
    proof
      assume "x \<in> reach_avoid (dependents r) {y. r_state r y \<noteq> Some stPending} g"
      then have "(g, x) \<in> (avoid (dependents r) {y. r_state r y \<noteq> Some stPending})\<^sup>*" by (simp add: reach_avoid_def)
      then show False
      proof (cases rule: rtranclE)
        case base
        with assms(2) x show False by simp
      next
        case (step y)
        have "y \<in> reach_avoid (dependents r) {y. r_state r y \<noteq> Some stPending} g" using step(1) by (simp add: reach_avoid_def)
        then have "r_state r y = Some stPending" using reach_avoid_outside True by fastforce
        moreover have "depends r x y" using step(2) by (simp add: set_dependents)
        ultimately show False using x(2) by (auto simp: depends_def depsPassed_def list_all_iff)
      qed
    qed
    then show ?thesis using markSkipped_state [OF True, of x] by simp
  qed
  have "r_state (markSkipped g r) x = r_state r x \<or> r_state r x = Some stPending \<and> r_state (markSkipped g r) x = Some stSkipped" for x
  proof (cases "x \<in> reach_avoid (dependents r) {y. r_state r y \<noteq> Some stPending} g")
    case in_reach: True
    then have "r_state r x = Some stPending" using reach_avoid_outside True by fastforce
    with in_reach show ?thesis using markSkipped_state [OF True, of x] by simp
  qed (use markSkipped_state [OF True] in simp)
  with kept show ?thesis by (simp add: calm_def same_graph_def)
next
  case False
  with assms have "markSkipped g r = r" by (simp add: markSkipped_def)
  then show ?thesis by simp
qed

section \<open>Pending steps\<close>

definition pend :: "dag_run \<Rightarrow> nat" where
  "pend r = count_if (\<lambda>i. r_state r i = Some stPending) (r_order r)"

lemma pend_le: "pend r \<le> length (r_order r)"
  by (simp add: pend_def count_if_le_length)

lemma pend_mono:
  assumes "r_order r' = r_order r" and "\<And>x. x \<in> set (r_order r) \<Longrightarrow> r_state r' x = Some stPending \<Longrightarrow> r_state r x = Some stPending"
  shows "pend r' \<le> pend r"
  unfolding pend_def assms(1) using assms(2) by (intro count_if_mono) auto

lemma pend_less:
  assumes "r_order r' = r_order r" and "\<And>x. x \<in> set (r_order r) \<Longrightarrow> r_state r' x = Some stPending \<Longrightarrow> r_state r x = Some stPending"
    and "i \<in> set (r_order r)" "r_state r i = Some stPending" "r_state r' i \<noteq> Some stPending"
  shows "pend r' < pend r"
  unfolding pend_def assms(1) using assms(2-) by (intro count_if_less [of _ _ _ i]) auto

lemma calm_pend: "calm r r' \<Longrightarrow> pend r' \<le> pend r"
  by (rule pend_mono) (use calm_same(1) same_graphD(1) calm_state in \<open>force+\<close>)

section \<open>Skipping unreachable steps\<close>

lemma skip_reason_blocked: "skip_reason r i \<Longrightarrow> \<not> r_activated r i \<or> \<not> depsPassed r i"
  unfolding skip_reason_def depsPassed_def list_ex_iff list_all_iff dead_dep_def by fastforce

lemma markSkipped_self: "r_state r i = Some stPending \<Longrightarrow> r_state (markSkipped i r) i = Some stSkipped"
  by (simp add: markSkipped_state)

lemma skip_one_step:
  assumes "i \<in> set (r_order r)"
  shows "calm r (snd (skip_one i (p, r)))
    \<and> (skip_one i (p, r) = (p, r) \<or> fst (skip_one i (p, r)) \<and> pend (snd (skip_one i (p, r))) < pend r)"
proof (cases "r_state r i = Some stPending \<and> skip_reason r i")
  case True
  then have c: "calm r (markSkipped i r)" using skip_reason_blocked by (intro markSkipped_calm) auto
  have "pend (markSkipped i r) < pend r"
    by (rule pend_less [where i = i]) (use True assms calm_state [OF c] markSkipped_self in \<open>force+\<close>)
  with True c show ?thesis by (simp add: skip_one_def)
qed (auto simp: skip_one_def)

lemma skip_fold:
  assumes "set is \<subseteq> set (r_order r)"
  shows "calm r (snd (fold skip_one is (p, r)))
    \<and> (fold skip_one is (p, r) = (p, r) \<or> fst (fold skip_one is (p, r)) \<and> pend (snd (fold skip_one is (p, r))) < pend r)"
  using assms
proof (induction "is" arbitrary: p r)
  case (Cons i "is")
  obtain p' r' where pr: "skip_one i (p, r) = (p', r')" by (cases "skip_one i (p, r)")
  with skip_one_step [of i r p] Cons.prems have s: "calm r r'" "(p', r') = (p, r) \<or> p' \<and> pend r' < pend r" by auto
  have "set is \<subseteq> set (r_order r')" using Cons.prems same_graphD(1) [OF calm_same(1) [OF s(1)]] by simp
  from Cons.IH [OF this, of p'] have
    ih: "calm r' (snd (fold skip_one is (p', r')))"
      "fold skip_one is (p', r') = (p', r') \<or>
        fst (fold skip_one is (p', r')) \<and> pend (snd (fold skip_one is (p', r'))) < pend r'" by auto
  have "pend r' \<le> pend r" using calm_pend [OF s(1)] .
  with ih s pr calm_trans [OF s(1) ih(1)] show ?case by auto
qed simp

lemma skipUnreachable_spec:
  assumes "skipUnreachable r = (progress, r')"
  shows "calm r r'" "\<not> progress \<Longrightarrow> r' = r" "progress \<Longrightarrow> pend r' < pend r"
  using assms skip_fold [of "r_order r" r False] by (auto simp: skipUnreachable_def)

section \<open>Splits\<close>

lemma activate_fold:
  fixes P :: "split_branch \<Rightarrow> bool"
  defines "f \<equiv> (\<lambda>b r. if P b then r\<lparr>r_activated := (r_activated r)(sb_Goto b := True)\<rparr> else r)"
  shows "same_graph r (fold f bs r) \<and> r_state (fold f bs r) = r_state r \<and> (\<forall>x. r_activated r x \<longrightarrow> r_activated (fold f bs r) x)
    \<and> r_retries (fold f bs r) = r_retries r \<and> r_conflictRetries (fold f bs r) = r_conflictRetries r
    \<and> r_stopped (fold f bs r) = r_stopped r"
proof (induction bs arbitrary: r)
  case (Cons b bs)
  show ?case using Cons.IH [of "f b r"] by (auto simp: f_def same_graph_def split: if_splits)
qed (simp add: same_graph_def)

lemma skip_branches_calm:
  fixes P :: "split_branch \<Rightarrow> bool"
  defines "f \<equiv> (\<lambda>b r. if sb_Goto b \<noteq> [] \<and> P b \<and> \<not> r_activated r (sb_Goto b) \<and> feedingSplitsDone r (sb_Goto b)
                      then markSkipped (sb_Goto b) r else r)"
  assumes "inert_ok r" and "\<forall>b\<in>set bs. sb_Goto b \<noteq> [] \<longrightarrow> sb_Goto b \<in> set (r_order r)"
  shows "calm r (fold f bs r)"
  using assms(2,3)
proof (induction bs arbitrary: r)
  case (Cons b bs)
  have c: "calm r (f b r)"
    using Cons.prems by (auto simp: f_def inert_ok_def intro!: markSkipped_calm)
  have "calm (f b r) (fold f bs (f b r))"
    using Cons.prems same_graphD(1) [OF calm_same(1) [OF c]] by (intro Cons.IH calm_inert [OF c]) simp_all
  with c show ?case by (simp add: calm_trans)
qed simp

text \<open>A split that can be decided marks itself passed, activates targets, and otherwise only skips.\<close>

lemma runSplitStep_shape:
  assumes run: "runSplitStep lib (step_of r i) r = Inr r'" and ok: "graph_ok r" "inert_ok r" and i: "i \<in> set (r_order r)" "r_activated r i"
    and ty: "StepType (step_of r i) = StepTypeSplit"
  obtains r2 where "same_graph r r2" "r_state r2 = (r_state r)(i \<mapsto> stPassed)" "\<And>x. r_activated r x \<Longrightarrow> r_activated r2 x"
    "r_retries r2 = r_retries r" "r_conflictRetries r2 = r_conflictRetries r" "r_stopped r2 = r_stopped r" "calm r2 r'"
proof -
  let ?s = "step_of r i" and ?bs = "Branches (flds (step_of r i))"
  obtain chosen where ch: "choose_branches lib (eval_ctx lib r) (Multi (flds ?s)) ?bs [] = Inr chosen"
    using run by (auto simp: runSplitStep_def bind_res_Inr_iff)
  have si: "sid ?s = i" using ok(1) i by (simp add: graph_ok_def)
  define r1 where "r1 = r\<lparr>r_state := (r_state r)(i \<mapsto> stPassed), r_stepStates := (r_stepStates r)(i \<mapsto> passed_state)\<rparr>"
  define r2 where "r2 = fold (\<lambda>b r. if sb_Goto b \<noteq> [] \<and> sb_Goto b \<in> set chosen
      then r\<lparr>r_activated := (r_activated r)(sb_Goto b := True)\<rparr> else r) ?bs r1"
  note act = activate_fold [of r1 "\<lambda>b. sb_Goto b \<noteq> [] \<and> sb_Goto b \<in> set chosen" ?bs, folded r2_def]
  have g: "same_graph r r2" "r_state r2 = (r_state r)(i \<mapsto> stPassed)" "\<And>x. r_activated r x \<Longrightarrow> r_activated r2 x"
    using act by (simp_all add: r1_def same_graph_def)
  have "inert_ok r2"
    unfolding inert_ok_def same_graphD(1) [OF g(1)]
    using ok(2) i g(2,3) by (auto simp: inert_ok_def)
  moreover have "\<forall>b\<in>set ?bs. sb_Goto b \<noteq> [] \<longrightarrow> sb_Goto b \<in> set (r_order r2)"
    using ok(1) i ty same_graphD(1) [OF g(1)] by (simp add: graph_ok_def)
  ultimately have "calm r2 (fold (\<lambda>b r. if sb_Goto b \<noteq> [] \<and> sb_Goto b \<notin> set chosen \<and> \<not> r_activated r (sb_Goto b)
      \<and> feedingSplitsDone r (sb_Goto b) then markSkipped (sb_Goto b) r else r) ?bs r2)"
    by (rule skip_branches_calm)
  moreover have "r' = fold (\<lambda>b r. if sb_Goto b \<noteq> [] \<and> sb_Goto b \<notin> set chosen \<and> \<not> r_activated r (sb_Goto b)
      \<and> feedingSplitsDone r (sb_Goto b) then markSkipped (sb_Goto b) r else r) ?bs r2"
    using run ch si by (simp add: runSplitStep_def r2_def r1_def Let_def)
  ultimately show thesis using that g act by (simp add: r1_def)
qed

section \<open>A step leaves the pending state\<close>

definition leaves :: "string \<Rightarrow> dstate \<Rightarrow> dag_run \<Rightarrow> dag_run \<Rightarrow> bool" where
  "leaves i st r r' \<longleftrightarrow> same_graph r r' \<and> r_state r' = (r_state r)(i \<mapsto> st) \<and> (\<forall>x. r_activated r x \<longrightarrow> r_activated r' x)
     \<and> r_retries r' = r_retries r \<and> r_conflictRetries r' = r_conflictRetries r \<and> r_stopped r' = r_stopped r"

lemma leavesD:
  assumes "leaves i st r r'"
  shows "same_graph r r'" "r_state r' = (r_state r)(i \<mapsto> st)" "\<And>x. r_activated r x \<Longrightarrow> r_activated r' x"
    "r_retries r' = r_retries r" "r_conflictRetries r' = r_conflictRetries r" "r_stopped r' = r_stopped r"
  using assms by (simp_all add: leaves_def)

lemma leaves_deps:
  assumes "leaves i st r r'" "r_state r i = Some stPending" "depsPassed r j"
  shows "depsPassed r' j"
  by (rule depsPassed_mono [OF leavesD(1) [OF assms(1)] _ assms(3)])
    (use assms(2) in \<open>auto simp: leavesD(2) [OF assms(1)] finished_def\<close>)

lemma leaves_run_ok:
  assumes l: "leaves i st r r'" and ok: "run_ok r" and run: "runnable r i"
    and st: "st \<in> {stRunning, stPassed, stCondSkipped}"
  shows "run_ok r'"
proof -
  note d = leavesD [OF l]
  have p: "r_state r i = Some stPending" "r_activated r i" "depsPassed r i" using run by (simp_all add: runnable_def)
  have "inert_ok r'"
    using ok p d(3) unfolding run_ok_def inert_ok_def same_graphD(1) [OF d(1)] d(2) by auto
  moreover have "deps_ok r'"
  proof (rule deps_ok_move [OF d(1)])
    show "deps_ok r" using ok by (simp add: run_ok_def)
    show "r_state r' x = r_state r x" if "finished (r_state r x)" for x using that p d(2) by (auto simp: finished_def)
    show "active (r_state r j) \<or> depsPassed r j" if "active (r_state r' j)" for j
      using that p d(2) by (cases "j = i") auto
  qed
  ultimately show ?thesis using ok same_graphD(3) [OF d(1)] by (simp add: run_ok_def)
qed

lemma leaves_runnable:
  assumes "leaves i st r r'" "runnable r i" "runnable r j" "j \<noteq> i"
  shows "runnable r' j"
  using assms leaves_deps [OF assms(1)] leavesD [OF assms(1)] by (simp add: runnable_def)

lemma leaves_pend:
  assumes "leaves i st r r'" "r_state r i = Some stPending" "i \<in> set (r_order r)" "st \<noteq> stPending"
  shows "pend r' < pend r"
  by (rule pend_less [where i = i])
    (use assms(2-) in \<open>auto simp: leavesD(2) [OF assms(1)] same_graphD(1) [OF leavesD(1) [OF assms(1)]] split: if_splits\<close>)

section \<open>Dispatching\<close>

definition weight :: "sched \<Rightarrow> nat" where
  "weight s = 2 * pend (s_run s) + inFlight s"

definition same_sched :: "sched \<Rightarrow> sched \<Rightarrow> bool" where
  "same_sched s s' \<longleftrightarrow> same_graph (s_run s) (s_run s') \<and> r_retries (s_run s') = r_retries (s_run s)
     \<and> r_conflictRetries (s_run s') = r_conflictRetries (s_run s) \<and> r_stopped (s_run s') = r_stopped (s_run s)
     \<and> s_termFail s' = s_termFail s \<and> s_loopTarget s' = s_loopTarget s \<and> s_store s' = s_store s"

lemma same_sched_refl [simp]: "same_sched s s"
  by (simp add: same_sched_def)

lemma same_sched_trans: "same_sched s t \<Longrightarrow> same_sched t u \<Longrightarrow> same_sched s u"
  unfolding same_sched_def by (auto intro: same_graph_trans)

definition dispatchable :: "string list \<Rightarrow> sched \<Rightarrow> bool" where
  "dispatchable is s \<longleftrightarrow> sched_ok s \<and> distinct is \<and> (\<forall>i\<in>set is. i \<in> set (r_order (s_run s)) \<and> runnable (s_run s) i)"

text \<open>The step \<open>i\<close> settles without a worker: condition-skipped, or a decided split.\<close>

lemma settle_inline:
  assumes d: "dispatchable (i # is) s" and l: "leaves i st (s_run s) r2" and c: "calm r2 r'"
    and st: "st = stPassed \<or> st = stCondSkipped"
  shows "dispatchable is (s\<lparr>s_run := r'\<rparr>) \<and> same_sched s (s\<lparr>s_run := r'\<rparr>) \<and> weight (s\<lparr>s_run := r'\<rparr>) < weight s"
proof -
  let ?r = "s_run s"
  have i: "runnable ?r i" "i \<in> set (r_order ?r)" "sched_ok s" using d by (simp_all add: dispatchable_def)
  then have p: "r_state ?r i = Some stPending" by (simp add: runnable_def)
  have ok2: "run_ok r2" using leaves_run_ok [OF l _ i(1)] i(3) st by (auto simp: sched_ok_def)
  then have ok': "run_ok r'" using calm_run_ok [OF c] by blast
  have g: "same_graph ?r r'" using same_graph_trans leavesD(1) [OF l] calm_same(1) [OF c] by blast
  have run': "runnable r' j" if "j \<in> set is" for j
  proof (rule calm_runnable [OF c], rule leaves_runnable [OF l i(1)])
    show "runnable ?r j" "j \<noteq> i" using that d by (auto simp: dispatchable_def)
  qed
  have state': "r_state r' x = Some stRunning \<longleftrightarrow> r_state ?r x = Some stRunning"
    "r_state r' x = Some stWaiting \<longleftrightarrow> r_state ?r x = Some stWaiting" for x
    using calm_state [OF c, of x] leavesD(2) [OF l] st p by (auto split: if_splits)
  have "flights_ok (s\<lparr>s_run := r'\<rparr>)"
    using i(3) unfolding sched_ok_def flights_ok_def flights_def
    by (simp add: state' same_graphD [OF g])
  then have "dispatchable is (s\<lparr>s_run := r'\<rparr>)"
    using d ok' run' i(3) by (simp add: dispatchable_def sched_ok_def state' same_graphD [OF g])
  moreover have "pend r' < pend ?r"
    using calm_pend [OF c] leaves_pend [OF l p i(2)] st by auto
  moreover have "same_sched s (s\<lparr>s_run := r'\<rparr>)"
    using g leavesD(4-6) [OF l] calm_same(2-4) [OF c] by (simp add: same_sched_def)
  ultimately show ?thesis by (simp add: weight_def inFlight_def)
qed

text \<open>The step \<open>i\<close> enters flight.\<close>

lemma set_running_leaves: "leaves i stRunning r (set_running i r)"
  by (simp add: leaves_def set_running_def same_graph_def)

lemma enter_flight:
  assumes d: "dispatchable (i # is) s" and run: "s_run s' = set_running i (s_run s)"
    and fl: "map fst (flights s') \<in> {xs @ i # ys | xs ys. map fst (flights s) = xs @ ys}"
    and fs: "set (flights s') = insert (i, step_of (s_run s) i) (set (flights s))" and len: "inFlight s' = Suc (inFlight s)"
    and same: "s_termFail s' = s_termFail s" "s_loopTarget s' = s_loopTarget s" "s_store s' = s_store s"
  shows "dispatchable is s' \<and> same_sched s s' \<and> weight s' < weight s"
proof -
  let ?r = "s_run s"
  note l = set_running_leaves [of i ?r, folded run]
  have i: "runnable ?r i" "i \<in> set (r_order ?r)" "sched_ok s" using d by (simp_all add: dispatchable_def)
  then have p: "r_state ?r i = Some stPending" by (simp add: runnable_def)
  have ok': "run_ok (s_run s')" using leaves_run_ok [OF l _ i(1)] i(3) by (simp add: sched_ok_def)
  have g: "same_graph ?r (s_run s')" using leavesD(1) [OF l] .
  have run': "runnable (s_run s') j" if "j \<in> set is" for j
    by (rule leaves_runnable [OF l i(1)]) (use that d in \<open>auto simp: dispatchable_def\<close>)
  have fresh: "i \<notin> fst ` set (flights s)"
    using i(3) p unfolding sched_ok_def flights_ok_def by auto
  obtain xs ys where xy: "map fst (flights s') = xs @ i # ys" "map fst (flights s) = xs @ ys" using fl by blast
  have old: "distinct (map fst (flights s))"
      "\<And>j st. (j, st) \<in> set (flights s) \<Longrightarrow> j \<in> set (r_order ?r) \<and> st = step_of ?r j \<and> r_state ?r j = Some stRunning"
      "\<And>j. j \<in> set (r_order ?r) \<Longrightarrow> r_state ?r j = Some stRunning \<Longrightarrow> j \<in> fst ` set (flights s)"
    using i(3) unfolding sched_ok_def flights_ok_def by auto
  have "i \<notin> set (map fst (flights s))" using fresh by simp
  with old(1) have "distinct (map fst (flights s'))" unfolding xy by auto
  then have "flights_ok s'"
    using old(2,3) i(2) unfolding flights_ok_def fs leavesD(2) [OF l] same_graphD(1,2) [OF g] by auto
  then have "dispatchable is s'"
    using d ok' run' i(3) by (auto simp: dispatchable_def sched_ok_def leavesD(2) [OF l] same_graphD(1) [OF g])
  moreover have "pend (s_run s') < pend ?r" using leaves_pend [OF l p i(2)] by simp
  moreover have "same_sched s s'" using g leavesD(4-6) [OF l] same by (simp add: same_sched_def)
  ultimately show ?thesis using len by (simp add: weight_def)
qed

lemma queue_result_flight:
  assumes "dispatchable (i # is) s"
  shows "dispatchable is (queue_result i (step_of (s_run s) i) res s)
    \<and> same_sched s (queue_result i (step_of (s_run s) i) res s) \<and> weight (queue_result i (step_of (s_run s) i) res s) < weight s"
proof (rule enter_flight [OF assms])
  let ?q = "queue_result i (step_of (s_run s) i) res s"
  have "map fst (flights ?q) = map fst (flights s) @ i # []" by (simp add: queue_result_def flights_def)
  then show "map fst (flights ?q) \<in> {xs @ i # ys | xs ys. map fst (flights s) = xs @ ys}" by (metis (mono_tags, lifting) append_Nil2 mem_Collect_eq)
qed (simp_all add: queue_result_def flights_def inFlight_def)

lemma launch_flight:
  assumes "dispatchable (i # is) s"
  shows "dispatchable is (launch i (step_of (s_run s) i) s)
    \<and> same_sched s (launch i (step_of (s_run s) i) s) \<and> weight (launch i (step_of (s_run s) i) s) < weight s"
proof (rule enter_flight [OF assms])
  let ?q = "launch i (step_of (s_run s) i) s" and ?f = "\<lambda>s. map wr_stepID (s_results s)"
  have "map fst (flights ?q) = map w_id (s_workers s) @ i # ?f s" "map fst (flights s) = map w_id (s_workers s) @ ?f s"
    by (simp_all add: launch_def flights_def Let_def comp_def)
  then show "map fst (flights ?q) \<in> {xs @ i # ys | xs ys. map fst (flights s) = xs @ ys}" by blast
qed (simp_all add: launch_def flights_def inFlight_def Let_def)

lemma markCondSkipped_leaves: "leaves i stCondSkipped r (markCondSkipped i r)"
  by (simp add: leaves_def markCondSkipped_def same_graph_def)

definition dispatched :: "nat \<Rightarrow> string list \<Rightarrow> sched \<Rightarrow> sched \<Rightarrow> bool" where
  "dispatched limit is s s' \<longleftrightarrow> sched_ok s' \<and> same_sched s s' \<and> length (s_workers s') \<le> max (length (s_workers s)) limit
     \<and> (weight s' < weight s \<or> s' = s \<and> (is = [] \<or> limit \<le> inFlight s))"

lemma dispatched_step:
  assumes "same_sched s t \<and> weight t < weight s" and "length (s_workers t) \<le> max (length (s_workers s)) limit"
    and "dispatched limit is t s'"
  shows "dispatched limit (i # is) s s'"
proof -
  have "weight s' \<le> weight t" "sched_ok s'" "same_sched t s'" "length (s_workers s') \<le> max (length (s_workers t)) limit"
    using assms(3) by (auto simp: dispatched_def)
  with assms(1,2) same_sched_trans [of s t s'] show ?thesis by (simp add: dispatched_def)
qed

lemma dispatch_ids_spec: "dispatchable is s \<Longrightarrow> dispatched limit is s (dispatch_ids lib limit is s)"
proof (induction "is" arbitrary: s)
  case Nil
  then show ?case by (simp add: dispatched_def dispatchable_def)
next
  case (Cons i "is")
  let ?r = "s_run s" and ?step = "step_of (s_run s) i"
  note q = queue_result_flight [OF Cons.prems]
  have i: "runnable ?r i" "i \<in> set (r_order ?r)" "run_ok ?r" using Cons.prems by (simp_all add: dispatchable_def sched_ok_def)
  have queue: "dispatched limit (i # is) s (dispatch_ids lib limit is (queue_result i ?step res s))" for res
    using q Cons.IH by (intro dispatched_step [of s "queue_result i ?step res s"]) (auto simp: queue_result_def)
  show ?case
  proof (cases "condition_verdict lib ?step ?r")
    case (Inl e)
    then show ?thesis using queue by (simp add: Let_def)
  next
    case (Inr ok)
    show ?thesis
    proof (cases ok)
      case False
      note c = settle_inline [OF Cons.prems markCondSkipped_leaves calm_refl]
      then have "dispatched limit (i # is) s (dispatch_ids lib limit is (s\<lparr>s_run := markCondSkipped i ?r\<rparr>))"
        using Cons.IH by (intro dispatched_step [of s "s\<lparr>s_run := markCondSkipped i ?r\<rparr>"]) auto
      with Inr False show ?thesis by (simp add: Let_def)
    next
      case True
      have launched: "dispatched limit (i # is) s (dispatch_ids lib limit is (launch i ?step s))" if "inFlight s < limit"
        using launch_flight [OF Cons.prems] Cons.IH that
        by (intro dispatched_step [of s "launch i ?step s"]) (auto simp: launch_def Let_def inFlight_def)
      have split: "dispatched limit (i # is) s (dispatch_ids lib limit is (s\<lparr>s_run := r'\<rparr>))"
        if ty: "StepType ?step = StepTypeSplit" and sp: "runSplitStep lib ?step ?r = Inr r'" for r'
      proof -
        have o: "graph_ok ?r" "inert_ok ?r" "r_activated ?r i" using i by (simp_all add: run_ok_def runnable_def)
        obtain r2 where "leaves i stPassed ?r r2" "calm r2 r'"
          by (rule runSplitStep_shape [OF sp o(1,2) i(2) o(3) ty]) (auto simp: leaves_def)
        from settle_inline [OF Cons.prems this] show ?thesis
          using Cons.IH by (intro dispatched_step [of s "s\<lparr>s_run := r'\<rparr>"]) auto
      qed
      have "dispatched limit (i # is) s s" if "\<not> inFlight s < limit"
        using Cons.prems that by (simp add: dispatched_def dispatchable_def)
      with Inr True queue split launched show ?thesis by (auto simp: Let_def split: sum.splits)
    qed
  qed
qed

lemma pickAllRunnable_dispatchable:
  assumes "sched_ok s"
  shows "dispatchable (pickAllRunnable (s_run s)) s"
  using assms by (auto simp: dispatchable_def pickAllRunnable_def sched_ok_def run_ok_def graph_ok_def)

lemma dispatch_spec: "sched_ok s \<Longrightarrow> dispatched limit (pickAllRunnable (s_run s)) s (dispatch lib limit s)"
  unfolding dispatch_def by (intro dispatch_ids_spec pickAllRunnable_dispatchable)

end
