(* ===== verification/Dag_Progress.thy ===== *)
theory Dag_Progress
  imports Dag_Invariant
begin

text \<open>
  One round of the scheduler keeps the invariant and decreases a potential, so the loop ends after a number
  of rounds that the retry budget and the number of steps bound.
\<close>

section \<open>Definitions\<close>

definition retry_max :: "step_outcome option \<Rightarrow> int" where
  "retry_max out = (case out of None \<Rightarrow> 0 | Some oc \<Rightarrow> so_MaxRetries oc)"

definition budget :: "dag_run \<Rightarrow> nat" where
  "budget r = (\<Sum>i\<in>set (r_order r). nat (retry_max (OnFail (flds (step_of r i))) - r_retries r i)
     + nat (retry_max (OnConflict (flds (step_of r i))) - r_conflictRetries r i))"

definition potential :: "sched \<Rightarrow> nat" where
  "potential s =
     (let n = length (r_order (s_run s)) in
      budget (s_run s) * (2 * n + 3) + (if s_loopTarget s \<noteq> [] then 2 * n + 1 else 0) + weight s)"

text \<open>Rounds that suffice for a run: one per unit of potential and one for the outcome.\<close>

definition loop_bound :: "dag_run \<Rightarrow> nat" where
  "loop_bound r = budget r * (2 * length (r_order r) + 3) + 2 * length (r_order r) + 1"

definition retries_ok :: "dag_run \<Rightarrow> bool" where
  "retries_ok r \<longleftrightarrow> (\<forall>i\<in>set (r_order r).
     r_retries r i \<le> max 0 (retry_max (OnFail (flds (step_of r i))))
     \<and> r_conflictRetries r i \<le> max 0 (retry_max (OnConflict (flds (step_of r i)))))"

text \<open>
  The invariant of the loop under a concurrency limit. A stopped run only drains, dropping results, so
  nothing is promised about its step states.
\<close>

definition sched_inv :: "nat \<Rightarrow> sched \<Rightarrow> bool" where
  "sched_inv limit s \<longleftrightarrow> (\<not> r_stopped (s_run s) \<longrightarrow> sched_ok s) \<and> retries_ok (s_run s) \<and> length (s_workers s) \<le> limit"

definition landed :: "string \<Rightarrow> sched \<Rightarrow> bool" where
  "landed i s \<longleftrightarrow> run_ok (s_run s) \<and> i \<in> set (r_order (s_run s)) \<and> r_state (s_run s) i = Some stRunning
     \<and> distinct (map fst (flights s))
     \<and> (\<forall>(j, st)\<in>set (flights s). j \<in> set (r_order (s_run s)) \<and> st = step_of (s_run s) j
           \<and> r_state (s_run s) j = Some stRunning \<and> j \<noteq> i)
     \<and> (\<forall>j\<in>set (r_order (s_run s)). r_state (s_run s) j = Some stRunning \<longrightarrow> j = i \<or> j \<in> fst ` set (flights s))
     \<and> (\<forall>j\<in>set (r_order (s_run s)). r_state (s_run s) j \<noteq> Some stWaiting)"

section \<open>Waiting for a result\<close>

lemma same_flights_ok:
  assumes "sched_ok s" and "s_run s' = s_run s" and "distinct (map fst (flights s'))" and "set (flights s') = set (flights s)"
  shows "sched_ok s'"
  using assms by (simp add: sched_ok_def flights_ok_def)

definition same_but_flights :: "sched \<Rightarrow> sched \<Rightarrow> bool" where
  "same_but_flights s s' \<longleftrightarrow> inFlight s' = inFlight s \<and> s_run s' = s_run s \<and> s_termFail s' = s_termFail s
     \<and> s_loopTarget s' = s_loopTarget s \<and> s_store s' = s_store s \<and> length (s_workers s') \<le> length (s_workers s)"

lemma finish_shape:
  assumes "k < length (s_workers s)"
  obtains A w B where "s_workers s = A @ w # B"
    "finish (k, a) s = s\<lparr>s_workers := A @ B, s_results := s_results s @ [report_of w a]\<rparr>"
proof -
  obtain A w B where ws: "s_workers s = A @ w # B" and k: "length A = k"
    using id_take_nth_drop [OF assms] assms by (metis length_take min.absorb4)
  then show thesis using that [OF ws] by (auto simp: finish_def)
qed

lemma finish_frame: "same_but_flights s (finish (k, a) s)"
proof (cases "k < length (s_workers s)")
  case True
  then show ?thesis by (rule finish_shape [of k s a]) (simp add: same_but_flights_def inFlight_def)
qed (simp add: same_but_flights_def finish_def)

lemma finish_ok:
  assumes "sched_ok s"
  shows "sched_ok (finish (k, a) s)"
proof (cases "k < length (s_workers s)")
  case True
  let ?s' = "finish (k, a) s"
  obtain A w B where ws: "s_workers s = A @ w # B"
    and s': "?s' = s\<lparr>s_workers := A @ B, s_results := s_results s @ [report_of w a]\<rparr>"
    using finish_shape [OF True] by blast
  have fl: "flights s = map (\<lambda>w. (w_id w, w_step w)) A @ (w_id w, w_step w)
      # map (\<lambda>w. (w_id w, w_step w)) B @ map (\<lambda>x. (wr_stepID x, wr_step x)) (s_results s)"
    by (simp add: flights_def ws)
  have fl': "flights ?s' = map (\<lambda>w. (w_id w, w_step w)) A @ map (\<lambda>w. (w_id w, w_step w)) B
      @ map (\<lambda>x. (wr_stepID x, wr_step x)) (s_results s) @ [(w_id w, w_step w)]"
    by (simp add: flights_def s' report_of_def)
  have "distinct (map fst (flights s))" using assms by (simp add: sched_ok_def flights_ok_def)
  then have "distinct (map fst (flights ?s'))" unfolding fl fl' by auto
  moreover have "set (flights ?s') = set (flights s)" unfolding fl fl' by auto
  ultimately show ?thesis by (intro same_flights_ok [OF assms]) (simp_all add: s')
qed (simp add: finish_def assms)

lemma finishes_frame: "same_but_flights s (fold finish ks s)"
proof (induction ks arbitrary: s)
  case (Cons ka ks)
  obtain k a where ka: "ka = (k, a)" by (cases ka)
  from finish_frame [of s k a] Cons.IH [of "finish (k, a) s"] show ?case
    unfolding ka by (simp add: same_but_flights_def)
qed (simp add: same_but_flights_def)

lemma finishes_ok: "sched_ok s \<Longrightarrow> sched_ok (fold finish ks s)"
proof (induction ks arbitrary: s)
  case (Cons ka ks)
  then show ?case using finish_ok [of s "fst ka" "snd ka"] by simp
qed simp

lemma await_frame: "same_but_flights s (await inp s)"
  using finishes_frame [of s "in_finished inp"] finish_frame [of "fold finish (in_finished inp) s" 0 "in_next inp"]
  by (simp add: await_def same_but_flights_def Let_def)

lemma await_ok: "sched_ok s \<Longrightarrow> sched_ok (await inp s)"
  using finishes_ok finish_ok by (simp add: await_def Let_def)

lemma await_result:
  assumes "inFlight s \<noteq> 0"
  shows "s_results (await inp s) \<noteq> []"
proof -
  let ?t = "fold finish (in_finished inp) s"
  have "s_results (finish (0, in_next inp) ?t) \<noteq> []" if "s_results ?t = []"
    using that finishes_frame [of s "in_finished inp"] assms by (auto simp: finish_def inFlight_def same_but_flights_def)
  then show ?thesis by (simp add: await_def Let_def)
qed

lemma received_landed:
  assumes ok: "sched_ok s" and wr: "s_results s = wr # rest"
  shows "landed (wr_stepID wr) (s\<lparr>s_results := rest\<rparr>)" and "wr_step wr = step_of (s_run s) (wr_stepID wr)"
    and "inFlight s = Suc (inFlight (s\<lparr>s_results := rest\<rparr>))"
proof -
  let ?i = "wr_stepID wr" and ?s = "s\<lparr>s_results := rest\<rparr>" and ?r = "s_run s"
  have fl: "flights s = map (\<lambda>w. (w_id w, w_step w)) (s_workers s) @ (?i, wr_step wr) # map (\<lambda>x. (wr_stepID x, wr_step x)) rest"
    and fl': "flights ?s = map (\<lambda>w. (w_id w, w_step w)) (s_workers s) @ map (\<lambda>x. (wr_stepID x, wr_step x)) rest"
    using wr by (simp_all add: flights_def)
  have F: "distinct (map fst (flights s))"
      "\<And>j st. (j, st) \<in> set (flights s) \<Longrightarrow> j \<in> set (r_order ?r) \<and> st = step_of ?r j \<and> r_state ?r j = Some stRunning"
      "\<And>j. j \<in> set (r_order ?r) \<Longrightarrow> r_state ?r j = Some stRunning \<Longrightarrow> j \<in> fst ` set (flights s)"
    using ok unfolding sched_ok_def flights_ok_def by auto
  have sets: "set (flights s) = insert (?i, wr_step wr) (set (flights ?s))" unfolding fl fl' by auto
  have d: "distinct (map fst (flights ?s))" "?i \<notin> fst ` set (flights ?s)"
    using F(1) unfolding fl fl' by (auto simp: image_iff)
  have i: "?i \<in> set (r_order ?r)" "wr_step wr = step_of ?r ?i" "r_state ?r ?i = Some stRunning"
    using F(2) [of ?i "wr_step wr"] sets by auto
  then show "wr_step wr = step_of ?r ?i" by simp
  have "\<forall>(j, st)\<in>set (flights ?s). j \<in> set (r_order ?r) \<and> st = step_of ?r j \<and> r_state ?r j = Some stRunning \<and> j \<noteq> ?i"
    using F(2) sets d(2) by (force simp: image_iff)
  moreover have "\<forall>j\<in>set (r_order ?r). r_state ?r j = Some stRunning \<longrightarrow> j = ?i \<or> j \<in> fst ` set (flights ?s)"
    using F(3) sets by auto
  ultimately show "landed ?i ?s" using ok d(1) i by (simp add: landed_def sched_ok_def)
  show "inFlight s = Suc (inFlight ?s)" using wr by (simp add: inFlight_def)
qed

section \<open>Settling a result\<close>

lemma land_ok:
  assumes l: "landed i s" and g: "same_graph (s_run s) (s_run s')" and st: "r_state (s_run s') = (r_state (s_run s))(i \<mapsto> st)"
    and v: "st \<in> {stPassed, stPending, stFailed}" and act: "\<And>x. r_activated (s_run s) x \<Longrightarrow> r_activated (s_run s') x"
    and fl: "flights s' = flights s"
  shows "sched_ok s'"
proof -
  let ?r = "s_run s" and ?r' = "s_run s'"
  have ok: "graph_ok ?r" "inert_ok ?r" "deps_ok ?r" and i: "i \<in> set (r_order ?r)" "r_state ?r i = Some stRunning"
    using l by (simp_all add: landed_def run_ok_def)
  have ai: "r_activated ?r i" using ok(2) i by (auto simp: inert_ok_def)
  have "inert_ok ?r'"
    using ok(2) ai act unfolding inert_ok_def same_graphD(1) [OF g] st by auto
  moreover have "deps_ok ?r'"
  proof (rule deps_ok_move [OF g _ ok(3)])
    show "r_state ?r' d = r_state ?r d" if "finished (r_state ?r d)" for d using that i(2) st by (auto simp: finished_def)
    show "active (r_state ?r j) \<or> depsPassed ?r j" if "active (r_state ?r' j)" for j
      using that i(2) st by (cases "j = i") (auto simp: active_def)
  qed
  ultimately have "run_ok ?r'" using ok(1) same_graphD(3) [OF g] by (simp add: run_ok_def)
  moreover have "flights_ok s'"
    using l v unfolding landed_def flights_ok_def fl same_graphD(1,2) [OF g] st by auto
  moreover have "\<forall>j\<in>set (r_order ?r'). r_state ?r' j \<noteq> Some stWaiting"
    using l v unfolding landed_def same_graphD(1) [OF g] st by auto
  ultimately show ?thesis by (simp add: sched_ok_def)
qed

lemma pend_upd:
  assumes "r_order r' = r_order r" "r_state r' = (r_state r)(i \<mapsto> st)" "distinct (r_order r)"
  shows "pend r' \<le> pend r + (if st = stPending then 1 else 0)"
proof (cases "st = stPending")
  case True
  have "count_if (\<lambda>x. P x \<or> x = i) xs \<le> Suc (count_if P xs)" if "distinct xs" for P and xs :: "string list"
    using that
  proof (induction xs)
    case (Cons y ys)
    have "count_if (\<lambda>x. P x \<or> x = i) ys = count_if P ys" if "y = i"
      using that Cons.prems by (auto simp: count_if_def intro!: arg_cong [where f = length] filter_cong)
    with Cons show ?case by auto
  qed simp
  from this [OF assms(3), of "\<lambda>x. r_state r x = Some stPending"]
  have "count_if (\<lambda>x. r_state r x = Some stPending \<or> x = i) (r_order r) \<le> Suc (pend r)" by (simp add: pend_def)
  moreover have "pend r' \<le> count_if (\<lambda>x. r_state r x = Some stPending \<or> x = i) (r_order r)"
    unfolding pend_def assms(1) by (rule count_if_mono) (simp add: assms(2) split: if_splits)
  ultimately show ?thesis using True by simp
next
  case False
  have "pend r' \<le> pend r" by (rule pend_mono) (use assms False in \<open>auto split: if_splits\<close>)
  with False show ?thesis by simp
qed

lemma budget_same:
  assumes "same_graph r r'" "r_retries r' = r_retries r" "r_conflictRetries r' = r_conflictRetries r"
  shows "budget r' = budget r" "retries_ok r' = retries_ok r"
  unfolding budget_def retries_ok_def same_graphD(1,2) [OF assms(1)] assms(2,3) by simp_all

lemma sum_less_one:
  fixes f g :: "string \<Rightarrow> nat"
  assumes "finite A" "i \<in> A" "g i < f i" "\<And>x. x \<in> A \<Longrightarrow> x \<noteq> i \<Longrightarrow> g x = f x"
  shows "sum g A < sum f A"
proof -
  have "sum g (A - {i}) = sum f (A - {i})" using assms(4) by (intro sum.cong) auto
  then show ?thesis using assms(1-3) by (simp add: sum.remove [of A i])
qed

lemma budget_spent:
  assumes g: "same_graph r r'" and i: "i \<in> set (r_order r)"
    and spent: "r_retries r' = (r_retries r)(i := r_retries r i + 1) \<and> r_conflictRetries r' = r_conflictRetries r
        \<and> r_retries r i < retry_max (OnFail (flds (step_of r i)))
      \<or> r_conflictRetries r' = (r_conflictRetries r)(i := r_conflictRetries r i + 1) \<and> r_retries r' = r_retries r
        \<and> r_conflictRetries r i < retry_max (OnConflict (flds (step_of r i)))"
  shows "budget r' < budget r" "retries_ok r \<Longrightarrow> retries_ok r'"
proof -
  show "budget r' < budget r"
    unfolding budget_def same_graphD(1,2) [OF g] by (rule sum_less_one [OF _ i]) (use spent in auto)
  show "retries_ok r \<Longrightarrow> retries_ok r'"
    using spent unfolding retries_ok_def same_graphD(1,2) [OF g] by (auto simp: max_def split: if_splits)
qed

lemma loop_arith:
  fixes b b' n :: nat
  assumes "b' < b"
  shows "b' * (2 * n + 3) + (2 * n + 1) + 2 \<le> b * (2 * n + 3)"
proof -
  have "(b' + 1) * (2 * n + 3) \<le> b * (2 * n + 3)" using assms by (intro mult_right_mono) auto
  then show ?thesis by simp
qed

lemma clear_wait_same:
  "same_graph r (clear_wait step r)" "r_state (clear_wait step r) = r_state r" "r_activated (clear_wait step r) = r_activated r"
  "r_retries (clear_wait step r) = r_retries r" "r_conflictRetries (clear_wait step r) = r_conflictRetries r"
  "r_stopped (clear_wait step r) = r_stopped r"
  by (auto simp: clear_wait_def same_graph_def split: option.splits)

lemma record_state_same [simp]:
  "same_graph r (record_state wr res r')= same_graph r r'" "r_state (record_state wr res r') = r_state r'"
  "r_activated (record_state wr res r') = r_activated r'"
  "r_retries (record_state wr res r') = r_retries r'" "r_conflictRetries (record_state wr res r') = r_conflictRetries r'"
  "r_stopped (record_state wr res r') = r_stopped r'"
  by (auto simp: record_state_def same_graph_def)

text \<open>What settling does to the scheduler, in the terms the invariant and the potential need.\<close>

definition settled :: "string \<Rightarrow> sched \<Rightarrow> sched \<Rightarrow> bool" where
  "settled i s s' \<longleftrightarrow> sched_ok s' \<and> same_graph (s_run s) (s_run s') \<and> (retries_ok (s_run s) \<longrightarrow> retries_ok (s_run s'))
     \<and> s_workers s' = s_workers s \<and> potential s' \<le> potential s"

lemma settledI:
  assumes l: "landed i s" and g: "same_graph (s_run s) (s_run s')" and st: "r_state (s_run s') = (r_state (s_run s))(i \<mapsto> st)"
    and v: "st \<in> {stPassed, stPending, stFailed}" and act: "\<And>x. r_activated (s_run s) x \<Longrightarrow> r_activated (s_run s') x"
    and fl: "s_workers s' = s_workers s" "s_results s' = s_results s"
    and bud: "(st \<noteq> stPending \<and> r_retries (s_run s') = r_retries (s_run s)
        \<and> r_conflictRetries (s_run s') = r_conflictRetries (s_run s) \<and> (s_loopTarget s' = s_loopTarget s \<or> s_loopTarget s' = []))
      \<or> (budget (s_run s') < budget (s_run s) \<and> (retries_ok (s_run s) \<longrightarrow> retries_ok (s_run s')) \<and> s_loopTarget s = [])"
  shows "settled i s s'"
proof -
  have fls: "flights s' = flights s" using fl by (simp add: flights_def)
  have ok: "sched_ok s'" by (rule land_ok [OF l g st v act fls])
  have n: "r_order (s_run s') = r_order (s_run s)" using same_graphD(1) [OF g] .
  have d: "distinct (r_order (s_run s))" using l by (simp add: landed_def run_ok_def graph_ok_def)
  have p: "pend (s_run s') \<le> pend (s_run s) + (if st = stPending then 1 else 0)" by (rule pend_upd [OF n st d])
  have f: "inFlight s' = inFlight s" using fl by (simp add: inFlight_def)
  from bud show ?thesis
  proof
    assume b: "st \<noteq> stPending \<and> r_retries (s_run s') = r_retries (s_run s)
        \<and> r_conflictRetries (s_run s') = r_conflictRetries (s_run s) \<and> (s_loopTarget s' = s_loopTarget s \<or> s_loopTarget s' = [])"
    then have "budget (s_run s') = budget (s_run s)" "retries_ok (s_run s') = retries_ok (s_run s)"
      using budget_same [OF g] by auto
    with b p f n ok g fl show ?thesis by (auto simp: settled_def potential_def weight_def Let_def)
  next
    assume b: "budget (s_run s') < budget (s_run s) \<and> (retries_ok (s_run s) \<longrightarrow> retries_ok (s_run s')) \<and> s_loopTarget s = []"
    have "pend (s_run s') \<le> pend (s_run s) + 1" using p by (auto split: if_splits)
    with b loop_arith [of "budget (s_run s')" "budget (s_run s)" "length (r_order (s_run s))"] f n ok g fl
    show ?thesis by (auto simp: settled_def potential_def weight_def Let_def)
  qed
qed

lemma settle_step_settled:
  assumes l: "landed i s" and step: "wr_step wr = step_of (s_run s) i"
  shows "settled i s (settle_step lib wr res0 s)"
proof -
  let ?r = "s_run s" and ?step = "wr_step wr"
  define r1 where "r1 = clear_wait ?step ?r"
  define res where "res = judged lib r1 ?step res0 (wr_contribs wr)"
  define r2 where "r2 = record_state wr res r1"
  have i: "i \<in> set (r_order ?r)" "sid ?step = i" using l step by (auto simp: landed_def run_ok_def graph_ok_def)
  have r2: "same_graph ?r r2" "r_state r2 = r_state ?r" "r_activated r2 = r_activated ?r" "r_retries r2 = r_retries ?r"
    "r_conflictRetries r2 = r_conflictRetries ?r"
    by (simp_all add: r2_def r1_def clear_wait_same)
  have eq: "settle_step lib wr res0 s =
      (if sr_Success res then s\<lparr>s_run := record_pass wr res r2\<rparr> else settle_failure wr res (s\<lparr>s_run := r2\<rparr>))"
    by (simp add: settle_step_def r2_def res_def r1_def Let_def)
  have pass: "settled i s (s\<lparr>s_run := record_pass wr res r2\<rparr>)"
    by (rule settledI [OF l, where st = stPassed])
      (use r2 i in \<open>auto simp: record_pass_def same_graph_def Let_def split: option.splits\<close>)
  have fail: "settled i s (fail_step ?step (s\<lparr>s_run := r2\<rparr>))"
    by (rule settledI [OF l, where st = stFailed]) (use r2 i in \<open>auto simp: fail_step_def same_graph_def\<close>)
  have conflict: "settled i s (loop_conflict ?step (s\<lparr>s_run := r2\<rparr>))"
    if "s_loopTarget s = []" "retry_left (OnConflict (flds ?step)) (r_conflictRetries r2 i)"
  proof (rule settledI [OF l, where st = stPending])
    let ?s' = "loop_conflict ?step (s\<lparr>s_run := r2\<rparr>)"
    have g: "same_graph ?r (s_run ?s')" using r2(1) by (simp add: loop_conflict_def same_graph_def Let_def)
    have "r_conflictRetries (s_run ?s') = (r_conflictRetries ?r)(i := r_conflictRetries ?r i + 1) \<and> r_retries (s_run ?s') = r_retries ?r
        \<and> r_conflictRetries ?r i < retry_max (OnConflict (flds (step_of ?r i)))"
      using that r2 i step by (auto simp: loop_conflict_def retry_left_def retry_max_def Let_def split: option.splits)
    with budget_spent [OF g i(1)] that(1)
    show "(stPending \<noteq> stPending \<and> r_retries (s_run ?s') = r_retries ?r
        \<and> r_conflictRetries (s_run ?s') = r_conflictRetries ?r \<and> (s_loopTarget ?s' = s_loopTarget s \<or> s_loopTarget ?s' = []))
      \<or> (budget (s_run ?s') < budget ?r \<and> (retries_ok ?r \<longrightarrow> retries_ok (s_run ?s')) \<and> s_loopTarget s = [])" by blast
    show "same_graph ?r (s_run ?s')" by (rule g)
  qed (use r2 i in \<open>simp_all add: loop_conflict_def Let_def\<close>)
  have retry: "settled i s (loop_fail wr res (s\<lparr>s_run := r2\<rparr>))"
    if "s_loopTarget s = []" "retry_left (OnFail (flds ?step)) (r_retries r2 i)"
  proof (rule settledI [OF l, where st = stPending])
    let ?s' = "loop_fail wr res (s\<lparr>s_run := r2\<rparr>)"
    have g: "same_graph ?r (s_run ?s')" using r2(1) by (simp add: loop_fail_def same_graph_def Let_def)
    have "r_retries (s_run ?s') = (r_retries ?r)(i := r_retries ?r i + 1) \<and> r_conflictRetries (s_run ?s') = r_conflictRetries ?r
        \<and> r_retries ?r i < retry_max (OnFail (flds (step_of ?r i)))"
      using that r2 i step by (auto simp: loop_fail_def retry_left_def retry_max_def Let_def split: option.splits)
    with budget_spent [OF g i(1)] that(1)
    show "(stPending \<noteq> stPending \<and> r_retries (s_run ?s') = r_retries ?r
        \<and> r_conflictRetries (s_run ?s') = r_conflictRetries ?r \<and> (s_loopTarget ?s' = s_loopTarget s \<or> s_loopTarget ?s' = []))
      \<or> (budget (s_run ?s') < budget ?r \<and> (retries_ok ?r \<longrightarrow> retries_ok (s_run ?s')) \<and> s_loopTarget s = [])" by blast
    show "same_graph ?r (s_run ?s')" by (rule g)
  qed (use r2 i in \<open>simp_all add: loop_fail_def Let_def\<close>)
  have "settled i s (settle_failure wr res (s\<lparr>s_run := r2\<rparr>))"
    using fail conflict retry i(2) by (simp add: settle_failure_def Let_def)
  with pass show ?thesis unfolding eq by simp
qed

section \<open>Nothing in flight\<close>

lemma resetLoop_same:
  "same_graph r (resetLoop target r)" "r_activated (resetLoop target r) = r_activated r"
  "r_retries (resetLoop target r) = r_retries r" "r_conflictRetries (resetLoop target r) = r_conflictRetries r"
  "r_stopped (resetLoop target r) = r_stopped r"
  by (simp_all add: resetLoop_def Let_def same_graph_def)

lemma resetLoop_state:
  "r_state (resetLoop target r) x = (if (target, x) \<in> (succ_rel (dependents r))\<^sup>* then Some stPending else r_state r x)"
  by (simp add: resetLoop_def Let_def reset_set_reach)

lemma resetLoop_ok:
  assumes "run_ok r"
  shows "run_ok (resetLoop target r)"
proof -
  let ?r' = "resetLoop target r" and ?R = "(succ_rel (dependents r))\<^sup>*"
  note g = resetLoop_same(1) [of r target]
  have "inert_ok ?r'"
    using assms unfolding run_ok_def inert_ok_def same_graphD(1) [OF g] resetLoop_state resetLoop_same(2) by auto
  moreover have "deps_ok ?r'"
    unfolding deps_ok_def same_graphD(1) [OF g]
  proof (intro ballI impI)
    fix i assume i: "i \<in> set (r_order r)" and a: "active (r_state ?r' i)"
    then have out: "(target, i) \<notin> ?R" and "active (r_state r i)"
      by (auto simp: resetLoop_state active_def split: if_splits)
    then have d: "depsPassed r i" using assms i by (simp add: run_ok_def deps_ok_def)
    have "(target, d) \<notin> ?R" if "depends r i d" for d
    proof
      assume "(target, d) \<in> ?R"
      moreover have "(d, i) \<in> succ_rel (dependents r)" using that i by (simp add: succ_rel_def set_dependents)
      ultimately show False using out by (metis rtrancl.rtrancl_into_rtrancl)
    qed
    then have "r_state ?r' d = r_state r d" if "depends r i d" for d using that by (simp add: resetLoop_state)
    then show "depsPassed ?r' i"
      using d unfolding depsPassed_def same_graphD(2) [OF g] list_all_iff depends_def by metis
  qed
  ultimately show ?thesis using assms same_graphD(3) [OF g] by (simp add: run_ok_def)
qed

lemma idle_flights: "inFlight s = 0 \<longleftrightarrow> flights s = []"
  by (simp add: inFlight_def flights_def)

lemma sched_ok_idle:
  assumes "inFlight s = 0"
  shows "sched_ok s \<longleftrightarrow> run_ok (s_run s) \<and> quiet (s_run s)"
  using assms unfolding idle_flights by (auto simp: sched_ok_def flights_ok_def quiet_def)

lemma see_stop_simps [simp]:
  "same_graph r (s_run (see_stop b s)) = same_graph r (s_run s)" "r_state (s_run (see_stop b s)) = r_state (s_run s)"
  "s_termFail (see_stop b s) = s_termFail s" "s_loopTarget (see_stop b s) = s_loopTarget s" "s_store (see_stop b s) = s_store s"
  "s_workers (see_stop b s) = s_workers s" "s_results (see_stop b s) = s_results s" "inFlight (see_stop b s) = inFlight s"
  "r_order (s_run (see_stop b s)) = r_order (s_run s)" "step_of (s_run (see_stop b s)) = step_of (s_run s)"
  "r_retries (s_run (see_stop b s)) = r_retries (s_run s)" "r_conflictRetries (s_run (see_stop b s)) = r_conflictRetries (s_run s)"
  "depsPassed (s_run (see_stop b s)) = depsPassed (s_run s)" "r_activated (s_run (see_stop b s)) = r_activated (s_run s)"
  "flights (see_stop b s) = flights s" "r_wf (s_run (see_stop b s)) = r_wf (s_run s)" "r_byID (s_run (see_stop b s)) = r_byID (s_run s)"
  by (simp_all add: see_stop_def same_graph_def inFlight_def step_of_def depsPassed_def flights_def fun_eq_iff)

lemma see_stop_runnable [simp]: "runnable (s_run (see_stop b s)) = runnable (s_run s)"
  by (simp add: runnable_def fun_eq_iff)

lemma see_stop_keeps [simp]:
  "sched_ok (see_stop b s) = sched_ok s" "potential (see_stop b s) = potential s" "retries_ok (s_run (see_stop b s)) = retries_ok (s_run s)"
  "pickAllRunnable (s_run (see_stop b s)) = pickAllRunnable (s_run s)" "landed i (see_stop b s) = landed i s"
  "pend (s_run (see_stop b s)) = pend (s_run s)"
  by (simp_all add: sched_ok_def run_ok_def graph_ok_def inert_ok_def deps_ok_def flights_ok_def potential_def budget_def
      weight_def pend_def retries_ok_def pickAllRunnable_def landed_def Let_def)

lemma potential_weight:
  assumes "same_graph (s_run s) (s_run s')" "r_retries (s_run s') = r_retries (s_run s)"
    "r_conflictRetries (s_run s') = r_conflictRetries (s_run s)" "s_loopTarget s' = s_loopTarget s"
  shows "potential s' + weight s = potential s + weight s'"
  using budget_same(1) [OF assms(1-3)] same_graphD(1) [OF assms(1)] assms(4) by (simp add: potential_def Let_def)

lemma idle_spec:
  assumes ok: "sched_ok s" and quiet: "inFlight s = 0" and "idle s = Inl s'"
    and stuck: "s_loopTarget s = [] \<Longrightarrow> pickAllRunnable (s_run s) = [] \<or> dec"
  shows "sched_ok s' \<and> same_graph (s_run s) (s_run s') \<and> retries_ok (s_run s') = retries_ok (s_run s)
    \<and> s_workers s' = [] \<and> (potential s' < potential s \<or> potential s' = potential s \<and> dec)"
proof -
  let ?r = "s_run s"
  have r: "run_ok ?r" "quiet ?r" using ok sched_ok_idle [OF quiet] by auto
  have w: "s_workers s = []" "s_results s = []" using quiet by (auto simp: inFlight_def)
  obtain progress r' where sk: "skipUnreachable ?r = (progress, r')" by (cases "skipUnreachable ?r")
  note skip = skipUnreachable_spec [OF sk]
  have cond: "\<not> r_stopped ?r" "\<not> s_termFail s" using assms(3) by (auto simp: idle_def Let_def split: if_splits)
  show ?thesis
  proof (cases "s_loopTarget s = []")
    case False
    let ?r' = "resetLoop (s_loopTarget s) ?r"
    have s': "s' = s\<lparr>s_run := ?r', s_loopTarget := []\<rparr>" using assms(3) cond False by (simp add: idle_def Let_def)
    have q: "quiet ?r'"
      using r(2) same_graphD(1) [OF resetLoop_same(1), of "s_loopTarget s" ?r] by (auto simp: quiet_def resetLoop_state)
    have "inFlight s' = 0" using quiet by (simp add: s' inFlight_def)
    then have "sched_ok s'" using sched_ok_idle [of s'] q resetLoop_ok [OF r(1)] by (simp add: s')
    moreover have "budget ?r' = budget ?r" "retries_ok ?r' = retries_ok ?r"
      using budget_same [OF resetLoop_same(1) resetLoop_same(3,4)] by auto
    moreover have "pend ?r' \<le> length (r_order ?r)"
      using pend_le [of ?r'] same_graphD(1) [OF resetLoop_same(1), of "s_loopTarget s" ?r] by simp
    ultimately show ?thesis
      using False w quiet same_graphD(1) [OF resetLoop_same(1), of "s_loopTarget s" ?r]
      by (auto simp: s' resetLoop_same potential_def weight_def inFlight_def Let_def)
  next
    case True
    then have s': "s' = s\<lparr>s_run := r'\<rparr>" and p: "progress \<or> pickAllRunnable r' \<noteq> []"
      using assms(3) cond sk by (auto simp: idle_def Let_def split: if_splits)
    have c: "calm ?r r'" using skip(1) .
    have q: "quiet r'"
      unfolding quiet_def same_graphD(1) [OF calm_same(1) [OF c]]
    proof
      fix i assume "i \<in> set (r_order ?r)"
      then show "r_state r' i \<noteq> Some stRunning \<and> r_state r' i \<noteq> Some stWaiting"
        using r(2) calm_state [OF c, of i] by (auto simp: quiet_def)
    qed
    have "inFlight s' = 0" using quiet by (simp add: s' inFlight_def)
    then have ok': "sched_ok s'" using sched_ok_idle [of s'] q calm_run_ok [OF c r(1)] by (simp add: s')
    have pw: "potential s' + weight s = potential s + weight s'"
      by (rule potential_weight) (simp_all add: s' calm_same [OF c])
    have "retries_ok r' = retries_ok ?r" using budget_same(2) [OF calm_same(1-3) [OF c]] .
    moreover have "potential s' < potential s \<or> potential s' = potential s \<and> dec"
    proof (cases progress)
      case True
      with skip(3) pw show ?thesis by (simp add: s' weight_def inFlight_def)
    next
      case False
      with skip(2) p stuck [OF \<open>s_loopTarget s = []\<close>] have "r' = ?r" dec by auto
      with pw show ?thesis by (simp add: s')
    qed
    ultimately show ?thesis using ok' w calm_same(1) [OF c] by (simp add: s')
  qed
qed

section \<open>One round\<close>

text \<open>The scheduler state after the dispatch part of a round.\<close>

definition after_dispatch :: "golib \<Rightarrow> nat \<Rightarrow> sched_input \<Rightarrow> sched \<Rightarrow> sched" where
  "after_dispatch lib limit inp s =
     (let s0 = see_stop (in_stop_dispatch inp) s in
      if \<not> s_termFail s0 \<and> s_loopTarget s0 = [] \<and> \<not> r_stopped (s_run s0) then dispatch lib limit s0 else s0)"

lemma after_dispatch_spec:
  fixes lib limit inp s
  defines "s1 \<equiv> after_dispatch lib limit inp s"
  assumes ok: "sched_ok s" and rt: "retries_ok (s_run s)" and wk: "length (s_workers s) \<le> limit"
  shows "sched_ok s1" "same_graph (s_run s) (s_run s1)" "retries_ok (s_run s1)" "length (s_workers s1) \<le> limit"
    "potential s1 \<le> potential s" "s_termFail s1 = s_termFail s" "s_loopTarget s1 = s_loopTarget s"
    "inFlight s1 = 0 \<Longrightarrow> 0 < limit \<Longrightarrow> \<not> s_termFail s \<Longrightarrow> s_loopTarget s = [] \<Longrightarrow> \<not> r_stopped (s_run s1) \<Longrightarrow>
      pickAllRunnable (s_run s1) = [] \<or> potential s1 < potential s"
proof -
  let ?s0 = "see_stop (in_stop_dispatch inp) s"
  have d: "dispatched limit (pickAllRunnable (s_run s)) ?s0 (dispatch lib limit ?s0)" using dispatch_spec [of ?s0] ok by simp
  let ?t = "dispatch lib limit ?s0"
  have t: "sched_ok ?t" "same_graph (s_run ?s0) (s_run ?t)" "r_retries (s_run ?t) = r_retries (s_run ?s0)"
      "r_conflictRetries (s_run ?t) = r_conflictRetries (s_run ?s0)" "s_termFail ?t = s_termFail ?s0" "s_loopTarget ?t = s_loopTarget ?s0"
      "length (s_workers ?t) \<le> max (length (s_workers ?s0)) limit"
      "weight ?t < weight ?s0 \<or> ?t = ?s0 \<and> (pickAllRunnable (s_run s) = [] \<or> limit \<le> inFlight ?s0)"
    using d unfolding dispatched_def same_sched_def by blast+
  have pw: "potential ?t + weight ?s0 = potential s + weight ?t"
    using potential_weight [OF t(2-4,6)] by simp
  have g: "same_graph (s_run s) (s_run ?s0)" by simp
  have cases: "s1 = ?t \<and> \<not> s_termFail s \<and> s_loopTarget s = [] \<or> s1 = ?s0 \<and> (s_termFail s \<or> s_loopTarget s \<noteq> [] \<or> r_stopped (s_run s1))"
    by (auto simp: s1_def after_dispatch_def Let_def)
  show "sched_ok s1" "s_termFail s1 = s_termFail s" "s_loopTarget s1 = s_loopTarget s" using cases t(1,5,6) ok by auto
  show "same_graph (s_run s) (s_run s1)" using cases same_graph_trans [OF g t(2)] by auto
  show "retries_ok (s_run s1)" using cases rt budget_same(2) [OF t(2-4)] by auto
  show "length (s_workers s1) \<le> limit" using cases t(7) wk by auto
  have le: "potential ?t \<le> potential s" "weight ?t < weight ?s0 \<Longrightarrow> potential ?t < potential s" using t(8) pw by auto
  then show "potential s1 \<le> potential s" using cases by auto
  assume "inFlight s1 = 0" "0 < limit" "\<not> s_termFail s" "s_loopTarget s = []" "\<not> r_stopped (s_run s1)"
  then show "pickAllRunnable (s_run s1) = [] \<or> potential s1 < potential s" using cases t(8) le(2) by auto
qed

lemma iterate_unfold:
  "iterate lib limit inp s =
     (let s1 = after_dispatch lib limit inp s in
      if inFlight s1 = 0 then idle (see_stop (in_stop_idle inp) s1)
      else
        let s2 = await inp s1;
            s3 = see_stop (in_stop_receive inp) (s2\<lparr>s_results := tl (s_results s2)\<rparr>)
        in if r_stopped (s_run s3) then Inl s3 else process lib inp (hd (s_results s2)) s3)"
  by (simp add: iterate_def after_dispatch_def Let_def)

text \<open>The result the scheduler takes from the channel, and the state it is processed in.\<close>

lemma received:
  assumes ok: "sched_ok s1" and fl: "inFlight s1 \<noteq> 0"
  obtains wr rest where "s_results (await inp s1) = wr # rest"
    "landed (wr_stepID wr) (see_stop b ((await inp s1)\<lparr>s_results := rest\<rparr>))"
    "wr_step wr = step_of (s_run s1) (wr_stepID wr)"
    "potential (see_stop b ((await inp s1)\<lparr>s_results := rest\<rparr>)) < potential s1"
    "s_run ((await inp s1)\<lparr>s_results := rest\<rparr>) = s_run s1" "length (s_workers (await inp s1)) \<le> length (s_workers s1)"
    "s_termFail (await inp s1) = s_termFail s1"
proof -
  let ?s2 = "await inp s1"
  have a: "sched_ok ?s2" "inFlight ?s2 = inFlight s1" "s_run ?s2 = s_run s1" "s_loopTarget ?s2 = s_loopTarget s1"
      "length (s_workers ?s2) \<le> length (s_workers s1)" "s_results ?s2 \<noteq> []" "s_termFail ?s2 = s_termFail s1"
    using await_ok [OF ok] await_frame [of s1 inp] await_result [OF fl] by (simp_all add: same_but_flights_def)
  obtain wr rest where wr: "s_results ?s2 = wr # rest" using a(6) by (cases "s_results ?s2") auto
  note l = received_landed [OF a(1) wr]
  have "potential (?s2\<lparr>s_results := rest\<rparr>) < potential s1"
    using l(3) a(2-4) by (simp add: potential_def weight_def Let_def)
  then show thesis using that [OF wr] l a by simp
qed

text \<open>A stopped run drains one result per round until nothing is in flight.\<close>

lemma stopped_round:
  assumes st: "r_stopped (s_run s) \<or> in_stop_dispatch inp" and inv: "retries_ok (s_run s)" "length (s_workers s) \<le> limit"
    and it: "iterate lib limit inp s = Inl s'"
  shows "sched_inv limit s' \<and> same_graph (s_run s) (s_run s') \<and> potential s' < potential s"
proof -
  define s1 where "s1 = see_stop (in_stop_dispatch inp) s"
  have st1: "r_stopped (s_run s1)" using st by (simp add: s1_def see_stop_def)
  have ad: "after_dispatch lib limit inp s = s1" using st1 by (simp add: after_dispatch_def s1_def Let_def)
  have fl: "inFlight s1 \<noteq> 0"
    using it ad st1 by (auto simp: iterate_unfold idle_def see_stop_def Let_def split: if_splits)
  let ?s2 = "await inp s1"
  let ?s3 = "see_stop (in_stop_receive inp) (?s2\<lparr>s_results := tl (s_results ?s2)\<rparr>)"
  have a: "inFlight ?s2 = inFlight s1" "s_run ?s2 = s_run s1" "s_loopTarget ?s2 = s_loopTarget s1"
      "length (s_workers ?s2) \<le> length (s_workers s1)" "s_results ?s2 \<noteq> []"
    using await_frame [of s1 inp] await_result [OF fl] by (simp_all add: same_but_flights_def)
  have st3: "r_stopped (s_run ?s3)" using st1 a(2) by (simp add: see_stop_def)
  then have s': "s' = ?s3" using it ad fl by (simp add: iterate_unfold Let_def)
  have "inFlight (?s2\<lparr>s_results := tl (s_results ?s2)\<rparr>) < inFlight s1"
    using a(1,5) by (cases "s_results ?s2") (auto simp: inFlight_def)
  then have "potential (?s2\<lparr>s_results := tl (s_results ?s2)\<rparr>) < potential s1"
    using a(2,3) by (simp add: potential_def weight_def Let_def)
  then have "potential s' < potential s1" by (simp add: s')
  then show ?thesis using a(2,4) st3 inv by (simp add: s' s1_def sched_inv_def)
qed

lemma iterate_spec:
  assumes inv: "sched_inv limit s" and limit: "0 < limit" and it: "iterate lib limit inp s = Inl s'"
  shows "sched_inv limit s' \<and> same_graph (s_run s) (s_run s') \<and> potential s' < potential s"
proof (cases "r_stopped (s_run s) \<or> in_stop_dispatch inp")
  case True
  moreover have "retries_ok (s_run s)" "length (s_workers s) \<le> limit" using inv by (simp_all add: sched_inv_def)
  ultimately show ?thesis using it by (rule stopped_round)
next
  case run: False
  then have i: "sched_ok s" "retries_ok (s_run s)" "length (s_workers s) \<le> limit" using inv by (simp_all add: sched_inv_def)
  define s1 where "s1 = after_dispatch lib limit inp s"
  note d = after_dispatch_spec [OF i, of lib inp, folded s1_def]
  show ?thesis
  proof (cases "inFlight s1 = 0")
    case True
    let ?s1 = "see_stop (in_stop_idle inp) s1"
    have id: "idle ?s1 = Inl s'" using it True by (simp add: iterate_unfold s1_def Let_def)
    then have ns: "\<not> r_stopped (s_run s1)" "\<not> s_termFail s1" by (auto simp: idle_def see_stop_def Let_def split: if_splits)
    have "sched_ok s' \<and> same_graph (s_run ?s1) (s_run s') \<and> retries_ok (s_run s') = retries_ok (s_run ?s1)
        \<and> s_workers s' = [] \<and> (potential s' < potential ?s1 \<or> potential s' = potential ?s1 \<and> potential s1 < potential s)"
      by (rule idle_spec [OF _ _ id]) (use d True limit ns in auto)
    then show ?thesis using d(2,3,5) same_graph_trans [OF d(2), of "s_run s'"]
      by (auto simp: sched_inv_def same_graph_def)
  next
    case False
    obtain wr rest where wr: "s_results (await inp s1) = wr # rest"
        "landed (wr_stepID wr) (see_stop (in_stop_receive inp) ((await inp s1)\<lparr>s_results := rest\<rparr>))"
        "wr_step wr = step_of (s_run s1) (wr_stepID wr)"
        "potential (see_stop (in_stop_receive inp) ((await inp s1)\<lparr>s_results := rest\<rparr>)) < potential s1"
        "s_run ((await inp s1)\<lparr>s_results := rest\<rparr>) = s_run s1" "length (s_workers (await inp s1)) \<le> length (s_workers s1)"
      by (rule received [OF d(1) False])
    define s3 where "s3 = see_stop (in_stop_receive inp) ((await inp s1)\<lparr>s_results := rest\<rparr>)"
    have s3: "same_graph (s_run s) (s_run s3)" "retries_ok (s_run s3)" "length (s_workers s3) \<le> limit" "potential s3 < potential s"
      using d wr(4-6) by (simp_all add: s3_def)
    have cases: "s' = s3 \<and> r_stopped (s_run s3) \<or> process lib inp wr s3 = Inl s'"
      using it False wr(1) by (auto simp: iterate_unfold s1_def [symmetric] s3_def Let_def split: if_splits)
    show ?thesis
    proof (cases "process lib inp wr s3 = Inl s'")
      case True
      then obtain res where s': "s' = settle_step lib wr res s3"
        by (auto simp: process_def Let_def split: if_splits prod.splits)
      have "settled (wr_stepID wr) s3 s'"
        unfolding s' by (rule settle_step_settled) (use wr(2,3,5) in \<open>simp_all add: s3_def\<close>)
      then show ?thesis using s3 same_graph_trans [OF s3(1), of "s_run s'"] by (auto simp: settled_def sched_inv_def)
    next
      case False
      then show ?thesis using cases s3 by (simp add: sched_inv_def)
    qed
  qed
qed

end
