(* ===== verification/Tables.thy ===== *)
theory Tables
  imports Go_Prelude
begin

text \<open>
  Tables of the store. A table is the list of its rows in rowid order; a statement that updates the rows
  satisfying a condition maps over it. The lemmas say what such an update keeps: the keys, the rows
  it does not name, and the counts of rows over which conditions are stated.
\<close>

definition update_rows :: "('a \<Rightarrow> bool) \<Rightarrow> ('a \<Rightarrow> 'a) \<Rightarrow> 'a list \<Rightarrow> 'a list" where
  "update_rows P f rows = map (\<lambda>x. if P x then f x else x) rows"

lemma update_rows_simps [simp]:
  "update_rows P f [] = []"
  "update_rows P f (x # xs) = (if P x then f x else x) # update_rows P f xs"
  by (simp_all add: update_rows_def)

lemma set_update_rows: "set (update_rows P f xs) = (\<lambda>x. if P x then f x else x) ` set xs"
  by (simp add: update_rows_def)

lemma map_update_rows [simp]:
  assumes "\<And>x. key (f x) = key x"
  shows "map key (update_rows P f xs) = map key xs"
  using assms by (induction xs) auto

lemma update_rows_none: "(\<And>x. x \<in> set xs \<Longrightarrow> \<not> P x) \<Longrightarrow> update_rows P f xs = xs"
  by (induction xs) auto

lemma filter_update_rows:
  assumes "\<And>x. x \<in> set xs \<Longrightarrow> P x \<Longrightarrow> Q (f x) = Q x"
  shows "filter Q (update_rows P f xs) = update_rows P f (filter Q xs)"
  using assms by (induction xs) auto

lemma find_snoc:
  "find P (xs @ [x]) = (case find P xs of Some y \<Rightarrow> Some y | None \<Rightarrow> if P x then Some x else None)"
  by (induction xs) auto

text \<open>In a table with a primary key, a condition that fixes the key names one row.\<close>

lemma keyed_row:
  assumes "distinct (map key xs)" "x \<in> set xs" "y \<in> set xs" "key x = key y"
  shows "x = y"
  using assms by (simp add: distinct_map inj_on_def)

lemma find_keyed:
  assumes "distinct (map key xs)"
  shows "find (\<lambda>x. key x = k) xs = Some x \<longleftrightarrow> x \<in> set xs \<and> key x = k"
  using assms by (induction xs) (auto simp: image_iff)

lemma update_row_keyed:
  assumes "distinct (map key xs)" "x \<in> set xs" "P x" "\<And>y. y \<in> set xs \<Longrightarrow> P y \<Longrightarrow> key y = key x"
  shows "y \<in> set (update_rows P f xs) \<longleftrightarrow> y = f x \<or> y \<in> set xs \<and> y \<noteq> x"
proof -
  have "P z \<longleftrightarrow> z = x" if "z \<in> set xs" for z
    using assms that keyed_row [OF assms(1) that assms(2)] by blast
  then show ?thesis using assms(2) by (auto simp: set_update_rows image_iff)
qed

lemma count_if_update:
  assumes "distinct (map key xs)" "x \<in> set xs" "P x" "\<And>y. y \<in> set xs \<Longrightarrow> P y \<Longrightarrow> key y = key x"
  shows "count_if Q (update_rows P f xs) + (if Q x then 1 else 0) = count_if Q xs + (if Q (f x) then 1 else 0)"
  using assms
proof (induction xs)
  case (Cons z xs)
  show ?case
  proof (cases "z = x")
    case True
    have "\<not> P y" if "y \<in> set xs" for y
    proof
      assume "P y"
      with Cons.prems(4) [of y] that have "key y = key x" by simp
      with that Cons.prems(1) True show False by (auto simp: image_iff)
    qed
    then have "update_rows P f xs = xs" by (rule update_rows_none)
    with True Cons.prems(3) show ?thesis by simp
  next
    case False
    have "\<not> P z"
    proof
      assume "P z"
      with Cons.prems(4) [of z] have "key z = key x" by simp
      with False Cons.prems(1,2) show False by (auto simp: image_iff)
    qed
    moreover have "x \<in> set xs" "distinct (map key xs)" using Cons.prems(1,2) False by auto
    then have "count_if Q (update_rows P f xs) + (if Q x then 1 else 0) = count_if Q xs + (if Q (f x) then 1 else 0)"
      by (intro Cons.IH Cons.prems(3)) (auto dest: Cons.prems(4) [rotated])
    ultimately show ?thesis by simp
  qed
qed simp

end
