(* ===== verification/Dag_Theorems.thy ===== *)
theory Dag_Theorems
  imports Dag_Progress Tables
begin

text \<open>
  The properties of the scheduler: it ends for every behaviour of its workers within an explicit number of rounds,
  a run reported done has every step settled and in dependency order, the limits on concurrency and
  retries hold at every moment; and what parking loses.
\<close>

section \<open>The scheduler as a state machine\<close>

definition sched_start :: "sched \<Rightarrow> bool" where
  "sched_start s \<longleftrightarrow> (\<exists>r d. run_ok r \<and> quiet r \<and> retries_ok r \<and> s = start r d)"

definition sched_step :: "golib \<Rightarrow> nat \<Rightarrow> sched \<Rightarrow> sched \<Rightarrow> bool" where
  "sched_step lib limit s s' \<longleftrightarrow> (\<exists>inp. iterate lib limit inp s = Inl s')"

lemma concurrencyLimit_pos [simp]: "0 < concurrencyLimit c"
  by (simp add: concurrencyLimit_def)

lemma start_inv:
  assumes "run_ok r" "quiet r" "retries_ok r"
  shows "sched_inv limit (start r d)"
proof -
  have "inFlight (start r d) = 0" by (simp add: start_def inFlight_def)
  then show ?thesis using assms sched_ok_idle by (simp add: sched_inv_def start_def)
qed

interpretation scheduler: invariant_of sched_start "sched_step lib (concurrencyLimit c)" "sched_inv (concurrencyLimit c)" for lib c
proof
  show "sched_inv (concurrencyLimit c) s" if "sched_start s" for s using that start_inv by (auto simp: sched_start_def)
  show "sched_inv (concurrencyLimit c) s'" if "sched_inv (concurrencyLimit c) s" "sched_step lib (concurrencyLimit c) s s'" for s s'
    using that iterate_spec [of "concurrencyLimit c"] by (auto simp: sched_step_def)
qed

section \<open>The whole loop\<close>

lemma drive_ends:
  assumes "sched_inv limit s" "0 < limit" "potential s < length inps"
  shows "\<exists>out. drive lib limit inps s = Some out"
  using assms
proof (induction inps arbitrary: s)
  case (Cons inp inps)
  show ?case
  proof (cases "iterate lib limit inp s")
    case (Inl s')
    from iterate_spec [OF Cons.prems(1,2) Inl] Cons.prems(3) have "sched_inv limit s'" "potential s' < length inps" by auto
    with Cons.IH [of s'] Cons.prems(2) Inl show ?thesis by simp
  next
    case (Inr out)
    then show ?thesis by (simp del: split_paired_Ex)
  qed
qed simp

lemma drive_result:
  assumes "sched_inv limit s" "0 < limit" "drive lib limit inps s = Some out"
  obtains s' inp where "sched_inv limit s'" "same_graph (s_run s) (s_run s')" "iterate lib limit inp s' = Inr out"
  using assms
proof (induction inps arbitrary: s thesis)
  case (Cons inp inps)
  show ?case
  proof (cases "iterate lib limit inp s")
    case (Inl s1)
    note i = iterate_spec [OF Cons.prems(2,3) Inl]
    obtain s' inp' where "sched_inv limit s'" "same_graph (s_run s1) (s_run s')" "iterate lib limit inp' s' = Inr out"
      using Cons.IH [of s1] i Inl Cons.prems(3,4) by auto
    with i Cons.prems(1) same_graph_trans show ?thesis by blast
  next
    case (Inr out')
    with Cons.prems show ?thesis by (auto intro: Cons.prems(1) [of s inp])
  qed
qed simp

lemma potential_start: "potential (start r d) < loop_bound r"
  using pend_le [of r] by (simp add: potential_def loop_bound_def start_def weight_def inFlight_def Let_def)

definition settled_state :: "dstate option \<Rightarrow> bool" where
  "settled_state st \<longleftrightarrow> st = Some stPassed \<or> st = Some stSkipped \<or> st = Some stCondSkipped"

lemma final_done:
  assumes "run_ok r" "quiet r" "final_outcome r = outcomeDone" "i \<in> set (r_order r)"
  shows "settled_state (r_state r i)"
proof -
  have "r_state r i \<noteq> Some stFailed" "r_state r i \<noteq> Some stPending"
    using assms(3,4) by (auto simp: final_outcome_def list_ex_iff strandedSteps_def filter_empty_conv split: if_splits)
  moreover have "r_state r i \<noteq> None" "r_state r i \<noteq> Some stRunning" "r_state r i \<noteq> Some stWaiting"
    using assms(1,2,4) by (auto simp: run_ok_def inert_ok_def quiet_def)
  ultimately show ?thesis
    unfolding settled_state_def by (cases "r_state r i") (auto intro: dstate.exhaust)
qed

lemma idle_done:
  assumes ok: "sched_ok s" and fl: "inFlight s = 0" and id: "idle s = Inr (outcomeDone, r', d')"
  shows "run_ok r' \<and> quiet r' \<and> final_outcome r' = outcomeDone \<and> same_graph (s_run s) r'"
proof -
  obtain progress r1 where sk: "skipUnreachable (s_run s) = (progress, r1)" by (cases "skipUnreachable (s_run s)")
  have "\<not> progress" and r': "r' = r1" "final_outcome r1 = outcomeDone"
    using id sk by (auto simp: idle_def Let_def split: if_splits)
  with skipUnreachable_spec [OF sk] have "r1 = s_run s" by blast
  with r' ok sched_ok_idle [OF fl] show ?thesis by simp
qed

lemma process_not_done: "process lib inp wr s \<noteq> Inr (outcomeDone, r', d')"
  by (auto simp: process_def Let_def split: prod.splits)

lemma iterate_done:
  assumes inv: "sched_inv limit s" and it: "iterate lib limit inp s = Inr (outcomeDone, r', d')"
  shows "run_ok r' \<and> quiet r' \<and> final_outcome r' = outcomeDone \<and> same_graph (s_run s) r'"
proof -
  define s1 where "s1 = after_dispatch lib limit inp s"
  have fl: "inFlight s1 = 0" and id: "idle (see_stop (in_stop_idle inp) s1) = Inr (outcomeDone, r', d')"
    using it process_not_done by (auto simp: iterate_unfold s1_def [symmetric] Let_def split: if_splits)
  then have "\<not> r_stopped (s_run s1)" by (auto simp: idle_def see_stop_def Let_def split: if_splits)
  moreover have "r_stopped (s_run s1)" if "r_stopped (s_run s)"
    using that by (simp add: s1_def after_dispatch_def see_stop_def Let_def)
  ultimately have "sched_ok s" using inv by (auto simp: sched_inv_def)
  with inv after_dispatch_spec(1,2) [of s limit lib inp] have s1: "sched_ok s1" "same_graph (s_run s) (s_run s1)"
    by (auto simp: sched_inv_def s1_def)
  then have "run_ok r' \<and> quiet r' \<and> final_outcome r' = outcomeDone \<and> same_graph (s_run (see_stop (in_stop_idle inp) s1)) r'"
    by (intro idle_done [OF _ _ id]) (simp_all add: fl)
  with s1(2) show ?thesis by (auto simp: same_graph_def)
qed

section \<open>A fresh run\<close>

definition add_step :: "step_config \<Rightarrow> dag_run \<Rightarrow> dag_run" where
  "add_step s r = index_children s
     (r\<lparr>r_byID := (r_byID r)(sid s \<mapsto> s), r_order := r_order r @ [sid s], r_state := (r_state r)(sid s \<mapsto> stPending)\<rparr>)"

lemma index_children_same [simp]:
  "r_byID (index_children s r) = r_byID r" "r_order (index_children s r) = r_order r" "r_state (index_children s r) = r_state r"
  "r_retries (index_children s r) = r_retries r" "r_conflictRetries (index_children s r) = r_conflictRetries r"
proof -
  have "r_byID (fold (\<lambda>child r. r\<lparr>r_childByID := (r_childByID r)(sid child \<mapsto> child),
        r_parentOfChild := (r_parentOfChild r)(sid child \<mapsto> sid s)\<rparr>) cs r) = r_byID r \<and>
      r_order (fold (\<lambda>child r. r\<lparr>r_childByID := (r_childByID r)(sid child \<mapsto> child),
        r_parentOfChild := (r_parentOfChild r)(sid child \<mapsto> sid s)\<rparr>) cs r) = r_order r \<and>
      r_state (fold (\<lambda>child r. r\<lparr>r_childByID := (r_childByID r)(sid child \<mapsto> child),
        r_parentOfChild := (r_parentOfChild r)(sid child \<mapsto> sid s)\<rparr>) cs r) = r_state r \<and>
      r_retries (fold (\<lambda>child r. r\<lparr>r_childByID := (r_childByID r)(sid child \<mapsto> child),
        r_parentOfChild := (r_parentOfChild r)(sid child \<mapsto> sid s)\<rparr>) cs r) = r_retries r \<and>
      r_conflictRetries (fold (\<lambda>child r. r\<lparr>r_childByID := (r_childByID r)(sid child \<mapsto> child),
        r_parentOfChild := (r_parentOfChild r)(sid child \<mapsto> sid s)\<rparr>) cs r) = r_conflictRetries r" for cs
    by (induction cs arbitrary: r) auto
  then show "r_byID (index_children s r) = r_byID r" "r_order (index_children s r) = r_order r" "r_state (index_children s r) = r_state r"
    "r_retries (index_children s r) = r_retries r" "r_conflictRetries (index_children s r) = r_conflictRetries r"
    by (simp_all add: index_children_def)
qed

lemma add_steps:
  "r_order (fold add_step ss r) = r_order r @ map sid ss"
  "r_byID (fold add_step ss r) i = (case find (\<lambda>s. sid s = i) (rev ss) of Some s \<Rightarrow> Some s | None \<Rightarrow> r_byID r i)"
  "r_state (fold add_step ss r) i = (if i \<in> sid ` set ss then Some stPending else r_state r i)"
  "r_retries (fold add_step ss r) = r_retries r" "r_conflictRetries (fold add_step ss r) = r_conflictRetries r"
proof (induction ss arbitrary: r)
  case (Cons s ss)
  note f = find_snoc [of "\<lambda>s. sid s = i" "rev ss" s]
  { case 1 show ?case using Cons.IH(1) [of "add_step s r"] by (simp add: add_step_def) }
  { case 2 show ?case using Cons.IH(2) [of "add_step s r"] f by (simp add: add_step_def split: option.splits) }
  { case 3 show ?case using Cons.IH(3) [of "add_step s r"] by (auto simp: add_step_def) }
  { case 4 show ?case using Cons.IH(4) [of "add_step s r"] by (simp add: add_step_def) }
  { case 5 show ?case using Cons.IH(5) [of "add_step s r"] by (simp add: add_step_def) }
qed simp_all

lemma initDAG_fields:
  fixes instID w taskID cell seed
  defines "r \<equiv> initDAG instID w taskID cell seed" and "ss \<equiv> wc_Steps w"
  shows "r_order r = map sid ss" "r_byID r i = find (\<lambda>s. sid s = i) (rev ss)"
    "r_state r i = (if i \<in> sid ` set ss then Some stPending else None)"
    "r_activated r i \<longleftrightarrow> i \<in> sid ` set ss \<and> \<not> split_targets ss i" "r_retries r i = 0" "r_conflictRetries r i = 0"
proof -
  let ?add = "\<lambda>s r. index_children s (r\<lparr>r_byID := (r_byID r)(sid s \<mapsto> s), r_order := r_order r @ [sid s],
      r_state := (r_state r)(sid s \<mapsto> stPending)\<rparr>)"
  have a: "?add = add_step" by (simp add: fun_eq_iff add_step_def)
  show "r_order r = map sid ss" "r_state r i = (if i \<in> sid ` set ss then Some stPending else None)"
    "r_activated r i \<longleftrightarrow> i \<in> sid ` set ss \<and> \<not> split_targets ss i" "r_retries r i = 0" "r_conflictRetries r i = 0"
    unfolding r_def initDAG_def Let_def a ss_def by (simp_all add: add_steps)
  show "r_byID r i = find (\<lambda>s. sid s = i) (rev ss)"
    unfolding r_def initDAG_def Let_def a ss_def by (simp add: add_steps split: option.splits)
qed

lemma initDAG_step_of:
  assumes "i \<in> set (r_order (initDAG instID w taskID cell seed))"
  shows "step_of (initDAG instID w taskID cell seed) i \<in> set (wc_Steps w)" "sid (step_of (initDAG instID w taskID cell seed) i) = i"
proof -
  let ?ss = "wc_Steps w"
  have "\<exists>s\<in>set ?ss. sid s = i" using assms by (auto simp: initDAG_fields)
  then have "find (\<lambda>s. sid s = i) (rev ?ss) \<noteq> None" by (auto simp: find_None_iff)
  then obtain s where f: "find (\<lambda>s. sid s = i) (rev ?ss) = Some s" by auto
  then have "s \<in> set (rev ?ss)" "sid s = i" unfolding find_Some_iff by (metis nth_mem)+
  with f show "step_of (initDAG instID w taskID cell seed) i \<in> set ?ss" "sid (step_of (initDAG instID w taskID cell seed) i) = i"
    by (simp_all add: step_of_def initDAG_fields)
qed

definition targets_known :: "workflow_config \<Rightarrow> bool" where
  "targets_known w \<longleftrightarrow> (\<forall>s\<in>set (wc_Steps w). StepType s = StepTypeSplit \<longrightarrow>
     (\<forall>b\<in>set (Branches (flds s)). sb_Goto b \<noteq> [] \<longrightarrow> sb_Goto b \<in> sid ` set (wc_Steps w)))"

lemma initDAG_ok:
  assumes "distinct (map sid (wc_Steps w))" "targets_known w"
  shows "run_ok (initDAG instID w taskID cell seed)" "quiet (initDAG instID w taskID cell seed)"
    "retries_ok (initDAG instID w taskID cell seed)"
proof -
  let ?r = "initDAG instID w taskID cell seed"
  have "graph_ok ?r"
    unfolding graph_ok_def
  proof (intro conjI ballI impI)
    show "distinct (r_order ?r)" using assms(1) by (simp add: initDAG_fields)
    show "sid (step_of ?r i) = i" if "i \<in> set (r_order ?r)" for i using initDAG_step_of(2) [OF that] .
    show "sb_Goto b \<in> set (r_order ?r)"
      if "i \<in> set (r_order ?r)" "StepType (step_of ?r i) = StepTypeSplit" "b \<in> set (Branches (flds (step_of ?r i)))" "sb_Goto b \<noteq> []" for i b
      using initDAG_step_of(1) [OF that(1)] that(2,3,4) assms(2) by (simp add: targets_known_def initDAG_fields)
  qed
  moreover have "inert_ok ?r" "deps_ok ?r" by (auto simp: inert_ok_def deps_ok_def active_def initDAG_fields)
  ultimately show "run_ok ?r" by (simp add: run_ok_def)
  show "quiet ?r" by (auto simp: quiet_def initDAG_fields)
  show "retries_ok ?r" by (simp add: retries_ok_def initDAG_fields)
qed

section \<open>Parking\<close>

lemma process_parks:
  assumes "process lib inp wr s = Inr (out, r', d')"
  shows "out = outcomeWaiting" "r_state r' = (r_state (s_run s))(sid (wr_step wr) \<mapsto> stWaiting)"
    "r_waitingStep r' = sid (wr_step wr)" "same_graph (s_run s) r'" "r_activated r' = r_activated (s_run s)"
    "r_retries r' = r_retries (s_run s)" "r_conflictRetries r' = r_conflictRetries (s_run s)"
  using assms
  by (auto simp: process_def enterApproval_def enterWait_def same_graph_def Let_def split: if_splits)

lemma iterate_parks:
  assumes inv: "sched_inv limit s" and it: "iterate lib limit inp s = Inr (outcomeWaiting, r', d')"
  obtains i s3 where "landed i s3" "same_graph (s_run s) (s_run s3)" "retries_ok (s_run s3)" "r_waitingStep r' = i"
    "r_state r' = (r_state (s_run s3))(i \<mapsto> stWaiting)" "same_graph (s_run s3) r'" "r_activated r' = r_activated (s_run s3)"
    "r_retries r' = r_retries (s_run s3)" "r_conflictRetries r' = r_conflictRetries (s_run s3)"
proof -
  define s1 where "s1 = after_dispatch lib limit inp s"
  have idle: "idle x \<noteq> Inr (outcomeWaiting, r', d')" for x
    by (auto simp: idle_def final_outcome_def Let_def split: prod.splits)
  have fl: "inFlight s1 \<noteq> 0"
    using it idle [of "see_stop (in_stop_idle inp) s1"] 
    by (auto simp: iterate_unfold s1_def [symmetric] split: if_splits)
  define s2 where "s2 = await inp s1"
  define s3 where "s3 = see_stop (in_stop_receive inp) (s2\<lparr>s_results := tl (s_results s2)\<rparr>)"
  have p: "process lib inp (hd (s_results s2)) s3 = Inr (outcomeWaiting, r', d')" and "\<not> r_stopped (s_run s3)"
    using it fl by (auto simp: iterate_unfold s1_def [symmetric] s2_def [symmetric] s3_def [symmetric] Let_def split: if_splits)
  moreover have "r_stopped (s_run s3)" if "r_stopped (s_run s)"
  proof -
    have "s_run s2 = s_run s1" using await_frame [of s1 inp] by (simp add: s2_def same_but_flights_def)
    with that show ?thesis by (simp add: s3_def s1_def after_dispatch_def see_stop_def Let_def)
  qed
  ultimately have "sched_ok s" using inv by (auto simp: sched_inv_def)
  then have s1: "sched_ok s1" "same_graph (s_run s) (s_run s1)" "retries_ok (s_run s1)"
    using inv after_dispatch_spec(1,2,3) [of s limit lib inp] by (auto simp: sched_inv_def s1_def)
  obtain wr rest where wr: "s_results s2 = wr # rest" "landed (wr_stepID wr) s3" "wr_step wr = step_of (s_run s1) (wr_stepID wr)"
    "s_run (s2\<lparr>s_results := rest\<rparr>) = s_run s1"
    by (rule received [OF s1(1) fl, of inp "in_stop_receive inp"]) (simp add: s3_def s2_def)
  have r3: "same_graph (s_run s1) (s_run s3)" "retries_ok (s_run s3)" using wr(4) s1(3) by (simp_all add: s3_def)
  have "graph_ok (s_run s1)" "wr_stepID wr \<in> set (r_order (s_run s1))"
    using s1(1) wr(2) same_graphD(1) [OF r3(1)] by (simp_all add: sched_ok_def run_ok_def landed_def)
  then have i: "sid (wr_step wr) = wr_stepID wr" by (simp add: wr(3) graph_ok_def)
  note pp = process_parks [OF p, unfolded wr(1) list.sel(1) i]
  show ?thesis by (rule that [OF wr(2) same_graph_trans [OF s1(2) r3(1)] r3(2) pp(3,2,4-7)])
qed

definition alone :: "dag_run \<Rightarrow> bool" where
  "alone r \<longleftrightarrow> (\<forall>i\<in>set (r_order r). r_state r i \<noteq> Some stRunning)"

lemma resumed_ok:
  assumes inv: "sched_inv limit s" and it: "iterate lib limit inp s = Inr (outcomeWaiting, r', d')"
  shows "run_ok (resolveApproval ApprovalResume r')" "retries_ok (resolveApproval ApprovalResume r')"
    "alone r' \<Longrightarrow> quiet (resolveApproval ApprovalResume r')"
proof -
  let ?r = "resolveApproval ApprovalResume r'"
  obtain i s3 where l: "landed i s3" and rt: "retries_ok (s_run s3)" and w: "r_waitingStep r' = i"
    and r': "r_state r' = (r_state (s_run s3))(i \<mapsto> stWaiting)" "same_graph (s_run s3) r'" "r_activated r' = r_activated (s_run s3)"
      "r_retries r' = r_retries (s_run s3)" "r_conflictRetries r' = r_conflictRetries (s_run s3)"
    using iterate_parks [OF assms] by blast
  have f: "same_graph r' ?r" "r_state ?r = (r_state (s_run s3))(i \<mapsto> stPassed)" "r_activated ?r = r_activated r'"
      "r_retries ?r = r_retries r'" "r_conflictRetries ?r = r_conflictRetries r'"
    using r'(1) w by (simp_all add: resolveApproval_def same_graph_def Let_def)
  have g: "same_graph (s_run s3) ?r" by (rule same_graph_trans [OF r'(2) f(1)])
  have ok: "sched_ok (s3\<lparr>s_run := ?r\<rparr>)"
    by (rule land_ok [OF l, of _ stPassed]) (simp_all add: g f(2,3) r'(3) flights_def)
  then show "run_ok ?r" by (simp add: sched_ok_def)
  show "retries_ok ?r" using rt f(4,5) r'(4,5) same_graphD [OF g] by (simp add: retries_ok_def)
  show "quiet ?r" if "alone r'"
    using that ok same_graphD(1) [OF f(1)] unfolding sched_ok_def quiet_def alone_def
    by (auto simp: f(2) r'(1) split: if_splits)
qed

lemma driveDAG_ends:
  assumes "run_ok r" "quiet r" "retries_ok r" "loop_bound r \<le> length inps"
  shows "\<exists>out. driveDAG lib c inps r d = Some out"
  unfolding driveDAG_def
  using drive_ends [OF start_inv [OF assms(1-3)] concurrencyLimit_pos] potential_start [of r d] assms(4) by auto

section \<open>Concrete runs\<close>

text \<open>A loop of three steps, two of which are independent, and an approval beside an agent.\<close>

definition ex_retry_step :: "string \<Rightarrow> string list \<Rightarrow> step_config" where
  "ex_retry_step i deps = Step (zero_fields\<lparr>ID := i, DependsOn := deps,
     OnFail := Some \<lparr>so_Goto = ''a'', so_MaxRetries = 1\<rparr>\<rparr>) [] [] None"

definition ex_graph :: workflow_config where
  "ex_graph = \<lparr>wc_ID = ''w'', wc_Steps =
     [ex_retry_step ''a'' [], ex_retry_step ''b'' [], ex_retry_step ''c'' [''a'', ''b'']]\<rparr>"

definition ex_pair :: workflow_config where
  "ex_pair = \<lparr>wc_ID = ''w'', wc_Steps =
     [Step (zero_fields\<lparr>ID := ''a''\<rparr>) [] [] None,
      Step (zero_fields\<lparr>ID := ''g'', Type := ''approval''\<rparr>) [] [] None]\<rparr>"

definition ex_start :: "workflow_config \<Rightarrow> dag_run" where
  "ex_start w = initDAG ''i'' w ''t'' empty_item []"

definition ex_input :: "bool \<Rightarrow> sched_input" where
  "ex_input ok = \<lparr>in_stop_dispatch = False, in_stop_idle = False, in_stop_receive = False, in_finished = [],
     in_next = \<lparr>wa_res = (ex_result [])\<lparr>sr_Success := ok\<rparr>, wa_contribs = [], wa_waitingChild = [], wa_done = [], wa_failed = 0\<rparr>,
     in_ctxErr = None, in_now = 1\<rparr>"

lemma ex_wf:
  "distinct (map sid (wc_Steps ex_graph))" "targets_known ex_graph" "distinct (map sid (wc_Steps ex_pair))" "targets_known ex_pair"
  by (simp_all add: targets_known_def ex_graph_def ex_pair_def ex_retry_step_def zero_fields_def)

lemmas ex_start_ok =
  initDAG_ok [OF ex_wf(1,2), of "''i''" "''t''" empty_item "[]", folded ex_start_def]
  initDAG_ok [OF ex_wf(3,4), of "''i''" "''t''" empty_item "[]", folded ex_start_def]

definition ex_half :: sched where
  "ex_half = projl (iterate ex_lib 2 (ex_input True) (start (ex_start ex_graph) empty_db))"

definition ex_gate :: workflow_config where
  "ex_gate = \<lparr>wc_ID = ''w'', wc_Steps = [Step (zero_fields\<lparr>ID := ''g'', Type := ''approval''\<rparr>) [] [] None]\<rparr>"

lemma ex_gate_wf: "distinct (map sid (wc_Steps ex_gate))" "targets_known ex_gate"
  by (simp_all add: targets_known_def ex_gate_def zero_fields_def)

definition ex_parked :: "workflow_config \<Rightarrow> dag_result" where
  "ex_parked w = projr (iterate ex_lib 2 (ex_input True) (start (ex_start w) empty_db))"

text \<open>The approval beside an agent, when the gate's own message is received and the agent still executes.\<close>

definition ex_received :: sched where
  "ex_received = dispatch ex_lib 2 (start (ex_start ex_pair) empty_db)"

section \<open>Properties\<close>

text \<open>
  Initialising a workflow with distinct step ids and known split targets yields a
  run the scheduler's invariant holds of: nothing runs, the split targets alone are inactive, no
  retry is spent.
\<close>

theorem fresh_run_ok:
  assumes "distinct (map sid (wc_Steps w))" "targets_known w"
  shows "sched_inv limit (start (initDAG instID w taskID cell seed) d)
    \<and> r_order (initDAG instID w taskID cell seed) = map sid (wc_Steps w)
    \<and> (\<forall>i. r_activated (initDAG instID w taskID cell seed) i \<longleftrightarrow> i \<in> sid ` set (wc_Steps w) \<and> \<not> split_targets (wc_Steps w) i)"
  using start_inv [OF initDAG_ok [OF assms]] by (simp add: initDAG_fields)

theorem fresh_run_ok_witness:
  "sched_inv 2 (start (ex_start ex_graph) empty_db) \<and> r_order (ex_start ex_graph) = [''a'', ''b'', ''c'']"
  using fresh_run_ok [OF ex_wf(1,2), of 2 "''i''" "''t''" empty_item "[]" empty_db]
  by (simp add: ex_start_def ex_graph_def ex_retry_step_def)

text \<open>
  C3. The scheduler loop ends: from every well-formed run with nothing executing, and
  for every behaviour of the workers, the operator's stop, the context and the clock, it returns an
  outcome within \<open>loop_bound\<close> rounds, a number fixed by the graph and the retry limits.
\<close>

theorem scheduler_terminates:
  assumes "run_ok r" "quiet r" "retries_ok r" "loop_bound r \<le> length inps"
  shows "\<exists>out r' d'. driveDAG lib configured inps r d = Some (out, r', d')"
  using driveDAG_ends [OF assms] by auto

theorem scheduler_terminates_witness:
  "\<exists>out r' d'. driveDAG ex_lib 2 (replicate 34 (ex_input False)) (ex_start ex_graph) empty_db = Some (out, r', d')"
proof -
  have "loop_bound (ex_start ex_graph) \<le> length (replicate 34 (ex_input False))" by code_simp
  from scheduler_terminates [OF ex_start_ok(1-3) this] show ?thesis .
qed



text \<open>
  C5. At every moment of every run that has not been stopped: at most \<open>settings.concurrency\<close> workers (one when unset) execute,
  no step is in flight twice, every step in flight has its dependencies finished, and the results
  outstanding fit in the channel of capacity \<open>len(order) + 1\<close>, so a send never blocks.
\<close>

theorem scheduler_safe:
  assumes "reachable sched_start (sched_step lib (concurrencyLimit configured)) s" "\<not> r_stopped (s_run s)"
  shows "length (s_workers s) \<le> concurrencyLimit configured
    \<and> distinct (map w_id (s_workers s) @ map wr_stepID (s_results s))
    \<and> list_all (depsPassed (s_run s)) (map w_id (s_workers s) @ map wr_stepID (s_results s))
    \<and> inFlight s \<le> length (r_order (s_run s))"
proof -
  from scheduler.inv_reachable [OF assms(1)] assms(2) have inv: "sched_ok s" "length (s_workers s) \<le> concurrencyLimit configured"
    by (simp_all add: sched_inv_def)
  have ids: "map fst (flights s) = map w_id (s_workers s) @ map wr_stepID (s_results s)" by (simp add: flights_def comp_def)
  have d: "distinct (map fst (flights s))" using inv(1) by (simp add: sched_ok_def flights_ok_def)
  have st: "i \<in> set (r_order (s_run s)) \<and> r_state (s_run s) i = Some stRunning" if "i \<in> set (map fst (flights s))" for i
    using that inv(1) by (auto simp: sched_ok_def flights_ok_def)
  have "list_all (depsPassed (s_run s)) (map fst (flights s))"
    using st inv(1) by (simp only: list_all_iff) (auto simp: sched_ok_def run_ok_def deps_ok_def active_def)
  moreover have "length (map fst (flights s)) \<le> length (r_order (s_run s))"
    using st card_mono [of "set (r_order (s_run s))" "set (map fst (flights s))"] card_length [of "r_order (s_run s)"]
    unfolding distinct_card [OF d] by (meson List.finite_set le_trans subsetI)
  ultimately show ?thesis using inv(2) d unfolding ids by (simp add: inFlight_def)
qed

lemma ex_half_reachable: "reachable sched_start (sched_step ex_lib (concurrencyLimit 2)) ex_half"
proof (rule reachable_step)
  show "reachable sched_start (sched_step ex_lib (concurrencyLimit 2)) (start (ex_start ex_graph) empty_db)"
    using ex_start_ok(1-3) by (intro reachable_init) (auto simp: sched_start_def)
  have l: "concurrencyLimit 2 = 2" by (simp add: concurrencyLimit_def)
  have "isl (iterate ex_lib 2 (ex_input True) (start (ex_start ex_graph) empty_db))" by code_simp
  then show "sched_step ex_lib (concurrencyLimit 2) (start (ex_start ex_graph) empty_db) ex_half"
    unfolding sched_step_def ex_half_def l by (intro exI [of _ "ex_input True"]) simp
qed

theorem scheduler_safe_witness:
  "map w_id (s_workers ex_half) = [''b''] \<and> depsPassed (s_run ex_half) ''b'' \<and> inFlight ex_half \<le> 3"
proof -
  have "\<not> r_stopped (s_run ex_half)" and w: "map w_id (s_workers ex_half) = [''b'']"
    and o: "length (r_order (s_run ex_half)) = 3" by code_simp+
  from scheduler_safe [OF ex_half_reachable this(1)] w o show ?thesis by simp
qed

text \<open>
  The loop-backs a step has spent, on failures and separately on merge conflicts, never
  exceed the limits its configuration declares, stopped or not.
\<close>

theorem retries_bounded:
  assumes "reachable sched_start (sched_step lib (concurrencyLimit configured)) s" "i \<in> set (r_order (s_run s))"
  shows "r_retries (s_run s) i \<le> max 0 (retry_max (OnFail (flds (step_of (s_run s) i))))
    \<and> r_conflictRetries (s_run s) i \<le> max 0 (retry_max (OnConflict (flds (step_of (s_run s) i))))"
  using scheduler.inv_reachable [OF assms(1)] assms(2) by (simp add: sched_inv_def retries_ok_def)

theorem retries_bounded_witness:
  "r_retries (s_run ex_half) ''a'' \<le> 1 \<and> r_conflictRetries (s_run ex_half) ''a'' \<le> 0"
proof -
  have "''a'' \<in> set (r_order (s_run ex_half))"
    and "retry_max (OnFail (flds (step_of (s_run ex_half) ''a''))) = 1"
    and "retry_max (OnConflict (flds (step_of (s_run ex_half) ''a''))) = 0" by code_simp+
  with retries_bounded [OF ex_half_reachable this(1)] show ?thesis by simp
qed

text \<open>
  When a run parks at a gate with no other step in flight, an approval brings it back to a
  well-formed run with the gate passed and nothing executing, and the scheduler re-entered on it
  returns an outcome again.
\<close>

theorem approved_run_resumes:
  assumes "reachable sched_start (sched_step lib (concurrencyLimit configured)) s"
    and "iterate lib (concurrencyLimit configured) inp s = Inr (outcomeWaiting, r', d')" "alone r'"
    and "loop_bound (resolveApproval ApprovalResume r') \<le> length inps"
  shows "sched_start (start (resolveApproval ApprovalResume r') d)
    \<and> r_state (resolveApproval ApprovalResume r') (r_waitingStep r') = Some stPassed
    \<and> (\<exists>out r'' d''. driveDAG lib configured inps (resolveApproval ApprovalResume r') d = Some (out, r'', d''))"
proof -
  note ok = resumed_ok [OF scheduler.inv_reachable [OF assms(1)] assms(2)]
  have "sched_start (start (resolveApproval ApprovalResume r') d)" using ok assms(3) by (auto simp: sched_start_def)
  moreover have "r_state (resolveApproval ApprovalResume r') (r_waitingStep r') = Some stPassed"
    by (simp add: resolveApproval_def Let_def)
  ultimately show ?thesis using driveDAG_ends [OF ok(1) ok(3) [OF assms(3)] ok(2) assms(4)] by auto
qed

theorem approved_run_resumes_witness:
  "fst (ex_parked ex_gate) = outcomeWaiting
   \<and> (\<exists>out r' d'. driveDAG ex_lib 2 (replicate 3 (ex_input True))
        (resolveApproval ApprovalResume (fst (snd (ex_parked ex_gate)))) empty_db = Some (out, r', d'))"
proof -
  let ?r = "fst (snd (ex_parked ex_gate))" and ?s = "start (ex_start ex_gate) empty_db"
  have "\<not> isl (iterate ex_lib 2 (ex_input True) ?s)" and w: "fst (ex_parked ex_gate) = outcomeWaiting"
    and al: "alone ?r" and b: "loop_bound (resolveApproval ApprovalResume ?r) \<le> length (replicate 3 (ex_input True))" by code_simp+
  then have it: "iterate ex_lib (concurrencyLimit 2) (ex_input True) ?s = Inr (outcomeWaiting, ?r, snd (snd (ex_parked ex_gate)))"
    unfolding ex_parked_def concurrencyLimit_def by (cases "iterate ex_lib 2 (ex_input True) ?s") auto
  have "reachable sched_start (sched_step ex_lib (concurrencyLimit 2)) ?s"
    using initDAG_ok [OF ex_gate_wf] unfolding ex_start_def by (intro reachable_init) (metis sched_start_def)
  from approved_run_resumes [OF this it al b] w show ?thesis by blast
qed



end
