(* ===== verification/Queue_Store.thy ===== *)
theory Queue_Store
  imports Expr_Lang Transition Tables
begin

text \<open>
  The durable dispatch queue (\<open>internal/db/queue_store.go\<close>, types of \<open>internal/queue/queue.go\<close>): jobs,
  the attempts made at them under leases, and the registered workers. Every operation is one
  transaction, so it is a function on the three tables; an error leaves them unchanged. \<open>clock k\<close> is
  the k-th reading of the clock an operation makes, and the random identifiers are arguments. A nullable
  text column holds the empty string for NULL, which is how the code reads it. Columns that hold JSON are
  the values they encode. Rows equal under the order of a query come in rowid order. Lock
  contention, which repeats a transaction, is not modelled.
\<close>

section \<open>Tables\<close>

definition JobQueued :: string where "JobQueued = ''queued''"
definition JobLeased :: string where "JobLeased = ''running''"
definition JobSucceeded :: string where "JobSucceeded = ''done''"
definition JobFailed :: string where "JobFailed = ''failed''"
definition JobCanceled :: string where "JobCanceled = ''canceled''"

text \<open>The statements spell the state of a leased job themselves.\<close>

definition sql_queued :: string where "sql_queued = ''queued''"
definition sql_leased :: string where "sql_leased = ''leased''"
definition sql_canceled :: string where "sql_canceled = ''canceled''"

definition AttemptActive :: string where "AttemptActive = ''active''"
definition AttemptSucceeded :: string where "AttemptSucceeded = ''succeeded''"
definition AttemptFailed :: string where "AttemptFailed = ''failed''"
definition AttemptExpired :: string where "AttemptExpired = ''expired''"
definition AttemptCanceled :: string where "AttemptCanceled = ''canceled''"

lemmas job_states = JobQueued_def JobLeased_def JobSucceeded_def JobFailed_def JobCanceled_def
  sql_queued_def sql_leased_def sql_canceled_def
lemmas attempt_states = AttemptActive_def AttemptSucceeded_def AttemptFailed_def AttemptExpired_def AttemptCanceled_def

definition WorkerProtocolVersion :: int where "WorkerProtocolVersion = 1"

record job =
  q_ID :: string
  q_Key :: string
  q_Project :: string
  q_Source :: string
  q_Task :: string
  q_Workflow :: string
  q_Agent :: string
  q_Runner :: string
  q_Pool :: string
  q_Labels :: "string list"
  q_Capabilities :: "string list"
  q_AffinityKey :: string
  q_AffinityWorker :: string
  q_PayloadVersion :: int
  q_Payload :: string
  q_Priority :: int
  q_State :: string
  q_Attempts :: int
  q_Max :: int
  q_Cancel :: bool
  q_AvailableAt :: time
  q_LeaseAttempt :: "string option"
  q_LeaseToken :: "string option"
  q_LeaseWorker :: "string option"
  q_LeaseExpires :: "time option"
  q_TerminalAt :: "time option"
  q_CreatedAt :: time
  q_UpdatedAt :: time

record attempt =
  at_ID :: string
  at_Job :: string
  at_Number :: int
  at_Worker :: string
  at_Token :: string
  at_State :: string
  at_LeaseExpires :: time
  at_HeartbeatAt :: time
  at_StartedAt :: time
  at_FinishedAt :: "time option"
  at_Error :: string

record qworker =
  wk_ID :: string
  wk_Protocol :: int
  wk_Pool :: string
  wk_Labels :: "string list"
  wk_Capabilities :: "string list"
  wk_Capacity :: int
  wk_Ready :: bool
  wk_Draining :: bool
  wk_Active :: int
  wk_Heartbeat :: time
  wk_RegisteredAt :: time

record concurrency_policy =
  cp_DefaultProject :: int
  cp_Projects :: "string \<rightharpoonup> int"
  cp_DefaultSource :: int
  cp_Sources :: "string \<rightharpoonup> int"
  cp_DefaultAgent :: int
  cp_Agents :: "string \<rightharpoonup> int"
  cp_DefaultRunner :: int
  cp_Runners :: "string \<rightharpoonup> int"
  cp_DefaultPool :: int
  cp_Pools :: "string \<rightharpoonup> int"

record claim_request =
  cr_Worker :: string
  cr_LeaseDuration :: int
  cr_WorkerTimeout :: int
  cr_Policy :: concurrency_policy

record finish_result =
  fr_Success :: bool
  fr_Error :: string
  fr_Note :: string
  fr_Retry :: bool
  fr_RetryAt :: "time option"

record queue_db =
  t_jobs :: "job list"
  t_attempts :: "attempt list"
  t_workers :: "qworker list"

datatype queue_error =
  ErrNoJob | ErrStaleClaim | ErrWorkerUnknown | ErrWorkerDraining | ErrWorkerUnhealthy
| KeyRequired | PayloadVersionInvalid | PayloadInvalid | NoRows
| WorkerIDRequired | ProtocolMismatch | CapacityInvalid | NotCancelable | NotReleasable | ConstraintFailed

definition thirty_seconds :: int where "thirty_seconds = 30000000000"

section \<open>Enqueueing\<close>

definition uniqueSorted :: "string list \<Rightarrow> string list" where
  "uniqueSorted values = sort (remdups (filter (\<lambda>v. v \<noteq> []) (map trim_space values)))"

definition getJobByKey :: "string \<Rightarrow> queue_db \<Rightarrow> job option" where
  "getJobByKey key d = find (\<lambda>j. q_Key j = key) (t_jobs d)"

definition GetJob :: "string \<Rightarrow> queue_db \<Rightarrow> job option" where
  "GetJob i d = find (\<lambda>j. q_ID j = i) (t_jobs d)"

text \<open>The row the insert writes: the caller's job with its defaults, queued and never attempted.\<close>

definition enqueue_row :: "string \<Rightarrow> time \<Rightarrow> job \<Rightarrow> job" where
  "enqueue_row newID now job =
     job\<lparr>q_ID := (if q_ID job = [] then newID else q_ID job),
         q_Max := (if q_Max job \<le> 0 then 3 else q_Max job),
         q_AvailableAt := (if q_AvailableAt job = 0 then now else q_AvailableAt job),
         q_Labels := uniqueSorted (q_Labels job), q_Capabilities := uniqueSorted (q_Capabilities job),
         q_State := sql_queued, q_Attempts := 0, q_Cancel := False,
         q_LeaseAttempt := None, q_LeaseToken := None, q_LeaseWorker := None, q_LeaseExpires := None, q_TerminalAt := None,
         q_CreatedAt := now, q_UpdatedAt := now\<rparr>"

definition Enqueue ::
  "(string \<Rightarrow> bool) \<Rightarrow> string \<Rightarrow> time \<Rightarrow> job \<Rightarrow> queue_db \<Rightarrow> queue_error + (bool \<times> job) \<times> queue_db" where
  "Enqueue json_valid newID now job d =
     (if trim_space (q_Key job) = [] then Inl KeyRequired
      else if q_PayloadVersion job \<le> 0 then Inl PayloadVersionInvalid
      else if \<not> json_valid (q_Payload job) then Inl PayloadInvalid
      else let row = enqueue_row newID now job in
        if list_ex (\<lambda>j. q_ID j = q_ID row \<or> q_Key j = q_Key row) (t_jobs d) then
          (case getJobByKey (q_Key job) d of None \<Rightarrow> Inl NoRows | Some existing \<Rightarrow> Inr ((False, existing), d))
        else Inr ((True, row), d\<lparr>t_jobs := t_jobs d @ [row]\<rparr>))"

section \<open>Workers\<close>

definition RegisterWorker :: "time \<Rightarrow> qworker \<Rightarrow> queue_db \<Rightarrow> queue_error + queue_db" where
  "RegisterWorker now w d =
     (if trim_space (wk_ID w) = [] then Inl WorkerIDRequired
      else if wk_Protocol w \<noteq> WorkerProtocolVersion then Inl ProtocolMismatch
      else if wk_Capacity w \<le> 0 then Inl CapacityInvalid
      else let row = w\<lparr>wk_Labels := uniqueSorted (wk_Labels w), wk_Capabilities := uniqueSorted (wk_Capabilities w),
                       wk_Active := 0, wk_Heartbeat := now, wk_RegisteredAt := now\<rparr> in
        Inr (if list_ex (\<lambda>x. wk_ID x = wk_ID w) (t_workers d)
             then d\<lparr>t_workers := update_rows (\<lambda>x. wk_ID x = wk_ID w)
                      (\<lambda>x. row\<lparr>wk_RegisteredAt := wk_RegisteredAt x\<rparr>) (t_workers d)\<rparr>
             else d\<lparr>t_workers := t_workers d @ [row]\<rparr>))"

definition requireWorkerRow :: "string \<Rightarrow> (qworker \<Rightarrow> qworker) \<Rightarrow> queue_db \<Rightarrow> queue_error + queue_db" where
  "requireWorkerRow i f d =
     (if list_ex (\<lambda>x. wk_ID x = i) (t_workers d)
      then Inr (d\<lparr>t_workers := update_rows (\<lambda>x. wk_ID x = i) f (t_workers d)\<rparr>)
      else Inl ErrWorkerUnknown)"

definition HeartbeatWorker :: "time \<Rightarrow> string \<Rightarrow> bool \<Rightarrow> queue_db \<Rightarrow> queue_error + queue_db" where
  "HeartbeatWorker now i ready d = requireWorkerRow i (\<lambda>x. x\<lparr>wk_Ready := ready, wk_Heartbeat := now\<rparr>) d"

definition SetWorkerDrain :: "string \<Rightarrow> bool \<Rightarrow> queue_db \<Rightarrow> queue_error + queue_db" where
  "SetWorkerDrain i draining d = requireWorkerRow i (\<lambda>x. x\<lparr>wk_Draining := draining, wk_Ready := \<not> draining\<rparr>) d"

definition ListWorkers :: "queue_db \<Rightarrow> qworker list" where
  "ListWorkers d = sort_key wk_ID (t_workers d)"

section \<open>Claiming\<close>

definition containsAll :: "string list \<Rightarrow> string list \<Rightarrow> bool" where
  "containsAll owned need = list_all (\<lambda>v. v \<in> set owned) need"

definition compatible :: "qworker \<Rightarrow> job \<Rightarrow> bool" where
  "compatible w j =
     (if q_Pool j \<noteq> [] \<and> q_Pool j \<noteq> wk_Pool w then False
      else containsAll (wk_Labels w) (q_Labels j) \<and> containsAll (wk_Capabilities w) (q_Capabilities j))"

definition scopedLimit :: "(string \<rightharpoonup> int) \<Rightarrow> string \<Rightarrow> int \<Rightarrow> int" where
  "scopedLimit overrides v fallback = (case overrides v of Some limit \<Rightarrow> limit | None \<Rightarrow> fallback)"

text \<open>The scopes of a policy: the column, and the limit for a value of it.\<close>

definition scopes :: "concurrency_policy \<Rightarrow> ((job \<Rightarrow> string) \<times> (string \<Rightarrow> int)) list" where
  "scopes p =
     [(q_Project, \<lambda>v. scopedLimit (cp_Projects p) v (cp_DefaultProject p)),
      (q_Source, \<lambda>v. scopedLimit (cp_Sources p) v (cp_DefaultSource p)),
      (q_Agent, \<lambda>v. scopedLimit (cp_Agents p) v (cp_DefaultAgent p)),
      (q_Runner, \<lambda>v. scopedLimit (cp_Runners p) v (cp_DefaultRunner p)),
      (q_Pool, \<lambda>v. scopedLimit (cp_Pools p) v (cp_DefaultPool p))]"

definition leased_with :: "(job \<Rightarrow> string) \<Rightarrow> string \<Rightarrow> queue_db \<Rightarrow> nat" where
  "leased_with field v d = count_if (\<lambda>j. q_State j = sql_leased \<and> field j = v) (t_jobs d)"

definition withinPolicy :: "concurrency_policy \<Rightarrow> job \<Rightarrow> queue_db \<Rightarrow> bool" where
  "withinPolicy p j d =
     list_all (\<lambda>(field, limit). limit (field j) \<le> 0 \<or> field j = [] \<or> int (leased_with field (field j) d) < limit (field j))
       (scopes p)"

definition claimable :: "time \<Rightarrow> string \<Rightarrow> job \<Rightarrow> bool" where
  "claimable now workerID j \<longleftrightarrow> q_State j = sql_queued \<and> \<not> q_Cancel j \<and> q_AvailableAt j \<le> now
     \<and> (q_AffinityWorker j = [] \<or> q_AffinityWorker j = workerID)"

definition claim_window :: "time \<Rightarrow> string \<Rightarrow> queue_db \<Rightarrow> job list" where
  "claim_window now workerID d =
     take 100 (sort_key (\<lambda>j. - q_Priority j) (sort_key q_CreatedAt (filter (claimable now workerID) (t_jobs d))))"

definition lease_row :: "string \<Rightarrow> string \<Rightarrow> string \<Rightarrow> time \<Rightarrow> time \<Rightarrow> job \<Rightarrow> job" where
  "lease_row attemptID token workerID expires now j =
     j\<lparr>q_State := sql_leased, q_Attempts := q_Attempts j + 1, q_LeaseAttempt := Some attemptID, q_LeaseToken := Some token,
       q_LeaseWorker := Some workerID, q_LeaseExpires := Some expires,
       q_AffinityWorker := (if q_AffinityKey j \<noteq> [] \<and> q_AffinityWorker j = [] then workerID else q_AffinityWorker j),
       q_UpdatedAt := now\<rparr>"

definition attempt_row :: "string \<Rightarrow> string \<Rightarrow> string \<Rightarrow> time \<Rightarrow> time \<Rightarrow> job \<Rightarrow> attempt" where
  "attempt_row attemptID token workerID expires now j =
     \<lparr>at_ID = attemptID, at_Job = q_ID j, at_Number = q_Attempts j + 1, at_Worker = workerID, at_Token = token,
      at_State = AttemptActive, at_LeaseExpires = expires, at_HeartbeatAt = now, at_StartedAt = now,
      at_FinishedAt = None, at_Error = []\<rparr>"

definition grant_lease :: "string \<Rightarrow> string \<Rightarrow> string \<Rightarrow> time \<Rightarrow> time \<Rightarrow> job \<Rightarrow> queue_db \<Rightarrow> queue_error + queue_db" where
  "grant_lease attemptID token workerID expires now j d =
     (if count_if (\<lambda>x. q_ID x = q_ID j \<and> q_State x = sql_queued \<and> \<not> q_Cancel x) (t_jobs d) \<noteq> 1 then Inl ErrNoJob
      else if list_ex (\<lambda>a. at_ID a = attemptID \<or> at_Job a = q_ID j \<and> at_Number a = q_Attempts j + 1) (t_attempts d)
      then Inl ConstraintFailed
      else Inr (d\<lparr>t_jobs := update_rows (\<lambda>x. q_ID x = q_ID j \<and> q_State x = sql_queued \<and> \<not> q_Cancel x)
                     (lease_row attemptID token workerID expires now) (t_jobs d),
                  t_attempts := t_attempts d @ [attempt_row attemptID token workerID expires now j],
                  t_workers := update_rows (\<lambda>w. wk_ID w = workerID) (\<lambda>w. w\<lparr>wk_Active := wk_Active w + 1\<rparr>) (t_workers d)\<rparr>))"

text \<open>The claim returned to the worker; its state is the constant \<open>queue.JobLeased\<close>.\<close>

definition claimed_job :: "string \<Rightarrow> time \<Rightarrow> time \<Rightarrow> job \<Rightarrow> job" where
  "claimed_job workerID expires now j =
     j\<lparr>q_Attempts := q_Attempts j + 1, q_State := JobLeased, q_LeaseExpires := Some expires, q_UpdatedAt := now,
       q_AffinityWorker := (if q_AffinityKey j \<noteq> [] \<and> q_AffinityWorker j = [] then workerID else q_AffinityWorker j)\<rparr>"

definition claim ::
  "(nat \<Rightarrow> time) \<Rightarrow> string \<Rightarrow> string \<Rightarrow> claim_request \<Rightarrow> queue_db \<Rightarrow> queue_error + (job \<times> attempt) \<times> queue_db" where
  "claim clock attemptID token req d =
     (let leaseDuration = (if cr_LeaseDuration req \<le> 0 then thirty_seconds else cr_LeaseDuration req);
          workerTimeout = (if cr_WorkerTimeout req \<le> 0 then thirty_seconds else cr_WorkerTimeout req)
      in case find (\<lambda>w. wk_ID w = cr_Worker req) (t_workers d) of
        None \<Rightarrow> Inl ErrWorkerUnknown
      | Some w \<Rightarrow>
          if \<not> wk_Ready w \<or> wk_Draining w then Inl ErrWorkerDraining
          else if wk_Heartbeat w < clock 0 - workerTimeout then Inl ErrWorkerUnhealthy
          else if wk_Active w \<ge> wk_Capacity w then Inl ErrNoJob
          else case find (\<lambda>j. compatible w j \<and> withinPolicy (cr_Policy req) j d) (claim_window (clock 1) (wk_ID w) d) of
            None \<Rightarrow> Inl ErrNoJob
          | Some j \<Rightarrow>
              let now = clock 2; expires = now + leaseDuration in
              bind_res (grant_lease attemptID token (wk_ID w) expires now j d) (\<lambda>d'.
                Inr ((claimed_job (wk_ID w) expires now j, attempt_row attemptID token (wk_ID w) expires now j), d')))"

section \<open>Working under a lease\<close>

definition holds_lease :: "string \<Rightarrow> string \<Rightarrow> string \<Rightarrow> job \<Rightarrow> bool" where
  "holds_lease jobID attemptID token j \<longleftrightarrow>
     q_ID j = jobID \<and> q_State j = sql_leased \<and> q_LeaseAttempt j = Some attemptID \<and> q_LeaseToken j = Some token"

definition heartbeat ::
  "(nat \<Rightarrow> time) \<Rightarrow> string \<Rightarrow> string \<Rightarrow> string \<Rightarrow> int \<Rightarrow> queue_db \<Rightarrow> queue_error + (time \<times> bool) \<times> queue_db" where
  "heartbeat clock jobID attemptID token extension d =
     (let now = clock 0; expires = clock 1 + (if extension \<le> 0 then thirty_seconds else extension);
          mine = (\<lambda>a. at_ID a = attemptID \<and> at_Job a = jobID \<and> at_Token a = token \<and> at_State a = AttemptActive)
      in if count_if mine (t_attempts d) \<noteq> 1 then Inl ErrStaleClaim
         else case find (holds_lease jobID attemptID token) (t_jobs d) of
           None \<Rightarrow> Inl ErrStaleClaim
         | Some j \<Rightarrow>
             Inr ((expires, q_Cancel j),
                  d\<lparr>t_attempts := update_rows mine (\<lambda>a. a\<lparr>at_HeartbeatAt := now, at_LeaseExpires := expires\<rparr>) (t_attempts d),
                    t_jobs := update_rows (holds_lease jobID attemptID token)
                      (\<lambda>j. j\<lparr>q_LeaseExpires := Some expires, q_UpdatedAt := now\<rparr>) (t_jobs d)\<rparr>))"

definition free_slot :: "string \<Rightarrow> qworker list \<Rightarrow> qworker list" where
  "free_slot workerID ws =
     update_rows (\<lambda>w. wk_ID w = workerID) (\<lambda>w. w\<lparr>wk_Active := (if wk_Active w > 0 then wk_Active w - 1 else 0)\<rparr>) ws"

definition end_lease :: "string \<Rightarrow> time \<Rightarrow> time option \<Rightarrow> time \<Rightarrow> job \<Rightarrow> job" where
  "end_lease state available terminal now j =
     j\<lparr>q_State := state, q_AvailableAt := available, q_LeaseAttempt := None, q_LeaseToken := None, q_LeaseWorker := None,
       q_LeaseExpires := None, q_TerminalAt := terminal, q_UpdatedAt := now\<rparr>"

definition end_attempt :: "string \<Rightarrow> string \<Rightarrow> time \<Rightarrow> attempt \<Rightarrow> attempt" where
  "end_attempt state explanation now a = a\<lparr>at_State := state, at_FinishedAt := Some now, at_Error := explanation\<rparr>"

definition finish_states :: "finish_result \<Rightarrow> job \<Rightarrow> string \<times> string" where
  "finish_states res j =
     (if q_Cancel j then (AttemptCanceled, JobCanceled)
      else if fr_Success res then (AttemptSucceeded, JobSucceeded)
      else if fr_Retry res \<and> q_Attempts j < q_Max j then (AttemptFailed, JobQueued)
      else (AttemptFailed, JobFailed))"

definition finish :: "time \<Rightarrow> string \<Rightarrow> string \<Rightarrow> string \<Rightarrow> finish_result \<Rightarrow> queue_db \<Rightarrow> queue_error + queue_db" where
  "finish now jobID attemptID token res d =
     (case find (holds_lease jobID attemptID token) (t_jobs d) of
        None \<Rightarrow> Inl ErrStaleClaim
      | Some j \<Rightarrow>
          let (attemptState, jobState) = finish_states res j;
              available = (if jobState = JobQueued then (case fr_RetryAt res of Some t \<Rightarrow> t | None \<Rightarrow> now) else now);
              explanation = (if fr_Error res = [] then fr_Note res else fr_Error res);
              terminal = (if jobState = JobSucceeded \<or> jobState = JobFailed \<or> jobState = JobCanceled then Some now else None)
          in Inr (d\<lparr>t_attempts := update_rows (\<lambda>a. at_ID a = attemptID \<and> at_Token a = token \<and> at_State a = AttemptActive)
                       (end_attempt attemptState explanation now) (t_attempts d),
                    t_jobs := update_rows (\<lambda>x. q_ID x = jobID \<and> q_LeaseAttempt x = Some attemptID \<and> q_LeaseToken x = Some token)
                       (end_lease jobState available terminal now) (t_jobs d),
                    t_workers := free_slot (case q_LeaseWorker j of None \<Rightarrow> [] | Some w \<Rightarrow> w) (t_workers d)\<rparr>))"

section \<open>Cancelling, affinity\<close>

definition cancel_row :: "time \<Rightarrow> job \<Rightarrow> job" where
  "cancel_row now j =
     j\<lparr>q_Cancel := True, q_State := (if q_State j = sql_queued then sql_canceled else q_State j),
       q_TerminalAt := (if q_State j = sql_queued then Some now else q_TerminalAt j), q_UpdatedAt := now\<rparr>"

definition cancelable :: "job \<Rightarrow> bool" where
  "cancelable j \<longleftrightarrow> q_State j = sql_queued \<or> q_State j = sql_leased"

definition RequestCancel :: "time \<Rightarrow> string \<Rightarrow> queue_db \<Rightarrow> queue_error + queue_db" where
  "RequestCancel now jobID d =
     (if list_ex (\<lambda>j. q_ID j = jobID \<and> cancelable j) (t_jobs d)
      then Inr (d\<lparr>t_jobs := update_rows (\<lambda>j. q_ID j = jobID \<and> cancelable j) (cancel_row now) (t_jobs d)\<rparr>)
      else Inl NotCancelable)"

definition RequestCancelFor :: "time \<Rightarrow> string \<Rightarrow> string \<Rightarrow> queue_db \<Rightarrow> nat \<times> queue_db" where
  "RequestCancelFor now taskID workflowID d =
     (let named = (\<lambda>j. taskID \<noteq> [] \<and> workflowID \<noteq> [] \<and> q_Task j = taskID \<and> q_Workflow j = workflowID \<and> cancelable j) in
      (count_if named (t_jobs d), d\<lparr>t_jobs := update_rows named (cancel_row now) (t_jobs d)\<rparr>))"

definition ReleaseAffinity :: "time \<Rightarrow> string \<Rightarrow> queue_db \<Rightarrow> queue_error + queue_db" where
  "ReleaseAffinity now jobID d =
     (let named = (\<lambda>j. q_ID j = jobID \<and> q_State j = sql_queued) in
      if count_if named (t_jobs d) = 1
      then Inr (d\<lparr>t_jobs := update_rows named (\<lambda>j. j\<lparr>q_AffinityWorker := [], q_UpdatedAt := now\<rparr>) (t_jobs d)\<rparr>)
      else Inl NotReleasable)"

section \<open>Expired leases\<close>

definition expired_jobs :: "time \<Rightarrow> queue_db \<Rightarrow> job list" where
  "expired_jobs cutoff d =
     filter (\<lambda>j. q_State j = sql_leased \<and> (case q_LeaseExpires j of None \<Rightarrow> False | Some t \<Rightarrow> t \<le> cutoff)) (t_jobs d)"

definition expired_state :: "job \<Rightarrow> string" where
  "expired_state j = (if q_Cancel j then JobCanceled else if q_Attempts j \<ge> q_Max j then JobFailed else JobQueued)"

definition reclaim_one :: "time \<Rightarrow> job \<Rightarrow> nat \<times> queue_db \<Rightarrow> nat \<times> queue_db" where
  "reclaim_one now item nd =
     (let (n, d) = nd; state = expired_state item;
          broken = (\<lambda>x. q_ID x = q_ID item \<and> q_State x = sql_leased \<and> q_LeaseAttempt x = q_LeaseAttempt item);
          d1 = d\<lparr>t_attempts := update_rows (\<lambda>a. Some (at_ID a) = q_LeaseAttempt item \<and> at_State a = AttemptActive)
                    (end_attempt AttemptExpired ''lease expired'' now) (t_attempts d),
                 t_jobs := update_rows broken (end_lease state now (if state = JobQueued then None else Some now) now) (t_jobs d)\<rparr>
      in if list_ex broken (t_jobs d)
         then (n + 1, d1\<lparr>t_workers := free_slot (case q_LeaseWorker item of None \<Rightarrow> [] | Some w \<Rightarrow> w) (t_workers d1)\<rparr>)
         else (n, d1))"

definition reclaimExpired :: "time \<Rightarrow> time \<Rightarrow> queue_db \<Rightarrow> nat \<times> queue_db" where
  "reclaimExpired now cutoff d = fold (reclaim_one now) (expired_jobs cutoff d) (0, d)"

definition ListJobs :: "string \<Rightarrow> int \<Rightarrow> queue_db \<Rightarrow> job list" where
  "ListJobs state limit d =
     (let lim = (if limit \<le> 0 then 100 else if limit > 1000 then 1000 else limit);
          rows = (if state \<noteq> [] then filter (\<lambda>j. q_State j = state) (t_jobs d) else t_jobs d)
      in take (nat lim) (rev (sort_key q_CreatedAt rows)))"

end
