(* ===== verification/Queue_Invariant.thy ===== *)
theory Queue_Invariant
  imports Queue_Store
begin

text \<open>
  The invariant of the dispatch queue, stated job by job over the job's row and its attempts in
  order, and its preservation by every operation of the store.
\<close>

section \<open>The invariant\<close>

definition attempts_of :: "string \<Rightarrow> queue_db \<Rightarrow> attempt list" where
  "attempts_of i d = filter (\<lambda>a. at_Job a = i) (t_attempts d)"

definition settled_job :: "job \<Rightarrow> bool" where
  "settled_job j \<longleftrightarrow> q_State j = JobSucceeded \<or> q_State j = JobFailed \<or> q_State j = JobCanceled"

definition under_lease :: "job \<Rightarrow> attempt \<Rightarrow> bool" where
  "under_lease j a \<longleftrightarrow> at_State a = AttemptActive \<and> q_LeaseAttempt j = Some (at_ID a) \<and> q_LeaseToken j = Some (at_Token a)
     \<and> q_LeaseWorker j = Some (at_Worker a) \<and> q_LeaseExpires j = Some (at_LeaseExpires a)"

definition unleased :: "job \<Rightarrow> bool" where
  "unleased j \<longleftrightarrow> q_LeaseAttempt j = None \<and> q_LeaseToken j = None \<and> q_LeaseWorker j = None \<and> q_LeaseExpires j = None"

definition idle_attempt :: "attempt \<Rightarrow> bool" where
  "idle_attempt a \<longleftrightarrow> at_State a \<noteq> AttemptActive"

text \<open>
  The attempts of a job are numbered from one to its count, which stays within the limit; a leased
  job has exactly its last attempt active, with the identity, token, worker and expiry of the lease; any other
  job has no lease and no active attempt.
\<close>

definition pair_ok :: "job \<Rightarrow> attempt list \<Rightarrow> bool" where
  "pair_ok j as \<longleftrightarrow>
     map at_Number as = map int [1..<Suc (nat (q_Attempts j))] \<and> 0 \<le> q_Attempts j \<and> q_Attempts j \<le> q_Max j
     \<and> (if q_State j = sql_leased
        then as \<noteq> [] \<and> under_lease j (last as) \<and> list_all idle_attempt (butlast as) \<and> q_TerminalAt j = None
        else unleased j \<and> list_all idle_attempt as
          \<and> (if q_State j = sql_queued then q_Attempts j < q_Max j \<and> \<not> q_Cancel j \<and> q_TerminalAt j = None
             else settled_job j \<and> q_TerminalAt j \<noteq> None))"

definition queue_inv :: "queue_db \<Rightarrow> bool" where
  "queue_inv d \<longleftrightarrow> distinct (map q_ID (t_jobs d)) \<and> distinct (map q_Key (t_jobs d)) \<and> distinct (map at_ID (t_attempts d))
     \<and> at_Job ` set (t_attempts d) \<subseteq> q_ID ` set (t_jobs d)
     \<and> (\<forall>j\<in>set (t_jobs d). pair_ok j (attempts_of (q_ID j) d))"

definition empty_queue :: queue_db where
  "empty_queue = \<lparr>t_jobs = [], t_attempts = [], t_workers = []\<rparr>"

inductive queue_step :: "queue_db \<Rightarrow> queue_db \<Rightarrow> bool" where
  enqueue: "Enqueue json_valid newID now job d = Inr (out, d') \<Longrightarrow> queue_step d d'"
| register: "RegisterWorker now w d = Inr d' \<Longrightarrow> queue_step d d'"
| beat: "HeartbeatWorker now i ready d = Inr d' \<Longrightarrow> queue_step d d'"
| drain: "SetWorkerDrain i draining d = Inr d' \<Longrightarrow> queue_step d d'"
| claim: "Queue_Store.claim clock attemptID token req d = Inr (out, d') \<Longrightarrow> queue_step d d'"
| heartbeat: "Queue_Store.heartbeat clock jobID attemptID token ext d = Inr (out, d') \<Longrightarrow> queue_step d d'"
| finish: "Queue_Store.finish now jobID attemptID token res d = Inr d' \<Longrightarrow> queue_step d d'"
| cancel: "RequestCancel now jobID d = Inr d' \<Longrightarrow> queue_step d d'"
| cancel_for: "RequestCancelFor now taskID workflowID d = (n, d') \<Longrightarrow> queue_step d d'"
| release: "ReleaseAffinity now jobID d = Inr d' \<Longrightarrow> queue_step d d'"
| reclaim: "reclaimExpired now cutoff d = (n, d') \<Longrightarrow> queue_step d d'"

section \<open>Facts about one job\<close>

lemma job_state_distinct [simp]:
  "sql_leased \<noteq> sql_queued" "sql_queued \<noteq> sql_leased" "sql_leased \<noteq> sql_canceled"
  "sql_queued \<noteq> sql_canceled" "JobQueued = sql_queued" "JobCanceled = sql_canceled"
  "JobSucceeded \<noteq> sql_leased" "JobFailed \<noteq> sql_leased" "sql_canceled \<noteq> sql_leased" "JobSucceeded \<noteq> sql_queued" "JobFailed \<noteq> sql_queued"
  "sql_canceled \<noteq> sql_queued" "sql_queued \<noteq> JobSucceeded" "sql_queued \<noteq> JobFailed" "sql_leased \<noteq> JobSucceeded" "sql_leased \<noteq> JobFailed"
  by (simp_all add: job_states)

lemma attempt_state_distinct [simp]:
  "AttemptSucceeded \<noteq> AttemptActive" "AttemptFailed \<noteq> AttemptActive" "AttemptExpired \<noteq> AttemptActive" "AttemptCanceled \<noteq> AttemptActive"
  by (simp_all add: attempt_states)

lemma pair_ok_new: "pair_ok (enqueue_row newID now job) []"
  by (simp add: pair_ok_def enqueue_row_def unleased_def)

lemma pair_ok_lease:
  assumes "pair_ok j as" "q_State j = sql_queued"
  shows "pair_ok (lease_row aid tok wid ex now j) (as @ [attempt_row aid tok wid ex now j])"
proof -
  have "[1..<Suc (nat (q_Attempts j + 1))] = [1..<Suc (nat (q_Attempts j))] @ [Suc (nat (q_Attempts j))]"
    using assms by (simp add: pair_ok_def nat_add_distrib)
  with assms show ?thesis
    by (simp add: pair_ok_def lease_row_def attempt_row_def under_lease_def)
qed

lemma pair_ok_beat:
  assumes "pair_ok j (xs @ [a])" "q_State j = sql_leased"
  shows "pair_ok (j\<lparr>q_LeaseExpires := Some ex, q_UpdatedAt := now\<rparr>) (xs @ [a\<lparr>at_HeartbeatAt := now', at_LeaseExpires := ex\<rparr>])"
  using assms by (simp add: pair_ok_def under_lease_def)

lemma pair_ok_end:
  assumes "pair_ok j (xs @ [a])" "q_State j = sql_leased" "ast \<noteq> AttemptActive"
    and "(st = sql_queued \<and> q_Attempts j < q_Max j \<and> \<not> q_Cancel j \<and> t = None) \<or> (st \<in> {JobSucceeded, JobFailed, JobCanceled} \<and> t \<noteq> None)"
  shows "pair_ok (end_lease st av t now j) (xs @ [end_attempt ast ex now a])"
  using assms by (auto simp: pair_ok_def end_lease_def end_attempt_def unleased_def idle_attempt_def settled_job_def)

lemma pair_ok_cancel:
  assumes "pair_ok j as" "cancelable j"
  shows "pair_ok (cancel_row now j) as"
  using assms
  by (auto simp: pair_ok_def cancel_row_def cancelable_def under_lease_def unleased_def settled_job_def split: if_splits)

lemma pair_ok_affinity:
  assumes "pair_ok j as"
  shows "pair_ok (j\<lparr>q_AffinityWorker := w, q_UpdatedAt := now\<rparr>) as"
  using assms by (auto simp: pair_ok_def under_lease_def unleased_def settled_job_def simp del: upt_Suc split: if_splits)

section \<open>Updates of the tables\<close>

lemma queue_inv_update:
  assumes "queue_inv d" "t_jobs d' = update_rows P f (t_jobs d)"
    and "\<And>j. q_ID (f j) = q_ID j" "\<And>j. q_Key (f j) = q_Key j"
    and "distinct (map at_ID (t_attempts d'))" "at_Job ` set (t_attempts d') \<subseteq> q_ID ` set (t_jobs d)"
    and "\<And>j. j \<in> set (t_jobs d) \<Longrightarrow> pair_ok (if P j then f j else j) (attempts_of (q_ID j) d')"
  shows "queue_inv d'"
proof -
  have "map q_ID (t_jobs d') = map q_ID (t_jobs d)" "map q_Key (t_jobs d') = map q_Key (t_jobs d)" using assms(2-4) by simp_all
  moreover from this(1) have "q_ID ` set (t_jobs d') = q_ID ` set (t_jobs d)" by (metis list.set_map)
  moreover have "pair_ok j (attempts_of (q_ID j) d')" if jd: "j \<in> set (t_jobs d')" for j
  proof -
    obtain x where x: "x \<in> set (t_jobs d)" "j = (if P x then f x else x)" using jd by (auto simp: assms(2) set_update_rows)
    then have "q_ID j = q_ID x" by (simp add: assms(3))
    with assms(7) [OF x(1)] x(2) show ?thesis by simp
  qed
  ultimately show ?thesis using assms(1,5,6) by (simp add: queue_inv_def)
qed

lemma queue_inv_jobs:
  assumes "queue_inv d" "t_jobs d' = update_rows P f (t_jobs d)" "t_attempts d' = t_attempts d"
    and "\<And>j. q_ID (f j) = q_ID j" "\<And>j. q_Key (f j) = q_Key j"
    and "\<And>j as. j \<in> set (t_jobs d) \<Longrightarrow> P j \<Longrightarrow> pair_ok j as \<Longrightarrow> pair_ok (f j) as"
  shows "queue_inv d'"
  by (rule queue_inv_update [OF assms(1,2,4,5)]) (use assms(1,3,6) in \<open>auto simp: queue_inv_def attempts_of_def\<close>)

lemma queue_inv_workers:
  assumes "queue_inv d" "t_jobs d' = t_jobs d" "t_attempts d' = t_attempts d"
  shows "queue_inv d'"
  using assms by (simp add: queue_inv_def attempts_of_def)

lemma leased_attempts:
  assumes "queue_inv d" "j \<in> set (t_jobs d)" "q_State j = sql_leased"
  obtains xs a where "attempts_of (q_ID j) d = xs @ [a]" "under_lease j a" "list_all idle_attempt xs" "a \<in> set (t_attempts d)"
    "at_Job a = q_ID j"
proof -
  have p: "pair_ok j (attempts_of (q_ID j) d)" using assms by (simp add: queue_inv_def)
  define as where "as = attempts_of (q_ID j) d"
  have as: "as \<noteq> []" "under_lease j (last as)" "list_all idle_attempt (butlast as)" using p assms(3) by (simp_all add: pair_ok_def as_def)
  then have "as = butlast as @ [last as]" by simp
  moreover have "last as \<in> set as" using as(1) by simp
  then have "last as \<in> set (t_attempts d)" "at_Job (last as) = q_ID j" by (simp_all add: as_def attempts_of_def)
  ultimately show ?thesis using that as unfolding as_def by blast
qed

lemma attempts_update:
  assumes inv: "queue_inv d" and as: "attempts_of i d = xs @ [a]" and R: "R a" "\<And>x. x \<in> set (t_attempts d) \<Longrightarrow> R x \<Longrightarrow> at_ID x = at_ID a"
    and g: "\<And>x. at_Job (g x) = at_Job x" and d': "t_attempts d' = update_rows R g (t_attempts d)"
  shows "attempts_of i d' = xs @ [g a]" "i' \<noteq> i \<Longrightarrow> attempts_of i' d' = attempts_of i' d"
proof -
  have dis: "distinct (map at_ID (t_attempts d))" using inv by (simp add: queue_inv_def)
  have "a \<in> set (attempts_of i d)" by (simp add: as)
  then have a: "a \<in> set (t_attempts d)" "at_Job a = i" by (auto simp: attempts_of_def)
  have only: "x = a" if "x \<in> set (t_attempts d)" "R x" for x
    using keyed_row [OF dis that(1) a(1)] R(2) [OF that] .
  have f: "attempts_of k d' = update_rows R g (attempts_of k d)" for k
    unfolding attempts_of_def d' by (rule filter_update_rows) (simp add: g)
  have "distinct (attempts_of i d)" using dis by (simp add: attempts_of_def distinct_map)
  then have "\<not> R x" if "x \<in> set xs" for x
  proof -
    have "x \<in> set (attempts_of i d)" "x \<noteq> a" using that \<open>distinct (attempts_of i d)\<close> by (auto simp: as)
    then show ?thesis using only by (auto simp: attempts_of_def)
  qed
  then have "update_rows R g xs = xs" by (rule update_rows_none)
  then show "attempts_of i d' = xs @ [g a]" using f [of i] R(1) by (simp add: as update_rows_def)
  show "attempts_of i' d' = attempts_of i' d" if "i' \<noteq> i"
    unfolding f using that a(2) only by (intro update_rows_none) (auto simp: attempts_of_def)
qed

lemma queue_inv_focus:
  assumes inv: "queue_inv d" and j: "j \<in> set (t_jobs d)" "P j" "\<And>x. x \<in> set (t_jobs d) \<Longrightarrow> P x \<Longrightarrow> q_ID x = q_ID j"
    and d': "t_jobs d' = update_rows P f (t_jobs d)" and f: "\<And>j. q_ID (f j) = q_ID j" "\<And>j. q_Key (f j) = q_Key j"
    and att: "distinct (map at_ID (t_attempts d'))" "at_Job ` set (t_attempts d') \<subseteq> q_ID ` set (t_jobs d)"
    and mine: "pair_ok (f j) (attempts_of (q_ID j) d')" and others: "\<And>i. i \<noteq> q_ID j \<Longrightarrow> attempts_of i d' = attempts_of i d"
  shows "queue_inv d'"
proof (rule queue_inv_update [OF inv d' f att])
  fix x assume x: "x \<in> set (t_jobs d)"
  have dis: "distinct (map q_ID (t_jobs d))" using inv by (simp add: queue_inv_def)
  show "pair_ok (if P x then f x else x) (attempts_of (q_ID x) d')"
  proof (cases "q_ID x = q_ID j")
    case True
    then have "x = j" by (rule keyed_row [OF dis x j(1)])
    with mine j(2) show ?thesis by simp
  next
    case False
    then have "\<not> P x" using j(3) [OF x] by blast
    with False x inv others show ?thesis by (simp add: queue_inv_def)
  qed
qed

lemma queue_inv_lease:
  assumes inv: "queue_inv d" and j: "j \<in> set (t_jobs d)" "q_State j = sql_leased" and a: "attempts_of (q_ID j) d = xs @ [a]"
    and P: "P j" "\<And>x. x \<in> set (t_jobs d) \<Longrightarrow> P x \<Longrightarrow> q_ID x = q_ID j" and R: "R a" "\<And>x. x \<in> set (t_attempts d) \<Longrightarrow> R x \<Longrightarrow> at_ID x = at_ID a"
    and d': "t_jobs d' = update_rows P f (t_jobs d)" "t_attempts d' = update_rows R g (t_attempts d)"
    and f: "\<And>j. q_ID (f j) = q_ID j" "\<And>j. q_Key (f j) = q_Key j" and g: "\<And>x. at_Job (g x) = at_Job x" "\<And>x. at_ID (g x) = at_ID x"
    and ok: "pair_ok j (xs @ [a]) \<Longrightarrow> pair_ok (f j) (xs @ [g a])"
  shows "queue_inv d'"
proof (rule queue_inv_focus [OF inv j(1) P(1) _ d'(1) f])
  show "q_ID x = q_ID j" if "x \<in> set (t_jobs d)" "P x" for x by (rule P(2) [OF that])
  have up: "attempts_of (q_ID j) d' = xs @ [g a]" by (rule attempts_update(1) [OF inv a R(1) _ g(1) d'(2)]) (rule R(2))
  show "pair_ok (f j) (attempts_of (q_ID j) d')"
    unfolding up by (rule ok) (use inv j(1) a in \<open>auto simp: queue_inv_def dest: bspec [of _ _ j]\<close>)
  show "attempts_of i d' = attempts_of i d" if "i \<noteq> q_ID j" for i
    by (rule attempts_update(2) [OF inv a R(1) _ g(1) d'(2) that]) (rule R(2))
  have m: "map at_ID (t_attempts d') = map at_ID (t_attempts d)" "map at_Job (t_attempts d') = map at_Job (t_attempts d)"
    unfolding d'(2) by (simp_all add: g)
  then show "distinct (map at_ID (t_attempts d'))" using inv by (simp add: queue_inv_def)
  have "at_Job ` set (t_attempts d') = at_Job ` set (t_attempts d)" using m(2) by (metis list.set_map)
  then show "at_Job ` set (t_attempts d') \<subseteq> q_ID ` set (t_jobs d)" using inv by (simp add: queue_inv_def)
qed

section \<open>Every operation keeps the invariant\<close>

lemma Enqueue_inv:
  assumes inv: "queue_inv d" and e: "Enqueue json_valid newID now job d = Inr (out, d')"
  shows "queue_inv d'"
proof -
  let ?row = "enqueue_row newID now job"
  have "d' = d \<or> d' = d\<lparr>t_jobs := t_jobs d @ [?row]\<rparr> \<and> (\<forall>j\<in>set (t_jobs d). q_ID j \<noteq> q_ID ?row \<and> q_Key j \<noteq> q_Key ?row)"
    using e by (auto simp: Enqueue_def Let_def list_ex_iff split: if_splits option.splits)
  then show ?thesis
  proof
    assume d': "d' = d\<lparr>t_jobs := t_jobs d @ [?row]\<rparr> \<and> (\<forall>j\<in>set (t_jobs d). q_ID j \<noteq> q_ID ?row \<and> q_Key j \<noteq> q_Key ?row)"
    then have "attempts_of (q_ID ?row) d' = []" using inv by (auto simp: attempts_of_def queue_inv_def filter_empty_conv)
    moreover have "attempts_of i d' = attempts_of i d" for i using d' by (simp add: attempts_of_def)
    ultimately show ?thesis using inv d' pair_ok_new by (auto simp: queue_inv_def)
  qed (simp add: inv)
qed

lemma claim_cases:
  assumes "claim clock aid tok req d = Inr (out, d')"
  obtains w j ex where "find (\<lambda>w. wk_ID w = cr_Worker req) (t_workers d) = Some w" "wk_ID w = cr_Worker req" "wk_Active w < wk_Capacity w"
    "j \<in> set (t_jobs d)" "claimable (clock 1) (wk_ID w) j" "compatible w j" "withinPolicy (cr_Policy req) j d"
    "grant_lease aid tok (wk_ID w) ex (clock 2) j d = Inr d'" "fst out = claimed_job (wk_ID w) ex (clock 2) j"
proof -
  obtain w where w: "find (\<lambda>w. wk_ID w = cr_Worker req) (t_workers d) = Some w" "wk_Active w < wk_Capacity w"
    using assms by (auto simp: claim_def Let_def split: option.splits if_splits)
  let ?find = "find (\<lambda>j. compatible w j \<and> withinPolicy (cr_Policy req) j d) (claim_window (clock 1) (wk_ID w) d)"
  obtain j ex where j: "?find = Some j" "grant_lease aid tok (wk_ID w) ex (clock 2) j d = Inr d'"
      "fst out = claimed_job (wk_ID w) ex (clock 2) j"
    using assms w by (auto simp: claim_def Let_def bind_res_Inr_iff split: option.splits if_splits)
  have "j \<in> set (claim_window (clock 1) (wk_ID w) d)" "compatible w j" "withinPolicy (cr_Policy req) j d"
    using j(1) by (auto simp: find_Some_iff)
  moreover from this(1) have "j \<in> set (t_jobs d)" "claimable (clock 1) (wk_ID w) j"
    by (auto simp: claim_window_def dest!: in_set_takeD)
  moreover have "wk_ID w = cr_Worker req" using w(1) by (auto simp: find_Some_iff)
  ultimately show ?thesis using that w j(2,3) by blast
qed

lemma grant_lease_cases:
  assumes "grant_lease aid tok wid ex now j d = Inr d'"
  shows "t_jobs d' = update_rows (\<lambda>x. q_ID x = q_ID j \<and> q_State x = sql_queued \<and> \<not> q_Cancel x) (lease_row aid tok wid ex now) (t_jobs d)"
    "t_attempts d' = t_attempts d @ [attempt_row aid tok wid ex now j]"
    "t_workers d' = update_rows (\<lambda>w. wk_ID w = wid) (\<lambda>w. w\<lparr>wk_Active := wk_Active w + 1\<rparr>) (t_workers d)"
    "aid \<notin> at_ID ` set (t_attempts d)"
  using assms by (auto simp: grant_lease_def list_ex_iff split: if_splits)

lemma lease_row_simps [simp]:
  "q_ID (lease_row aid tok wid ex now j) = q_ID j" "q_Key (lease_row aid tok wid ex now j) = q_Key j"
  "q_State (lease_row aid tok wid ex now j) = sql_leased" "q_LeaseWorker (lease_row aid tok wid ex now j) = Some wid"
  by (simp_all add: lease_row_def)

lemma attempt_row_simps [simp]:
  "at_ID (attempt_row aid tok wid ex now j) = aid" "at_Job (attempt_row aid tok wid ex now j) = q_ID j"
  by (simp_all add: attempt_row_def)

lemma claim_inv:
  assumes inv: "queue_inv d" and c: "claim clock aid tok req d = Inr (out, d')"
  shows "queue_inv d'"
  using c
proof (cases rule: claim_cases)
  case (1 w j ex)
  note g = grant_lease_cases [OF 1(8)]
  have st: "q_State j = sql_queued" "\<not> q_Cancel j" using 1(5) by (simp_all add: claimable_def)
  have at: "attempts_of i d' = attempts_of i d @ (if i = q_ID j then [attempt_row aid tok (wk_ID w) ex (clock 2) j] else [])" for i
    by (simp add: attempts_of_def g(2))
  show ?thesis
  proof (rule queue_inv_focus [OF inv 1(4), where P = "\<lambda>x. q_ID x = q_ID j \<and> q_State x = sql_queued \<and> \<not> q_Cancel x"])
    have "pair_ok j (attempts_of (q_ID j) d)" using inv 1(4) by (simp add: queue_inv_def)
    then show "pair_ok (lease_row aid tok (wk_ID w) ex (clock 2) j) (attempts_of (q_ID j) d')"
      unfolding at using pair_ok_lease st(1) by simp
  qed (use inv g 1(4) st at in \<open>auto simp: queue_inv_def\<close>)
qed

lemma lease_held:
  assumes "queue_inv d" "find (holds_lease jobID aid tok) (t_jobs d) = Some j"
  obtains xs a where "j \<in> set (t_jobs d)" "q_ID j = jobID" "q_State j = sql_leased" "q_LeaseAttempt j = Some aid" "q_LeaseToken j = Some tok"
    "attempts_of (q_ID j) d = xs @ [a]" "under_lease j a" "at_ID a = aid" "at_Token a = tok" "at_State a = AttemptActive" "at_Job a = jobID"
    "q_LeaseWorker j = Some (at_Worker a)"
proof -
  have j: "j \<in> set (t_jobs d)" "q_ID j = jobID" "q_State j = sql_leased" "q_LeaseAttempt j = Some aid" "q_LeaseToken j = Some tok"
    using assms(2) by (auto simp: find_Some_iff holds_lease_def)
  obtain xs a where "attempts_of (q_ID j) d = xs @ [a]" "under_lease j a" "at_Job a = q_ID j"
    using leased_attempts [OF assms(1) j(1,3)] by blast
  with j that show ?thesis by (auto simp: under_lease_def)
qed

lemma heartbeat_inv:
  assumes inv: "queue_inv d" and h: "heartbeat clock jobID aid tok ext d = Inr (out, d')"
  shows "queue_inv d'"
proof -
  define ex where "ex = clock 1 + (if ext \<le> 0 then thirty_seconds else ext)"
  define mine where "mine = (\<lambda>a :: attempt. at_ID a = aid \<and> at_Job a = jobID \<and> at_Token a = tok \<and> at_State a = AttemptActive)"
  obtain j where j: "find (holds_lease jobID aid tok) (t_jobs d) = Some j"
    and d': "t_attempts d' = update_rows mine (\<lambda>a. a\<lparr>at_HeartbeatAt := clock 0, at_LeaseExpires := ex\<rparr>) (t_attempts d)"
      "t_jobs d' = update_rows (holds_lease jobID aid tok) (\<lambda>j. j\<lparr>q_LeaseExpires := Some ex, q_UpdatedAt := clock 0\<rparr>) (t_jobs d)"
    using h by (auto simp: heartbeat_def Let_def mine_def ex_def split: if_splits option.splits)
  obtain xs a where a: "j \<in> set (t_jobs d)" "q_ID j = jobID" "q_State j = sql_leased" "q_LeaseAttempt j = Some aid" "q_LeaseToken j = Some tok"
    "attempts_of (q_ID j) d = xs @ [a]" "at_ID a = aid" "at_Token a = tok" "at_State a = AttemptActive" "at_Job a = jobID"
    using lease_held [OF inv j] by metis
  show ?thesis
    by (rule queue_inv_lease [OF inv a(1,3,6) _ _ _ _ d'(2,1)])
      (use a pair_ok_beat [OF _ a(3)] in \<open>auto simp: holds_lease_def mine_def\<close>)
qed

lemma end_simps [simp]:
  "q_ID (end_lease st av t now j) = q_ID j" "q_Key (end_lease st av t now j) = q_Key j" "q_State (end_lease st av t now j) = st"
  "q_LeaseWorker (end_lease st av t now j) = None"
  "at_Job (end_attempt ast ex now x) = at_Job x" "at_ID (end_attempt ast ex now x) = at_ID x"
  by (simp_all add: end_lease_def end_attempt_def)

lemma finish_cases:
  assumes "finish now jobID aid tok res d = Inr d'"
  obtains j ast st av ex t where "find (holds_lease jobID aid tok) (t_jobs d) = Some j"
    "t_attempts d' = update_rows (\<lambda>a. at_ID a = aid \<and> at_Token a = tok \<and> at_State a = AttemptActive) (end_attempt ast ex now) (t_attempts d)"
    "t_jobs d' = update_rows (\<lambda>x. q_ID x = jobID \<and> q_LeaseAttempt x = Some aid \<and> q_LeaseToken x = Some tok) (end_lease st av t now) (t_jobs d)"
    "t_workers d' = free_slot (case q_LeaseWorker j of None \<Rightarrow> [] | Some w \<Rightarrow> w) (t_workers d)"
    "(ast, st) = finish_states res j"
    "ast \<noteq> AttemptActive"
    "(st = sql_queued \<and> q_Attempts j < q_Max j \<and> \<not> q_Cancel j \<and> t = None) \<or> (st \<in> {JobSucceeded, JobFailed, JobCanceled} \<and> t \<noteq> None)"
proof -
  obtain j where j: "find (holds_lease jobID aid tok) (t_jobs d) = Some j" using assms by (auto simp: finish_def split: option.splits)
  obtain ast st where s: "finish_states res j = (ast, st)" by (cases "finish_states res j")
  define av where "av = (if st = JobQueued then (case fr_RetryAt res of Some t \<Rightarrow> t | None \<Rightarrow> now) else now)"
  define ex where "ex = (if fr_Error res = [] then fr_Note res else fr_Error res)"
  define t where "t = (if st = JobSucceeded \<or> st = JobFailed \<or> st = JobCanceled then Some now else None)"
  have d': "t_attempts d' = update_rows (\<lambda>a. at_ID a = aid \<and> at_Token a = tok \<and> at_State a = AttemptActive) (end_attempt ast ex now) (t_attempts d)"
    "t_jobs d' = update_rows (\<lambda>x. q_ID x = jobID \<and> q_LeaseAttempt x = Some aid \<and> q_LeaseToken x = Some tok) (end_lease st av t now) (t_jobs d)"
    "t_workers d' = free_slot (case q_LeaseWorker j of None \<Rightarrow> [] | Some w \<Rightarrow> w) (t_workers d)"
    using assms j s by (auto simp: finish_def Let_def av_def ex_def t_def)
  have e: "ast \<noteq> AttemptActive"
    "(st = sql_queued \<and> q_Attempts j < q_Max j \<and> \<not> q_Cancel j \<and> t = None) \<or> (st \<in> {JobSucceeded, JobFailed, JobCanceled} \<and> t \<noteq> None)"
    using s by (auto simp: finish_states_def t_def split: if_splits)
  show ?thesis by (rule that [OF j d' s [symmetric] e])
qed

lemma finish_inv:
  assumes inv: "queue_inv d" and f: "finish now jobID aid tok res d = Inr d'"
  shows "queue_inv d'"
  using f
proof (cases rule: finish_cases)
  case (1 j ast st av ex t)
  obtain xs a where a: "j \<in> set (t_jobs d)" "q_ID j = jobID" "q_State j = sql_leased" "q_LeaseAttempt j = Some aid" "q_LeaseToken j = Some tok"
    "attempts_of (q_ID j) d = xs @ [a]" "at_ID a = aid" "at_Token a = tok" "at_State a = AttemptActive" "at_Job a = jobID"
    using lease_held [OF inv 1(1)] by metis
  show ?thesis
    by (rule queue_inv_lease [OF inv a(1,3,6) _ _ _ _ 1(3,2)])
      (use a pair_ok_end [OF _ a(3) 1(6,7)] in auto)
qed

lemma cancel_row_simps [simp]: "q_ID (cancel_row now j) = q_ID j" "q_Key (cancel_row now j) = q_Key j"
  by (simp_all add: cancel_row_def)

lemma RequestCancel_inv:
  assumes "queue_inv d" "RequestCancel now jobID d = Inr d'"
  shows "queue_inv d'"
proof -
  have "d' = d\<lparr>t_jobs := update_rows (\<lambda>j. q_ID j = jobID \<and> cancelable j) (cancel_row now) (t_jobs d)\<rparr>"
    using assms(2) by (simp add: RequestCancel_def split: if_splits)
  then show ?thesis
    by (intro queue_inv_jobs [OF assms(1), where P = "\<lambda>j. q_ID j = jobID \<and> cancelable j" and f = "cancel_row now"])
      (auto intro: pair_ok_cancel)
qed

lemma RequestCancelFor_inv:
  assumes "queue_inv d" "RequestCancelFor now taskID workflowID d = (n, d')"
  shows "queue_inv d'"
proof -
  define named where "named = (\<lambda>j :: job. taskID \<noteq> [] \<and> workflowID \<noteq> [] \<and> q_Task j = taskID \<and> q_Workflow j = workflowID \<and> cancelable j)"
  have "d' = d\<lparr>t_jobs := update_rows named (cancel_row now) (t_jobs d)\<rparr>"
    using assms(2) by (simp add: RequestCancelFor_def named_def Let_def)
  then show ?thesis
    by (intro queue_inv_jobs [OF assms(1), where P = named and f = "cancel_row now"]) (auto simp: named_def intro: pair_ok_cancel)
qed

lemma ReleaseAffinity_inv:
  assumes "queue_inv d" "ReleaseAffinity now jobID d = Inr d'"
  shows "queue_inv d'"
proof -
  have "d' = d\<lparr>t_jobs := update_rows (\<lambda>j. q_ID j = jobID \<and> q_State j = sql_queued) (\<lambda>j. j\<lparr>q_AffinityWorker := [], q_UpdatedAt := now\<rparr>) (t_jobs d)\<rparr>"
    using assms(2) by (simp add: ReleaseAffinity_def Let_def split: if_splits)
  then show ?thesis
    by (intro queue_inv_jobs [OF assms(1), where P = "\<lambda>j. q_ID j = jobID \<and> q_State j = sql_queued" and f = "\<lambda>j. j\<lparr>q_AffinityWorker := [], q_UpdatedAt := now\<rparr>"])
      (auto intro: pair_ok_affinity)
qed

lemma reclaim_one_cases:
  fixes now item d
  defines "st \<equiv> expired_state item" and "t \<equiv> (if expired_state item = JobQueued then None else Some now)"
  assumes inv: "queue_inv d" and j: "item \<in> set (t_jobs d)" "q_State item = sql_leased"
  obtains d' where "reclaim_one now item (n, d) = (n + 1, d')"
    "t_attempts d' = update_rows (\<lambda>a. Some (at_ID a) = q_LeaseAttempt item \<and> at_State a = AttemptActive)
       (end_attempt AttemptExpired ''lease expired'' now) (t_attempts d)"
    "t_jobs d' = update_rows (\<lambda>x. q_ID x = q_ID item \<and> q_State x = sql_leased \<and> q_LeaseAttempt x = q_LeaseAttempt item)
       (end_lease st now t now) (t_jobs d)"
    "t_workers d' = free_slot (case q_LeaseWorker item of None \<Rightarrow> [] | Some w \<Rightarrow> w) (t_workers d)"
    "queue_inv d'"
proof -
  define R where "R = (\<lambda>a :: attempt. Some (at_ID a) = q_LeaseAttempt item \<and> at_State a = AttemptActive)"
  define P where "P = (\<lambda>x :: job. q_ID x = q_ID item \<and> q_State x = sql_leased \<and> q_LeaseAttempt x = q_LeaseAttempt item)"
  define d' where "d' = snd (reclaim_one now item (n, d))"
  have "list_ex P (t_jobs d)" using j by (auto simp: P_def list_ex_iff)
  then have n: "reclaim_one now item (n, d) = (n + 1, d')"
    and d': "t_attempts d' = update_rows R (end_attempt AttemptExpired ''lease expired'' now) (t_attempts d)"
      "t_jobs d' = update_rows P (end_lease st now t now) (t_jobs d)"
      "t_workers d' = free_slot (case q_LeaseWorker item of None \<Rightarrow> [] | Some w \<Rightarrow> w) (t_workers d)"
    unfolding d'_def P_def R_def st_def t_def by (simp_all add: reclaim_one_def Let_def)
  obtain xs a where a: "attempts_of (q_ID item) d = xs @ [a]" "under_lease item a" using leased_attempts [OF inv j] by blast
  have p: "pair_ok item (xs @ [a])" using inv j(1) a(1) by (metis queue_inv_def)
  have e: "(st = sql_queued \<and> q_Attempts item < q_Max item \<and> \<not> q_Cancel item \<and> t = None)
      \<or> (st \<in> {JobSucceeded, JobFailed, JobCanceled} \<and> t \<noteq> None)"
    by (auto simp: st_def t_def expired_state_def)
  have "queue_inv d'"
    by (rule queue_inv_lease [OF inv j a(1) _ _ _ _ d'(2,1)])
      (use a(2) j pair_ok_end [OF p j(2) attempt_state_distinct(3) e] in \<open>auto simp: P_def R_def under_lease_def\<close>)
  from that [OF n d' [unfolded P_def R_def] this] show ?thesis .
qed

lemma reclaim_others:
  assumes inv: "queue_inv d" and j: "item \<in> set (t_jobs d)" "q_State item = sql_leased" and x: "x \<in> set (t_jobs d)" "q_ID x \<noteq> q_ID item"
  shows "x \<in> set (t_jobs (snd (reclaim_one now item (n, d))))"
proof (rule reclaim_one_cases [OF inv j, of now n])
  fix d' assume "reclaim_one now item (n, d) = (n + 1, d')" and
    "t_jobs d' = update_rows (\<lambda>x. q_ID x = q_ID item \<and> q_State x = sql_leased \<and> q_LeaseAttempt x = q_LeaseAttempt item)
       (end_lease (expired_state item) now (if expired_state item = JobQueued then None else Some now) now) (t_jobs d)"
  then show ?thesis using x by (force simp: set_update_rows)
qed

text \<open>The leases listed at the start are still in force when the loop comes to them.\<close>

lemma reclaim_fold:
  assumes "queue_inv d" "set items \<subseteq> set (t_jobs d)" "\<forall>j\<in>set items. q_State j = sql_leased" "distinct (map q_ID items)"
    and "\<And>item d n. queue_inv d \<Longrightarrow> item \<in> set (t_jobs d) \<Longrightarrow> q_State item = sql_leased \<Longrightarrow> Q d \<Longrightarrow> Q (snd (reclaim_one now item (n, d)))"
    and "Q d"
  shows "queue_inv (snd (fold (reclaim_one now) items (n, d))) \<and> Q (snd (fold (reclaim_one now) items (n, d)))
    \<and> fst (fold (reclaim_one now) items (n, d)) = n + length items"
  using assms(1-4,6)
proof (induction items arbitrary: n d)
  case (Cons item items)
  have item: "item \<in> set (t_jobs d)" "q_State item = sql_leased" using Cons.prems(2,3) by simp_all
  obtain d' where d': "reclaim_one now item (n, d) = (n + 1, d')" "queue_inv d'" using reclaim_one_cases [OF Cons.prems(1) item] by metis
  have "set items \<subseteq> set (t_jobs d')"
  proof
    fix x assume "x \<in> set items"
    with Cons.prems(2,4) have "x \<in> set (t_jobs d)" "q_ID x \<noteq> q_ID item" by (auto simp: image_iff)
    from reclaim_others [OF Cons.prems(1) item this, of now n] d'(1) show "x \<in> set (t_jobs d')" by simp
  qed
  moreover have "Q d'" using assms(5) [OF Cons.prems(1) item Cons.prems(5), of n] d'(1) by simp
  ultimately have "queue_inv (snd (fold (reclaim_one now) items (n + 1, d'))) \<and> Q (snd (fold (reclaim_one now) items (n + 1, d')))
      \<and> fst (fold (reclaim_one now) items (n + 1, d')) = n + 1 + length items"
    using Cons.prems(3,4) d'(2) by (intro Cons.IH) simp_all
  then show ?case using d'(1) by simp
qed simp

lemma expired_jobs_ok:
  assumes "queue_inv d"
  shows "set (expired_jobs cutoff d) \<subseteq> set (t_jobs d)" "\<forall>j\<in>set (expired_jobs cutoff d). q_State j = sql_leased"
    "distinct (map q_ID (expired_jobs cutoff d))"
  using assms distinct_map_filter by (auto simp: expired_jobs_def queue_inv_def)

lemma reclaimExpired_inv:
  assumes "queue_inv d" "reclaimExpired now cutoff d = (n, d')"
  shows "queue_inv d'"
  using reclaim_fold [OF assms(1) expired_jobs_ok [OF assms(1)], of "\<lambda>_. True" now cutoff 0] assms(2)
  by (simp add: reclaimExpired_def)

lemma worker_ops_inv:
  assumes "queue_inv d"
  shows "RegisterWorker now w d = Inr d' \<Longrightarrow> queue_inv d'" "HeartbeatWorker now i ready d = Inr d' \<Longrightarrow> queue_inv d'"
    "SetWorkerDrain i draining d = Inr d' \<Longrightarrow> queue_inv d'"
  by (auto simp: RegisterWorker_def HeartbeatWorker_def SetWorkerDrain_def requireWorkerRow_def Let_def
      intro: queue_inv_workers [OF assms] split: if_splits)

lemma queue_step_inv:
  assumes "queue_step d d'" "queue_inv d"
  shows "queue_inv d'"
  using assms
  by cases (auto dest: Enqueue_inv worker_ops_inv claim_inv heartbeat_inv finish_inv RequestCancel_inv RequestCancelFor_inv
      ReleaseAffinity_inv reclaimExpired_inv)

end
