(* ===== verification/Queue_Moves.thy ===== *)
theory Queue_Moves
  imports Queue_Invariant
begin

text \<open>
  How the dispatch queue moves: settled jobs and ended attempts are never touched again, each job goes through
  the phases of an abstract machine, and the count of a worker's slots agrees with its leases as long
  as it does not register while it holds one.
\<close>

section \<open>What no operation undoes\<close>

definition kept :: "queue_db \<Rightarrow> queue_db \<Rightarrow> bool" where
  "kept d d' \<longleftrightarrow> (\<forall>j\<in>set (t_jobs d). settled_job j \<longrightarrow> j \<in> set (t_jobs d'))
     \<and> (\<forall>a\<in>set (t_attempts d). idle_attempt a \<longrightarrow> a \<in> set (t_attempts d'))"

lemma kept_refl [simp]: "kept d d"
  by (simp add: kept_def)

lemma kept_trans: "kept d d' \<Longrightarrow> kept d' d'' \<Longrightarrow> kept d d''"
  by (auto simp: kept_def)

lemma kept_update:
  assumes "t_jobs d' = update_rows P f (t_jobs d)" "t_attempts d' = update_rows R g (t_attempts d)"
    and "\<And>j. j \<in> set (t_jobs d) \<Longrightarrow> P j \<Longrightarrow> \<not> settled_job j" "\<And>a. R a \<Longrightarrow> \<not> idle_attempt a"
  shows "kept d d'"
proof -
  have "j \<in> set (update_rows P f (t_jobs d))" if "j \<in> set (t_jobs d)" "settled_job j" for j
    unfolding set_update_rows by (rule image_eqI [of _ _ j]) (use that assms(3) in auto)
  moreover have "a \<in> set (update_rows R g (t_attempts d))" if "a \<in> set (t_attempts d)" "idle_attempt a" for a
    unfolding set_update_rows by (rule image_eqI [of _ _ a]) (use that assms(4) in auto)
  ultimately show ?thesis by (simp add: kept_def assms(1,2))
qed

lemma kept_tables: "t_jobs d' = t_jobs d \<Longrightarrow> t_attempts d' = t_attempts d \<Longrightarrow> kept d d'"
  by (simp add: kept_def)

lemma update_rows_False [simp]: "update_rows (\<lambda>_. False) f xs = xs"
  by (simp add: update_rows_def)

lemma kept_jobs:
  assumes "t_jobs d' = update_rows P f (t_jobs d)" "t_attempts d' = t_attempts d"
    and "\<And>j. j \<in> set (t_jobs d) \<Longrightarrow> P j \<Longrightarrow> \<not> settled_job j"
  shows "kept d d'"
  by (rule kept_update [where P = P and f = f and R = "\<lambda>_. False" and g = id]) (use assms in simp_all)

lemma settled_cases [simp]: "q_State j = sql_leased \<Longrightarrow> \<not> settled_job j" "q_State j = sql_queued \<Longrightarrow> \<not> settled_job j"
  by (auto simp: settled_job_def job_states)

lemma queue_inv_pair: "queue_inv d \<Longrightarrow> j \<in> set (t_jobs d) \<Longrightarrow> pair_ok j (attempts_of (q_ID j) d)"
  by (simp add: queue_inv_def)

lemma has_lease_not_settled:
  assumes "queue_inv d" "j \<in> set (t_jobs d)" "q_LeaseAttempt j = Some aid"
  shows "q_State j = sql_leased"
proof (rule ccontr)
  assume "q_State j \<noteq> sql_leased"
  moreover have "pair_ok j (attempts_of (q_ID j) d)" using assms(1,2) by (simp add: queue_inv_def)
  ultimately have "unleased j" unfolding pair_ok_def by presburger
  with assms(3) show False by (simp add: unleased_def)
qed

lemma reclaim_one_kept:
  assumes "queue_inv d" "item \<in> set (t_jobs d)" "q_State item = sql_leased"
  shows "kept d (snd (reclaim_one now item (n, d)))"
proof (rule reclaim_one_cases [OF assms, of now n])
  fix d' assume r: "reclaim_one now item (n, d) = (n + 1, d')"
    and d': "t_attempts d' = update_rows (\<lambda>a. Some (at_ID a) = q_LeaseAttempt item \<and> at_State a = AttemptActive)
       (end_attempt AttemptExpired ''lease expired'' now) (t_attempts d)"
    "t_jobs d' = update_rows (\<lambda>x. q_ID x = q_ID item \<and> q_State x = sql_leased \<and> q_LeaseAttempt x = q_LeaseAttempt item)
       (end_lease (expired_state item) now (if expired_state item = JobQueued then None else Some now) now) (t_jobs d)"
  have "kept d d'" by (rule kept_update [OF d'(2,1)]) (auto simp: idle_attempt_def)
  with r show ?thesis by simp
qed

lemma queue_step_kept:
  assumes inv: "queue_inv d" and "queue_step d d'"
  shows "kept d d'"
  using assms(2)
proof cases
  case (enqueue json_valid newID now job out)
  then have "d' = d \<or> (\<exists>row. d' = d\<lparr>t_jobs := t_jobs d @ [row]\<rparr>)"
    by (auto simp: Enqueue_def Let_def split: if_splits option.splits)
  then show ?thesis by (auto simp: kept_def)
next
  case (register now w)
  then show ?thesis by (intro kept_tables) (auto simp: RegisterWorker_def Let_def split: if_splits)
next
  case (beat now i ready)
  then show ?thesis by (intro kept_tables) (auto simp: HeartbeatWorker_def requireWorkerRow_def split: if_splits)
next
  case (drain i draining)
  then show ?thesis by (intro kept_tables) (auto simp: SetWorkerDrain_def requireWorkerRow_def split: if_splits)
next
  case (claim clock attemptID token req out)
  from claim(1) show ?thesis
  proof (cases rule: claim_cases)
    case (1 w j ex)
    note g = grant_lease_cases [OF 1(8)]
    have "kept d (d\<lparr>t_jobs := t_jobs d'\<rparr>)"
      by (rule kept_jobs [where P = "\<lambda>x. q_ID x = q_ID j \<and> q_State x = sql_queued \<and> \<not> q_Cancel x"
            and f = "lease_row attemptID token (wk_ID w) ex (clock 2)"]) (auto simp: g(1))
    then show ?thesis by (auto simp: kept_def g(2))
  qed
next
  case (heartbeat clock jobID attemptID token ext out)
  define ex where "ex = clock 1 + (if ext \<le> 0 then thirty_seconds else ext)"
  have d': "t_jobs d' = update_rows (holds_lease jobID attemptID token) (\<lambda>j. j\<lparr>q_LeaseExpires := Some ex, q_UpdatedAt := clock 0\<rparr>) (t_jobs d)"
    "t_attempts d' = update_rows (\<lambda>a. at_ID a = attemptID \<and> at_Job a = jobID \<and> at_Token a = token \<and> at_State a = AttemptActive)
       (\<lambda>a. a\<lparr>at_HeartbeatAt := clock 0, at_LeaseExpires := ex\<rparr>) (t_attempts d)"
    using heartbeat by (auto simp: Queue_Store.heartbeat_def Let_def ex_def split: if_splits option.splits)
  show ?thesis by (rule kept_update [OF d']) (auto simp: holds_lease_def idle_attempt_def)
next
  case (finish now jobID attemptID token res)
  from finish(1) show ?thesis
  proof (cases rule: finish_cases)
    case (1 j ast st av ex t)
    show ?thesis by (rule kept_update [OF 1(3,2)]) (auto simp: idle_attempt_def dest: has_lease_not_settled [OF inv])
  qed
next
  case (cancel now jobID)
  then show ?thesis
    by (intro kept_jobs [where P = "\<lambda>j. q_ID j = jobID \<and> cancelable j" and f = "cancel_row now"])
      (auto simp: RequestCancel_def cancelable_def split: if_splits)
next
  case (cancel_for now taskID workflowID n)
  then show ?thesis
    by (intro kept_jobs [where P = "\<lambda>j. taskID \<noteq> [] \<and> workflowID \<noteq> [] \<and> q_Task j = taskID \<and> q_Workflow j = workflowID \<and> cancelable j"
          and f = "cancel_row now"])
      (auto simp: RequestCancelFor_def Let_def cancelable_def)
next
  case (release now jobID)
  then show ?thesis
    by (intro kept_jobs [where P = "\<lambda>j. q_ID j = jobID \<and> q_State j = sql_queued" and f = "\<lambda>j. j\<lparr>q_AffinityWorker := [], q_UpdatedAt := now\<rparr>"])
      (auto simp: ReleaseAffinity_def Let_def split: if_splits)
next
  case (reclaim now cutoff n)
  have "kept d (snd (fold (reclaim_one now) (expired_jobs cutoff d) (0, d)))"
  proof (rule reclaim_fold [OF inv expired_jobs_ok [OF inv], THEN conjunct2, THEN conjunct1])
    show "kept d (snd (reclaim_one now item (m, da)))"
      if "queue_inv da" "item \<in> set (t_jobs da)" "q_State item = sql_leased" "kept d da" for item da m
      by (rule kept_trans [OF that(4) reclaim_one_kept [OF that(1-3)]])
  qed simp
  with reclaim show ?thesis by (simp add: reclaimExpired_def)
qed

interpretation dispatch_queue: monotone_run "\<lambda>d. d = empty_queue" queue_step queue_inv kept
proof
  show "queue_inv d" if "d = empty_queue" for d using that by (simp add: empty_queue_def queue_inv_def)
qed (auto intro: queue_step_inv queue_step_kept kept_trans)

section \<open>The life of a job\<close>

text \<open>
  What a job promises to its clients: it waits, is held by one attempt at a time, comes back only
  while attempts are left, and ends once.
\<close>

datatype phase = Absent | Waiting int int | Held int int string | Ended string

inductive phase_step :: "phase \<Rightarrow> phase \<Rightarrow> bool" where
  arrive: "0 < limit \<Longrightarrow> phase_step Absent (Waiting limit 0)"
| take_up: "n < limit \<Longrightarrow> phase_step (Waiting limit n) (Held limit (n + 1) a)"
| give_back: "n < limit \<Longrightarrow> phase_step (Held limit n a) (Waiting limit n)"
| end_held: "st \<in> {JobSucceeded, JobFailed, JobCanceled} \<Longrightarrow> phase_step (Held limit n a) (Ended st)"
| end_waiting: "phase_step (Waiting limit n) (Ended JobCanceled)"

inductive_simps phase_step_simps:
  "phase_step Absent p" "phase_step (Waiting limit n) p" "phase_step (Held limit n a) p" "phase_step (Ended st) p"

definition phase_of :: "job \<Rightarrow> phase" where
  "phase_of j = (if q_State j = sql_leased then Held (q_Max j) (q_Attempts j) (case q_LeaseAttempt j of None \<Rightarrow> [] | Some a \<Rightarrow> a)
     else if q_State j = sql_queued then Waiting (q_Max j) (q_Attempts j) else Ended (q_State j))"

definition job_phase :: "string \<Rightarrow> queue_db \<Rightarrow> phase" where
  "job_phase i d = (case GetJob i d of None \<Rightarrow> Absent | Some j \<Rightarrow> phase_of j)"

definition moves :: "queue_db \<Rightarrow> queue_db \<Rightarrow> bool" where
  "moves d d' \<longleftrightarrow> (\<forall>i. phase_step\<^sup>*\<^sup>* (job_phase i d) (job_phase i d'))"

lemma GetJob_iff: "queue_inv d \<Longrightarrow> GetJob i d = Some j \<longleftrightarrow> j \<in> set (t_jobs d) \<and> q_ID j = i"
  by (simp add: GetJob_def find_keyed queue_inv_def)

lemma GetJob_update:
  assumes "t_jobs d' = update_rows P f (t_jobs d)" "\<And>j. q_ID (f j) = q_ID j"
  shows "GetJob i d' = map_option (\<lambda>j. if P j then f j else j) (GetJob i d)"
proof -
  have "find (\<lambda>j. q_ID j = i) (update_rows P f xs) = map_option (\<lambda>j. if P j then f j else j) (find (\<lambda>j. q_ID j = i) xs)" for xs
    by (induction xs) (auto simp: assms(2))
  then show ?thesis by (simp add: GetJob_def assms(1))
qed

lemma moves_refl [simp]: "moves d d"
  by (simp add: moves_def)

lemma moves_trans: "moves d d' \<Longrightarrow> moves d' d'' \<Longrightarrow> moves d d''"
  unfolding moves_def by (meson rtranclp_trans)

lemma moves_update:
  assumes "queue_inv d" "t_jobs d' = update_rows P f (t_jobs d)" "\<And>j. q_ID (f j) = q_ID j"
    and "\<And>j. j \<in> set (t_jobs d) \<Longrightarrow> P j \<Longrightarrow> phase_of (f j) = phase_of j \<or> phase_step (phase_of j) (phase_of (f j))"
  shows "moves d d'"
  unfolding moves_def
proof
  fix i
  show "phase_step\<^sup>*\<^sup>* (job_phase i d) (job_phase i d')"
  proof (cases "GetJob i d")
    case (Some j)
    then have "j \<in> set (t_jobs d)" using GetJob_iff [OF assms(1)] by blast
    with assms(4) [of j] Some GetJob_update [OF assms(2,3), of i] show ?thesis by (auto simp: job_phase_def)
  qed (simp add: job_phase_def GetJob_update [OF assms(2,3)])
qed

lemma phase_of_cancel:
  assumes "cancelable j"
  shows "phase_of (cancel_row now j) = phase_of j \<or> phase_step (phase_of j) (phase_of (cancel_row now j))"
  using assms by (auto simp: cancelable_def phase_of_def cancel_row_def phase_step_simps)

lemma phase_of_end:
  assumes "q_State j = sql_leased"
    and "(st = sql_queued \<and> q_Attempts j < q_Max j) \<or> st \<in> {JobSucceeded, JobFailed, JobCanceled}"
  shows "phase_step (phase_of j) (phase_of (end_lease st av t now j))"
  using assms by (auto simp: phase_of_def end_lease_def phase_step_simps)

lemma reclaim_one_moves:
  assumes inv: "queue_inv d" and j: "item \<in> set (t_jobs d)" "q_State item = sql_leased"
  shows "moves d (snd (reclaim_one now item (n, d)))"
proof (rule reclaim_one_cases [OF assms, of now n])
  fix d' assume r: "reclaim_one now item (n, d) = (n + 1, d')"
    and d': "t_jobs d' = update_rows (\<lambda>x. q_ID x = q_ID item \<and> q_State x = sql_leased \<and> q_LeaseAttempt x = q_LeaseAttempt item)
       (end_lease (expired_state item) now (if expired_state item = JobQueued then None else Some now) now) (t_jobs d)"
  have "moves d d'"
  proof (rule moves_update [OF inv d'])
    fix x assume x: "x \<in> set (t_jobs d)" "q_ID x = q_ID item \<and> q_State x = sql_leased \<and> q_LeaseAttempt x = q_LeaseAttempt item"
    then have "x = item" using keyed_row [of q_ID "t_jobs d" x item] inv j(1) by (simp add: queue_inv_def)
    moreover have "(expired_state item = sql_queued \<and> q_Attempts item < q_Max item) \<or> expired_state item \<in> {JobSucceeded, JobFailed, JobCanceled}"
      by (auto simp: expired_state_def)
    ultimately show "phase_of (end_lease (expired_state item) now (if expired_state item = JobQueued then None else Some now) now x) = phase_of x
        \<or> phase_step (phase_of x) (phase_of (end_lease (expired_state item) now (if expired_state item = JobQueued then None else Some now) now x))"
      using phase_of_end [OF j(2)] by blast
  qed simp
  with r show ?thesis by simp
qed

lemma moves_jobs: "t_jobs d' = t_jobs d \<Longrightarrow> moves d d'"
  by (simp add: moves_def job_phase_def GetJob_def)

lemma enqueue_moves:
  assumes "Enqueue json_valid newID now job d = Inr (out, d')"
  shows "moves d d'"
proof -
  let ?row = "enqueue_row newID now job"
  have "d' = d \<or> d' = d\<lparr>t_jobs := t_jobs d @ [?row]\<rparr>"
    using assms by (auto simp: Enqueue_def Let_def split: if_splits option.splits)
  moreover have "phase_step\<^sup>*\<^sup>* (job_phase i d) (job_phase i (d\<lparr>t_jobs := t_jobs d @ [?row]\<rparr>))" for i
  proof -
    have "phase_step Absent (phase_of ?row)" by (simp add: phase_of_def enqueue_row_def phase_step_simps)
    then show ?thesis by (auto simp: job_phase_def GetJob_def find_snoc split: option.splits)
  qed
  ultimately show ?thesis by (auto simp: moves_def)
qed

lemma queue_step_moves:
  assumes inv: "queue_inv d" and "queue_step d d'"
  shows "moves d d'"
  using assms(2)
proof cases
  case (enqueue json_valid newID now job out)
  then show ?thesis by (rule enqueue_moves)
next
  case (register now w)
  then show ?thesis by (intro moves_jobs) (auto simp: RegisterWorker_def Let_def split: if_splits)
next
  case (beat now i ready)
  then show ?thesis by (intro moves_jobs) (auto simp: HeartbeatWorker_def requireWorkerRow_def split: if_splits)
next
  case (drain i draining)
  then show ?thesis by (intro moves_jobs) (auto simp: SetWorkerDrain_def requireWorkerRow_def split: if_splits)
next
  case (claim clock aid tok req out)
  from claim(1) show ?thesis
  proof (cases rule: claim_cases)
    case (1 w j ex)
    show ?thesis
    proof (rule moves_update [OF inv grant_lease_cases(1) [OF 1(8)]])
      fix x assume x: "x \<in> set (t_jobs d)" "q_ID x = q_ID j \<and> q_State x = sql_queued \<and> \<not> q_Cancel x"
      have "pair_ok x (attempts_of (q_ID x) d)" by (rule queue_inv_pair [OF inv x(1)])
      then have "q_Attempts x < q_Max x" using x(2) by (simp add: pair_ok_def)
      then show "phase_of (lease_row aid tok (wk_ID w) ex (clock 2) x) = phase_of x
          \<or> phase_step (phase_of x) (phase_of (lease_row aid tok (wk_ID w) ex (clock 2) x))"
        using x(2) by (simp add: phase_of_def lease_row_def phase_step_simps)
    qed simp
  qed
next
  case (heartbeat clock jobID aid tok ext out)
  define ex where "ex = clock 1 + (if ext \<le> 0 then thirty_seconds else ext)"
  have d': "t_jobs d' = update_rows (holds_lease jobID aid tok) (\<lambda>j. j\<lparr>q_LeaseExpires := Some ex, q_UpdatedAt := clock 0\<rparr>) (t_jobs d)"
    using heartbeat by (auto simp: Queue_Store.heartbeat_def Let_def ex_def split: if_splits option.splits)
  show ?thesis by (rule moves_update [OF inv d']) (simp_all add: phase_of_def)
next
  case (finish now jobID aid tok res)
  from finish(1) show ?thesis
  proof (cases rule: finish_cases)
    case (1 j ast st av ex t)
    have j: "j \<in> set (t_jobs d)" "q_ID j = jobID" "q_State j = sql_leased" using 1(1) by (auto simp: find_Some_iff holds_lease_def)
    show ?thesis
    proof (rule moves_update [OF inv 1(3)])
      fix x assume x: "x \<in> set (t_jobs d)" "q_ID x = jobID \<and> q_LeaseAttempt x = Some aid \<and> q_LeaseToken x = Some tok"
      then have "x = j" using keyed_row [of q_ID "t_jobs d" x j] inv j by (simp add: queue_inv_def)
      then show "phase_of (end_lease st av t now x) = phase_of x \<or> phase_step (phase_of x) (phase_of (end_lease st av t now x))"
        using phase_of_end [OF j(3)] 1(7) by blast
    qed simp
  qed
next
  case (cancel now jobID)
  then show ?thesis
    by (intro moves_update [OF inv, where P = "\<lambda>j. q_ID j = jobID \<and> cancelable j" and f = "cancel_row now"])
      (auto simp: RequestCancel_def phase_of_cancel split: if_splits)
next
  case (cancel_for now taskID workflowID n)
  then show ?thesis
    by (intro moves_update [OF inv, where f = "cancel_row now" and
          P = "\<lambda>j. taskID \<noteq> [] \<and> workflowID \<noteq> [] \<and> q_Task j = taskID \<and> q_Workflow j = workflowID \<and> cancelable j"])
      (auto simp: RequestCancelFor_def Let_def phase_of_cancel)
next
  case (release now jobID)
  then show ?thesis
    by (intro moves_update [OF inv, where P = "\<lambda>j. q_ID j = jobID \<and> q_State j = sql_queued" and f = "\<lambda>j. j\<lparr>q_AffinityWorker := [], q_UpdatedAt := now\<rparr>"])
      (auto simp: ReleaseAffinity_def Let_def phase_of_def split: if_splits)
next
  case (reclaim now cutoff n)
  have "moves d (snd (fold (reclaim_one now) (expired_jobs cutoff d) (0, d)))"
  proof (rule reclaim_fold [OF inv expired_jobs_ok [OF inv], THEN conjunct2, THEN conjunct1])
    show "moves d (snd (reclaim_one now item (m, da)))"
      if "queue_inv da" "item \<in> set (t_jobs da)" "q_State item = sql_leased" "moves d da" for item da m
      by (rule moves_trans [OF that(4) reclaim_one_moves [OF that(1-3)]])
  qed simp
  with reclaim show ?thesis by (simp add: reclaimExpired_def)
qed

section \<open>The workers' slots\<close>

definition leased_to :: "string \<Rightarrow> job \<Rightarrow> bool" where
  "leased_to i j \<longleftrightarrow> q_State j = sql_leased \<and> q_LeaseWorker j = Some i"

definition held_by :: "string \<Rightarrow> queue_db \<Rightarrow> nat" where
  "held_by i d = count_if (leased_to i) (t_jobs d)"

text \<open>A step that does not register a worker while leases of it are outstanding.\<close>

inductive orderly_step :: "queue_db \<Rightarrow> queue_db \<Rightarrow> bool" where
  orderly: "queue_step d d' \<Longrightarrow> (\<And>now w. RegisterWorker now w d = Inr d' \<Longrightarrow> held_by (wk_ID w) d = 0) \<Longrightarrow> orderly_step d d'"

definition slots_ok :: "queue_db \<Rightarrow> bool" where
  "slots_ok d \<longleftrightarrow> distinct (map wk_ID (t_workers d))
     \<and> (\<forall>w\<in>set (t_workers d). wk_Active w = int (held_by (wk_ID w) d) \<and> wk_Active w \<le> wk_Capacity w)"

lemma held_update:
  assumes "queue_inv d" "j \<in> set (t_jobs d)" "P j" "\<And>x. x \<in> set (t_jobs d) \<Longrightarrow> P x \<Longrightarrow> q_ID x = q_ID j"
    and "t_jobs d' = update_rows P f (t_jobs d)"
  shows "held_by i d' + (if leased_to i j then 1 else 0) = held_by i d + (if leased_to i (f j) then 1 else 0)"
  unfolding held_by_def assms(5)
proof (rule count_if_update [where key = q_ID and P = P, OF _ assms(2)])
  show "P j" by (rule assms(3))
  show "distinct (map q_ID (t_jobs d))" using assms(1) by (simp add: queue_inv_def)
  show "q_ID x = q_ID j" if "x \<in> set (t_jobs d)" "P x" for x by (rule assms(4) [OF that])
qed

lemma held_same:
  assumes "t_jobs d' = update_rows P f (t_jobs d)" "\<And>j. j \<in> set (t_jobs d) \<Longrightarrow> P j \<Longrightarrow> leased_to i (f j) = leased_to i j"
  shows "held_by i d' = held_by i d"
proof -
  have "count_if (leased_to i) (update_rows P f xs) = count_if (leased_to i) xs" if "set xs \<subseteq> set (t_jobs d)" for xs
    using that by (induction xs) (auto simp: assms(2))
  then show ?thesis by (simp add: held_by_def assms(1))
qed

lemma slots_same:
  assumes "slots_ok d" "t_workers d' = update_rows P f (t_workers d)" "\<And>i. held_by i d' = held_by i d"
    and "\<And>w. wk_ID (f w) = wk_ID w" "\<And>w. wk_Active (f w) = wk_Active w" "\<And>w. wk_Capacity (f w) = wk_Capacity w"
  shows "slots_ok d'"
  using assms(1) unfolding slots_ok_def assms(2) set_update_rows by (auto simp: assms(3-6))

lemma slots_frame:
  assumes "slots_ok d" "t_workers d' = t_workers d" "\<And>i. held_by i d' = held_by i d"
  shows "slots_ok d'"
  using assms(1) unfolding slots_ok_def assms(2,3) .

lemma slots_lease:
  assumes ok: "slots_ok d" and w: "w \<in> set (t_workers d)" "wk_Active w < wk_Capacity w"
    and d': "t_workers d' = update_rows (\<lambda>x. wk_ID x = wk_ID w) (\<lambda>x. x\<lparr>wk_Active := wk_Active x + 1\<rparr>) (t_workers d)"
    and h: "\<And>i. held_by i d' = held_by i d + (if i = wk_ID w then 1 else 0)"
  shows "slots_ok d'"
  unfolding slots_ok_def
proof (intro conjI ballI)
  show "distinct (map wk_ID (t_workers d'))" using ok by (simp add: slots_ok_def d')
  fix x assume "x \<in> set (t_workers d')"
  then obtain y where y: "y \<in> set (t_workers d)" "x = (if wk_ID y = wk_ID w then y\<lparr>wk_Active := wk_Active y + 1\<rparr> else y)"
    by (auto simp: d' set_update_rows)
  have "y = w" if "wk_ID y = wk_ID w" using that keyed_row [of wk_ID "t_workers d" y w] ok y(1) w(1) by (simp add: slots_ok_def)
  with y w ok show "wk_Active x = int (held_by (wk_ID x) d')" "wk_Active x \<le> wk_Capacity x"
    by (auto simp: slots_ok_def h)
qed

lemma slots_free:
  assumes ok: "slots_ok d" and d': "t_workers d' = free_slot i (t_workers d)"
    and h: "\<And>k. held_by k d = held_by k d' + (if k = i then 1 else 0)"
  shows "slots_ok d'"
  unfolding slots_ok_def
proof (intro conjI ballI)
  show "distinct (map wk_ID (t_workers d'))" using ok by (simp add: slots_ok_def d' free_slot_def)
  fix x assume "x \<in> set (t_workers d')"
  then obtain y where y: "y \<in> set (t_workers d)"
    "x = (if wk_ID y = i then y\<lparr>wk_Active := (if wk_Active y > 0 then wk_Active y - 1 else 0)\<rparr> else y)"
    by (auto simp: d' free_slot_def set_update_rows)
  with ok h show "wk_Active x = int (held_by (wk_ID x) d')" "wk_Active x \<le> wk_Capacity x"
    by (auto simp: slots_ok_def split: if_splits)
qed

lemma slots_end:
  assumes inv: "queue_inv d" and ok: "slots_ok d" and j: "j \<in> set (t_jobs d)" "q_State j = sql_leased" "P j"
    and P: "\<And>x. x \<in> set (t_jobs d) \<Longrightarrow> P x \<Longrightarrow> q_ID x = q_ID j"
    and d': "t_jobs d' = update_rows P (end_lease st av t now) (t_jobs d)" "st \<noteq> sql_leased"
      "t_workers d' = free_slot (case q_LeaseWorker j of None \<Rightarrow> [] | Some w \<Rightarrow> w) (t_workers d)"
  shows "slots_ok d'"
proof -
  obtain a where a: "under_lease j a" using leased_attempts [OF inv j(1,2)] by blast
  have h: "held_by k d' + (if leased_to k j then 1 else 0) = held_by k d + (if leased_to k (end_lease st av t now j) then 1 else 0)" for k
    by (rule held_update [OF inv j(1) _ _ d'(1)]) (use j(3) in simp, rule P)
  have "held_by k d = held_by k d' + (if k = at_Worker a then 1 else 0)" for k
    using h [of k] a d'(2) j(2) by (auto simp: leased_to_def under_lease_def)
  then show ?thesis using slots_free [OF ok] d'(3) a by (simp add: under_lease_def)
qed

lemma reclaim_one_slots:
  assumes inv: "queue_inv d" and j: "item \<in> set (t_jobs d)" "q_State item = sql_leased" and ok: "slots_ok d"
  shows "slots_ok (snd (reclaim_one now item (n, d)))"
proof (rule reclaim_one_cases [OF inv j, of now n])
  fix d' assume r: "reclaim_one now item (n, d) = (n + 1, d')"
    and d': "t_jobs d' = update_rows (\<lambda>x. q_ID x = q_ID item \<and> q_State x = sql_leased \<and> q_LeaseAttempt x = q_LeaseAttempt item)
       (end_lease (expired_state item) now (if expired_state item = JobQueued then None else Some now) now) (t_jobs d)"
      "t_workers d' = free_slot (case q_LeaseWorker item of None \<Rightarrow> [] | Some w \<Rightarrow> w) (t_workers d)"
  have "slots_ok d'" by (rule slots_end [OF inv ok j _ _ d'(1) _ d'(2)]) (simp_all add: j expired_state_def)
  with r show ?thesis by simp
qed

lemma register_slots:
  assumes ok: "slots_ok d" and r: "RegisterWorker now w d = Inr d'" and free: "held_by (wk_ID w) d = 0"
  shows "slots_ok d'"
proof -
  define row where "row = w\<lparr>wk_Labels := uniqueSorted (wk_Labels w), wk_Capabilities := uniqueSorted (wk_Capabilities w),
      wk_Active := 0, wk_Heartbeat := now, wk_RegisteredAt := now\<rparr>"
  have cap: "0 < wk_Capacity w"
    and d': "d' = (if list_ex (\<lambda>x. wk_ID x = wk_ID w) (t_workers d)
       then d\<lparr>t_workers := update_rows (\<lambda>x. wk_ID x = wk_ID w) (\<lambda>x. row\<lparr>wk_RegisteredAt := wk_RegisteredAt x\<rparr>) (t_workers d)\<rparr>
       else d\<lparr>t_workers := t_workers d @ [row]\<rparr>)"
    using r by (auto simp: RegisterWorker_def row_def Let_def split: if_splits)
  have h: "held_by i d' = held_by i d" for i by (simp add: d' held_by_def)
  show ?thesis
  proof (cases "list_ex (\<lambda>x. wk_ID x = wk_ID w) (t_workers d)")
    case True
    let ?f = "\<lambda>x. if wk_ID x = wk_ID w then row\<lparr>wk_RegisteredAt := wk_RegisteredAt x\<rparr> else x"
    have "map wk_ID (t_workers d') = map wk_ID (t_workers d)" using True by (simp add: d' update_rows_def row_def)
    moreover have "x \<in> ?f ` set (t_workers d)" if "x \<in> set (t_workers d')" for x using that True by (simp add: d' set_update_rows)
    ultimately show ?thesis using ok free cap unfolding slots_ok_def h by (force simp: row_def)
  next
    case False
    then have "wk_ID w \<notin> wk_ID ` set (t_workers d)" by (auto simp: list_ex_iff)
    with False ok free cap show ?thesis unfolding slots_ok_def h by (auto simp: d' row_def)
  qed
qed

lemma orderly_slots:
  assumes inv: "queue_inv d" and ok: "slots_ok d" and "orderly_step d d'"
  shows "slots_ok d'"
proof -
  have step: "queue_step d d'" and reg: "\<And>now w. RegisterWorker now w d = Inr d' \<Longrightarrow> held_by (wk_ID w) d = 0"
    using assms(3) by (auto elim: orderly_step.cases)
  from step show ?thesis
  proof cases
    case (enqueue json_valid newID now job out)
    then have d': "d' = d \<or> d' = d\<lparr>t_jobs := t_jobs d @ [enqueue_row newID now job]\<rparr>"
      by (auto simp: Enqueue_def Let_def split: if_splits option.splits)
    have "held_by i d' = held_by i d" for i
      using d' by (auto simp: held_by_def leased_to_def enqueue_row_def)
    with d' slots_frame [OF ok] show ?thesis by (metis queue_db.select_convs(3) queue_db.surjective queue_db.update_convs(1))
  next
    case (register now w)
    with reg ok register_slots show ?thesis by blast
  next
    case (beat now i ready)
    then show ?thesis
      by (intro slots_same [OF ok, where P = "\<lambda>x. wk_ID x = i" and f = "\<lambda>x. x\<lparr>wk_Ready := ready, wk_Heartbeat := now\<rparr>"])
        (auto simp: HeartbeatWorker_def requireWorkerRow_def held_by_def split: if_splits)
  next
    case (drain i draining)
    then show ?thesis
      by (intro slots_same [OF ok, where P = "\<lambda>x. wk_ID x = i" and f = "\<lambda>x. x\<lparr>wk_Draining := draining, wk_Ready := \<not> draining\<rparr>"])
        (auto simp: SetWorkerDrain_def requireWorkerRow_def held_by_def split: if_splits)
  next
    case (claim clock aid tok req out)
    from claim(1) show ?thesis
    proof (cases rule: claim_cases)
      case (1 w j ex)
      note g = grant_lease_cases [OF 1(8)]
      have w: "w \<in> set (t_workers d)" using 1(1) by (auto simp: find_Some_iff)
      have st: "q_State j = sql_queued" "\<not> q_Cancel j" using 1(5) by (simp_all add: claimable_def)
      have h: "held_by k d' + (if leased_to k j then 1 else 0)
          = held_by k d + (if leased_to k (lease_row aid tok (wk_ID w) ex (clock 2) j) then 1 else 0)" for k
        by (rule held_update [OF inv 1(4) _ _ g(1)]) (simp_all add: st)
      have "held_by k d' = held_by k d + (if k = wk_ID w then 1 else 0)" for k
        using h [of k] st(1) by (simp add: leased_to_def split: if_splits)
      with slots_lease [OF ok w 1(3) g(3)] show ?thesis by blast
    qed
  next
    case (heartbeat clock jobID aid tok ext out)
    then have w: "t_workers d' = t_workers d" by (auto simp: Queue_Store.heartbeat_def Let_def split: if_splits option.splits)
    define ex where "ex = clock 1 + (if ext \<le> 0 then thirty_seconds else ext)"
    have d': "t_jobs d' = update_rows (holds_lease jobID aid tok) (\<lambda>j. j\<lparr>q_LeaseExpires := Some ex, q_UpdatedAt := clock 0\<rparr>) (t_jobs d)"
      using heartbeat by (auto simp: Queue_Store.heartbeat_def Let_def ex_def split: if_splits option.splits)
    show ?thesis by (rule slots_frame [OF ok w]) (rule held_same [OF d'], simp add: leased_to_def)
  next
    case (finish now jobID aid tok res)
    from finish(1) show ?thesis
    proof (cases rule: finish_cases)
      case (1 j ast st av ex t)
      have j: "j \<in> set (t_jobs d)" "q_State j = sql_leased" "q_ID j = jobID" "q_LeaseAttempt j = Some aid" "q_LeaseToken j = Some tok"
        using 1(1) by (auto simp: find_Some_iff holds_lease_def)
      show ?thesis by (rule slots_end [OF inv ok j(1,2) _ _ 1(3) _ 1(4)]) (use j 1(7) in auto)
    qed
  next
    case (cancel now jobID)
    then show ?thesis
      by (intro slots_frame [OF ok] held_same [where P = "\<lambda>j. q_ID j = jobID \<and> cancelable j" and f = "cancel_row now"])
        (auto simp: RequestCancel_def leased_to_def cancel_row_def split: if_splits)
  next
    case (cancel_for now taskID workflowID n)
    then show ?thesis
      by (intro slots_frame [OF ok] held_same [where f = "cancel_row now" and
            P = "\<lambda>j. taskID \<noteq> [] \<and> workflowID \<noteq> [] \<and> q_Task j = taskID \<and> q_Workflow j = workflowID \<and> cancelable j"])
        (auto simp: RequestCancelFor_def leased_to_def cancel_row_def Let_def)
  next
    case (release now jobID)
    then show ?thesis
      by (intro slots_frame [OF ok] held_same [where P = "\<lambda>j. q_ID j = jobID \<and> q_State j = sql_queued"
            and f = "\<lambda>j. j\<lparr>q_AffinityWorker := [], q_UpdatedAt := now\<rparr>"])
        (auto simp: ReleaseAffinity_def leased_to_def Let_def split: if_splits)
  next
    case (reclaim now cutoff n)
    have "slots_ok (snd (fold (reclaim_one now) (expired_jobs cutoff d) (0, d)))"
    proof (rule reclaim_fold [OF inv expired_jobs_ok [OF inv], THEN conjunct2, THEN conjunct1])
      show "slots_ok (snd (reclaim_one now item (m, da)))"
        if "queue_inv da" "item \<in> set (t_jobs da)" "q_State item = sql_leased" "slots_ok da" for item da m
        by (rule reclaim_one_slots [OF that])
    qed (rule ok)
    with reclaim show ?thesis by (simp add: reclaimExpired_def)
  qed
qed

interpretation orderly_queue: invariant_of "\<lambda>d. d = empty_queue" orderly_step "\<lambda>d. queue_inv d \<and> slots_ok d"
proof
  show "queue_inv d \<and> slots_ok d" if "d = empty_queue" for d using that by (simp add: empty_queue_def queue_inv_def slots_ok_def)
  show "queue_inv d' \<and> slots_ok d'" if "queue_inv d \<and> slots_ok d" "orderly_step d d'" for d d'
    using that orderly_slots queue_step_inv by (auto elim: orderly_step.cases)
qed

end
