(* ===== verification/Queue_Properties.thy ===== *)
theory Queue_Properties
  imports Queue_Moves
begin

text \<open>
  The properties of the dispatch queue: exclusive leases, fencing of lost leases, the life cycle of a job as a
  refinement of an abstract machine, idempotent enqueueing, concurrency limits, recovery of
  expired leases, and the workers' capacity with the case that breaks it.
\<close>

abbreviation queue_states :: "queue_db \<Rightarrow> bool" where
  "queue_states \<equiv> reachable (\<lambda>d. d = empty_queue) queue_step"

section \<open>Shared facts\<close>

lemma queue_states_inv: "queue_states d \<Longrightarrow> queue_inv d"
  by (rule dispatch_queue.inv_reachable)

lemma active_attempt:
  assumes inv: "queue_inv d" and a: "a \<in> set (t_attempts d)" "at_State a = AttemptActive"
  obtains j where "GetJob (at_Job a) d = Some j" "q_State j = sql_leased" "under_lease j a" "at_Number a \<le> q_Max j"
proof -
  obtain j where j: "j \<in> set (t_jobs d)" "q_ID j = at_Job a" using inv a(1) by (auto simp: queue_inv_def)
  let ?as = "attempts_of (q_ID j) d"
  have p: "pair_ok j ?as" by (rule queue_inv_pair [OF inv j(1)])
  have in_as: "a \<in> set ?as" using a(1) j(2) by (simp add: attempts_of_def)
  have l: "q_State j = sql_leased"
  proof (rule ccontr)
    assume "q_State j \<noteq> sql_leased"
    then have "list_all idle_attempt ?as" using p unfolding pair_ok_def by presburger
    with in_as a(2) show False by (simp add: list_all_iff idle_attempt_def)
  qed
  then have as: "?as \<noteq> []" "under_lease j (last ?as)" "list_all idle_attempt (butlast ?as)" using p by (simp_all add: pair_ok_def)
  have "a \<notin> set (butlast ?as)" using as(3) a(2) by (auto simp: list_all_iff idle_attempt_def)
  with in_as as(1) have "a = last ?as" by (metis append_butlast_last_id rotate1.simps(2) set_ConsD set_rotate1)
  with as(2) have u: "under_lease j a" by simp
  have "map at_Number ?as = map int [1..<Suc (nat (q_Attempts j))]" using p unfolding pair_ok_def by blast
  moreover have "at_Number a \<in> set (map at_Number ?as)" using in_as by simp
  ultimately have "at_Number a \<in> set (map int [1..<Suc (nat (q_Attempts j))])" by simp
  then have "at_Number a \<le> q_Max j" using p by (auto simp: pair_ok_def simp del: upt_Suc)
  with that j l u GetJob_iff [OF inv] show ?thesis by blast
qed

lemma no_lease_of_ended:
  assumes inv: "queue_inv d" and a: "a \<in> set (t_attempts d)" "idle_attempt a" and j: "j \<in> set (t_jobs d)" "q_State j = sql_leased"
  shows "q_LeaseAttempt j \<noteq> Some (at_ID a)"
proof
  assume l: "q_LeaseAttempt j = Some (at_ID a)"
  obtain b where b: "under_lease j b" "b \<in> set (t_attempts d)" using leased_attempts [OF inv j] by blast
  with l have "at_ID b = at_ID a" by (simp add: under_lease_def)
  then have "b = a" using keyed_row [of at_ID "t_attempts d" b a] inv a(1) b(2) by (simp add: queue_inv_def)
  with a(2) b(1) show False by (simp add: idle_attempt_def under_lease_def)
qed

lemma rest_kept:
  assumes "set (item # items) \<subseteq> A" "distinct (map key (item # items))" "\<And>x. x \<in> A \<Longrightarrow> key x \<noteq> key item \<Longrightarrow> x \<in> B"
  shows "set items \<subseteq> B"
proof
  fix x assume "x \<in> set items"
  with assms(1,2) have "x \<in> A" "key x \<noteq> key item" by (auto simp: image_iff)
  then show "x \<in> B" by (rule assms(3))
qed

lemma reclaim_fold_keeps:
  assumes "queue_inv d" "set items \<subseteq> set (t_jobs d)" "\<forall>j\<in>set items. q_State j = sql_leased" "distinct (map q_ID items)"
    and "x \<in> set (t_jobs d)" "q_ID x \<notin> q_ID ` set items"
  shows "x \<in> set (t_jobs (snd (fold (reclaim_one now) items (n, d))))"
  using assms
proof (induction items arbitrary: n d)
  case (Cons item items)
  have item: "item \<in> set (t_jobs d)" "q_State item = sql_leased" using Cons.prems(2,3) by simp_all
  obtain d' where d': "reclaim_one now item (n, d) = (n + 1, d')" "queue_inv d'" using reclaim_one_cases [OF Cons.prems(1) item] by metis
  note others = reclaim_others [OF Cons.prems(1) item, of _ now n, unfolded d'(1) snd_conv]
  have "set items \<subseteq> set (t_jobs d')" by (rule rest_kept [OF Cons.prems(2,4) others])
  moreover have "x \<in> set (t_jobs d')" using Cons.prems(5,6) others by simp
  ultimately show ?case using Cons.IH [of d' "n + 1"] Cons.prems(3,4,6) d' by simp
qed simp

definition reclaimed_row :: "time \<Rightarrow> job \<Rightarrow> job" where
  "reclaimed_row now j = end_lease (expired_state j) now (if expired_state j = JobQueued then None else Some now) now j"

lemma reclaim_fold_rows:
  assumes "queue_inv d" "set items \<subseteq> set (t_jobs d)" "\<forall>j\<in>set items. q_State j = sql_leased" "distinct (map q_ID items)" "x \<in> set items"
  shows "reclaimed_row now x \<in> set (t_jobs (snd (fold (reclaim_one now) items (n, d))))"
  using assms
proof (induction items arbitrary: n d)
  case (Cons item items)
  have item: "item \<in> set (t_jobs d)" "q_State item = sql_leased" using Cons.prems(2,3) by simp_all
  obtain d' where d': "reclaim_one now item (n, d) = (n + 1, d')" "queue_inv d'"
    "t_jobs d' = update_rows (\<lambda>x. q_ID x = q_ID item \<and> q_State x = sql_leased \<and> q_LeaseAttempt x = q_LeaseAttempt item)
       (end_lease (expired_state item) now (if expired_state item = JobQueued then None else Some now) now) (t_jobs d)"
    by (rule reclaim_one_cases [OF Cons.prems(1) item, of now n]) (rule that, assumption+)
  note others = reclaim_others [OF Cons.prems(1) item, of _ now n, unfolded d'(1) snd_conv]
  have sub: "set items \<subseteq> set (t_jobs d')" by (rule rest_kept [OF Cons.prems(2,4) others])
  show ?case
  proof (cases "x = item")
    case True
    have "reclaimed_row now item \<in> set (t_jobs d')"
      unfolding d'(3) set_update_rows by (rule image_eqI [of _ _ item]) (simp_all add: item reclaimed_row_def)
    then have "reclaimed_row now item \<in> set (t_jobs (snd (fold (reclaim_one now) items (n + 1, d'))))"
      using Cons.prems(3,4) sub by (intro reclaim_fold_keeps [OF d'(2)]) (simp_all add: reclaimed_row_def)
    with True d'(1) show ?thesis by simp
  next
    case False
    with Cons.prems(3-5) sub Cons.IH [of d' "n + 1"] d'(1,2) show ?thesis by simp
  qed
qed simp

section \<open>A concrete run\<close>

definition ex_job :: "string \<Rightarrow> job" where
  "ex_job i = \<lparr>q_ID = i, q_Key = i, q_Project = ''p'', q_Source = [], q_Task = [], q_Workflow = [], q_Agent = [], q_Runner = [],
     q_Pool = [], q_Labels = [], q_Capabilities = [], q_AffinityKey = [], q_AffinityWorker = [], q_PayloadVersion = 1,
     q_Payload = ''{}'', q_Priority = 0, q_State = [], q_Attempts = 0, q_Max = 0, q_Cancel = False, q_AvailableAt = 0,
     q_LeaseAttempt = None, q_LeaseToken = None, q_LeaseWorker = None, q_LeaseExpires = None, q_TerminalAt = None,
     q_CreatedAt = 0, q_UpdatedAt = 0\<rparr>"

definition ex_worker :: qworker where
  "ex_worker = \<lparr>wk_ID = ''w'', wk_Protocol = 1, wk_Pool = [], wk_Labels = [], wk_Capabilities = [], wk_Capacity = 1,
     wk_Ready = True, wk_Draining = False, wk_Active = 0, wk_Heartbeat = 0, wk_RegisteredAt = 0\<rparr>"

definition ex_policy :: "int \<Rightarrow> concurrency_policy" where
  "ex_policy limit = \<lparr>cp_DefaultProject = limit, cp_Projects = Map.empty, cp_DefaultSource = 0, cp_Sources = Map.empty, cp_DefaultAgent = 0,
     cp_Agents = Map.empty, cp_DefaultRunner = 0, cp_Runners = Map.empty, cp_DefaultPool = 0, cp_Pools = Map.empty\<rparr>"

definition ex_claim :: claim_request where
  "ex_claim = \<lparr>cr_Worker = ''w'', cr_LeaseDuration = 30, cr_WorkerTimeout = 30, cr_Policy = ex_policy 2\<rparr>"

definition run_enqueue :: "string \<Rightarrow> queue_db \<Rightarrow> queue_db" where
  "run_enqueue i d = snd (projr (Enqueue (\<lambda>_. True) i 1 (ex_job i) d))"

definition run_register :: "time \<Rightarrow> queue_db \<Rightarrow> queue_db" where
  "run_register now d = projr (RegisterWorker now ex_worker d)"

definition run_claim :: "time \<Rightarrow> string \<Rightarrow> queue_db \<Rightarrow> queue_db" where
  "run_claim now i d = snd (projr (claim (\<lambda>_. now) i i ex_claim d))"

definition run_reclaim :: "time \<Rightarrow> queue_db \<Rightarrow> queue_db" where
  "run_reclaim now d = snd (reclaimExpired now now d)"

definition ex_waiting :: queue_db where
  "ex_waiting = run_register 1 (run_enqueue ''c'' (run_enqueue ''b'' (run_enqueue ''a'' empty_queue)))"

definition ex_leased :: queue_db where
  "ex_leased = run_claim 2 ''x'' ex_waiting"

definition ex_lost :: queue_db where
  "ex_lost = run_reclaim 40 ex_leased"

text \<open>The worker restarts while its first lease is outstanding and takes a job, the old lease expires, and it takes another.\<close>

definition ex_over :: queue_db where
  "ex_over = run_claim 35 ''z'' (run_reclaim 34 (run_claim 20 ''y'' (run_register 10 ex_leased)))"

lemma result_cases: "\<not> isl x \<Longrightarrow> (\<And>y z. x = Inr (y, z) \<Longrightarrow> Q (snd (projr x))) \<Longrightarrow> Q (snd (projr x))"
  by (cases x) auto

lemma run_steps:
  "\<not> isl (Enqueue (\<lambda>_. True) i 1 (ex_job i) d) \<Longrightarrow> queue_step d (run_enqueue i d)"
  "\<not> isl (RegisterWorker now ex_worker d) \<Longrightarrow> queue_step d (run_register now d)"
  "\<not> isl (claim (\<lambda>_. now) aid aid ex_claim d) \<Longrightarrow> queue_step d (run_claim now aid d)"
  "queue_step d (run_reclaim now d)"
  unfolding run_enqueue_def run_register_def run_claim_def run_reclaim_def
  subgoal by (erule result_cases) (auto intro: queue_step.enqueue)
  subgoal by (rule queue_step.register [of now ex_worker]) simp
  subgoal by (erule result_cases) (auto intro: queue_step.claim)
  subgoal by (rule queue_step.reclaim) (rule prod.collapse [symmetric])
  done

lemma queue_ex_steps:
  "queue_step empty_queue (run_enqueue ''a'' empty_queue)"
  "queue_step (run_enqueue ''a'' empty_queue) (run_enqueue ''b'' (run_enqueue ''a'' empty_queue))"
  "queue_step (run_enqueue ''b'' (run_enqueue ''a'' empty_queue)) (run_enqueue ''c'' (run_enqueue ''b'' (run_enqueue ''a'' empty_queue)))"
  "queue_step (run_enqueue ''c'' (run_enqueue ''b'' (run_enqueue ''a'' empty_queue))) ex_waiting"
  "queue_step ex_waiting ex_leased"
  "queue_step ex_leased ex_lost"
  "queue_step ex_leased (run_register 10 ex_leased)"
  "queue_step (run_register 10 ex_leased) (run_claim 20 ''y'' (run_register 10 ex_leased))"
  "queue_step (run_claim 20 ''y'' (run_register 10 ex_leased)) (run_reclaim 34 (run_claim 20 ''y'' (run_register 10 ex_leased)))"
  "queue_step (run_reclaim 34 (run_claim 20 ''y'' (run_register 10 ex_leased))) ex_over"
  subgoal by (rule run_steps) code_simp
  subgoal by (rule run_steps) code_simp
  subgoal by (rule run_steps) code_simp
  subgoal unfolding ex_waiting_def by (rule run_steps) code_simp
  subgoal unfolding ex_leased_def by (rule run_steps) code_simp
  subgoal unfolding ex_lost_def by (rule run_steps)
  subgoal by (rule run_steps) code_simp
  subgoal by (rule run_steps) code_simp
  subgoal by (rule run_steps)
  subgoal unfolding ex_over_def by (rule run_steps) code_simp
  done

lemma queue_states_step: "queue_states d \<Longrightarrow> queue_step d d' \<Longrightarrow> queue_states d'"
  by (rule reachable_step)

lemma ex_states: "queue_states ex_waiting" "queue_states ex_leased" "queue_states ex_lost" "queue_states ex_over"
proof -
  have 0: "queue_states empty_queue" by (simp add: reachable_init)
  note step = queue_states_step
  note w = step [OF step [OF step [OF step [OF 0 queue_ex_steps(1)] queue_ex_steps(2)] queue_ex_steps(3)] queue_ex_steps(4)]
  show "queue_states ex_waiting" by (rule w)
  note l = step [OF w queue_ex_steps(5)]
  show "queue_states ex_leased" by (rule l)
  show "queue_states ex_lost" by (rule step [OF l queue_ex_steps(6)])
  show "queue_states ex_over" by (rule step [OF step [OF step [OF step [OF l queue_ex_steps(7)] queue_ex_steps(8)] queue_ex_steps(9)] queue_ex_steps(10)])
qed

section \<open>Properties\<close>

text \<open>
  C10. In every state the queue can reach, a job is executed under at most one claim: two active attempts at the same
  job are the same attempt, it is the one the job's lease names, with the lease's worker, token and expiry,
  and its number is within the job's \<open>max_attempts\<close>.
\<close>

theorem lease_exclusive:
  assumes "queue_states d" "a \<in> set (t_attempts d)" "b \<in> set (t_attempts d)" "at_State a = AttemptActive" "at_State b = AttemptActive"
    "at_Job a = at_Job b"
  shows "a = b \<and> (\<exists>j. GetJob (at_Job a) d = Some j \<and> q_State j = sql_leased \<and> under_lease j a \<and> at_Number a \<le> q_Max j)"
proof -
  note inv = queue_states_inv [OF assms(1)]
  obtain j where j: "GetJob (at_Job a) d = Some j" "q_State j = sql_leased" "under_lease j a" "at_Number a \<le> q_Max j"
    by (rule active_attempt [OF inv assms(2,4)])
  obtain k where "GetJob (at_Job b) d = Some k" "under_lease k b" by (rule active_attempt [OF inv assms(3,5)])
  with j assms(6) have "at_ID a = at_ID b" by (simp add: under_lease_def)
  then have "a = b" using keyed_row [of at_ID "t_attempts d" a b] inv assms(2,3) by (simp add: queue_inv_def)
  with j show ?thesis by blast
qed

theorem lease_exclusive_witness:
  "(\<exists>j. GetJob ''a'' ex_leased = Some j \<and> under_lease j (hd (t_attempts ex_leased)))"
proof -
  let ?a = "hd (t_attempts ex_leased)"
  have "?a \<in> set (t_attempts ex_leased)" "at_State ?a = AttemptActive" "at_Job ?a = ''a''" by code_simp+
  with lease_exclusive [OF ex_states(2), of ?a ?a] show ?thesis by auto
qed

text \<open>
  C11. A worker whose attempt has ended, because it finished, was cancelled or lost its lease, can never
  touch the queue again with that claim: in every later state its heartbeat and its finish are refused as stale.
\<close>

theorem lost_lease_fenced:
  assumes "queue_states d" "a \<in> set (t_attempts d)" "at_State a \<noteq> AttemptActive" "queue_step\<^sup>*\<^sup>* d d'"
  shows "finish now jobID (at_ID a) token res d' = Inl ErrStaleClaim \<and> heartbeat clock jobID (at_ID a) token ext d' = Inl ErrStaleClaim"
proof -
  have inv: "queue_inv d" "queue_inv d'" using queue_states_inv [OF assms(1)] dispatch_queue.inv_steps [OF assms(4)] by blast+
  have "kept d d'" by (rule dispatch_queue.mono_steps [OF assms(4) inv(1)])
  then have a: "a \<in> set (t_attempts d')" "idle_attempt a" using assms(2,3) by (auto simp: kept_def idle_attempt_def)
  have "\<not> holds_lease jobID (at_ID a) token j" if "j \<in> set (t_jobs d')" for j
    using no_lease_of_ended [OF inv(2) a that] by (auto simp: holds_lease_def)
  then have "find (holds_lease jobID (at_ID a) token) (t_jobs d') = None" by (simp add: find_None_iff)
  then show ?thesis by (simp add: finish_def heartbeat_def Let_def)
qed

theorem lost_lease_fenced_witness:
  "heartbeat (\<lambda>_. 41) ''a'' ''x'' ''x'' 30 ex_lost = Inl ErrStaleClaim"
proof -
  let ?a = "hd (t_attempts ex_lost)"
  have "?a \<in> set (t_attempts ex_lost)" "at_State ?a \<noteq> AttemptActive" "at_ID ?a = ''x''" by code_simp+
  with lost_lease_fenced [OF ex_states(3), of ?a ex_lost] show ?thesis by simp
qed

text \<open>
  C12. The store refines the abstract life of a job: every operation takes every job along the steps of the abstract machine only
  (it arrives waiting, is held by one attempt, comes back while attempts are left, ends once) or leaves it where it is.
\<close>

theorem job_lifecycle:
  assumes "queue_states d" "queue_step d d'"
  shows "phase_step\<^sup>*\<^sup>* (job_phase i d) (job_phase i d')"
  using queue_step_moves [OF queue_states_inv [OF assms(1)] assms(2)] by (simp add: moves_def)

theorem job_lifecycle_witness:
  "job_phase ''a'' ex_waiting = Waiting 3 0 \<and> job_phase ''a'' ex_leased = Held 3 1 ''x''
   \<and> phase_step\<^sup>*\<^sup>* (job_phase ''a'' ex_waiting) (job_phase ''a'' ex_leased)"
proof -
  have "job_phase ''a'' ex_waiting = Waiting 3 0" "job_phase ''a'' ex_leased = Held 3 1 ''x''" by code_simp+
  with job_lifecycle [OF ex_states(1) queue_ex_steps(5), of "''a''"] show ?thesis by blast
qed

text \<open>
  Enqueueing is idempotent: after a successful enqueue, another valid job with the same idempotency key is not
  inserted, the existing job is returned and nothing changes.
\<close>

theorem enqueue_once:
  assumes "Enqueue json_valid newID now job d = Inr ((inserted, row), d')"
    and "q_Key job' = q_Key job" "0 < q_PayloadVersion job'" "json_valid (q_Payload job')"
  shows "Enqueue json_valid newID' now' job' d' = Inr ((False, row), d')"
proof -
  have k: "q_Key (enqueue_row i t j) = q_Key j" for i t j by (simp add: enqueue_row_def)
  have "getJobByKey (q_Key job) d' = Some row"
  proof (cases inserted)
    case True
    then have d': "d' = d\<lparr>t_jobs := t_jobs d @ [row]\<rparr>" "row = enqueue_row newID now job" "\<forall>j\<in>set (t_jobs d). q_Key j \<noteq> q_Key job"
      using assms(1) by (auto simp: Enqueue_def k Let_def list_ex_iff split: if_splits option.splits)
    then show ?thesis by (simp add: getJobByKey_def find_snoc k find_None_iff [THEN iffD2])
  next
    case False
    then show ?thesis using assms(1) by (auto simp: Enqueue_def Let_def split: if_splits option.splits)
  qed
  moreover from this have "\<exists>j\<in>set (t_jobs d'). q_Key j = q_Key job" by (auto simp: getJobByKey_def find_Some_iff)
  moreover have "trim_space (q_Key job') \<noteq> []" using assms(1,2) by (auto simp: Enqueue_def split: if_splits)
  ultimately show ?thesis using assms(2-4) by (auto simp: Enqueue_def Let_def k list_ex_iff)
qed

theorem enqueue_once_witness:
  "Enqueue (\<lambda>_. True) ''other'' 9 (ex_job ''a'') (run_enqueue ''a'' empty_queue)
     = Inr ((False, enqueue_row ''a'' 1 (ex_job ''a'')), run_enqueue ''a'' empty_queue)"
proof -
  have "Enqueue (\<lambda>_. True) ''a'' 1 (ex_job ''a'') empty_queue
      = Inr ((True, enqueue_row ''a'' 1 (ex_job ''a'')), run_enqueue ''a'' empty_queue)"
    by (simp add: Enqueue_def run_enqueue_def empty_queue_def ex_job_def trim_space_def is_space_def Let_def)
  from enqueue_once [OF this, of "ex_job ''a''"] show ?thesis by (simp add: ex_job_def)
qed

text \<open>
  C13. A claim never takes a concurrency scope over its limit: after it, for each of project, source, agent, runner and pool that the claimed
  job names and the policy limits, at most the limit of jobs are leased in that scope.
\<close>

theorem claim_policy:
  assumes "queue_states d" "claim clock attemptID token req d = Inr ((job, attempt), d')"
    and "(field, limit) \<in> set (scopes (cr_Policy req))" "0 < limit (field job)" "field job \<noteq> []"
  shows "int (leased_with field (field job) d') \<le> limit (field job)"
proof (cases rule: claim_cases [OF assms(2)])
  case (1 w j ex)
  note inv = queue_states_inv [OF assms(1)]
  note g = grant_lease_cases [OF 1(8)]
  have st: "q_State j = sql_queued" "\<not> q_Cancel j" using 1(5) by (simp_all add: claimable_def)
  have f: "field (claimed_job (wk_ID w) ex (clock 2) x) = field x" "field (lease_row attemptID token (wk_ID w) ex (clock 2) x) = field x" for x
    using assms(3) by (auto simp: scopes_def claimed_job_def lease_row_def)
  then have job: "field job = field j" using 1(9) by simp
  have before: "int (leased_with field (field j) d) < limit (field j)"
    using 1(7) assms(3-5) unfolding withinPolicy_def list_all_iff job by fastforce
  let ?Q = "\<lambda>x. q_State x = sql_leased \<and> field x = field j"
  have "count_if ?Q (t_jobs d') + (if ?Q j then 1 else 0)
      = count_if ?Q (t_jobs d) + (if ?Q (lease_row attemptID token (wk_ID w) ex (clock 2) j) then 1 else 0)"
    unfolding g(1) by (rule count_if_update [where key = q_ID]) (use inv 1(4) st in \<open>simp_all add: queue_inv_def\<close>)
  then have "leased_with field (field j) d' = leased_with field (field j) d + 1" by (simp add: leased_with_def f st(1))
  with before job show ?thesis by simp
qed

theorem claim_policy_witness:
  "int (leased_with q_Project ''p'' ex_leased) \<le> 2"
proof -
  let ?r = "claim (\<lambda>_. 2) ''x'' ''x'' ex_claim ex_waiting"
  have "\<not> isl ?r" and p: "q_Project (fst (fst (projr ?r))) = ''p''" by code_simp+
  then have r: "?r = Inr ((fst (fst (projr ?r)), snd (fst (projr ?r))), ex_leased)" by (cases ?r) (auto simp: ex_leased_def run_claim_def)
  have s: "(q_Project, \<lambda>v. scopedLimit (cp_Projects (ex_policy 2)) v (cp_DefaultProject (ex_policy 2))) \<in> set (scopes (cr_Policy ex_claim))"
    by (simp add: scopes_def ex_claim_def)
  from claim_policy [OF ex_states(1) r s] show ?thesis by (simp add: p scopedLimit_def ex_policy_def)
qed

text \<open>
  Reclaiming breaks every lease that has expired by the cutoff: a cancelled job ends cancelled, a job without attempts
  left ends failed, and any other is queued again, available at once and without a lease.
\<close>

theorem expired_recovered:
  assumes "queue_states d" "j \<in> set (t_jobs d)" "q_State j = sql_leased" "q_LeaseExpires j = Some t" "t \<le> cutoff"
    and "reclaimExpired now cutoff d = (n, d')"
  shows "\<exists>j'. GetJob (q_ID j) d' = Some j' \<and> unleased j' \<and> q_AvailableAt j' = now \<and> q_Attempts j' = q_Attempts j
    \<and> q_State j' = (if q_Cancel j then JobCanceled else if q_Attempts j < q_Max j then JobQueued else JobFailed)"
proof -
  note inv = queue_states_inv [OF assms(1)]
  have "queue_inv d'" using reclaimExpired_inv [OF inv assms(6)] .
  moreover have "j \<in> set (expired_jobs cutoff d)" using assms(2-5) by (simp add: expired_jobs_def)
  then have "reclaimed_row now j \<in> set (t_jobs d')"
    using reclaim_fold_rows [OF inv expired_jobs_ok [OF inv], of j cutoff now 0] assms(6) by (simp add: reclaimExpired_def)
  ultimately have "GetJob (q_ID j) d' = Some (reclaimed_row now j)" by (simp add: GetJob_iff) (simp add: reclaimed_row_def)
  then show ?thesis by (simp add: reclaimed_row_def end_lease_def unleased_def expired_state_def)
qed

theorem expired_recovered_witness:
  "job_phase ''a'' ex_leased = Held 3 1 ''x'' \<and> (\<exists>j'. GetJob ''a'' ex_lost = Some j' \<and> unleased j' \<and> q_State j' = JobQueued)"
proof -
  let ?j = "hd (t_jobs ex_leased)"
  have ph: "job_phase ''a'' ex_leased = Held 3 1 ''x''" by code_simp
  have j: "?j \<in> set (t_jobs ex_leased)" "q_State ?j = sql_leased" "q_LeaseExpires ?j = Some 32" by code_simp+
  have v: "q_ID ?j = ''a''" "\<not> q_Cancel ?j" "q_Attempts ?j < q_Max ?j" by code_simp+
  have r: "reclaimExpired 40 40 ex_leased = (fst (reclaimExpired 40 40 ex_leased), ex_lost)" by (simp add: ex_lost_def run_reclaim_def)
  have "(32 :: time) \<le> 40" by simp
  from expired_recovered [OF ex_states(2) j this r] v ph show ?thesis by auto
qed

text \<open>
  C14. As long as a worker registers only while it holds no lease, its slot counter is the number of jobs leased to it, and it never holds more than its
  capacity.
\<close>

theorem slots_exact:
  assumes "reachable (\<lambda>d. d = empty_queue) orderly_step d" "w \<in> set (t_workers d)"
  shows "wk_Active w = int (held_by (wk_ID w) d) \<and> int (held_by (wk_ID w) d) \<le> wk_Capacity w"
proof -
  have "slots_ok d" using orderly_queue.inv_reachable [OF assms(1)] by blast
  with assms(2) have "wk_Active w = int (held_by (wk_ID w) d)" "wk_Active w \<le> wk_Capacity w" by (auto simp: slots_ok_def)
  then show ?thesis by simp
qed

lemma orderly_if_free:
  assumes "queue_step d d'" "list_all (\<lambda>j. q_State j \<noteq> sql_leased) (t_jobs d)"
  shows "orderly_step d d'"
proof -
  have "held_by i d = 0" for i using assms(2) by (auto simp: held_by_def leased_to_def count_if_0_iff list_all_iff)
  with assms(1) show ?thesis by (intro orderly) simp_all
qed

theorem slots_exact_witness:
  "map wk_Active (t_workers ex_leased) = [1] \<and> held_by ''w'' ex_leased = 1"
proof -
  let ?I = "\<lambda>d. d = empty_queue" and ?w = "hd (t_workers ex_leased)"
  have step: "reachable ?I orderly_step d'" if "reachable ?I orderly_step d" "queue_step d d'" "list_all (\<lambda>j. q_State j \<noteq> sql_leased) (t_jobs d)" for d d'
    using that orderly_if_free reachable_step by metis
  have "reachable ?I orderly_step empty_queue" by (simp add: reachable_init)
  then have "reachable ?I orderly_step (run_enqueue ''a'' empty_queue)" by (rule step [OF _ queue_ex_steps(1)]) code_simp
  then have "reachable ?I orderly_step (run_enqueue ''b'' (run_enqueue ''a'' empty_queue))" by (rule step [OF _ queue_ex_steps(2)]) code_simp
  then have "reachable ?I orderly_step (run_enqueue ''c'' (run_enqueue ''b'' (run_enqueue ''a'' empty_queue)))"
    by (rule step [OF _ queue_ex_steps(3)]) code_simp
  then have "reachable ?I orderly_step ex_waiting" by (rule step [OF _ queue_ex_steps(4)]) code_simp
  then have r: "reachable ?I orderly_step ex_leased" by (rule step [OF _ queue_ex_steps(5)]) code_simp
  have w: "?w \<in> set (t_workers ex_leased)" "wk_ID ?w = ''w''" "wk_Active ?w = 1" "map wk_Active (t_workers ex_leased) = [1]" by code_simp+
  from slots_exact [OF r w(1)] w show ?thesis by simp
qed

text \<open>
  A restart breaks the limit: registering again resets the counter while the old lease is outstanding, and
  reclaiming that lease later frees a slot of the new process. In the run below a worker of capacity one holds two
  unexpired leases, each obtained by a claim the store accepted.
\<close>

theorem capacity_exceeded:
  "queue_states ex_over \<and> map (\<lambda>w. (wk_ID w, wk_Capacity w)) (t_workers ex_over) = [(''w'', 1)] \<and> held_by ''w'' ex_over = 2
   \<and> expired_jobs 35 ex_over = []"
proof -
  have "map (\<lambda>w. (wk_ID w, wk_Capacity w)) (t_workers ex_over) = [(''w'', 1)]" "held_by ''w'' ex_over = 2" "expired_jobs 35 ex_over = []"
    by code_simp+
  with ex_states(4) show ?thesis by blast
qed

text \<open>
  Listing the jobs in state \<open>queue.JobLeased\<close> finds nothing, whatever is leased: the constant is \<open>running\<close>, the statements store \<open>leased\<close>.
\<close>

theorem leases_unlisted:
  assumes "queue_states d"
  shows "ListJobs JobLeased limit d = []"
proof -
  have "q_State j \<noteq> JobLeased" if "j \<in> set (t_jobs d)" for j
    using queue_inv_pair [OF queue_states_inv [OF assms] that]
    by (auto simp: pair_ok_def settled_job_def job_states split: if_splits)
  then have "filter (\<lambda>j. q_State j = JobLeased) (t_jobs d) = []" by (simp add: filter_empty_conv)
  moreover have "JobLeased \<noteq> []" by (simp add: JobLeased_def)
  ultimately show ?thesis by (simp add: ListJobs_def Let_def)
qed

theorem leases_unlisted_witness: "held_by ''w'' ex_leased = 1 \<and> ListJobs JobLeased 10 ex_leased = []"
proof -
  have "held_by ''w'' ex_leased = 1" by code_simp
  with leases_unlisted [OF ex_states(2), of 10] show ?thesis by blast
qed

end
