(* ===== verification/Parallel_Step.thy ===== *)
theory Parallel_Step
  imports Dag_Gates Tables
begin

text \<open>
  Parallel groups (\<open>internal/workflow/dag_parallel.go\<close>). The goroutines of the children are one function from a child to
  what its execution returns: results are collected by index, so the order in which the children
  finish is not observable. The answers of an agent and of a wait are arguments, the latter with the error
  the wait may return instead.
\<close>

section \<open>Children\<close>

record parallelChildResult =
  cr_step :: step_config
  cr_res :: step_result

record parallelState =
  ps_waitingChild :: string
  ps_done :: "string \<rightharpoonup> step_result"

definition failed_result :: "string \<Rightarrow> step_result" where
  "failed_result output = \<lparr>sr_Success = False, sr_Output = output, sr_Structured = [], sr_Summary = [], sr_Pending = False,
     sr_Conflict = False\<rparr>"

definition pending_result :: step_result where
  "pending_result = (failed_result [])\<lparr>sr_Pending := True\<rparr>"

definition runParallelChild ::
  "(step_config \<Rightarrow> step_result) \<Rightarrow> (step_config \<Rightarrow> string + step_result) \<Rightarrow> step_config \<Rightarrow> step_result" where
  "runParallelChild runStep runWait child =
     (if StepType child = StepTypeAgent then runStep child
      else if StepType child = StepTypeWaitFor then
        (case runWait child of Inl err \<Rightarrow> failed_result err | Inr res \<Rightarrow> res)
      else failed_result (''step type '' @ go_quote (StepType child) @ '' is not supported inside a parallel group''))"

definition child_result ::
  "(step_config \<Rightarrow> step_result) \<Rightarrow> (step_config \<Rightarrow> string + step_result) \<Rightarrow> (string \<rightharpoonup> step_result) \<Rightarrow>
     step_config \<Rightarrow> parallelChildResult" where
  "child_result runStep runWait cached child =
     \<lparr>cr_step = child,
      cr_res = (case cached (sid child) of Some res \<Rightarrow> res
                | None \<Rightarrow> applyMissingOutput child (runParallelChild runStep runWait child))\<rparr>"

section \<open>The join\<close>

definition joinDecided :: "string \<Rightarrow> parallelChildResult list \<Rightarrow> bool option" where
  "joinDecided join results =
     (if join = JoinAny then (if list_ex (\<lambda>cr. sr_Success (cr_res cr)) results then Some True else None)
      else if join = [] \<or> join = JoinAll
      then (if list_ex (\<lambda>cr. \<not> sr_Pending (cr_res cr) \<and> \<not> sr_Success (cr_res cr)) results then Some False else None)
      else None)"

definition allChildrenPassed :: "parallelChildResult list \<Rightarrow> bool" where
  "allChildrenPassed results = list_all (\<lambda>cr. sr_Success (cr_res cr)) results"

definition join_steps :: "parallelChildResult list \<Rightarrow> (string \<rightharpoonup> step_state)" where
  "join_steps results =
     fold (\<lambda>cr m. m(sid (cr_step cr) \<mapsto>
        \<lparr>ss_State = passFail (sr_Success (cr_res cr)), ss_ExitCode = 0, ss_Output = sr_Output (cr_res cr)\<rparr>)) results Map.empty"

definition applyJoinPolicy ::
  "golib \<Rightarrow> string \<Rightarrow> parallelChildResult list \<Rightarrow> source_item \<Rightarrow> memory_step list \<Rightarrow> expr_error + bool" where
  "applyJoinPolicy lib join results cell memSnap =
     (if join = JoinAny then Inr (list_ex (\<lambda>cr. sr_Success (cr_res cr)) results)
      else if join = [] \<or> join = JoinAll then Inr (allChildrenPassed results)
      else bind_res (ParseExpr (stripExprDelimiters join)) (\<lambda>e.
        Eval (lib_re lib) e \<lparr>ec_Cell = cell, ec_Memory = memoryValuesFrom lib memSnap, ec_Steps = join_steps results,
          ec_Event = Map.empty\<rparr>))"

section \<open>The group\<close>

definition group_state :: "parallelChildResult list \<Rightarrow> parallelState" where
  "group_state results =
     fold (\<lambda>cr st. if sr_Pending (cr_res cr) then st\<lparr>ps_waitingChild := sid (cr_step cr)\<rparr>
                   else st\<lparr>ps_done := (ps_done st)(sid (cr_step cr) \<mapsto> cr_res cr)\<rparr>)
       results \<lparr>ps_waitingChild = [], ps_done = Map.empty\<rparr>"

definition join_group ::
  "golib \<Rightarrow> step_config \<Rightarrow> parallelChildResult list \<Rightarrow> source_item \<Rightarrow> memory_step list \<Rightarrow>
     step_result \<times> memory_step list \<times> parallelState" where
  "join_group lib step results cell memSnap =
     (let st = group_state results; join = Join (flds step) in
      if ps_waitingChild st \<noteq> [] \<and> joinDecided join results = None then (pending_result, [], st)
      else case applyJoinPolicy lib join results cell memSnap of
        Inl err \<Rightarrow> (failed_result (''join eval error '' @ go_quote join @ '': '' @ expr_error_msg err), [], st)
      | Inr True \<Rightarrow> ((failed_result [])\<lparr>sr_Success := True, sr_Summary := ''parallel: joined''\<rparr>,
                    map (\<lambda>cr. own_contrib (cr_step cr) (cr_res cr)) (filter (\<lambda>cr. sr_Success (cr_res cr)) results), st)
      | Inr False \<Rightarrow> (failed_result [], [], st))"

definition runParallelStep ::
  "golib \<Rightarrow> (step_config \<Rightarrow> step_result) \<Rightarrow> (step_config \<Rightarrow> string + step_result) \<Rightarrow> step_config \<Rightarrow> source_item \<Rightarrow>
     memory_step list \<Rightarrow> (string \<rightharpoonup> step_result) \<Rightarrow> step_result \<times> memory_step list \<times> parallelState" where
  "runParallelStep lib runStep runWait step cell memSnap cached =
     (if SubSteps step = []
      then ((failed_result [])\<lparr>sr_Success := True, sr_Summary := ''parallel: no children''\<rparr>, [], \<lparr>ps_waitingChild = [], ps_done = Map.empty\<rparr>)
      else join_group lib step (map (child_result runStep runWait cached) (SubSteps step)) cell memSnap)"

section \<open>Facts\<close>

lemma join_policy_distinct [simp]: "JoinAny \<noteq> []" "JoinAll \<noteq> []" "JoinAll \<noteq> JoinAny" "JoinAny \<noteq> JoinAll"
  by (simp_all add: JoinAny_def JoinAll_def)

lemma failed_result_simps [simp]:
  "sr_Success (failed_result o') = False" "sr_Pending (failed_result o') = False" "sr_Pending pending_result" "\<not> sr_Success pending_result"
  by (simp_all add: failed_result_def pending_result_def)

lemma group_state_done:
  assumes "distinct (map (sid \<circ> cr_step) results)"
  shows "ps_done (group_state results) i =
    (case find (\<lambda>cr. sid (cr_step cr) = i) results of None \<Rightarrow> None | Some cr \<Rightarrow> if sr_Pending (cr_res cr) then None else Some (cr_res cr))"
proof -
  let ?f = "\<lambda>cr (st :: parallelState). if sr_Pending (cr_res cr) then st\<lparr>ps_waitingChild := sid (cr_step cr)\<rparr>
                   else st\<lparr>ps_done := (ps_done st)(sid (cr_step cr) \<mapsto> cr_res cr)\<rparr>"
  have "ps_done (fold ?f results st) i =
      (case find (\<lambda>cr. sid (cr_step cr) = i) results of None \<Rightarrow> ps_done st i
       | Some cr \<Rightarrow> if sr_Pending (cr_res cr) then ps_done st i else Some (cr_res cr))" for st
    using assms
  proof (induction results arbitrary: st)
    case (Cons cr results)
    show ?case
    proof (cases "sid (cr_step cr) = i")
      case True
      then have "find (\<lambda>cr. sid (cr_step cr) = i) results = None"
        using Cons.prems by (simp add: find_None_iff) (metis image_eqI)
      with True Cons show ?thesis by simp
    next
      case False
      with Cons show ?thesis by (simp split: option.splits)
    qed
  qed simp
  then show ?thesis by (simp add: group_state_def split: option.splits)
qed

text \<open>A later answer of the pending children.\<close>

definition completed :: "parallelChildResult list \<Rightarrow> parallelChildResult list \<Rightarrow> bool" where
  "completed results results' \<longleftrightarrow> list_all2 (\<lambda>a b. cr_step b = cr_step a \<and> (\<not> sr_Pending (cr_res a) \<longrightarrow> cr_res b = cr_res a)) results results'"

lemma completed_member:
  assumes "completed results results'" "a \<in> set results" "\<not> sr_Pending (cr_res a)"
  shows "\<exists>b\<in>set results'. cr_res b = cr_res a"
  using assms unfolding completed_def by (induction results results' rule: list_all2_induct) auto

section \<open>Properties\<close>

definition ex_child :: "string \<Rightarrow> string \<Rightarrow> step_config" where
  "ex_child i ty = Step (zero_fields\<lparr>ID := i, Type := ty\<rparr>) [] [] None"

definition ex_group :: step_config where
  "ex_group = Step (zero_fields\<lparr>ID := ''g'', Type := ''parallel''\<rparr>) [ex_child ''r'' [], ex_child ''ci'' ''wait_for''] [] None"

text \<open>
  C15. A join declared decided before every child has answered is decided rightly: whatever the pending children answer later, the
  policy applied to the complete results gives the announced outcome. (A pending result is never a success.)
\<close>

theorem join_decided_sound:
  assumes "joinDecided join results = Some outcome" "list_all (\<lambda>cr. \<not> (sr_Pending (cr_res cr) \<and> sr_Success (cr_res cr))) results"
    and "completed results results'"
  shows "applyJoinPolicy lib join results' cell mem = Inr outcome \<and> applyJoinPolicy lib join results cell mem = Inr outcome"
proof (cases "join = JoinAny")
  case True
  then have o: "outcome" and ex: "\<exists>a\<in>set results. sr_Success (cr_res a)" using assms(1) by (auto simp: joinDecided_def list_ex_iff split: if_splits)
  then obtain a where a: "a \<in> set results" "sr_Success (cr_res a)" by blast
  with assms(2) have "\<not> sr_Pending (cr_res a)" by (auto simp: list_all_iff)
  from completed_member [OF assms(3) a(1) this] a have "\<exists>b\<in>set results'. sr_Success (cr_res b)" by metis
  with True o ex show ?thesis by (simp add: applyJoinPolicy_def list_ex_iff)
next
  case False
  then have j: "join = [] \<or> join = JoinAll" and o: "\<not> outcome" and ex: "\<exists>a\<in>set results. \<not> sr_Pending (cr_res a) \<and> \<not> sr_Success (cr_res a)"
    using assms(1) by (auto simp: joinDecided_def list_ex_iff split: if_splits)
  then obtain a where a: "a \<in> set results" "\<not> sr_Pending (cr_res a)" "\<not> sr_Success (cr_res a)" by blast
  from completed_member [OF assms(3) a(1,2)] a(3) have "\<exists>b\<in>set results'. \<not> sr_Success (cr_res b)" by metis
  with False j o a show ?thesis by (auto simp: applyJoinPolicy_def allChildrenPassed_def list_all_iff)
qed

theorem join_decided_sound_witness:
  "(let a = \<lparr>cr_step = ex_child ''r'' [], cr_res = failed_result []\<rparr>; w = \<lparr>cr_step = ex_child ''ci'' ''wait_for'', cr_res = pending_result\<rparr>;
        w' = w\<lparr>cr_res := ex_result []\<rparr>
    in applyJoinPolicy ex_lib JoinAll [a, w'] empty_item [] = Inr False)"
proof -
  let ?a = "\<lparr>cr_step = ex_child ''r'' [], cr_res = failed_result []\<rparr>" and ?w = "\<lparr>cr_step = ex_child ''ci'' ''wait_for'', cr_res = pending_result\<rparr>"
  have "joinDecided JoinAll [?a, ?w] = Some False" "list_all (\<lambda>cr. \<not> (sr_Pending (cr_res cr) \<and> sr_Success (cr_res cr))) [?a, ?w]"
    "completed [?a, ?w] [?a, ?w\<lparr>cr_res := ex_result []\<rparr>]"
    by (simp_all add: joinDecided_def completed_def)
  from join_decided_sound [OF this] show ?thesis by simp
qed

text \<open>
  Parking a group loses nothing and repeats nothing: a pass that parks followed by a pass that replays
  the finished children gives what a single pass would have given in which each child answers once, the finished ones as in the first pass and
  the pending ones as in the second.
\<close>

theorem parallel_resume:
  assumes "runParallelStep lib runStep1 runWait1 step cell mem Map.empty = (res1, contribs1, st1)" "sr_Pending res1"
    and "distinct (map sid (SubSteps step))"
    and "\<And>c. child c = applyMissingOutput c (runParallelChild runStep1 runWait1 c)"
    and "\<And>c. runStep c = (if sr_Pending (child c) then runStep2 c else runStep1 c)"
    and "\<And>c. runWait c = (if sr_Pending (child c) then runWait2 c else runWait1 c)"
  shows "runParallelStep lib runStep2 runWait2 step cell mem2 (ps_done st1) = runParallelStep lib runStep runWait step cell mem2 Map.empty"
proof -
  let ?cs = "SubSteps step"
  have ne: "?cs \<noteq> []" using assms(1,2) by (auto simp: runParallelStep_def)
  define results where "results = map (child_result runStep1 runWait1 Map.empty) ?cs"
  have r1: "join_group lib step results cell mem = (res1, contribs1, st1)" using assms(1) ne by (simp add: runParallelStep_def results_def)
  have st1: "st1 = group_state results"
    using r1 by (auto simp: join_group_def Let_def split: if_splits sum.splits bool.splits)
  have s: "map (sid \<circ> cr_step) results = map sid ?cs" by (simp add: results_def child_result_def)
  have "ps_done st1 (sid c) = (if sr_Pending (child c) then None else Some (child c))" if "c \<in> set ?cs" for c
  proof -
    have "find (\<lambda>cr. sid (cr_step cr) = sid c) results = Some (child_result runStep1 runWait1 Map.empty c)"
    proof -
      have "distinct (map (\<lambda>cr. sid (cr_step cr)) results)" using s assms(3) by (simp add: comp_def)
      moreover have "child_result runStep1 runWait1 Map.empty c \<in> set results" using that by (simp add: results_def)
      ultimately show ?thesis by (simp add: find_keyed) (simp add: child_result_def)
    qed
    then show ?thesis using group_state_done [of results "sid c"] s assms(3) by (simp add: st1 child_result_def assms(4))
  qed
  then have "child_result runStep2 runWait2 (ps_done st1) c = child_result runStep runWait Map.empty c" if "c \<in> set ?cs" for c
    using that assms(4-6) by (simp add: child_result_def runParallelChild_def)
  then have m: "map (child_result runStep2 runWait2 (ps_done st1)) ?cs = map (child_result runStep runWait Map.empty) ?cs" by simp
  show ?thesis unfolding runParallelStep_def m ..
qed

theorem parallel_resume_witness:
  "(let st1 = snd (snd (runParallelStep ex_lib (\<lambda>_. ex_result []) (\<lambda>_. Inr pending_result) ex_group empty_item [] Map.empty));
        out = runParallelStep ex_lib (\<lambda>_. failed_result []) (\<lambda>_. Inr (ex_result [])) ex_group empty_item [] (ps_done st1)
    in ps_waitingChild st1 = ''ci'' \<and> sr_Success (fst out))"
proof -
  let ?p = "runParallelStep ex_lib (\<lambda>_. ex_result []) (\<lambda>_. Inr pending_result) ex_group empty_item [] Map.empty"
  let ?child = "\<lambda>c. applyMissingOutput c (runParallelChild (\<lambda>_. ex_result []) (\<lambda>_. Inr pending_result) c)"
  let ?runStep = "\<lambda>c. if sr_Pending (?child c) then failed_result [] else ex_result []"
  let ?runWait = "\<lambda>c. if sr_Pending (?child c) then Inr (ex_result []) else Inr pending_result :: string + step_result"
  have p: "?p = (fst ?p, fst (snd ?p), snd (snd ?p))" by simp
  have pend: "sr_Pending (fst ?p)" and w: "ps_waitingChild (snd (snd ?p)) = ''ci''" and d: "distinct (map sid (SubSteps ex_group))" by code_simp+
  have "runParallelStep ex_lib (\<lambda>_. failed_result []) (\<lambda>_. Inr (ex_result [])) ex_group empty_item [] (ps_done (snd (snd ?p)))
      = runParallelStep ex_lib ?runStep ?runWait ex_group empty_item [] Map.empty"
    by (rule parallel_resume [OF p pend d refl refl refl])
  moreover have "sr_Success (fst (runParallelStep ex_lib ?runStep ?runWait ex_group empty_item [] Map.empty))" by code_simp
  ultimately show ?thesis using w by (simp add: Let_def)
qed

end
