(* ===== verification/Wait_Step.thy ===== *)
theory Wait_Step
  imports Dag_Gates Parallel_Step
begin

text \<open>
  One check of a \<open>wait_for\<close> step (\<open>internal/workflow/wait_step.go\<close>). The CI and blocker services are arguments: what a checker
  returns for a request, or no checker when none is wired. A check returns the step's result together with
  the polls it records. \<open>fmt_duration\<close> is how a duration prints.
\<close>

section \<open>Services\<close>

record wait_target =
  wt_TaskID :: string
  wt_SourceID :: string
  wt_SourceItemID :: string

record ci_request =
  ci_TaskID :: string
  ci_SourceID :: string
  ci_SourceItemID :: string
  ci_CISourceID :: string

datatype ci_answer =
  ErrPRNotLinked
| CIUnsupported string
| CIError string
| CIStatus (ci_Status: string) (ci_URL: string) (ci_Checks: "(string \<times> string) list")

record blocker_ref =
  br_Number :: string
  br_State :: string
  br_Merged :: bool

datatype dep_answer =
  DepUnsupported string
| DepError string
| Blockers "blocker_ref list"

record poll_check =
  pc_Instance :: string
  pc_StepID :: string
  pc_Status :: string
  pc_URL :: string
  pc_Detail :: string

type_synonym wait_outcome = "step_result \<times> poll_check list"

definition recordCIPoll :: "string \<Rightarrow> string \<Rightarrow> string \<Rightarrow> string \<Rightarrow> string \<Rightarrow> poll_check list" where
  "recordCIPoll instID stepID status url detail =
     (if instID = [] then [] else [\<lparr>pc_Instance = instID, pc_StepID = stepID, pc_Status = status, pc_URL = url, pc_Detail = detail\<rparr>])"

section \<open>Rendering\<close>

definition kv_put :: "string \<times> string \<Rightarrow> (string \<times> gval) list \<Rightarrow> (string \<times> gval) list" where
  "kv_put kv m = filter (\<lambda>(k, v). k \<noteq> fst kv) m @ [(fst kv, GStr (snd kv))]"

definition checksToMap :: "(string \<times> string) list \<Rightarrow> (string \<times> gval) list" where
  "checksToMap checks = fold kv_put checks []"

definition blockersToMap :: "blocker_ref list \<Rightarrow> (string \<times> gval) list" where
  "blockersToMap blockers =
     fold (\<lambda>b. kv_put (br_Number b, if br_Merged b then ''merged'' else br_State b)) blockers []"

definition encodeBlockers :: "golib \<Rightarrow> blocker_ref list \<Rightarrow> string" where
  "encodeBlockers lib blockers = (if blockers = [] then [] else lib_json lib (GObj (blockersToMap blockers)))"

definition encodeChecks :: "golib \<Rightarrow> (string \<times> string) list \<Rightarrow> string" where
  "encodeChecks lib checks = (if checks = [] then [] else lib_json lib (GObj (checksToMap checks)))"

definition normalizeCIStatus :: "string \<Rightarrow> string" where
  "normalizeCIStatus s = (if s \<in> {''passed'', ''failed'', ''pending'', ''conflict''} then s else ''unknown'')"

definition blockerSatisfied :: "blocker_ref \<Rightarrow> string list \<Rightarrow> bool" where
  "blockerSatisfied b conditions =
     list_ex (\<lambda>cond. if cond = BlockerSatisfiedMerged then br_Merged b
                     else if cond = BlockerSatisfiedDone then br_State b = ''done'' else False) conditions"

section \<open>The checks\<close>

definition wait_result :: "bool \<Rightarrow> (string \<times> gval) list \<Rightarrow> step_result" where
  "wait_result success structured = (failed_result [])\<lparr>sr_Success := success, sr_Structured := structured\<rparr>"

definition unsupportedWait :: "string \<Rightarrow> step_config \<Rightarrow> string \<Rightarrow> wait_outcome" where
  "unsupportedWait instID step cause =
     (wait_result False [(''ci_status'', GStr ''unsupported''), (''reason'', GStr cause)],
      recordCIPoll instID (sid step) ''unsupported'' [] cause)"

definition overdue :: "time \<Rightarrow> time \<Rightarrow> bool" where
  "overdue now deadline \<longleftrightarrow> deadline \<noteq> 0 \<and> now > deadline"

definition ci_result :: "wait_for_config option \<Rightarrow> string \<Rightarrow> string \<Rightarrow> (string \<times> string) list \<Rightarrow> step_result" where
  "ci_result cfg status url checks =
     (if status = ''passed'' then wait_result True [(''ci_status'', GStr ''passed''), (''url'', GStr url)]
      else if status = ''failed'' then
        wait_result (\<not> ShouldFailIfNotPassed cfg)
          [(''ci_status'', GStr ''failed''), (''url'', GStr url), (''checks'', GObj (checksToMap checks))]
      else if status = ''conflict'' then
        (wait_result False [(''ci_status'', GStr ''conflict''), (''url'', GStr url)])\<lparr>sr_Conflict := True\<rparr>
      else pending_result)"

definition checkCIWaitStep ::
  "golib \<Rightarrow> (int \<Rightarrow> string) \<Rightarrow> (ci_request \<Rightarrow> ci_answer) option \<Rightarrow> time \<Rightarrow> string \<Rightarrow> step_config \<Rightarrow> wait_target \<Rightarrow> time \<Rightarrow> wait_outcome" where
  "checkCIWaitStep lib fmt_duration ciChecker now instID step target deadline =
     (case ciChecker of
        None \<Rightarrow> unsupportedWait instID step ''CI status polling not configured''
      | Some checker \<Rightarrow>
          let cfg = WaitFor (flds step);
              late = ''CI did not complete within '' @ fmt_duration (ParsedMaxDuration (lib_duration lib) cfg);
              poll = recordCIPoll instID (sid step)
          in if overdue now deadline then
               (if TimeoutAction cfg = OnTimeoutHold
                then (pending_result, poll ''timeout'' [] (late @ ''; holding for manual resolution''))
                else (wait_result False [(''ci_status'', GStr ''timeout''), (''reason'', GStr late)], poll ''timeout'' [] late))
             else case checker \<lparr>ci_TaskID = wt_TaskID target, ci_SourceID = wt_SourceID target,
                       ci_SourceItemID = wt_SourceItemID target,
                       ci_CISourceID = (case cfg of None \<Rightarrow> [] | Some c \<Rightarrow> wf_CISource c)\<rparr> of
               ErrPRNotLinked \<Rightarrow> (pending_result, poll ''pending'' [] ''no pull request linked to the task yet'')
             | CIUnsupported msg \<Rightarrow> unsupportedWait instID step msg
             | CIError msg \<Rightarrow> (pending_result, poll ''error'' [] msg)
             | CIStatus status url checks \<Rightarrow>
                 (ci_result cfg status url checks, poll (normalizeCIStatus status) url (encodeChecks lib checks)))"

definition checkDependencyWaitStep ::
  "golib \<Rightarrow> (int \<Rightarrow> string) \<Rightarrow> (string \<Rightarrow> string \<Rightarrow> string \<Rightarrow> dep_answer) option \<Rightarrow> time \<Rightarrow> string \<Rightarrow> step_config \<Rightarrow> wait_target \<Rightarrow> time \<Rightarrow>
     wait_outcome" where
  "checkDependencyWaitStep lib fmt_duration depChecker now instID step target deadline =
     (case depChecker of
        None \<Rightarrow> unsupportedWait instID step ''dependency (blocker) polling not configured''
      | Some checker \<Rightarrow>
          let cfg = WaitFor (flds step);
              late = ''blockers not satisfied within '' @ fmt_duration (ParsedMaxDuration (lib_duration lib) cfg);
              poll = recordCIPoll instID (sid step)
          in if overdue now deadline then
               (if TimeoutAction cfg = OnTimeoutFail
                then (wait_result False [(''dependency_status'', GStr ''timeout''), (''reason'', GStr late)], poll ''timeout'' [] late)
                else (pending_result, poll ''timeout'' [] (late @ ''; holding for manual resolution'')))
             else case checker (wt_SourceID target) (wt_SourceItemID target)
                       (case cfg of None \<Rightarrow> [] | Some c \<Rightarrow> wf_BlockerLinkType c) of
               DepUnsupported msg \<Rightarrow> unsupportedWait instID step msg
             | DepError msg \<Rightarrow> (pending_result, poll ''error'' [] msg)
             | Blockers blockers \<Rightarrow>
                 let unsatisfied = filter (\<lambda>b. \<not> blockerSatisfied b (EffectiveSatisfiedWhen cfg)) blockers in
                 if unsatisfied \<noteq> [] then (pending_result, poll ''pending'' [] (encodeBlockers lib unsatisfied))
                 else (wait_result True [(''dependency_status'', GStr ''satisfied''), (''blockers'', GObj (blockersToMap blockers))],
                       poll ''passed'' [] (encodeBlockers lib blockers)))"

record wait_services =
  ws_ci :: "(ci_request \<Rightarrow> ci_answer) option"
  ws_dep :: "(string \<Rightarrow> string \<Rightarrow> string \<Rightarrow> dep_answer) option"
  ws_duration :: "int \<Rightarrow> string"

definition RunWaitStep ::
  "golib \<Rightarrow> wait_services \<Rightarrow> time \<Rightarrow> string \<Rightarrow> step_config \<Rightarrow> wait_target \<Rightarrow> time \<Rightarrow> string + wait_outcome" where
  "RunWaitStep lib sv now instID step target deadline =
     (case WaitFor (flds step) of
        None \<Rightarrow> Inl (''wait_for step '' @ go_quote (sid step) @ '' missing wait_for config'')
      | Some cfg \<Rightarrow>
          if wf_Kind cfg = [] \<or> wf_Kind cfg = WaitKindCI
          then Inr (checkCIWaitStep lib (ws_duration sv) (ws_ci sv) now instID step target deadline)
          else if wf_Kind cfg = WaitKindDependency
          then Inr (checkDependencyWaitStep lib (ws_duration sv) (ws_dep sv) now instID step target deadline)
          else Inl (''wait_for step '' @ go_quote (sid step) @ '' unsupported kind: '' @ go_quote (wf_Kind cfg)))"

section \<open>Facts\<close>

lemma wait_result_simps [simp]:
  "sr_Success (wait_result b m) = b" "sr_Pending (wait_result b m) = False" "sr_Structured (wait_result b m) = m"
  by (simp_all add: wait_result_def)

lemma ci_result_pending [simp]: "sr_Pending (ci_result cfg status url checks) \<longleftrightarrow> status \<notin> {''passed'', ''failed'', ''conflict''}"
  by (simp add: ci_result_def)

lemma recordCIPoll_length [simp]: "length (recordCIPoll i s st u d) = (if i = [] then 0 else 1)"
  by (simp add: recordCIPoll_def)

section \<open>Properties\<close>

definition ex_wait :: "string \<Rightarrow> string \<Rightarrow> step_config" where
  "ex_wait kind timeout = Step (zero_fields\<lparr>ID := ''ci'', WaitFor := Some \<lparr>wf_Kind = kind, wf_CheckInterval = [], wf_MaxDuration = [],
     wf_FailIfNotPassed = None, wf_RemoveLabel = [], wf_CISource = [], wf_SatisfiedWhen = [], wf_BlockerLinkType = [],
     wf_OnTimeout = timeout\<rparr>\<rparr>) [] [] None"

definition ex_target :: wait_target where
  "ex_target = \<lparr>wt_TaskID = ''t'', wt_SourceID = ''s'', wt_SourceItemID = ''1''\<rparr>"

definition ex_services :: wait_services where
  "ex_services = \<lparr>ws_ci = Some (\<lambda>_. CIStatus ''pending'' [] []), ws_dep = Some (\<lambda>_ _ _. Blockers []), ws_duration = (\<lambda>_. ''2h'')\<rparr>"

text \<open>
  What one check of a wait decides. A check is pending in exactly these cases: past the deadline with the hold policy; before
  it, a CI status other than passed, failed and conflict, a pull request not linked yet, a failed lookup, or
  a blocker that satisfies none of the conditions. In particular a wait without the hold policy is never pending past its deadline.
\<close>

theorem wait_outcome_exact:
  assumes "RunWaitStep lib sv now instID step target deadline = Inr (res, polls)" "WaitFor (flds step) = Some cfg"
  shows "sr_Pending res \<longleftrightarrow>
    (if wf_Kind cfg = WaitKindDependency
     then (case ws_dep sv of None \<Rightarrow> False | Some checker \<Rightarrow>
        if overdue now deadline then TimeoutAction (Some cfg) \<noteq> OnTimeoutFail
        else case checker (wt_SourceID target) (wt_SourceItemID target) (wf_BlockerLinkType cfg) of
          DepUnsupported _ \<Rightarrow> False | DepError _ \<Rightarrow> True
        | Blockers bs \<Rightarrow> list_ex (\<lambda>b. \<not> blockerSatisfied b (EffectiveSatisfiedWhen (Some cfg))) bs)
     else (case ws_ci sv of None \<Rightarrow> False | Some checker \<Rightarrow>
        if overdue now deadline then TimeoutAction (Some cfg) = OnTimeoutHold
        else case checker \<lparr>ci_TaskID = wt_TaskID target, ci_SourceID = wt_SourceID target, ci_SourceItemID = wt_SourceItemID target,
             ci_CISourceID = wf_CISource cfg\<rparr> of
          ErrPRNotLinked \<Rightarrow> True | CIUnsupported _ \<Rightarrow> False | CIError _ \<Rightarrow> True
        | CIStatus st _ _ \<Rightarrow> st \<notin> {''passed'', ''failed'', ''conflict''}))"
proof (cases "wf_Kind cfg = WaitKindDependency")
  case True
  then have k: "\<not> (wf_Kind cfg = [] \<or> wf_Kind cfg = WaitKindCI)" by (simp add: WaitKindDependency_def WaitKindCI_def)
  have r: "res = fst (checkDependencyWaitStep lib (ws_duration sv) (ws_dep sv) now instID step target deadline)"
    using assms True k by (simp add: RunWaitStep_def)
  show ?thesis using True assms(2)
    by (simp add: r checkDependencyWaitStep_def unsupportedWait_def Let_def list_ex_iff filter_empty_conv split: option.splits dep_answer.splits)
next
  case False
  have r: "res = fst (checkCIWaitStep lib (ws_duration sv) (ws_ci sv) now instID step target deadline)"
    using assms False by (simp add: RunWaitStep_def split: if_splits)
  show ?thesis using False assms(2)
    by (simp add: r checkCIWaitStep_def unsupportedWait_def Let_def split: option.splits ci_answer.splits)
qed

theorem wait_outcome_exact_witness:
  "(let late = RunWaitStep ex_lib ex_services 9 ''i'' (ex_wait [] []) ex_target 5; held = RunWaitStep ex_lib ex_services 9 ''i'' (ex_wait [] ''hold'') ex_target 5
    in \<not> sr_Pending (fst (projr late)) \<and> sr_Pending (fst (projr held)))"
proof -
  let ?late = "RunWaitStep ex_lib ex_services 9 ''i'' (ex_wait [] []) ex_target 5" and ?held = "RunWaitStep ex_lib ex_services 9 ''i'' (ex_wait [] ''hold'') ex_target 5"
  have "\<not> isl ?late" "\<not> isl ?held" by code_simp+
  then have r: "?late = Inr (fst (projr ?late), snd (projr ?late))" "?held = Inr (fst (projr ?held), snd (projr ?held))"
    by simp_all
  have c: "WaitFor (flds (ex_wait [] t)) = Some (the (WaitFor (flds (ex_wait [] t))))" for t by (simp add: ex_wait_def)
  from wait_outcome_exact [OF r(1) c] wait_outcome_exact [OF r(2) c] show ?thesis
    by (simp add: ex_wait_def ex_services_def overdue_def TimeoutAction_def WaitKindDependency_def OnTimeoutHold_def OnTimeoutFail_def)
qed

text \<open>Every check of a run leaves exactly one poll in the wait's history.\<close>

lemma wait_records_one_poll:
  assumes "RunWaitStep lib sv now instID step target deadline = Inr (res, polls)" "instID \<noteq> []"
  shows "length polls = 1"
proof -
  have "length (snd (checkCIWaitStep lib f c now instID step target deadline)) = 1" for f c
    using assms(2) by (simp add: checkCIWaitStep_def unsupportedWait_def Let_def split: option.splits ci_answer.splits)
  moreover have "length (snd (checkDependencyWaitStep lib f c now instID step target deadline)) = 1" for f c
    using assms(2) by (simp add: checkDependencyWaitStep_def unsupportedWait_def Let_def split: option.splits dep_answer.splits)
  ultimately show ?thesis using assms(1) by (auto simp: RunWaitStep_def split: option.splits if_splits) (metis snd_conv One_nat_def)+
qed

end
