(* ===== verification/Router.thy ===== *)
theory Router
  imports Expr_Lang Wf_Config "HOL-Library.Multiset"
begin

text \<open>
  Trigger routing (\<open>internal/router/router.go\<close>, \<open>internal/router/event.go\<close>): which workflows a task or a pull-request event starts. Regular
  expressions are a library argument. \<open>sort.Slice\<close> is not stable, so the sort is an argument too, of which only
  what its documentation promises is used: the interface \<open>priority_sort\<close>. A worker
  definition is carried and never inspected, so its type is a parameter.
\<close>

section \<open>Configuration\<close>

definition TriggerOnItem :: string where "TriggerOnItem = ''item''"

definition DefaultEventAuthorAssociations :: "string list" where
  "DefaultEventAuthorAssociations = [''OWNER'', ''MEMBER'', ''COLLABORATOR'']"

record route_match =
  rm_Source :: string
  rm_Labels :: "string list"
  rm_Types :: "string list"
  rm_TitleRegex :: string
  rm_Priority :: "string list"
  rm_States :: "string list"
  rm_ExcludeLabels :: "string list"
  rm_ExcludeLabelPrefix :: string

record trigger_config =
  tc_Priority :: int
  tc_Exclusive :: bool
  tc_Once :: bool
  tc_Match :: route_match
  tc_On :: string
  tc_CommentMatches :: string
  tc_Authors :: "string list"
  tc_AuthorsAssociation :: "string list"
  tc_IgnoreAuthors :: "string list"
  tc_PRAuthors :: "string list"
  tc_MaxDispatches :: int

definition EventKind :: "trigger_config \<Rightarrow> string" where
  "EventKind t = (if tc_On t = [] then TriggerOnItem else tc_On t)"

record route_config =
  rc_ID :: string
  rc_Priority :: int
  rc_Match :: route_match
  rc_Agent :: string
  rc_Worker :: string
  rc_Exclusive :: bool
  rc_Once :: bool
  rc_On :: string
  rc_CommentMatches :: string
  rc_Authors :: "string list"
  rc_AuthorsAssociation :: "string list"
  rc_IgnoreAuthors :: "string list"
  rc_PRAuthors :: "string list"
  rc_MaxDispatches :: int

definition IsEventRoute :: "route_config \<Rightarrow> bool" where
  "IsEventRoute r \<longleftrightarrow> rc_On r \<noteq> [] \<and> rc_On r \<noteq> TriggerOnItem"

record 'w match =
  m_Worker :: "'w option"
  m_Route :: route_config
  m_InstanceID :: string

record route_trace =
  tr_RouteID :: string
  tr_Priority :: int
  tr_Agent :: string
  tr_Worker :: string
  tr_Matched :: bool
  tr_Reason :: string
  tr_Selected :: bool

record 'w router =
  rt_routes :: "route_config list"
  rt_workers :: "string \<rightharpoonup> 'w"
  rt_regexes :: "string \<rightharpoonup> (string \<Rightarrow> bool)"
  rt_commentRegexes :: "string \<rightharpoonup> (string \<Rightarrow> bool)"

datatype router_error = ErrBadRegex string string string | BadCommentRegex string string string

section \<open>Building the router\<close>

fun firstAgentStep_in :: "step_config list \<Rightarrow> string option" where
  "firstAgentStep_in [] = None"
| "firstAgentStep_in (s # ss) =
     (if StepType s = StepTypeAgent \<and> Agent (flds s) \<noteq> [] then Some (Agent (flds s))
      else case InnerStep s of
        Some inner \<Rightarrow> if StepType s = StepTypeForeach \<and> Agent (flds inner) \<noteq> [] then Some (Agent (flds inner)) else firstAgentStep_in ss
      | None \<Rightarrow> firstAgentStep_in ss)"

definition firstAgentStep :: "workflow_config \<Rightarrow> string" where
  "firstAgentStep w = (case firstAgentStep_in (wc_Steps w) of Some a \<Rightarrow> a | None \<Rightarrow> wc_ID w)"

definition trigger_route :: "workflow_config \<Rightarrow> trigger_config \<Rightarrow> route_config" where
  "trigger_route w t =
     \<lparr>rc_ID = wc_ID w, rc_Priority = tc_Priority t, rc_Match = tc_Match t, rc_Agent = firstAgentStep w, rc_Worker = [],
      rc_Exclusive = tc_Exclusive t, rc_Once = tc_Once t, rc_On = EventKind t, rc_CommentMatches = tc_CommentMatches t,
      rc_Authors = tc_Authors t, rc_AuthorsAssociation = tc_AuthorsAssociation t, rc_IgnoreAuthors = tc_IgnoreAuthors t,
      rc_PRAuthors = tc_PRAuthors t, rc_MaxDispatches = tc_MaxDispatches t\<rparr>"

definition trigger_routes :: "(workflow_config \<times> trigger_config option) list \<Rightarrow> route_config list" where
  "trigger_routes workflows = concat (map (\<lambda>(w, t). case t of None \<Rightarrow> [] | Some t \<Rightarrow> [trigger_route w t]) workflows)"

definition compile_route ::
  "regex_lib \<Rightarrow> route_config \<Rightarrow> (string \<rightharpoonup> (string \<Rightarrow> bool)) \<times> (string \<rightharpoonup> (string \<Rightarrow> bool)) \<Rightarrow>
     router_error + (string \<rightharpoonup> (string \<Rightarrow> bool)) \<times> (string \<rightharpoonup> (string \<Rightarrow> bool))" where
  "compile_route re r maps =
     (let title = rm_TitleRegex (rc_Match r); (rs, cs) = maps in
      bind_res (if title = [] then Inr rs
                else case re title of Inl e \<Rightarrow> Inl (ErrBadRegex (rc_ID r) title e) | Inr f \<Rightarrow> Inr (rs(rc_ID r \<mapsto> f))) (\<lambda>rs.
      bind_res (if rc_CommentMatches r = [] then Inr cs
                else case re (rc_CommentMatches r) of Inl e \<Rightarrow> Inl (BadCommentRegex (rc_ID r) (rc_CommentMatches r) e)
                | Inr f \<Rightarrow> Inr (cs(rc_ID r \<mapsto> f))) (\<lambda>cs. Inr (rs, cs))))"

fun compile_routes ::
  "regex_lib \<Rightarrow> route_config list \<Rightarrow> (string \<rightharpoonup> (string \<Rightarrow> bool)) \<times> (string \<rightharpoonup> (string \<Rightarrow> bool)) \<Rightarrow>
     router_error + (string \<rightharpoonup> (string \<Rightarrow> bool)) \<times> (string \<rightharpoonup> (string \<Rightarrow> bool))" where
  "compile_routes re [] maps = Inr maps"
| "compile_routes re (r # rs) maps = bind_res (compile_route re r maps) (compile_routes re rs)"

definition New ::
  "(route_config list \<Rightarrow> route_config list) \<Rightarrow> regex_lib \<Rightarrow> (string \<times> 'w) list \<Rightarrow> (workflow_config \<times> trigger_config option) list \<Rightarrow>
     router_error + 'w router" where
  "New sortSlice re workers workflows =
     (let routes = sortSlice (trigger_routes workflows) in
      bind_res (compile_routes re routes (Map.empty, Map.empty)) (\<lambda>(rs, cs).
        Inr \<lparr>rt_routes = routes, rt_workers = fold (\<lambda>(i, w) m. m(i \<mapsto> w)) workers Map.empty, rt_regexes = rs, rt_commentRegexes = cs\<rparr>))"

definition zero_match :: route_match where
  "zero_match = \<lparr>rm_Source = [], rm_Labels = [], rm_Types = [], rm_TitleRegex = [], rm_Priority = [], rm_States = [],
     rm_ExcludeLabels = [], rm_ExcludeLabelPrefix = []\<rparr>"

definition ManualMatch :: "workflow_config \<Rightarrow> trigger_config option \<Rightarrow> 'w match option" where
  "ManualMatch w trigger =
     (if wc_ID w = [] then None
      else Some \<lparr>m_Worker = None,
        m_Route = \<lparr>rc_ID = wc_ID w, rc_Priority = (case trigger of None \<Rightarrow> 0 | Some t \<Rightarrow> tc_Priority t),
          rc_Match = (case trigger of None \<Rightarrow> zero_match | Some t \<Rightarrow> tc_Match t), rc_Agent = firstAgentStep w, rc_Worker = [],
          rc_Exclusive = False, rc_Once = False, rc_On = [], rc_CommentMatches = [], rc_Authors = [], rc_AuthorsAssociation = [],
          rc_IgnoreAuthors = [], rc_PRAuthors = [], rc_MaxDispatches = 0\<rparr>, m_InstanceID = []\<rparr>)"

section \<open>Matching\<close>

record target =
  tg_sourceID :: string
  tg_state :: string
  tg_labels :: "string list"
  tg_typ :: string
  tg_priority :: string
  tg_title :: string

definition targetFromItem :: "source_item \<Rightarrow> target" where
  "targetFromItem cell = \<lparr>tg_sourceID = si_SourceID cell, tg_state = si_State cell, tg_labels = si_Labels cell,
     tg_typ = si_Type cell, tg_priority = si_Priority cell, tg_title = si_Title cell\<rparr>"

definition targetFromTask :: "internal_task \<Rightarrow> target" where
  "targetFromTask task = (let m = it_Metadata task in
     \<lparr>tg_sourceID = tm_Source m, tg_state = tm_State m, tg_labels = tm_Labels m, tg_typ = tm_Type m,
      tg_priority = tm_Priority m, tg_title = it_Title task\<rparr>)"

definition toLowerSet :: "string list \<Rightarrow> string set" where
  "toLowerSet ss = to_lower ` set ss"

definition containsInsensitive :: "string list \<Rightarrow> string \<Rightarrow> bool" where
  "containsInsensitive ss t = list_ex (\<lambda>s. to_lower s = to_lower t) ss"

text \<open>How \<open>%v\<close> prints a slice of strings.\<close>

definition fmt_strings :: "string list \<Rightarrow> string" where
  "fmt_strings ss = ''['' @ str_join '' '' ss @ '']''"

definition describeCriteria :: "route_match \<Rightarrow> string" where
  "describeCriteria m =
     (let parts =
        (if rm_Source m \<noteq> [] then [''source='' @ rm_Source m] else [])
        @ (if rm_States m \<noteq> [] then [''states='' @ str_join '','' (rm_States m)] else [])
        @ (if rm_Labels m \<noteq> [] then [''labels='' @ str_join '','' (rm_Labels m)] else [])
        @ (if rm_ExcludeLabels m \<noteq> [] then [''exclude_labels='' @ str_join '','' (rm_ExcludeLabels m)] else [])
        @ (if rm_ExcludeLabelPrefix m \<noteq> [] then [''exclude_label_prefix='' @ rm_ExcludeLabelPrefix m] else [])
        @ (if rm_Types m \<noteq> [] then [''types='' @ str_join '','' (rm_Types m)] else [])
        @ (if rm_Priority m \<noteq> [] then [''priority='' @ str_join '','' (rm_Priority m)] else [])
        @ (if rm_TitleRegex m \<noteq> [] then [''title~/'' @ rm_TitleRegex m @ ''/''] else [])
      in if parts = [] then ''matches all cells (no criteria)'' else ''matched on '' @ str_join '' '' parts)"

definition evaluateTarget :: "'w router \<Rightarrow> route_config \<Rightarrow> target \<Rightarrow> bool \<times> string" where
  "evaluateTarget r route t =
     (let m = rc_Match route; labels = toLowerSet (tg_labels t) in
      if rm_Source m \<noteq> [] \<and> tg_sourceID t \<noteq> rm_Source m
      then (False, ''source '' @ go_quote (tg_sourceID t) @ '' != required '' @ go_quote (rm_Source m))
      else if rm_States m \<noteq> [] \<and> \<not> containsInsensitive (rm_States m) (tg_state t)
      then (False, ''state '' @ go_quote (tg_state t) @ '' not in '' @ fmt_strings (rm_States m))
      else case find (\<lambda>required. to_lower required \<notin> labels) (rm_Labels m) of
        Some required \<Rightarrow> (False, ''missing required label '' @ go_quote required @ '' (cell has '' @ fmt_strings (tg_labels t) @ '')'')
      | None \<Rightarrow> case find (\<lambda>excluded. to_lower excluded \<in> labels) (rm_ExcludeLabels m) of
        Some excluded \<Rightarrow> (False, ''has excluded label '' @ go_quote excluded)
      | None \<Rightarrow> case (if rm_ExcludeLabelPrefix m = [] then None
                     else find (\<lambda>l. has_prefix (to_lower l) (to_lower (rm_ExcludeLabelPrefix m))) (tg_labels t)) of
        Some l \<Rightarrow> (False, ''has label '' @ go_quote l @ '' matching excluded prefix '' @ go_quote (rm_ExcludeLabelPrefix m))
      | None \<Rightarrow>
          if rm_Types m \<noteq> [] \<and> \<not> containsInsensitive (rm_Types m) (tg_typ t)
          then (False, ''type '' @ go_quote (tg_typ t) @ '' not in '' @ fmt_strings (rm_Types m))
          else if rm_Priority m \<noteq> [] \<and> \<not> containsInsensitive (rm_Priority m) (tg_priority t)
          then (False, ''priority '' @ go_quote (tg_priority t) @ '' not in '' @ fmt_strings (rm_Priority m))
          else case rt_regexes r (rc_ID route) of
            None \<Rightarrow> (True, describeCriteria m)
          | Some re \<Rightarrow> if re (tg_title t) then (True, describeCriteria m)
                      else (False, ''title '' @ go_quote (tg_title t) @ '' does not match /'' @ rm_TitleRegex m @ ''/''))"

definition evaluate :: "'w router \<Rightarrow> route_config \<Rightarrow> source_item \<Rightarrow> bool \<times> string" where
  "evaluate r route cell = evaluateTarget r route (targetFromItem cell)"

definition resolveMatch :: "'w router \<Rightarrow> route_config \<Rightarrow> 'w match option" where
  "resolveMatch r route =
     (if rc_Agent route \<noteq> [] then Some \<lparr>m_Worker = None, m_Route = route, m_InstanceID = []\<rparr>
      else case rt_workers r (rc_Worker route) of
        Some w \<Rightarrow> Some \<lparr>m_Worker = Some w, m_Route = route, m_InstanceID = []\<rparr>
      | None \<Rightarrow> None)"

section \<open>Routing\<close>

fun route_first :: "'w router \<Rightarrow> target \<Rightarrow> route_config list \<Rightarrow> 'w match option" where
  "route_first r t [] = None"
| "route_first r t (route # routes) =
     (if IsEventRoute route then route_first r t routes
      else if fst (evaluateTarget r route t)
      then (case resolveMatch r route of Some m \<Rightarrow> Some m | None \<Rightarrow> route_first r t routes)
      else route_first r t routes)"

definition Route :: "'w router \<Rightarrow> source_item \<Rightarrow> 'w match option" where
  "Route r item = route_first r (targetFromItem item) (rt_routes r)"

fun route_all :: "'w router \<Rightarrow> target \<Rightarrow> route_config list \<Rightarrow> bool \<Rightarrow> 'w match list \<times> 'w match list" where
  "route_all r t [] claimed = ([], [])"
| "route_all r t (route # routes) claimed =
     (if IsEventRoute route \<or> \<not> fst (evaluateTarget r route t) then route_all r t routes claimed
      else case resolveMatch r route of
        None \<Rightarrow> route_all r t routes claimed
      | Some m \<Rightarrow>
          if claimed then apsnd (Cons m) (route_all r t routes claimed)
          else apfst (Cons m) (route_all r t routes (rc_Exclusive route)))"

definition RouteAllWithSuppressed :: "'w router \<Rightarrow> internal_task \<Rightarrow> 'w match list \<times> 'w match list" where
  "RouteAllWithSuppressed r task = route_all r (targetFromTask task) (rt_routes r) False"

definition RouteAll :: "'w router \<Rightarrow> internal_task \<Rightarrow> 'w match list" where
  "RouteAll r task = fst (RouteAllWithSuppressed r task)"

definition trace_of :: "route_config \<Rightarrow> bool \<Rightarrow> bool \<Rightarrow> string \<Rightarrow> route_trace" where
  "trace_of route matched selected reason = \<lparr>tr_RouteID = rc_ID route, tr_Priority = rc_Priority route, tr_Agent = rc_Agent route,
     tr_Worker = rc_Worker route, tr_Matched = matched, tr_Reason = reason, tr_Selected = selected\<rparr>"

fun explain_task :: "'w router \<Rightarrow> target \<Rightarrow> route_config list \<Rightarrow> string \<Rightarrow> route_trace list" where
  "explain_task r t [] claimedBy = []"
| "explain_task r t (route # routes) claimedBy =
     (if IsEventRoute route then explain_task r t routes claimedBy
      else
        let (matched, reason0) = evaluateTarget r route t;
            resolved = (matched \<and> resolveMatch r route \<noteq> None);
            reason1 = (if matched \<and> \<not> resolved then ''matched conditions but route has no resolvable agent or worker'' else reason0);
            reason = (if claimedBy \<noteq> [] \<and> resolved
                      then ''suppressed: exclusive route '' @ go_quote claimedBy @ '' claimed this task'' else reason1);
            selected = (resolved \<and> claimedBy = [])
        in trace_of route matched selected reason
           # explain_task r t routes (if selected \<and> rc_Exclusive route then rc_ID route else claimedBy))"

definition ExplainTask :: "'w router \<Rightarrow> internal_task \<Rightarrow> route_trace list" where
  "ExplainTask r task = explain_task r (targetFromTask task) (rt_routes r) []"

fun explain_item :: "'w router \<Rightarrow> source_item \<Rightarrow> route_config list \<Rightarrow> 'w match option \<Rightarrow> 'w match option \<times> route_trace list" where
  "explain_item r cell [] winner = (winner, [])"
| "explain_item r cell (route # routes) winner =
     (if IsEventRoute route then explain_item r cell routes winner
      else case winner of
        Some w \<Rightarrow> apsnd (Cons (trace_of route False False ''not reached (a higher-priority route already matched)''))
                   (explain_item r cell routes winner)
      | None \<Rightarrow>
          let (ok, reason) = evaluate r route cell in
          if \<not> ok then apsnd (Cons (trace_of route False False reason)) (explain_item r cell routes None)
          else case resolveMatch r route of
            Some m \<Rightarrow> apsnd (Cons (trace_of route True True reason)) (explain_item r cell routes (Some m))
          | None \<Rightarrow> apsnd (Cons (trace_of route False False
                      (''matched but worker '' @ go_quote (rc_Worker route) @ '' is not defined '' @ map char_of [226, 128, 148 :: nat] @ '' skipped'')))
                    (explain_item r cell routes None))"

definition Explain :: "'w router \<Rightarrow> source_item \<Rightarrow> 'w match option \<times> route_trace list" where
  "Explain r cell = explain_item r cell (rt_routes r) None"

section \<open>Events\<close>

definition HasEventRoutes :: "'w router \<Rightarrow> bool" where
  "HasEventRoutes r = list_ex IsEventRoute (rt_routes r)"

definition authorAllowed :: "route_config \<Rightarrow> source_event \<Rightarrow> bool \<times> string" where
  "authorAllowed route ev =
     (if list_ex (\<lambda>a. equal_fold a (se_Author ev)) (rc_IgnoreAuthors route)
      then (False, ''author '' @ go_quote (se_Author ev) @ '' is in trigger ignore_authors'')
      else if rc_Authors route \<noteq> [] then
        (if list_ex (\<lambda>a. equal_fold a (se_Author ev)) (rc_Authors route) then (True, [])
         else (False, ''author '' @ go_quote (se_Author ev) @ '' not in trigger authors '' @ fmt_strings (rc_Authors route)))
      else
        let allowed = (if rc_AuthorsAssociation route = [] then DefaultEventAuthorAssociations else rc_AuthorsAssociation route) in
        if list_ex (\<lambda>a. equal_fold a (se_AuthorAssociation ev)) allowed then (True, [])
        else (False, ''author '' @ go_quote (se_Author ev) @ '' association '' @ go_quote (se_AuthorAssociation ev)
                 @ '' not in '' @ fmt_strings allowed))"

definition prAuthorAllowed :: "route_config \<Rightarrow> source_event \<Rightarrow> bool \<times> string" where
  "prAuthorAllowed route ev =
     (if rc_PRAuthors route = [] then (True, [])
      else if se_PRAuthor ev \<noteq> [] \<and> list_ex (\<lambda>a. equal_fold a (se_PRAuthor ev)) (rc_PRAuthors route) then (True, [])
      else (False, ''pr author '' @ go_quote (se_PRAuthor ev) @ '' not in trigger pr_authors '' @ fmt_strings (rc_PRAuthors route)))"

definition hasItemCriteria :: "route_match \<Rightarrow> bool" where
  "hasItemCriteria m \<longleftrightarrow> rm_Labels m \<noteq> [] \<or> rm_ExcludeLabels m \<noteq> [] \<or> rm_ExcludeLabelPrefix m \<noteq> [] \<or> rm_Types m \<noteq> []
     \<or> rm_Priority m \<noteq> [] \<or> rm_States m \<noteq> [] \<or> rm_TitleRegex m \<noteq> []"

definition evaluateEvent :: "'w router \<Rightarrow> route_config \<Rightarrow> source_event \<Rightarrow> internal_task option \<Rightarrow> bool \<times> string" where
  "evaluateEvent r route ev task =
     (let hit = (True, ''matched event '' @ se_Kind ev @ '' by '' @ se_Author ev) in
      if rc_On route \<noteq> se_Kind ev
      then (False, ''event kind '' @ go_quote (se_Kind ev) @ '' != trigger on '' @ go_quote (rc_On route))
      else if rm_Source (rc_Match route) \<noteq> [] \<and> se_SourceID ev \<noteq> rm_Source (rc_Match route)
      then (False, ''source '' @ go_quote (se_SourceID ev) @ '' != required '' @ go_quote (rm_Source (rc_Match route)))
      else if (case rt_commentRegexes r (rc_ID route) of None \<Rightarrow> False | Some re \<Rightarrow> \<not> re (se_Body ev))
      then (False, ''comment does not match /'' @ rc_CommentMatches route @ ''/'')
      else if \<not> fst (authorAllowed route ev) then (False, snd (authorAllowed route ev))
      else if \<not> fst (prAuthorAllowed route ev) then (False, snd (prAuthorAllowed route ev))
      else if hasItemCriteria (rc_Match route) then
        (case task of
           None \<Rightarrow> (False, ''trigger declares item match criteria but the event has no related work item'')
         | Some tk \<Rightarrow>
             let (ok, reason) = evaluateTarget r (route\<lparr>rc_Match := (rc_Match route)\<lparr>rm_Source := []\<rparr>\<rparr>) (targetFromTask tk)
             in if \<not> ok then (False, reason) else hit)
      else hit)"

fun route_event :: "'w router \<Rightarrow> source_event \<Rightarrow> internal_task option \<Rightarrow> route_config list \<Rightarrow> 'w match list" where
  "route_event r ev task [] = []"
| "route_event r ev task (route # routes) =
     (if \<not> IsEventRoute route \<or> \<not> fst (evaluateEvent r route ev task) then route_event r ev task routes
      else case resolveMatch r route of
        None \<Rightarrow> route_event r ev task routes
      | Some m \<Rightarrow> if rc_Exclusive route then [m] else m # route_event r ev task routes)"

definition RouteEvent :: "'w router \<Rightarrow> source_event \<Rightarrow> internal_task option \<Rightarrow> 'w match list" where
  "RouteEvent r ev task = route_event r ev task (rt_routes r)"

section \<open>The sort\<close>

text \<open>What \<open>sort.Slice\<close> promises: a permutation in order of priority, equal priorities in any order.\<close>

locale priority_sort =
  fixes sortSlice :: "route_config list \<Rightarrow> route_config list"
  assumes permutes: "mset (sortSlice rs) = mset rs"
    and orders: "sorted (map rc_Priority (sortSlice rs))"
begin

lemma same_routes: "set (sortSlice rs) = set rs"
  using permutes [of rs] by (rule mset_eq_setD)

lemma New_routes:
  assumes "New sortSlice re workers workflows = Inr r"
  shows "sorted (map rc_Priority (rt_routes r))" "set (rt_routes r) = set (trigger_routes workflows)"
    "length (rt_routes r) = length (trigger_routes workflows)"
proof -
  have r: "rt_routes r = sortSlice (trigger_routes workflows)"
    using assms by (auto simp: New_def Let_def bind_res_Inr_iff)
  show "sorted (map rc_Priority (rt_routes r))" unfolding r by (rule orders)
  show "set (rt_routes r) = set (trigger_routes workflows)" unfolding r by (rule same_routes)
  show "length (rt_routes r) = length (trigger_routes workflows)" unfolding r by (rule mset_eq_length [OF permutes])
qed

end

interpretation stable_sort: priority_sort "sort_key rc_Priority"
  by unfold_locales simp_all

section \<open>Facts\<close>

text \<open>The matches a task would start without any exclusive trigger, in priority order.\<close>

definition candidate :: "'w router \<Rightarrow> target \<Rightarrow> route_config \<Rightarrow> 'w match option" where
  "candidate r t route = (if IsEventRoute route \<or> \<not> fst (evaluateTarget r route t) then None else resolveMatch r route)"

definition candidates :: "'w router \<Rightarrow> target \<Rightarrow> route_config list \<Rightarrow> 'w match list" where
  "candidates r t routes = List.map_filter (candidate r t) routes"

fun upto_first :: "('a \<Rightarrow> bool) \<Rightarrow> 'a list \<Rightarrow> 'a list" where
  "upto_first P [] = []"
| "upto_first P (x # xs) = (if P x then [x] else x # upto_first P xs)"

lemma candidates_simps [simp]:
  "candidates r t [] = []"
  "candidates r t (route # routes) = (case candidate r t route of None \<Rightarrow> candidates r t routes | Some m \<Rightarrow> m # candidates r t routes)"
  by (simp_all add: candidates_def [abs_def] List.map_filter_simps split: option.splits)

lemma resolveMatch_route: "resolveMatch r route = Some m \<Longrightarrow> m_Route m = route"
  by (auto simp: resolveMatch_def split: if_splits option.splits)

lemma candidate_route: "candidate r t route = Some m \<Longrightarrow> m_Route m = route"
  by (auto simp: candidate_def resolveMatch_route split: if_splits)

lemma route_all_claimed: "route_all r t routes True = ([], candidates r t routes)"
  by (induction routes) (auto simp: candidate_def split: option.splits)

lemma route_all_spec:
  "route_all r t routes False =
     (upto_first (\<lambda>m. rc_Exclusive (m_Route m)) (candidates r t routes),
      drop (length (upto_first (\<lambda>m. rc_Exclusive (m_Route m)) (candidates r t routes))) (candidates r t routes))"
proof (induction routes)
  case (Cons route routes)
  show ?case
  proof (cases "candidate r t route")
    case None
    with Cons show ?thesis by (auto simp: candidate_def split: if_splits option.splits)
  next
    case (Some m)
    then have "m_Route m = route" "resolveMatch r route = Some m" "\<not> (IsEventRoute route \<or> \<not> fst (evaluateTarget r route t))"
      using candidate_route [OF Some] by (auto simp: candidate_def split: if_splits)
    with Some Cons show ?thesis by (cases "rc_Exclusive route") (simp_all add: route_all_claimed)
  qed
qed simp

lemma explain_selected:
  assumes "\<forall>route\<in>set routes. rc_ID route \<noteq> []"
  shows "map tr_RouteID (filter tr_Selected (explain_task r t routes claimedBy)) =
    (if claimedBy = [] then map (\<lambda>m. rc_ID (m_Route m)) (upto_first (\<lambda>m. rc_Exclusive (m_Route m)) (candidates r t routes)) else [])"
  using assms
proof (induction routes arbitrary: claimedBy)
  case (Cons route routes)
  obtain matched reason where e: "evaluateTarget r route t = (matched, reason)" by (cases "evaluateTarget r route t")
  have ids: "\<forall>route\<in>set routes. rc_ID route \<noteq> []" "rc_ID route \<noteq> []" using Cons.prems by simp_all
  let ?sel = "\<lambda>c. map tr_RouteID (filter tr_Selected (explain_task r t routes c))"
  let ?win = "map (\<lambda>m. rc_ID (m_Route m)) (upto_first (\<lambda>m. rc_Exclusive (m_Route m)) (candidates r t routes))"
  have ih: "?sel [] = ?win" "\<And>c. c \<noteq> [] \<Longrightarrow> ?sel c = []" using Cons.IH [OF ids(1)] by simp_all
  show ?case
  proof (cases "candidate r t route")
    case None
    then have n: "\<not> (matched \<and> resolveMatch r route \<noteq> None) \<or> IsEventRoute route" using e by (auto simp: candidate_def split: if_splits)
    then have "map tr_RouteID (filter tr_Selected (explain_task r t (route # routes) claimedBy)) = ?sel claimedBy"
      using e by (auto simp: trace_of_def Let_def)
    with None ih(1) ih(2) [of claimedBy] show ?thesis by (cases "claimedBy = []") simp_all
  next
    case (Some m)
    then have m: "m_Route m = route" "resolveMatch r route = Some m" "\<not> IsEventRoute route" matched
      using candidate_route [OF Some] e by (auto simp: candidate_def split: if_splits)
    have "map tr_RouteID (filter tr_Selected (explain_task r t (route # routes) claimedBy))
        = (if claimedBy = [] then rc_ID route # ?sel (if rc_Exclusive route then rc_ID route else []) else ?sel claimedBy)"
      using e m by (simp add: trace_of_def Let_def)
    with Some m ih ids(2) show ?thesis by simp
  qed
qed simp

lemma route_first_spec: "route_first r t routes = (case candidates r t routes of [] \<Rightarrow> None | m # _ \<Rightarrow> Some m)"
  by (induction routes) (auto simp: candidate_def split: option.splits)

lemma explain_item_spec:
  "fst (explain_item r cell routes winner) = (case winner of Some w \<Rightarrow> Some w | None \<Rightarrow> route_first r (targetFromItem cell) routes)"
proof (induction routes arbitrary: winner)
  case (Cons route routes)
  then show ?case by (auto simp: evaluate_def split: option.splits prod.splits)
qed (simp split: option.splits)

lemma evaluateTarget_iff:
  "fst (evaluateTarget r route t) \<longleftrightarrow>
     (let m = rc_Match route in
      (rm_Source m = [] \<or> tg_sourceID t = rm_Source m)
      \<and> (rm_States m = [] \<or> containsInsensitive (rm_States m) (tg_state t))
      \<and> toLowerSet (rm_Labels m) \<subseteq> toLowerSet (tg_labels t)
      \<and> toLowerSet (rm_ExcludeLabels m) \<inter> toLowerSet (tg_labels t) = {}
      \<and> (rm_ExcludeLabelPrefix m = [] \<or> \<not> list_ex (\<lambda>l. has_prefix (to_lower l) (to_lower (rm_ExcludeLabelPrefix m))) (tg_labels t))
      \<and> (rm_Types m = [] \<or> containsInsensitive (rm_Types m) (tg_typ t))
      \<and> (rm_Priority m = [] \<or> containsInsensitive (rm_Priority m) (tg_priority t))
      \<and> (case rt_regexes r (rc_ID route) of None \<Rightarrow> True | Some re \<Rightarrow> re (tg_title t)))"
proof -
  let ?m = "rc_Match route"
  have a: "find (\<lambda>x. to_lower x \<notin> toLowerSet (tg_labels t)) (rm_Labels ?m) = None \<longleftrightarrow> toLowerSet (rm_Labels ?m) \<subseteq> toLowerSet (tg_labels t)"
    by (auto simp: find_None_iff toLowerSet_def)
  have b: "find (\<lambda>x. to_lower x \<in> toLowerSet (tg_labels t)) (rm_ExcludeLabels ?m) = None
      \<longleftrightarrow> toLowerSet (rm_ExcludeLabels ?m) \<inter> toLowerSet (tg_labels t) = {}"
    by (auto simp: find_None_iff toLowerSet_def)
  have c: "find (\<lambda>l. has_prefix (to_lower l) p) (tg_labels t) = None \<longleftrightarrow> \<not> list_ex (\<lambda>l. has_prefix (to_lower l) p) (tg_labels t)" for p
    by (auto simp: find_None_iff list_ex_iff)
  show ?thesis
    unfolding evaluateTarget_def Let_def a [symmetric] b [symmetric] c [symmetric]
    by (simp split: option.splits)
qed

lemma route_event_member:
  assumes "m \<in> set (route_event r ev task routes)"
  obtains route where "route \<in> set routes" "IsEventRoute route" "fst (evaluateEvent r route ev task)" "resolveMatch r route = Some m"
  using assms
  by (induction routes) (auto split: if_splits option.splits)

section \<open>Properties\<close>

definition ex_trigger :: "int \<Rightarrow> bool \<Rightarrow> string list \<Rightarrow> string \<Rightarrow> trigger_config" where
  "ex_trigger priority exclusive labels on = \<lparr>tc_Priority = priority, tc_Exclusive = exclusive, tc_Once = False,
     tc_Match = zero_match\<lparr>rm_Labels := labels\<rparr>, tc_On = on, tc_CommentMatches = [], tc_Authors = [], tc_AuthorsAssociation = [],
     tc_IgnoreAuthors = [''bot''], tc_PRAuthors = [], tc_MaxDispatches = 0\<rparr>"

definition ex_workflows :: "(workflow_config \<times> trigger_config option) list" where
  "ex_workflows =
     [(\<lparr>wc_ID = ''low'', wc_Steps = []\<rparr>, Some (ex_trigger 9 False [] [])),
      (\<lparr>wc_ID = ''first'', wc_Steps = []\<rparr>, Some (ex_trigger 1 False [''Bug''] [])),
      (\<lparr>wc_ID = ''own'', wc_Steps = []\<rparr>, Some (ex_trigger 2 True [] [])),
      (\<lparr>wc_ID = ''ev'', wc_Steps = []\<rparr>, Some (ex_trigger 3 False [] ''pr_comment''))]"

definition ex_router :: "nat router" where
  "ex_router = projr (New (sort_key rc_Priority) (\<lambda>_. Inl []) [] ex_workflows)"

definition ex_task :: internal_task where
  "ex_task = \<lparr>it_ID = ''t'', it_ParentTaskID = [], it_Title = [], it_Description = [], it_Input = [], it_DedupKey = [], it_State = [],
     it_BlockedReason = [], it_Metadata = \<lparr>tm_Labels = [''bug''], tm_Priority = [], tm_Type = [], tm_Source = [], tm_State = []\<rparr>,
     it_OutstandingWorkflows = 0, it_CreatedAt = 0, it_UpdatedAt = 0\<rparr>"

definition ex_event :: "string \<Rightarrow> string \<Rightarrow> source_event" where
  "ex_event author association = \<lparr>se_ID = ''e'', se_SourceID = ''s'', se_Kind = ''pr_comment'', se_PRNumber = 1, se_PRURL = [], se_PRAuthor = [],
     se_Author = author, se_AuthorAssociation = association, se_Body = [], se_SubmittedAt = 0, se_RelatedItemID = []\<rparr>"

text \<open>
  C16. A task starts the workflows of all matching triggers in priority order up to and including the first exclusive one; the
  suppressed ones are exactly the remaining matches. A router built from a configuration holds each trigger's
  route once, lowest priority number first, for every sort that meets the interface.
\<close>

theorem fanout_exclusive:
  assumes "priority_sort sortSlice" "New sortSlice re workers workflows = Inr r"
  shows "sorted (map rc_Priority (rt_routes r)) \<and> set (rt_routes r) = set (trigger_routes workflows)
    \<and> RouteAll r task = upto_first (\<lambda>m. rc_Exclusive (m_Route m)) (candidates r (targetFromTask task) (rt_routes r))
    \<and> RouteAll r task @ snd (RouteAllWithSuppressed r task) = candidates r (targetFromTask task) (rt_routes r)"
proof -
  have "upto_first P xs @ drop (length (upto_first P xs)) xs = xs" for P and xs :: "'a match list"
    by (induction xs) auto
  then show ?thesis
    using priority_sort.New_routes [OF assms] by (simp add: RouteAll_def RouteAllWithSuppressed_def route_all_spec)
qed

theorem fanout_exclusive_witness:
  "map (\<lambda>m. rc_ID (m_Route m)) (RouteAll ex_router ex_task) = [''first'', ''own''] \<and> sorted (map rc_Priority (rt_routes ex_router))"
proof -
  have "New (sort_key rc_Priority) (\<lambda>_. Inl []) ([] :: (string \<times> nat) list) ex_workflows = Inr ex_router"
    by (simp add: ex_router_def New_def ex_workflows_def trigger_routes_def trigger_route_def ex_trigger_def zero_match_def compile_route_def Let_def)
  from fanout_exclusive [OF stable_sort.priority_sort_axioms this] have "sorted (map rc_Priority (rt_routes ex_router))" by blast
  moreover have "map (\<lambda>m. rc_ID (m_Route m)) (RouteAll ex_router ex_task) = [''first'', ''own'']" by code_simp
  ultimately show ?thesis by blast
qed

text \<open>
  The explanation shown to the operator is the decision taken: the routes \<open>ExplainTask\<close> marks selected are those of \<open>RouteAll\<close>, in
  order, and the winner \<open>Explain\<close> reports is the match \<open>Route\<close> returns. (Workflow ids are not empty.)
\<close>

theorem explain_agrees:
  assumes "list_all (\<lambda>route. rc_ID route \<noteq> []) (rt_routes r)"
  shows "map tr_RouteID (filter tr_Selected (ExplainTask r task)) = map (\<lambda>m. rc_ID (m_Route m)) (RouteAll r task)
    \<and> fst (Explain r item) = Route r item"
  using assms explain_selected [of "rt_routes r" r "targetFromTask task" "[]"]
  by (simp add: ExplainTask_def RouteAll_def RouteAllWithSuppressed_def route_all_spec Explain_def Route_def explain_item_spec list_all_iff)

theorem explain_agrees_witness:
  "map tr_RouteID (filter tr_Selected (ExplainTask ex_router ex_task)) = [''first'', ''own'']"
proof -
  have "list_all (\<lambda>route. rc_ID route \<noteq> []) (rt_routes ex_router)"
    "map (\<lambda>m. rc_ID (m_Route m)) (RouteAll ex_router ex_task) = [''first'', ''own'']" by code_simp+
  with explain_agrees [of ex_router ex_task empty_item] show ?thesis by simp
qed

text \<open>
  C17. An event starts a workflow only if the actor gate lets its author through: the author is on no ignore list; on the authors
  list when there is one, and otherwise associated with the repository as the trigger, or the collaborators-only default, requires; a
  pull-request author filter needs a known author on its list; and item criteria need a related task that meets them.
\<close>

theorem event_gate:
  assumes "m \<in> set (RouteEvent r ev task)"
  shows "let route = m_Route m; assoc = (if rc_AuthorsAssociation route = [] then DefaultEventAuthorAssociations else rc_AuthorsAssociation route) in
    route \<in> set (rt_routes r) \<and> rc_On route = se_Kind ev
    \<and> \<not> list_ex (\<lambda>a. equal_fold a (se_Author ev)) (rc_IgnoreAuthors route)
    \<and> (if rc_Authors route = [] then list_ex (\<lambda>a. equal_fold a (se_AuthorAssociation ev)) assoc
       else list_ex (\<lambda>a. equal_fold a (se_Author ev)) (rc_Authors route))
    \<and> (rc_PRAuthors route \<noteq> [] \<longrightarrow> se_PRAuthor ev \<noteq> [] \<and> list_ex (\<lambda>a. equal_fold a (se_PRAuthor ev)) (rc_PRAuthors route))
    \<and> (hasItemCriteria (rc_Match route) \<longrightarrow>
        (\<exists>tk. task = Some tk \<and> fst (evaluateTarget r (route\<lparr>rc_Match := (rc_Match route)\<lparr>rm_Source := []\<rparr>\<rparr>) (targetFromTask tk))))"
proof -
  obtain route where route: "route \<in> set (rt_routes r)" "fst (evaluateEvent r route ev task)" "resolveMatch r route = Some m"
    using route_event_member [OF assms [unfolded RouteEvent_def]] by blast
  have on: "rc_On route = se_Kind ev" and au: "fst (authorAllowed route ev)" and pr: "fst (prAuthorAllowed route ev)"
    using route(2) by (auto simp: evaluateEvent_def Let_def split: if_splits)
  have it: "hasItemCriteria (rc_Match route) \<longrightarrow>
      (\<exists>tk. task = Some tk \<and> fst (evaluateTarget r (route\<lparr>rc_Match := (rc_Match route)\<lparr>rm_Source := []\<rparr>\<rparr>) (targetFromTask tk)))"
    using route(2) by (auto simp: evaluateEvent_def Let_def split: if_splits option.splits prod.splits)
  have "\<not> list_ex (\<lambda>a. equal_fold a (se_Author ev)) (rc_IgnoreAuthors route)"
    "if rc_Authors route = [] then list_ex (\<lambda>a. equal_fold a (se_AuthorAssociation ev))
        (if rc_AuthorsAssociation route = [] then DefaultEventAuthorAssociations else rc_AuthorsAssociation route)
     else list_ex (\<lambda>a. equal_fold a (se_Author ev)) (rc_Authors route)"
    using au by (auto simp: authorAllowed_def Let_def split: if_splits)
  moreover have "rc_PRAuthors route \<noteq> [] \<longrightarrow> se_PRAuthor ev \<noteq> [] \<and> list_ex (\<lambda>a. equal_fold a (se_PRAuthor ev)) (rc_PRAuthors route)"
    using pr by (auto simp: prAuthorAllowed_def split: if_splits)
  ultimately show ?thesis using route(1) on it unfolding Let_def resolveMatch_route [OF route(3)] by blast
qed

theorem event_gate_witness:
  "RouteEvent ex_router (ex_event ''eve'' ''NONE'') None = []
   \<and> list_ex (\<lambda>a. equal_fold a ''owner'') DefaultEventAuthorAssociations"
proof -
  let ?m = "hd (RouteEvent ex_router (ex_event ''ann'' ''owner'') None)"
  have "?m \<in> set (RouteEvent ex_router (ex_event ''ann'' ''owner'') None)"
    and "rc_Authors (m_Route ?m) = []" "rc_AuthorsAssociation (m_Route ?m) = []"
    and "RouteEvent ex_router (ex_event ''eve'' ''NONE'') None = []" by code_simp+
  with event_gate [OF this(1)] show ?thesis by (simp add: Let_def ex_event_def)
qed

end
