(* ===== verification/Parking.thy ===== *)
theory Parking
  imports Dag_Progress Lifecycle
begin

text \<open>
  The parked and resuming sets of the engine (\<open>internal/workflow/wait_park.go\<close>, \<open>settle\<close> and \<open>completeTask\<close> of
  \<open>internal/workflow/engine.go\<close>). A run is shared by pointer between the engine's maps and the goroutine that drives
  it, and a stop reaches it through that pointer, so runs live in a heap and the maps hold addresses. An operation
  that holds \<open>e.mu\<close> is one function; what a goroutine does between two of them is a step of its own,
  and steps of different goroutines interleave freely. \<open>StopParked\<close> gives the slot back just after it unlocks:
  that decrement is part of its step here. A task tracker is wired, and the store calls of a step can fail as \<open>faults\<close> says. \<open>e_released\<close> and \<open>e_wrote\<close> log the calls to
  the task tracker and the instance rows written on behalf of a run.
\<close>

section \<open>State\<close>

record engine =
  e_heap :: "nat \<Rightarrow> dag_run"
  e_parked :: "string \<rightharpoonup> nat"
  e_resuming :: "string \<rightharpoonup> nat"
  e_rows :: "string \<rightharpoonup> string \<times> string"
  e_outstanding :: "string \<Rightarrow> int"
  e_tasks :: "string \<rightharpoonup> string \<times> string"
  e_released :: "nat list"
  e_wrote :: "(nat \<times> string) list"

record faults =
  f_read :: bool
  f_write :: bool
  f_decrement :: bool
  f_siblings :: bool

definition no_faults :: faults where
  "no_faults = \<lparr>f_read = False, f_write = False, f_decrement = False, f_siblings = False\<rparr>"

definition inst_of :: "engine \<Rightarrow> nat \<Rightarrow> string" where
  "inst_of e a = r_instID (e_heap e a)"

definition IsParked :: "string \<Rightarrow> engine \<Rightarrow> bool" where
  "IsParked i e \<longleftrightarrow> e_parked e i \<noteq> None"

text \<open>
  A write of an instance row. It changes nothing when the row does not exist, and its callers ignore its error. The log
  records that it was asked for.
\<close>

definition UpdateWorkflowInstanceState :: "faults \<Rightarrow> nat \<Rightarrow> string \<Rightarrow> string \<Rightarrow> string \<Rightarrow> engine \<Rightarrow> engine" where
  "UpdateWorkflowInstanceState f a i st reason e =
     e\<lparr>e_rows := (if f_write f \<or> e_rows e i = None then e_rows e else (e_rows e)(i \<mapsto> (st, reason))),
       e_wrote := e_wrote e @ [(a, st)]\<rparr>"

definition DecrementOutstanding :: "faults \<Rightarrow> string \<Rightarrow> engine \<Rightarrow> int option \<times> engine" where
  "DecrementOutstanding f task e =
     (if f_decrement f then (None, e)
      else let n = max (e_outstanding e task - 1) 0 in (Some n, e\<lparr>e_outstanding := (e_outstanding e)(task := n)\<rparr>))"

definition release_log :: "nat \<Rightarrow> engine \<Rightarrow> engine" where
  "release_log a e = e\<lparr>e_released := e_released e @ [a]\<rparr>"

definition releaseOutstanding :: "faults \<Rightarrow> nat \<Rightarrow> engine \<Rightarrow> engine" where
  "releaseOutstanding f a e =
     (let task = r_taskID (e_heap e a); e1 = release_log a e in
      if task = [] then e1 else snd (DecrementOutstanding f task e1))"

section \<open>Operations under the lock\<close>

text \<open>The run that was stopped, if the engine held one.\<close>

definition StopParked :: "faults \<Rightarrow> string \<Rightarrow> engine \<Rightarrow> nat option \<times> engine" where
  "StopParked f i e =
     (case e_parked e i of
        Some a \<Rightarrow> (Some a, releaseOutstanding f a (e\<lparr>e_parked := (e_parked e)(i := None)\<rparr>))
      | None \<Rightarrow>
          (case e_resuming e i of
             Some a \<Rightarrow> (Some a, releaseOutstanding f a
               (e\<lparr>e_heap := (e_heap e)(a := (e_heap e a)\<lparr>r_stopped := True\<rparr>), e_resuming := (e_resuming e)(i := None)\<rparr>))
           | None \<Rightarrow> (None, e)))"

definition stillParkedLocked :: "faults \<Rightarrow> nat \<Rightarrow> engine \<Rightarrow> bool \<times> engine" where
  "stillParkedLocked f a e =
     (if f_read f then (False, e)
      else (case e_rows e (inst_of e a) of
        None \<Rightarrow> (True, e)
      | Some (st0, blockedReason) \<Rightarrow>
          (let (st, reason0) = NormalizeWithReason st0; reason = (if reason0 = [] then blockedReason else reason0) in
           if st = Blocked \<and> reason \<noteq> ReasonInterrupted then (True, e)
           else (False, releaseOutstanding f a (e\<lparr>e_parked := (e_parked e)(inst_of e a := None)\<rparr>)))))"

definition claimParked :: "faults \<Rightarrow> string \<Rightarrow> engine \<Rightarrow> nat option \<times> engine" where
  "claimParked f i e =
     (case e_parked e i of
        None \<Rightarrow> (None, e)
      | Some a \<Rightarrow>
          (let (ok, e1) = stillParkedLocked f a e in
           if \<not> ok then (None, e1)
           else (Some a, UpdateWorkflowInstanceState f a i Running []
                  (e1\<lparr>e_parked := (e_parked e1)(i := None), e_resuming := (e_resuming e1)(i \<mapsto> a)\<rparr>))))"

text \<open>The locked part of \<open>RecheckWait\<close>: the wait step to query, if the run is still parked at one.\<close>

definition recheck_locked :: "faults \<Rightarrow> string \<Rightarrow> engine \<Rightarrow> (nat \<times> step_config) option \<times> engine" where
  "recheck_locked f i e =
     (case e_parked e i of
        None \<Rightarrow> (None, e)
      | Some a \<Rightarrow>
          (let (ok, e1) = stillParkedLocked f a e; (step, isWait) = waitStepConfig (e_heap e a) in
           (if ok \<and> isWait then Some (a, step) else None, e1)))"

datatype settle_result = SettledStopped | SettledParked | SettleTerminal

definition settle_locked :: "faults \<Rightarrow> dagOutcome \<Rightarrow> nat \<Rightarrow> engine \<Rightarrow> settle_result \<times> engine" where
  "settle_locked f outcome a e =
     (let r = e_heap e a; i = r_instID r in
      if r_stopped r then (SettledStopped, e)
      else if outcome = outcomeWaiting then
        (let e1 = UpdateWorkflowInstanceState f a i Blocked (if snd (waitStepConfig r) then ReasonCI else ReasonApproval) e in
         (SettledParked, e1\<lparr>e_parked := (e_parked e1)(i \<mapsto> a), e_resuming := (e_resuming e1)(i := None)\<rparr>))
      else (SettleTerminal, e\<lparr>e_parked := (e_parked e)(i := None), e_resuming := (e_resuming e)(i := None)\<rparr>))"

section \<open>Completion\<close>

text \<open>
  Whether an instance of the task failed, and whether the dispatcher will retry, are queries of the tracker. The
  execution event and the completion hooks that follow change no state of the engine.
\<close>

definition completeTask :: "faults \<Rightarrow> bool \<Rightarrow> bool \<Rightarrow> bool \<Rightarrow> nat \<Rightarrow> engine \<Rightarrow> engine" where
  "completeTask f hasFailed retryPending failed a e =
     (let task = r_taskID (e_heap e a); e1 = release_log a e in
      if task = [] then e1
      else (case DecrementOutstanding f task e1 of
          (None, e2) \<Rightarrow> e2
        | (Some remaining, e2) \<Rightarrow>
            if remaining > 0 then e2
            else (let anyFailed = (failed \<or> \<not> f_siblings f \<and> hasFailed) in
              e2\<lparr>e_tasks := (e_tasks e2)(task \<mapsto>
                (if \<not> anyFailed then (Done, []) else if retryPending then (Blocked, ReasonRetryBackoff) else (Failed, [])))\<rparr>)))"

definition settle_terminal :: "faults \<Rightarrow> bool \<Rightarrow> bool \<Rightarrow> bool \<Rightarrow> nat \<Rightarrow> engine \<Rightarrow> engine" where
  "settle_terminal f hasFailed retryPending failed a e =
     completeTask f hasFailed retryPending failed a
       (UpdateWorkflowInstanceState f a (inst_of e a) (if failed then Failed else Done) [] e)"

section \<open>Resuming\<close>

text \<open>\<open>WakeWait\<close> re-arms the waiting step of a claimed run before it is driven.\<close>

definition rearm :: "dag_run \<Rightarrow> dag_run" where
  "rearm r = r\<lparr>r_waitingStep := [], r_waitingChild := [], r_state := (r_state r)(r_waitingStep r \<mapsto> stPending)\<rparr>"

section \<open>The operator's stop\<close>

text \<open>
  \<open>Dispatcher.StopInstance\<close> first takes the instance out of the engine and then persists the interrupted state; the two are not
  one critical section.
\<close>

definition interrupt_row :: "faults \<Rightarrow> string \<Rightarrow> engine \<Rightarrow> engine" where
  "interrupt_row f i e =
     e\<lparr>e_rows := (if f_write f \<or> e_rows e i = None then e_rows e else (e_rows e)(i \<mapsto> (Blocked, ReasonInterrupted)))\<rparr>"

definition stop_instance :: "faults \<Rightarrow> string \<Rightarrow> engine \<Rightarrow> nat option \<times> engine" where
  "stop_instance f i e = (let (taken, e1) = StopParked f i e in (taken, interrupt_row f i e1))"

section \<open>The engine as a concurrent system\<close>

record system =
  sy_engine :: engine
  sy_driving :: "nat set"
  sy_finishing :: "nat \<rightharpoonup> bool"
  sy_next :: nat
  sy_stops :: "nat set"

definition same_run :: "dag_run \<Rightarrow> dag_run \<Rightarrow> bool" where
  "same_run r r' \<longleftrightarrow> r_instID r' = r_instID r \<and> r_taskID r' = r_taskID r \<and> r_stopped r' = r_stopped r"

definition set_run :: "nat \<Rightarrow> dag_run \<Rightarrow> engine \<Rightarrow> engine" where
  "set_run a r e = e\<lparr>e_heap := (e_heap e)(a := r)\<rparr>"

text \<open>No run that still holds a slot has this instance id.\<close>

definition unused :: "string \<Rightarrow> system \<Rightarrow> bool" where
  "unused i s \<longleftrightarrow> (\<forall>b<sy_next s. inst_of (sy_engine s) b = i \<longrightarrow> b \<in> set (e_released (sy_engine s)))"

text \<open>
  The steps: a fresh run starts; a run is rehydrated after a restart; a parked run is claimed and re-armed or given
  its decision; a wake or a re-check finds nothing to resume, and drops a run whose row says it is no longer parked; a driver leaves a new state in its run; a driver settles; a terminal
  settlement is completed; the operator's stop; and the row the stop writes afterwards.
\<close>

inductive system_step :: "system \<Rightarrow> system \<Rightarrow> bool" where
  fresh: "unused (r_instID r) s \<Longrightarrow> \<not> r_stopped r \<Longrightarrow>
    system_step s (s\<lparr>sy_engine := set_run (sy_next s) r (sy_engine s), sy_driving := insert (sy_next s) (sy_driving s), sy_next := sy_next s + 1\<rparr>)"
| rehydrate: "unused (r_instID r) s \<Longrightarrow> \<not> r_stopped r \<Longrightarrow> e = set_run (sy_next s) r (sy_engine s) \<Longrightarrow>
    system_step s (s\<lparr>sy_engine := e\<lparr>e_parked := (e_parked e)(r_instID r \<mapsto> sy_next s)\<rparr>, sy_next := sy_next s + 1\<rparr>)"
| wake: "claimParked f i (sy_engine s) = (Some a, e) \<Longrightarrow> same_run (e_heap e a) r \<Longrightarrow>
    system_step s (s\<lparr>sy_engine := set_run a r e, sy_driving := insert a (sy_driving s)\<rparr>)"
| refuse: "claimParked f i (sy_engine s) = (None, e) \<Longrightarrow> system_step s (s\<lparr>sy_engine := e\<rparr>)"
| recheck: "recheck_locked f i (sy_engine s) = (found, e) \<Longrightarrow> system_step s (s\<lparr>sy_engine := e\<rparr>)"
| drive: "a \<in> sy_driving s \<Longrightarrow> same_run (e_heap (sy_engine s) a) r \<Longrightarrow> system_step s (s\<lparr>sy_engine := set_run a r (sy_engine s)\<rparr>)"
| settle: "a \<in> sy_driving s \<Longrightarrow> settle_locked f outcome a (sy_engine s) = (res, e) \<Longrightarrow>
    system_step s (s\<lparr>sy_engine := e, sy_driving := sy_driving s - {a},
      sy_finishing := (if res = SettleTerminal then (sy_finishing s)(a \<mapsto> (outcome = outcomeFailed)) else sy_finishing s)\<rparr>)"
| complete: "sy_finishing s a = Some failed \<Longrightarrow>
    system_step s (s\<lparr>sy_engine := settle_terminal f hasFailed retryPending failed a (sy_engine s), sy_finishing := (sy_finishing s)(a := None)\<rparr>)"
| stop: "StopParked f i (sy_engine s) = (taken, e) \<Longrightarrow>
    system_step s (s\<lparr>sy_engine := e, sy_stops := (case taken of None \<Rightarrow> sy_stops s | Some a \<Rightarrow> insert a (sy_stops s))\<rparr>)"
| interrupt: "system_step s (s\<lparr>sy_engine := interrupt_row f i (sy_engine s)\<rparr>)"

definition empty_engine :: "(nat \<Rightarrow> dag_run) \<Rightarrow> (string \<rightharpoonup> string \<times> string) \<Rightarrow> (string \<Rightarrow> int) \<Rightarrow> engine" where
  "empty_engine heap rows outstanding = \<lparr>e_heap = heap, e_parked = Map.empty, e_resuming = Map.empty, e_rows = rows,
     e_outstanding = outstanding, e_tasks = Map.empty, e_released = [], e_wrote = []\<rparr>"

definition system_start :: "system \<Rightarrow> bool" where
  "system_start s \<longleftrightarrow> (\<exists>heap rows outstanding.
     s = \<lparr>sy_engine = empty_engine heap rows outstanding, sy_driving = {}, sy_finishing = Map.empty, sy_next = 0, sy_stops = {}\<rparr>)"

section \<open>The invariant\<close>

text \<open>
  A run holds its slot from the moment it is known until the slot is given back. Meanwhile it is in exactly one place: a
  goroutine drives it, its terminal settlement is being completed, or the parked set holds it. A run that has given its
  slot back is in neither of the last two, and a goroutine that still drives it finds it stopped.
\<close>

definition held :: "system \<Rightarrow> nat \<Rightarrow> bool" where
  "held s a \<longleftrightarrow> a < sy_next s \<and> a \<notin> set (e_released (sy_engine s))"

definition parked_at :: "system \<Rightarrow> nat \<Rightarrow> bool" where
  "parked_at s a \<longleftrightarrow> e_parked (sy_engine s) (inst_of (sy_engine s) a) = Some a"

definition place_ok :: "system \<Rightarrow> nat \<Rightarrow> bool" where
  "place_ok s a \<longleftrightarrow> (let driven = (a \<in> sy_driving s); finishing = (sy_finishing s a \<noteq> None); parked = parked_at s a in
     if a \<ge> sy_next s then a \<notin> set (e_released (sy_engine s)) \<and> \<not> driven \<and> \<not> finishing \<and> \<not> parked \<and> a \<notin> sy_stops s
     else if held s a then \<not> r_stopped (e_heap (sy_engine s) a) \<and> a \<notin> sy_stops s \<and>
       (driven \<and> \<not> finishing \<and> \<not> parked \<or> \<not> driven \<and> finishing \<and> \<not> parked \<or> \<not> driven \<and> \<not> finishing \<and> parked)
     else \<not> finishing \<and> \<not> parked \<and> (driven \<longrightarrow> r_stopped (e_heap (sy_engine s) a)))"

definition entries_ok :: "system \<Rightarrow> string \<Rightarrow> bool" where
  "entries_ok s i \<longleftrightarrow> (let e = sy_engine s in
     (case e_parked e i of None \<Rightarrow> True | Some a \<Rightarrow> inst_of e a = i) \<and>
     (case e_resuming e i of None \<Rightarrow> True | Some a \<Rightarrow> inst_of e a = i \<and> held s a \<and> a \<in> sy_driving s))"

definition system_inv :: "system \<Rightarrow> bool" where
  "system_inv s \<longleftrightarrow> distinct (e_released (sy_engine s)) \<and> (\<forall>a. place_ok s a) \<and> (\<forall>i. entries_ok s i)
     \<and> (\<forall>a b. held s a \<longrightarrow> held s b \<longrightarrow> inst_of (sy_engine s) a = inst_of (sy_engine s) b \<longrightarrow> a = b)"

section \<open>What each operation does to the maps\<close>

lemma release_fields [simp]:
  "e_heap (releaseOutstanding f a e) = e_heap e"
  "e_parked (releaseOutstanding f a e) = e_parked e"
  "e_resuming (releaseOutstanding f a e) = e_resuming e"
  "e_rows (releaseOutstanding f a e) = e_rows e"
  "e_wrote (releaseOutstanding f a e) = e_wrote e"
  "e_released (releaseOutstanding f a e) = e_released e @ [a]"
  by (simp_all add: releaseOutstanding_def release_log_def DecrementOutstanding_def Let_def)

lemma update_fields [simp]:
  "e_heap (UpdateWorkflowInstanceState f a i st w e) = e_heap e"
  "e_parked (UpdateWorkflowInstanceState f a i st w e) = e_parked e"
  "e_resuming (UpdateWorkflowInstanceState f a i st w e) = e_resuming e"
  "e_released (UpdateWorkflowInstanceState f a i st w e) = e_released e"
  "e_wrote (UpdateWorkflowInstanceState f a i st w e) = e_wrote e @ [(a, st)]"
  by (simp_all add: UpdateWorkflowInstanceState_def)

lemma complete_fields [simp]:
  "e_heap (completeTask f h t failed a e) = e_heap e"
  "e_parked (completeTask f h t failed a e) = e_parked e"
  "e_resuming (completeTask f h t failed a e) = e_resuming e"
  "e_wrote (completeTask f h t failed a e) = e_wrote e"
  "e_released (completeTask f h t failed a e) = e_released e @ [a]"
  by (simp_all add: completeTask_def release_log_def DecrementOutstanding_def Let_def)

lemma settle_terminal_fields [simp]:
  "e_heap (settle_terminal f h t failed a e) = e_heap e"
  "e_parked (settle_terminal f h t failed a e) = e_parked e"
  "e_resuming (settle_terminal f h t failed a e) = e_resuming e"
  "e_wrote (settle_terminal f h t failed a e) = e_wrote e @ [(a, if failed then Failed else Done)]"
  "e_released (settle_terminal f h t failed a e) = e_released e @ [a]"
  by (simp_all add: settle_terminal_def)

lemma set_run_fields [simp]:
  "e_heap (set_run a r e) = (e_heap e)(a := r)"
  "e_parked (set_run a r e) = e_parked e"
  "e_resuming (set_run a r e) = e_resuming e"
  "e_released (set_run a r e) = e_released e"
  "e_wrote (set_run a r e) = e_wrote e"
  by (simp_all add: set_run_def)

text \<open>Dropping a parked run, as \<open>StopParked\<close> and \<open>stillParkedLocked\<close> do.\<close>

definition drop_parked :: "faults \<Rightarrow> nat \<Rightarrow> engine \<Rightarrow> engine" where
  "drop_parked f a e = releaseOutstanding f a (e\<lparr>e_parked := (e_parked e)(inst_of e a := None)\<rparr>)"

lemma drop_parked_fields [simp]:
  "e_heap (drop_parked f a e) = e_heap e"
  "e_parked (drop_parked f a e) = (e_parked e)(inst_of e a := None)"
  "e_resuming (drop_parked f a e) = e_resuming e"
  "e_wrote (drop_parked f a e) = e_wrote e"
  "e_released (drop_parked f a e) = e_released e @ [a]"
  by (simp_all add: drop_parked_def)

lemma inst_of_cong: "e_heap e' = e_heap e \<Longrightarrow> inst_of e' a = inst_of e a"
  by (simp add: inst_of_def)

lemma stillParked_cases:
  "stillParkedLocked f a e = (ok, e') \<Longrightarrow> e' = e \<or> \<not> ok \<and> e' = drop_parked f a e"
  by (auto simp: stillParkedLocked_def drop_parked_def Let_def split: if_splits option.splits prod.splits)

lemma stillParked_ok: "stillParkedLocked f a e = (True, e') \<Longrightarrow> e' = e"
  using stillParked_cases by blast

lemma claim_refused:
  assumes "claimParked f i e = (None, e')"
  shows "e' = e \<or> (\<exists>a. e_parked e i = Some a \<and> e' = drop_parked f a e)"
  using assms by (auto simp: claimParked_def Let_def split: if_splits option.splits prod.splits dest: stillParked_cases)

lemma recheck_result:
  assumes "recheck_locked f i e = (found, e')"
  shows "e' = e \<or> (\<exists>a. e_parked e i = Some a \<and> e' = drop_parked f a e)"
  using assms by (auto simp: recheck_locked_def Let_def split: if_splits option.splits prod.splits dest: stillParked_cases)

lemma claim_taken:
  assumes "claimParked f i e = (Some a, e')"
  shows "e_parked e i = Some a" and "e_heap e' = e_heap e" and "e_parked e' = (e_parked e)(i := None)"
    and "e_resuming e' = (e_resuming e)(i \<mapsto> a)" and "e_released e' = e_released e" and "e_wrote e' = e_wrote e @ [(a, Running)]"
  using assms by (auto simp: claimParked_def Let_def split: if_splits option.splits prod.splits dest: stillParked_ok)

lemma rearm_same_run: "same_run r (rearm r)"
  by (simp add: same_run_def rearm_def)

lemma resolveApproval_same_run: "same_run r (resolveApproval decision r)"
  by (simp add: same_run_def resolveApproval_def Let_def)

end
