(* ===== verification/Parking_Properties.thy ===== *)
theory Parking_Properties
  imports Parking
begin

text \<open>
  What holds of the parked and resuming sets under every interleaving of drivers, wakes, re-checks, stops and restarts:
  one preservation lemma per kind of step, and the properties that rest on the invariant.
\<close>

section \<open>Every step keeps the invariant\<close>

lemma system_invI:
  assumes "distinct (e_released (sy_engine s))" and "\<And>a. place_ok s a" and "\<And>i. entries_ok s i"
    and "\<And>a b. held s a \<Longrightarrow> held s b \<Longrightarrow> inst_of (sy_engine s) a = inst_of (sy_engine s) b \<Longrightarrow> a = b"
  shows "system_inv s"
  using assms unfolding system_inv_def by blast

lemma system_invD:
  assumes "system_inv s"
  shows "distinct (e_released (sy_engine s))" and "place_ok s a" and "entries_ok s i"
    and "held s a \<Longrightarrow> held s b \<Longrightarrow> inst_of (sy_engine s) a = inst_of (sy_engine s) b \<Longrightarrow> a = b"
  using assms unfolding system_inv_def by blast+

lemmas inv_distinct = system_invD(1)
lemmas inv_run = system_invD(2)
lemmas inv_entries = system_invD(3)
lemmas inv_unique = system_invD(4)
lemmas place_simps = place_ok_def parked_at_def held_def inst_of_def Let_def
lemmas entry_simps = entries_ok_def held_def inst_of_def Let_def

lemma entries_okI:
  assumes "\<And>a. e_parked (sy_engine s) i = Some a \<Longrightarrow> inst_of (sy_engine s) a = i"
    and "\<And>a. e_resuming (sy_engine s) i = Some a \<Longrightarrow> inst_of (sy_engine s) a = i \<and> held s a \<and> a \<in> sy_driving s"
  shows "entries_ok s i"
  using assms by (simp add: entries_ok_def Let_def split: option.splits)

lemma inv_parked: "system_inv s \<Longrightarrow> e_parked (sy_engine s) i = Some a \<Longrightarrow> inst_of (sy_engine s) a = i"
  and inv_resuming: "system_inv s \<Longrightarrow> e_resuming (sy_engine s) i = Some a \<Longrightarrow> inst_of (sy_engine s) a = i \<and> held s a \<and> a \<in> sy_driving s"
  using system_invD(3) [of s i] by (simp_all add: entries_ok_def Let_def)

lemma parked_held:
  assumes "system_inv s" and "e_parked (sy_engine s) i = Some a"
  shows "inst_of (sy_engine s) a = i" and "held s a" and "a \<notin> sy_driving s" and "sy_finishing s a = None"
proof -
  show i: "inst_of (sy_engine s) a = i" using inv_entries [OF assms(1), of i] assms(2) by (simp add: entries_ok_def Let_def)
  then have "parked_at s a" using assms(2) by (simp add: parked_at_def)
  then show "held s a" "a \<notin> sy_driving s" "sy_finishing s a = None"
    using inv_run [OF assms(1), of a] by (auto simp: place_ok_def Let_def split: if_splits)
qed

text \<open>A new run with an unused instance id keeps the ids of the runs that hold a slot apart.\<close>

lemma fresh_unique:
  assumes inv: "system_inv s" and new: "unused (r_instID r) s"
    and h: "held s a \<or> a = sy_next s" "held s b \<or> b = sy_next s"
    and eq: "r_instID (((e_heap (sy_engine s))(sy_next s := r)) a) = r_instID (((e_heap (sy_engine s))(sy_next s := r)) b)"
  shows "a = b"
proof -
  have old: "r_instID (((e_heap (sy_engine s))(sy_next s := r)) c) = inst_of (sy_engine s) c" "inst_of (sy_engine s) c \<noteq> r_instID r"
    if "held s c" for c using that new by (auto simp: held_def inst_of_def unused_def)
  have own: "r_instID (((e_heap (sy_engine s))(sy_next s := r)) (sy_next s)) = r_instID r" by simp
  from h show ?thesis
  proof (elim disjE)
    assume "held s a" "held s b"
    then show ?thesis using inv_unique [OF inv] eq old(1) by metis
  next
    assume a: "held s a" and b: "b = sy_next s"
    have "inst_of (sy_engine s) a = r_instID r" using eq unfolding b own old(1) [OF a] .
    with old(2) [OF a] show ?thesis by contradiction
  next
    assume a: "a = sy_next s" and b: "held s b"
    have "r_instID r = inst_of (sy_engine s) b" using eq unfolding a own old(1) [OF b] .
    with old(2) [OF b] show ?thesis by simp
  next
    assume "a = sy_next s" "b = sy_next s"
    then show ?thesis by simp
  qed
qed

lemma inv_fresh:
  assumes inv: "system_inv s" and new: "unused (r_instID r) s" and running: "\<not> r_stopped r"
  shows "system_inv (s\<lparr>sy_engine := set_run (sy_next s) r (sy_engine s), sy_driving := insert (sy_next s) (sy_driving s), sy_next := sy_next s + 1\<rparr>)"
    (is "system_inv ?s")
proof (rule system_invI)
  note here = inv_run [OF inv, of "sy_next s"]
  show "distinct (e_released (sy_engine ?s))" using inv_distinct [OF inv] by simp
  show "place_ok ?s a" for a
  proof (cases "a = sy_next s")
    case True
    have "e_parked (sy_engine s) (r_instID r) \<noteq> Some (sy_next s)" using parked_held(2) [OF inv] by (auto simp: held_def)
    then show ?thesis using here running True by (simp add: place_simps)
  next
    case False
    then show ?thesis using inv_run [OF inv, of a] by (simp add: place_simps split: if_splits)
  qed
  show "entries_ok ?s i" for i
  proof -
    have "e_parked (sy_engine s) i \<noteq> Some (sy_next s)" using parked_held(2) [OF inv] by (auto simp: held_def)
    then show ?thesis using inv_entries [OF inv, of i] by (auto simp: entry_simps split: option.splits)
  qed
  show "a = b" if "held ?s a" "held ?s b" "inst_of (sy_engine ?s) a = inst_of (sy_engine ?s) b" for a b
    by (rule fresh_unique [OF inv new]) (use that in \<open>simp_all add: held_def inst_of_def less_Suc_eq, blast?\<close>)
qed

lemma inv_rehydrate:
  assumes inv: "system_inv s" and new: "unused (r_instID r) s" and running: "\<not> r_stopped r" and e: "e = set_run (sy_next s) r (sy_engine s)"
  shows "system_inv (s\<lparr>sy_engine := e\<lparr>e_parked := (e_parked e)(r_instID r \<mapsto> sy_next s)\<rparr>, sy_next := sy_next s + 1\<rparr>)"
    (is "system_inv ?s")
proof (rule system_invI)
  note here = inv_run [OF inv, of "sy_next s"]
  show "distinct (e_released (sy_engine ?s))" using inv_distinct [OF inv] e by simp
  show "place_ok ?s a" for a
  proof (cases "a = sy_next s")
    case True
    then show ?thesis using here running e by (simp add: place_simps)
  next
    case False
    have "inst_of (sy_engine s) a \<noteq> r_instID r" if "held s a" using that new by (auto simp: held_def unused_def)
    then show ?thesis using False inv_run [OF inv, of a] e by (auto simp: place_simps split: if_splits)
  qed
  show "entries_ok ?s i" for i
  proof -
    have "e_parked (sy_engine s) i \<noteq> Some (sy_next s)" using parked_held(2) [OF inv] by (auto simp: held_def)
    then show ?thesis using inv_entries [OF inv, of i] e by (auto simp: entry_simps split: option.splits)
  qed
  show "a = b" if "held ?s a" "held ?s b" "inst_of (sy_engine ?s) a = inst_of (sy_engine ?s) b" for a b
    by (rule fresh_unique [OF inv new]) (use that e in \<open>simp_all add: held_def inst_of_def less_Suc_eq, blast?\<close>)
qed

text \<open>A run that a step does not touch stays where it is.\<close>

lemma place_ok_cong:
  assumes "place_ok s b" and "sy_next s' = sy_next s" and "b \<in> sy_driving s' \<longleftrightarrow> b \<in> sy_driving s" and "sy_finishing s' b = sy_finishing s b"
    and "b \<in> set (e_released (sy_engine s')) \<longleftrightarrow> b \<in> set (e_released (sy_engine s))" and "b \<in> sy_stops s' \<longleftrightarrow> b \<in> sy_stops s"
    and "r_stopped (e_heap (sy_engine s') b) = r_stopped (e_heap (sy_engine s) b)" and "parked_at s' b = parked_at s b"
  shows "place_ok s' b"
  using assms(1) unfolding place_ok_def held_def Let_def assms(2-) .

lemma inv_drive:
  assumes inv: "system_inv s" and same: "same_run (e_heap (sy_engine s) a) r"
  shows "system_inv (s\<lparr>sy_engine := set_run a r (sy_engine s)\<rparr>)"
proof -
  let ?s = "s\<lparr>sy_engine := set_run a r (sy_engine s)\<rparr>"
  have ident: "inst_of (set_run a r (sy_engine s)) b = inst_of (sy_engine s) b"
    "r_stopped (e_heap (set_run a r (sy_engine s)) b) = r_stopped (e_heap (sy_engine s) b)" for b
    using same by (simp_all add: same_run_def inst_of_def)
  have held: "held ?s b = held s b" for b by (simp add: held_def)
  have "place_ok ?s b = place_ok s b" "entries_ok ?s i = entries_ok s i" for b i
    unfolding place_ok_def entries_ok_def parked_at_def Let_def held by (simp_all add: ident del: set_run_fields(1) cong: option.case_cong)
  then show ?thesis using inv unfolding system_inv_def held by (auto simp: ident)
qed

text \<open>Entries after a step that keeps every identity: what is listed was listed before, or is named.\<close>

lemma entries_ok_step:
  assumes inv: "system_inv s" and id: "\<And>b. inst_of (sy_engine s') b = inst_of (sy_engine s) b"
    and p: "\<And>b. e_parked (sy_engine s') i = Some b \<Longrightarrow> e_parked (sy_engine s) i = Some b \<or> inst_of (sy_engine s) b = i"
    and w: "\<And>b. e_resuming (sy_engine s') i = Some b \<Longrightarrow>
      e_resuming (sy_engine s) i = Some b \<and> (held s b \<longrightarrow> held s' b) \<and> (b \<in> sy_driving s \<longrightarrow> b \<in> sy_driving s')
      \<or> inst_of (sy_engine s) b = i \<and> held s' b \<and> b \<in> sy_driving s'"
  shows "entries_ok s' i"
proof (rule entries_okI)
  fix b assume "e_parked (sy_engine s') i = Some b"
  from p [OF this] show "inst_of (sy_engine s') b = i" unfolding id by (auto dest: inv_parked [OF inv])
next
  fix b assume "e_resuming (sy_engine s') i = Some b"
  from w [OF this] show "inst_of (sy_engine s') b = i \<and> held s' b \<and> b \<in> sy_driving s'" unfolding id by (blast dest: inv_resuming [OF inv])
qed

lemma unique_step:
  assumes inv: "system_inv s" and id: "\<And>b. inst_of (sy_engine s') b = inst_of (sy_engine s) b" and h: "\<And>b. held s' b \<Longrightarrow> held s b"
    and "held s' b" and "held s' c" and "inst_of (sy_engine s') b = inst_of (sy_engine s') c"
  shows "b = c"
  by (rule inv_unique [OF inv h [OF assms(4)] h [OF assms(5)]]) (use assms(6) in \<open>simp only: id\<close>)

lemma inv_drop:
  assumes inv: "system_inv s" and p: "e_parked (sy_engine s) i = Some a" and S: "S = sy_stops s \<or> S = insert a (sy_stops s)"
  shows "system_inv (s\<lparr>sy_engine := drop_parked f a (sy_engine s), sy_stops := S\<rparr>)" (is "system_inv ?s")
proof (rule system_invI)
  note a = parked_held [OF inv p]
  have id: "inst_of (sy_engine ?s) b = inst_of (sy_engine s) b" for b by (simp add: inst_of_def)
  have h: "held ?s b \<longleftrightarrow> held s b \<and> b \<noteq> a" for b by (auto simp: held_def)
  show "distinct (e_released (sy_engine ?s))" using inv_distinct [OF inv] a(2) by (simp add: held_def)
  show "place_ok ?s b" for b
  proof (cases "b = a")
    case True
    then show ?thesis using inv_run [OF inv, of a] a by (simp add: place_simps)
  next
    case False
    have "parked_at ?s b = parked_at s b"
      using False p a(1) by (cases "inst_of (sy_engine s) b = i") (simp_all add: parked_at_def id [simplified])
    from place_ok_cong [OF inv_run [OF inv] _ _ _ _ _ _ this] show ?thesis using False S by auto
  qed
  show "entries_ok ?s j" for j
    by (rule entries_ok_step [OF inv id]) (use a(3) in \<open>auto simp: h split: if_splits dest: inv_resuming [OF inv]\<close>)
  show "b = c" if "held ?s b" "held ?s c" "inst_of (sy_engine ?s) b = inst_of (sy_engine ?s) c" for b c
    by (rule unique_step [OF inv id _ that]) (simp add: h)
qed

lemma inv_wake:
  assumes inv: "system_inv s" and c: "claimParked f i (sy_engine s) = (Some a, e)" and same: "same_run (e_heap e a) r"
  shows "system_inv (s\<lparr>sy_engine := set_run a r e, sy_driving := insert a (sy_driving s)\<rparr>)"
proof -
  note t = claim_taken [OF c] and a = parked_held [OF inv claim_taken(1) [OF c]]
  let ?s = "s\<lparr>sy_engine := e, sy_driving := insert a (sy_driving s)\<rparr>"
  have id: "inst_of (sy_engine ?s) b = inst_of (sy_engine s) b" for b using t by (simp add: inst_of_def)
  have h: "held ?s b \<longleftrightarrow> held s b" for b using t by (simp add: held_def)
  have "system_inv ?s"
  proof (rule system_invI)
    show "distinct (e_released (sy_engine ?s))" using inv_distinct [OF inv] t by simp
    show "place_ok ?s b" for b
    proof (cases "b = a")
      case True
      have "\<not> parked_at ?s a" using t(3) a(1) by (simp add: parked_at_def inst_of_def t(2))
      then show ?thesis using inv_run [OF inv, of a] a(2,4) t(2,5) True by (auto simp: place_ok_def h Let_def held_def split: if_splits)
    next
      case False
      have "parked_at ?s b = parked_at s b"
        using False t(1,3) by (cases "inst_of (sy_engine s) b = i") (simp_all add: parked_at_def id [simplified])
      from place_ok_cong [OF inv_run [OF inv] _ _ _ _ _ _ this] show ?thesis using False t by simp
    qed
    show "entries_ok ?s j" for j
      by (rule entries_ok_step [OF inv id]) (use a(1,2) in \<open>auto simp: h t(3,4) split: if_splits\<close>)
    show "b = c" if "held ?s b" "held ?s c" "inst_of (sy_engine ?s) b = inst_of (sy_engine ?s) c" for b c
      by (rule unique_step [OF inv id _ that]) (simp add: h)
  qed
  from inv_drive [OF this, of a r] same show ?thesis by (cases s) simp
qed

lemma inv_settle:
  assumes inv: "system_inv s" and d: "a \<in> sy_driving s" and st: "settle_locked f outcome a (sy_engine s) = (res, e)"
  shows "system_inv (s\<lparr>sy_engine := e, sy_driving := sy_driving s - {a},
      sy_finishing := (if res = SettleTerminal then (sy_finishing s)(a \<mapsto> (outcome = outcomeFailed)) else sy_finishing s)\<rparr>)"
    (is "system_inv ?s")
proof (rule system_invI)
  let ?i = "inst_of (sy_engine s) a"
  note here = inv_run [OF inv, of a]
  have e: "e_heap e = e_heap (sy_engine s)" "e_released e = e_released (sy_engine s)"
    using st by (auto simp: settle_locked_def Let_def split: if_splits)
  have id: "inst_of (sy_engine ?s) b = inst_of (sy_engine s) b" for b using e by (simp add: inst_of_def)
  have h: "held ?s b \<longleftrightarrow> held s b" for b using e by (simp add: held_def)
  have at: "parked_at ?s b \<longleftrightarrow> e_parked e (inst_of (sy_engine s) b) = Some b" for b using id [of b] by (simp add: parked_at_def)
  have halt: "held s a \<longleftrightarrow> \<not> r_stopped (e_heap (sy_engine s) a)"
    using here d by (auto simp: place_ok_def held_def Let_def split: if_splits)
  consider (stopped) "\<not> held s a" "res = SettledStopped" "e = sy_engine s"
    | (parked) "held s a" "res = SettledParked" "e_parked e = (e_parked (sy_engine s))(?i \<mapsto> a)" "e_resuming e = (e_resuming (sy_engine s))(?i := None)"
    | (terminal) "held s a" "res = SettleTerminal" "e_parked e = (e_parked (sy_engine s))(?i := None)" "e_resuming e = (e_resuming (sy_engine s))(?i := None)"
    using st halt by (auto simp: settle_locked_def Let_def inst_of_def split: if_splits)
  note cs = this
  show "distinct (e_released (sy_engine ?s))" using inv_distinct [OF inv] e by simp
  show "place_ok ?s b" for b
  proof (cases "b = a")
    case True
    show ?thesis unfolding True using cs
      by cases (use here d in \<open>auto simp: place_ok_def at h Let_def e id [simplified] parked_at_def held_def split: if_splits\<close>)
  next
    case False
    have other: "\<not> parked_at s b" if "held s a" "inst_of (sy_engine s) b = ?i"
    proof
      assume "parked_at s b"
      then have "held s b" unfolding parked_at_def by (rule parked_held(2) [OF inv])
      from inv_unique [OF inv that(1) this] that(2) False show False by simp
    qed
    have "parked_at ?s b = parked_at s b"
      using cs by cases (use other False in \<open>auto simp: at parked_at_def id [simplified]\<close>)
    from place_ok_cong [OF inv_run [OF inv] _ _ _ _ _ _ this] show ?thesis using False e by simp
  qed
  show "entries_ok ?s j" for j
  proof (rule entries_ok_step [OF inv id])
    show "e_parked (sy_engine s) j = Some b \<or> inst_of (sy_engine s) b = j" if "e_parked (sy_engine ?s) j = Some b" for b
      using cs by cases (use that in \<open>auto split: if_splits\<close>)
    show "e_resuming (sy_engine s) j = Some b \<and> (held s b \<longrightarrow> held ?s b) \<and> (b \<in> sy_driving s \<longrightarrow> b \<in> sy_driving ?s)
      \<or> inst_of (sy_engine s) b = j \<and> held ?s b \<and> b \<in> sy_driving ?s" if w: "e_resuming (sy_engine ?s) j = Some b" for b
    proof -
      have old: "e_resuming (sy_engine s) j = Some b" using cs by cases (use w in \<open>auto split: if_splits\<close>)
      note b = inv_resuming [OF inv old]
      have "b \<noteq> a" using cs by cases (use b w in auto)
      then show ?thesis using old h by simp
    qed
  qed
  show "b = c" if "held ?s b" "held ?s c" "inst_of (sy_engine ?s) b = inst_of (sy_engine ?s) c" for b c
    by (rule unique_step [OF inv id _ that]) (simp add: h)
qed

lemma inv_complete:
  assumes inv: "system_inv s" and fin: "sy_finishing s a = Some failed"
  shows "system_inv (s\<lparr>sy_engine := settle_terminal f h t failed a (sy_engine s), sy_finishing := (sy_finishing s)(a := None)\<rparr>)"
    (is "system_inv ?s")
proof (rule system_invI)
  note here = inv_run [OF inv, of a]
  have a: "held s a" "a \<notin> sy_driving s" "\<not> parked_at s a" using here fin by (auto simp: place_ok_def Let_def split: if_splits)
  have id: "inst_of (sy_engine ?s) b = inst_of (sy_engine s) b" for b by (simp add: inst_of_def)
  have h: "held ?s b \<longleftrightarrow> held s b \<and> b \<noteq> a" for b by (auto simp: held_def)
  have at: "parked_at ?s b = parked_at s b" for b using id [of b] by (simp add: parked_at_def)
  show "distinct (e_released (sy_engine ?s))" using inv_distinct [OF inv] a by (simp add: held_def)
  show "place_ok ?s b" for b
  proof (cases "b = a")
    case True
    then show ?thesis using here a by (auto simp: place_ok_def h at Let_def held_def split: if_splits)
  next
    case False
    with place_ok_cong [OF inv_run [OF inv] _ _ _ _ _ _ at] show ?thesis by simp
  qed
  show "entries_ok ?s j" for j
    by (rule entries_ok_step [OF inv id]) (use a(2) in \<open>auto simp: h dest: inv_resuming [OF inv]\<close>)
  show "b = c" if "held ?s b" "held ?s c" "inst_of (sy_engine ?s) b = inst_of (sy_engine ?s) c" for b c
    by (rule unique_step [OF inv id _ that]) (simp add: h)
qed

lemma inv_flag:
  assumes inv: "system_inv s" and p: "e_parked (sy_engine s) i = None" and w: "e_resuming (sy_engine s) i = Some a"
  shows "system_inv (s\<lparr>sy_engine := snd (StopParked f i (sy_engine s)), sy_stops := insert a (sy_stops s)\<rparr>)" (is "system_inv ?s")
proof (rule system_invI)
  note here = inv_run [OF inv, of a] and a = inv_resuming [OF inv w]
  have e: "e_heap (sy_engine ?s) = (e_heap (sy_engine s))(a := (e_heap (sy_engine s) a)\<lparr>r_stopped := True\<rparr>)"
    "e_parked (sy_engine ?s) = e_parked (sy_engine s)" "e_resuming (sy_engine ?s) = (e_resuming (sy_engine s))(i := None)"
    "e_released (sy_engine ?s) = e_released (sy_engine s) @ [a]"
    using p w by (simp_all add: StopParked_def)
  have id: "inst_of (sy_engine ?s) b = inst_of (sy_engine s) b" for b unfolding inst_of_def e by simp
  have h: "held ?s b \<longleftrightarrow> held s b \<and> b \<noteq> a" for b unfolding held_def e by auto
  have at: "parked_at ?s b = parked_at s b" for b unfolding parked_at_def id e ..
  show "distinct (e_released (sy_engine ?s))" using inv_distinct [OF inv] a unfolding e by (simp add: held_def)
  show "place_ok ?s b" for b
  proof (cases "b = a")
    case True
    then show ?thesis using here a unfolding place_ok_def h at Let_def e by (auto simp: held_def split: if_splits)
  next
    case False
    with place_ok_cong [OF inv_run [OF inv] _ _ _ _ _ _ at] show ?thesis unfolding e by simp
  qed
  show "entries_ok ?s j" for j
  proof (rule entries_ok_step [OF inv id])
    show "e_parked (sy_engine s) j = Some b \<or> inst_of (sy_engine s) b = j" if "e_parked (sy_engine ?s) j = Some b" for b
      using that unfolding e by simp
    show "e_resuming (sy_engine s) j = Some b \<and> (held s b \<longrightarrow> held ?s b) \<and> (b \<in> sy_driving s \<longrightarrow> b \<in> sy_driving ?s)
      \<or> inst_of (sy_engine s) b = j \<and> held ?s b \<and> b \<in> sy_driving ?s" if w': "e_resuming (sy_engine ?s) j = Some b" for b
    proof -
      have old: "e_resuming (sy_engine s) j = Some b" "j \<noteq> i" using w' unfolding e by (auto split: if_splits)
      have "b \<noteq> a" using inv_resuming [OF inv old(1)] a old(2) by auto
      then show ?thesis using old h by simp
    qed
  qed
  show "b = c" if "held ?s b" "held ?s c" "inst_of (sy_engine ?s) b = inst_of (sy_engine ?s) c" for b c
    by (rule unique_step [OF inv id _ that]) (simp add: h)
qed

lemma stop_cases:
  assumes "StopParked f i e = (taken, e')"
  obtains (missing) "taken = None" "e' = e"
    | (parked) a where "taken = Some a" "e_parked e i = Some a" "e' = releaseOutstanding f a (e\<lparr>e_parked := (e_parked e)(i := None)\<rparr>)"
    | (resuming) a where "taken = Some a" "e_parked e i = None" "e_resuming e i = Some a"
proof (cases "e_parked e i")
  case None
  show ?thesis
  proof (cases "e_resuming e i")
    case (Some a)
    then have "taken = Some a" using assms None by (simp add: StopParked_def)
    from that(3) [OF this None Some] show ?thesis .
  qed (use assms that(1) None in \<open>simp add: StopParked_def\<close>)
next
  case (Some a)
  then have "taken = Some a" "e' = releaseOutstanding f a (e\<lparr>e_parked := (e_parked e)(i := None)\<rparr>)"
    using assms by (simp_all add: StopParked_def)
  from that(2) [OF this(1) Some this(2)] show ?thesis .
qed

lemma inv_stop:
  assumes inv: "system_inv s" and st: "StopParked f i (sy_engine s) = (taken, e)"
  shows "system_inv (s\<lparr>sy_engine := e, sy_stops := (case taken of None \<Rightarrow> sy_stops s | Some a \<Rightarrow> insert a (sy_stops s))\<rparr>)"
  using st
proof (cases rule: stop_cases)
  case missing
  then show ?thesis using inv by simp
next
  case (parked a)
  have "e = drop_parked f a (sy_engine s)" using parked(3) parked_held(1) [OF inv parked(2)] by (simp add: drop_parked_def)
  then show ?thesis using inv_drop [OF inv parked(2), of "insert a (sy_stops s)" f] parked(1) by simp
next
  case (resuming a)
  have "e = snd (StopParked f i (sy_engine s))" using st by simp
  then show ?thesis using inv_flag [OF inv resuming(2,3)] resuming(1) by simp
qed

lemma inv_dropped:
  assumes inv: "system_inv s" and e: "e = sy_engine s \<or> (\<exists>a. e_parked (sy_engine s) i = Some a \<and> e = drop_parked f a (sy_engine s))"
  shows "system_inv (s\<lparr>sy_engine := e\<rparr>)"
  using e
proof (elim disjE exE conjE)
  assume "e = sy_engine s"
  then show ?thesis using inv by simp
next
  fix a assume "e_parked (sy_engine s) i = Some a" "e = drop_parked f a (sy_engine s)"
  then show ?thesis using inv_drop [OF inv, of i a "sy_stops s" f] by simp
qed

lemma inv_interrupt:
  assumes "system_inv s"
  shows "system_inv (s\<lparr>sy_engine := interrupt_row f i (sy_engine s)\<rparr>)"
proof -
  let ?s = "s\<lparr>sy_engine := interrupt_row f i (sy_engine s)\<rparr>"
  have id: "inst_of (sy_engine ?s) b = inst_of (sy_engine s) b" for b by (simp add: inst_of_def interrupt_row_def)
  have held: "held ?s b = held s b" for b by (simp add: held_def interrupt_row_def)
  have "place_ok ?s b = place_ok s b" "entries_ok ?s j = entries_ok s j" for b j
    unfolding place_ok_def entries_ok_def parked_at_def Let_def held id by (simp_all add: interrupt_row_def cong: option.case_cong)
  then show ?thesis using assms unfolding system_inv_def held id by (auto simp: interrupt_row_def)
qed

lemma system_step_inv:
  assumes "system_step s s'" and "system_inv s"
  shows "system_inv s'"
  using assms
proof cases
  case fresh
  show ?thesis unfolding fresh(1) by (rule inv_fresh [OF assms(2) fresh(2,3)])
next
  case rehydrate
  show ?thesis unfolding rehydrate(1) by (rule inv_rehydrate [OF assms(2) rehydrate(2,3,4)])
next
  case wake
  show ?thesis unfolding wake(1) by (rule inv_wake [OF assms(2) wake(2,3)])
next
  case refuse
  show ?thesis unfolding refuse(1) by (rule inv_dropped [OF assms(2) claim_refused [OF refuse(2)]])
next
  case recheck
  show ?thesis unfolding recheck(1) by (rule inv_dropped [OF assms(2) recheck_result [OF recheck(2)]])
next
  case drive
  show ?thesis unfolding drive(1) by (rule inv_drive [OF assms(2) drive(3)])
next
  case settle
  show ?thesis unfolding settle(1) by (rule inv_settle [OF assms(2) settle(2,3)])
next
  case complete
  show ?thesis unfolding complete(1) by (rule inv_complete [OF assms(2) complete(2)])
next
  case stop
  show ?thesis unfolding stop(1) by (rule inv_stop [OF assms(2) stop(2)])
next
  case interrupt
  show ?thesis unfolding interrupt(1) by (rule inv_interrupt [OF assms(2)])
qed

lemma system_start_inv: "system_start s \<Longrightarrow> system_inv s"
  by (auto simp: system_start_def empty_engine_def system_inv_def place_ok_def entries_ok_def parked_at_def held_def Let_def)

lemma count_list_distinct: "distinct xs \<Longrightarrow> count_list xs x = of_bool (x \<in> set xs)"
  by (induction xs) auto

section \<open>What a run that gave its slot back can still write\<close>

definition writes_of :: "nat \<Rightarrow> engine \<Rightarrow> string list" where
  "writes_of a e = map snd (filter (\<lambda>w. fst w = a) (e_wrote e))"

definition run_settled :: "system \<Rightarrow> system \<Rightarrow> bool" where
  "run_settled s s' \<longleftrightarrow> (\<forall>a\<in>set (e_released (sy_engine s)).
     a \<in> set (e_released (sy_engine s')) \<and> writes_of a (sy_engine s') = writes_of a (sy_engine s))"

lemma run_settledI:
  assumes "set (e_released (sy_engine s)) \<subseteq> set (e_released (sy_engine s'))"
    and "e_wrote (sy_engine s') = e_wrote (sy_engine s) @ ws" and "\<And>w. w \<in> set ws \<Longrightarrow> held s (fst w)"
  shows "run_settled s s'"
proof -
  have "filter (\<lambda>w. fst w = a) ws = []" if "a \<in> set (e_released (sy_engine s))" for a
    using assms(3) that by (auto simp: filter_empty_conv held_def)
  then show ?thesis using assms(1,2) by (auto simp: run_settled_def writes_of_def)
qed

lemma system_step_settled:
  assumes "system_step s s'" and inv: "system_inv s"
  shows "run_settled s s'"
  using assms(1)
proof cases
  case (wake f i a e r)
  show ?thesis unfolding wake(1)
    by (rule run_settledI [of _ _ "[(a, Running)]"]) (use claim_taken [OF wake(2)] parked_held(2) [OF inv] in auto)
next
  case (refuse f i e)
  show ?thesis unfolding refuse(1) by (rule run_settledI [of _ _ "[]"]) (use claim_refused [OF refuse(2)] in auto)
next
  case (recheck f i found e)
  show ?thesis unfolding recheck(1) by (rule run_settledI [of _ _ "[]"]) (use recheck_result [OF recheck(2)] in auto)
next
  case (settle a f outcome res e)
  have "held s a" if "\<not> r_stopped (e_heap (sy_engine s) a)"
    using inv_run [OF inv, of a] settle(2) that by (auto simp: place_ok_def held_def Let_def split: if_splits)
  then show ?thesis unfolding settle(1)
    by (intro run_settledI [of _ _ "if res = SettledParked then [(a, Blocked)] else []"])
      (use settle(3) in \<open>auto simp: settle_locked_def Let_def split: if_splits\<close>)
next
  case (complete a failed f h t)
  have "held s a" using inv_run [OF inv, of a] complete(2) by (auto simp: place_ok_def Let_def split: if_splits)
  then show ?thesis unfolding complete(1)
    by (intro run_settledI [of _ _ "[(a, if failed then Failed else Done)]"]) auto
next
  case (stop f i taken e)
  show ?thesis unfolding stop(1)
    by (rule run_settledI [of _ _ "[]"]) (use stop(2) in \<open>auto simp: StopParked_def split: option.splits\<close>)
qed (auto intro!: run_settledI [of _ _ "[]"] simp: interrupt_row_def)

interpretation engine_runs: monotone_run system_start system_step system_inv run_settled
proof
  show "system_inv s" if "system_start s" for s using that by (rule system_start_inv)
  show "system_inv s'" if "system_inv s" "system_step s s'" for s s' using system_step_inv that by blast
  show "run_settled s s" for s by (simp add: run_settled_def)
  show "run_settled s u" if "run_settled s t" "run_settled t u" for s t u using that by (simp add: run_settled_def)
  show "run_settled s s'" if "system_inv s" "system_step s s'" for s s' using system_step_settled that by blast
qed

section \<open>An example\<close>

text \<open>A run of one approval step, from its first drive to a park, a wake and a stop.\<close>

definition ex_parkable :: dag_run where
  "ex_parkable = initDAG ''i'' \<lparr>wc_ID = ''w'', wc_Steps = [Step (zero_fields\<lparr>ID := ''s'', Type := ''approval''\<rparr>) [] [] None]\<rparr> ''t'' empty_item []"

definition ex_boot :: system where
  "ex_boot = \<lparr>sy_engine = empty_engine (\<lambda>_. ex_parkable) [''i'' \<mapsto> (Running, [])] (\<lambda>_. 1),
     sy_driving = {}, sy_finishing = Map.empty, sy_next = 0, sy_stops = {}\<rparr>"

definition ex_drive :: system where
  "ex_drive = ex_boot\<lparr>sy_engine := set_run (sy_next ex_boot) ex_parkable (sy_engine ex_boot),
     sy_driving := insert (sy_next ex_boot) (sy_driving ex_boot), sy_next := sy_next ex_boot + 1\<rparr>"

definition ex_settle :: "dagOutcome \<Rightarrow> system \<Rightarrow> system" where
  "ex_settle outcome s = (let res = fst (settle_locked no_faults outcome 0 (sy_engine s)) in
     s\<lparr>sy_engine := snd (settle_locked no_faults outcome 0 (sy_engine s)), sy_driving := sy_driving s - {0},
       sy_finishing := (if res = SettleTerminal then (sy_finishing s)(0 \<mapsto> (outcome = outcomeFailed)) else sy_finishing s)\<rparr>)"

definition ex_wake :: "system \<Rightarrow> system" where
  "ex_wake s = (let e = snd (claimParked no_faults ''i'' (sy_engine s)) in
     s\<lparr>sy_engine := set_run 0 (rearm (e_heap e 0)) e, sy_driving := insert 0 (sy_driving s)\<rparr>)"

definition ex_stop :: "system \<Rightarrow> system" where
  "ex_stop s = s\<lparr>sy_engine := snd (StopParked no_faults ''i'' (sy_engine s)), sy_stops := insert 0 (sy_stops s)\<rparr>"

lemma ex_settle_step: "0 \<in> sy_driving s \<Longrightarrow> system_step s (ex_settle outcome s)"
  unfolding ex_settle_def Let_def by (rule system_step.settle [OF _ prod.collapse [symmetric]])

lemma ex_wake_step:
  assumes "fst (claimParked no_faults ''i'' (sy_engine s)) = Some 0"
  shows "system_step s (ex_wake s)"
proof -
  have "claimParked no_faults ''i'' (sy_engine s) = (Some 0, snd (claimParked no_faults ''i'' (sy_engine s)))" using assms by (simp add: prod_eq_iff)
  then show ?thesis unfolding ex_wake_def Let_def by (rule system_step.wake [OF _ rearm_same_run])
qed

lemma ex_stop_step:
  assumes "fst (StopParked no_faults ''i'' (sy_engine s)) = Some 0"
  shows "system_step s (ex_stop s)" and "StopParked no_faults ''i'' (sy_engine s) = (Some 0, sy_engine (ex_stop s))"
proof -
  have e: "StopParked no_faults ''i'' (sy_engine s) = (Some 0, snd (StopParked no_faults ''i'' (sy_engine s)))" using assms by (simp add: prod_eq_iff)
  show "system_step s (ex_stop s)" using system_step.stop [OF e] by (simp add: ex_stop_def)
  show "StopParked no_faults ''i'' (sy_engine s) = (Some 0, sy_engine (ex_stop s))" using e by (simp add: ex_stop_def)
qed

lemma ex_parkable_fields: "r_instID ex_parkable = ''i'' \<and> \<not> r_stopped ex_parkable"
  by code_simp

definition ex_woken :: system where
  "ex_woken = ex_wake (ex_settle outcomeWaiting ex_drive)"

lemma ex_woken_reachable: "reachable system_start system_step ex_woken"
proof -
  note step = reachable_step [where I = system_start and T = system_step]
  have "reachable system_start system_step ex_boot"
    by (rule reachable_init) (unfold system_start_def ex_boot_def, blast)
  moreover have "system_step ex_boot ex_drive"
    unfolding ex_drive_def by (rule system_step.fresh) (use ex_parkable_fields in \<open>simp_all add: unused_def ex_boot_def\<close>)
  ultimately have "reachable system_start system_step ex_drive" by (rule step)
  then have "reachable system_start system_step (ex_settle outcomeWaiting ex_drive)"
    by (rule step [OF _ ex_settle_step]) code_simp
  then show ?thesis unfolding ex_woken_def by (rule step [OF _ ex_wake_step]) code_simp
qed

lemma ex_woken_stop: "fst (StopParked no_faults ''i'' (sy_engine ex_woken)) = Some 0"
  by code_simp

section \<open>Properties\<close>



text \<open>
  C19. A stop that takes a run out of the engine is final: in every later state the slot is given back exactly once, the run is
  neither parked nor claimable under any instance id, and nothing more is written to the instance row on its behalf, so
  the interrupted state the stop persists is never overwritten by it.
\<close>

theorem stop_is_final:
  assumes "reachable system_start system_step s" and "StopParked f i (sy_engine s) = (Some a, e)"
    and "system_step\<^sup>*\<^sup>* (s\<lparr>sy_engine := e, sy_stops := insert a (sy_stops s)\<rparr>) s'"
  shows "count_list (e_released (sy_engine s')) a = 1 \<and> (\<forall>j. e_parked (sy_engine s') j \<noteq> Some a \<and> e_resuming (sy_engine s') j \<noteq> Some a)
    \<and> writes_of a (sy_engine s') = writes_of a (sy_engine s)"
proof -
  let ?t = "s\<lparr>sy_engine := e, sy_stops := insert a (sy_stops s)\<rparr>"
  note inv = engine_runs.inv_reachable [OF assms(1)]
  have invt: "system_inv ?t" using inv_stop [OF inv assms(2)] by simp
  have rel: "a \<in> set (e_released e)" and wr: "e_wrote e = e_wrote (sy_engine s)"
    using assms(2) by (auto simp: StopParked_def split: option.splits)
  note inv' = engine_runs.inv_steps [OF assms(3) invt]
  have gone: "a \<in> set (e_released (sy_engine s'))" "writes_of a (sy_engine s') = writes_of a e"
    using engine_runs.mono_steps [OF assms(3) invt] rel by (auto simp: run_settled_def)
  have "\<not> held s' a" using gone(1) by (simp add: held_def)
  then have "\<forall>j. e_parked (sy_engine s') j \<noteq> Some a \<and> e_resuming (sy_engine s') j \<noteq> Some a"
    using parked_held(2) [OF inv'] inv_resuming [OF inv'] by blast
  moreover have "count_list (e_released (sy_engine s')) a = 1"
    using inv_distinct [OF inv'] gone(1) by (simp add: count_list_distinct)
  ultimately show ?thesis using gone(2) wr by (simp add: writes_of_def)
qed

theorem stop_is_final_witness:
  "writes_of 0 (sy_engine ex_woken) = [Blocked, Running]
    \<and> writes_of 0 (sy_engine (ex_settle outcomeDone (ex_stop ex_woken))) = [Blocked, Running]
    \<and> count_list (e_released (sy_engine (ex_settle outcomeDone (ex_stop ex_woken)))) 0 = 1"
proof -
  let ?t = "ex_stop ex_woken"
  have t: "?t = ex_woken\<lparr>sy_engine := sy_engine ?t, sy_stops := insert 0 (sy_stops ex_woken)\<rparr>" by (simp add: ex_stop_def)
  have "system_step ?t (ex_settle outcomeDone ?t)" by (rule ex_settle_step) code_simp
  then have "system_step\<^sup>*\<^sup>* (ex_woken\<lparr>sy_engine := sy_engine ?t, sy_stops := insert 0 (sy_stops ex_woken)\<rparr>) (ex_settle outcomeDone ?t)"
    unfolding t [symmetric] by blast
  from stop_is_final [OF ex_woken_reachable ex_stop_step(2) [OF ex_woken_stop] this]
  have "count_list (e_released (sy_engine (ex_settle outcomeDone ?t))) 0 = 1"
    "writes_of 0 (sy_engine (ex_settle outcomeDone ?t)) = writes_of 0 (sy_engine ex_woken)" by blast+
  moreover have "writes_of 0 (sy_engine ex_woken) = [Blocked, Running]" by code_simp
  ultimately show ?thesis by simp
qed

text \<open>
  A stop that reaches a run on its first drive is lost when the run parks next: the engine does not hold the
  run yet, so the stop only writes the interrupted row, the park overwrites that row, and the next wake finds a row that
  says parked and resumes the run.
\<close>

theorem early_stop_lost:
  assumes "e_parked e i = None" and "e_resuming e i = None" and "e_rows e i = Some row" and "inst_of e a = i"
    and "\<not> r_stopped (e_heap e a)" and "\<not> f_write f" and "\<not> f_read f"
  shows "\<exists>e1 e2 e3. stop_instance f i e = (None, e1) \<and> e_rows e1 i = Some (Blocked, ReasonInterrupted)
    \<and> settle_locked f outcomeWaiting a e1 = (SettledParked, e2) \<and> claimParked f i e2 = (Some a, e3) \<and> e_rows e3 i = Some (Running, [])"
proof -
  define e1 where "e1 = interrupt_row f i e"
  define e2 where "e2 = snd (settle_locked f outcomeWaiting a e1)"
  have 1: "stop_instance f i e = (None, e1)" "e_rows e1 i = Some (Blocked, ReasonInterrupted)" "e_heap e1 = e_heap e"
    using assms by (simp_all add: stop_instance_def StopParked_def e1_def interrupt_row_def)
  obtain reason where 2: "settle_locked f outcomeWaiting a e1 = (SettledParked, e2)" "e_parked e2 i = Some a" "inst_of e2 a = i"
    "e_rows e2 i = Some (Blocked, reason)" "reason = ReasonCI \<or> reason = ReasonApproval"
    using 1 assms by (auto simp: e2_def settle_locked_def UpdateWorkflowInstanceState_def inst_of_def Let_def)
  have "NormalizeWithReason Blocked = (Blocked, [])" by code_simp
  moreover have "ReasonCI \<noteq> ReasonInterrupted" "ReasonApproval \<noteq> ReasonInterrupted" by (code_simp+)
  ultimately have "stillParkedLocked f a e2 = (True, e2)" using 2(3,4,5) assms(7) by (auto simp: stillParkedLocked_def)
  then have "\<exists>e3. claimParked f i e2 = (Some a, e3) \<and> e_rows e3 i = Some (Running, [])"
    using 2(2,4) assms(6) by (simp add: claimParked_def UpdateWorkflowInstanceState_def)
  then show ?thesis using 1(1,2) 2(1) by blast
qed

theorem early_stop_lost_witness:
  "\<exists>e1 e2 e3. stop_instance no_faults ''i'' (sy_engine ex_drive) = (None, e1) \<and> e_rows e1 ''i'' = Some (Blocked, ReasonInterrupted)
    \<and> settle_locked no_faults outcomeWaiting 0 e1 = (SettledParked, e2) \<and> claimParked no_faults ''i'' e2 = (Some 0, e3)
    \<and> e_rows e3 ''i'' = Some (Running, [])"
  by (rule early_stop_lost [where row = "(Running, [])"]) code_simp+

end
