(* ===== verification/Resume.thy ===== *)
theory Resume
  imports Dag_Theorems Lifecycle "HOL-Library.AList"
begin

text \<open>
  Resuming and rehydrating an instance (\<open>internal/workflow/resume.go\<close>, \<open>RehydrateApproval\<close> and \<open>RehydrateWait\<close>, and the
  preview and admission of a resume in \<open>internal/daemon/workflow_resume.go\<close>): the persisted step runs of the earlier run are
  replayed into a fresh graph. Decoding the stored JSON is a parameter; a row that cannot be decoded yields no values.
  Of a step run only the columns that the replay reads or writes are kept.
\<close>

section \<open>Rows\<close>

record step_run =
  su_ID :: string
  su_Instance :: string
  su_StepID :: string
  su_State :: string
  su_SkippedReason :: string
  su_Output :: string
  su_Structured :: string
  su_Summary :: string
  su_SkippedCached :: bool

record instance_row =
  wi_ID :: string
  wi_WorkflowID :: string
  wi_TaskID :: string
  wi_State :: string
  wi_BlockedReason :: string
  wi_ResumedFrom :: string

type_synonym decoder = "string \<Rightarrow> (string \<times> gval) list"

definition decoded :: "decoder \<Rightarrow> step_run \<Rightarrow> (string \<times> gval) list" where
  "decoded decode sr = (if su_Structured sr = [] then [] else decode (su_Structured sr))"

section \<open>Replay\<close>

definition restoreParallelChild :: "decoder \<Rightarrow> step_config \<Rightarrow> step_run \<Rightarrow> dag_run \<Rightarrow> dag_run" where
  "restoreParallelChild decode child sr r =
     (case r_parentOfChild r (sid child) of
        None \<Rightarrow> r
      | Some parent \<Rightarrow>
          let done = (case r_parallelDone r parent of None \<Rightarrow> [] | Some d \<Rightarrow> d);
              res = \<lparr>sr_Success = True, sr_Output = su_Output sr, sr_Structured = decoded decode sr, sr_Summary = su_Summary sr,
                     sr_Pending = False, sr_Conflict = False\<rparr>
          in r\<lparr>r_parallelDone := (r_parallelDone r)(parent \<mapsto> AList.update (sid child) res done)\<rparr>)"

definition restore_step :: "decoder \<Rightarrow> step_config \<Rightarrow> step_run \<Rightarrow> bool \<Rightarrow> dag_run \<Rightarrow> dag_run" where
  "restore_step decode step sr seen r =
     r\<lparr>r_state := (r_state r)(sid step \<mapsto> stPassed),
       r_stepStates := (r_stepStates r)(sid step \<mapsto> \<lparr>ss_State = dstate_name stPassed, ss_ExitCode = 0, ss_Output = su_Output sr\<rparr>),
       r_contrib := (r_contrib r)(sid step \<mapsto> \<lparr>ms_StepID = sid step, ms_WriteFields = MemoryWriteFields step,
                        ms_Structured = decoded decode sr, ms_Summary = su_Summary sr\<rparr>),
       r_passedOrder := (if seen then r_passedOrder r else r_passedOrder r @ [sid step]),
       r_activated := (case OnPass (flds step) of
                         None \<Rightarrow> r_activated r
                       | Some nxt \<Rightarrow> if nxt = [] then r_activated r else (r_activated r)(nxt := True))\<rparr>"

fun restore_rows :: "decoder \<Rightarrow> step_run list \<Rightarrow> string list \<Rightarrow> dag_run \<Rightarrow> step_run list \<times> dag_run" where
  "restore_rows decode [] seen r = ([], r)"
| "restore_rows decode (sr # rows) seen r =
     (if Normalize (su_State sr) \<noteq> Done then restore_rows decode rows seen r
      else case r_byID r (su_StepID sr) of
        None \<Rightarrow>
          (case r_childByID r (su_StepID sr) of
             Some child \<Rightarrow> restore_rows decode rows seen (restoreParallelChild decode child sr r)
           | None \<Rightarrow> restore_rows decode rows seen r)
      | Some step \<Rightarrow>
          if StepType step = StepTypeSplit then restore_rows decode rows seen r
          else apfst (Cons sr) (restore_rows decode rows (sid step # seen) (restore_step decode step sr (sid step \<in> set seen) r)))"

definition restoreCachedSteps :: "decoder \<Rightarrow> step_run list \<Rightarrow> dag_run \<Rightarrow> step_run list \<times> dag_run" where
  "restoreCachedSteps decode rows r = restore_rows decode rows [] r"

section \<open>Which rows a resume reuses\<close>

datatype resume_error = ResumeStepNotFound string | CreateFailed | SnapshotFailed | StepRunFailed

definition order_index :: "step_config list \<Rightarrow> string \<Rightarrow> nat option" where
  "order_index steps i = find (\<lambda>k. sid (steps ! k) = i) (rev [0..<length steps])"

definition resumeCacheSelection :: "workflow_config \<Rightarrow> step_run list \<Rightarrow> string \<Rightarrow> resume_error + step_run list" where
  "resumeCacheSelection w prior fromStep =
     (if fromStep = [] then Inr prior
      else case order_index (wc_Steps w) fromStep of
        None \<Rightarrow> Inl (ResumeStepNotFound fromStep)
      | Some limit \<Rightarrow>
          Inr (filter (\<lambda>sr. case order_index (wc_Steps w) (su_StepID sr) of None \<Rightarrow> False | Some k \<Rightarrow> k < limit) prior))"

definition cached_row :: "string \<Rightarrow> string \<Rightarrow> step_run \<Rightarrow> step_run" where
  "cached_row newID inst sr =
     sr\<lparr>su_ID := newID, su_Instance := inst, su_SkippedCached := True, su_State := Skipped, su_SkippedReason := ReasonCached\<rparr>"

text \<open>The carried-over rows are written one by one, and the first failing write ends the resume.\<close>

fun write_cached :: "(nat \<Rightarrow> string) \<Rightarrow> (step_run \<Rightarrow> bool) \<Rightarrow> string \<Rightarrow> nat \<Rightarrow> step_run list \<Rightarrow> bool \<times> step_run list" where
  "write_cached newID fails inst k [] = (True, [])"
| "write_cached newID fails inst k (sr # rows) =
     (let row = cached_row (newID k) inst sr in
      if fails row then (False, []) else apsnd (Cons row) (write_cached newID fails inst (k + 1) rows))"

definition seedResume ::
  "decoder \<Rightarrow> (nat \<Rightarrow> string) \<Rightarrow> (step_run \<Rightarrow> bool) \<Rightarrow> step_run list \<Rightarrow> dag_run \<Rightarrow> bool \<times> step_run list \<times> dag_run" where
  "seedResume decode newID fails rows r =
     (let (restored, r') = restoreCachedSteps decode rows r; (ok, written) = write_cached newID fails (r_instID r) 0 restored
      in (ok, written, r'))"

text \<open>
  A resume creates a descendant instance row, replays, and hands the seeded run to the scheduler. The result is the
  error or the run to drive, with the state of the new row and the step runs written.
\<close>

record resume_store =
  rs_instance :: "instance_row option"
  rs_steps :: "step_run list"

definition ResumeInstance ::
  "bool \<Rightarrow> bool \<Rightarrow> decoder \<Rightarrow> (nat \<Rightarrow> string) \<Rightarrow> (step_run \<Rightarrow> bool) \<Rightarrow> instance_row \<Rightarrow> workflow_config \<Rightarrow> string \<Rightarrow> source_item \<Rightarrow> step_run list
     \<Rightarrow> string \<Rightarrow> string \<Rightarrow> (resume_error + dag_run) \<times> resume_store" where
  "ResumeInstance createFails snapshotFails decode newID rowFails source w taskID cell prior fromStep instID =
     (if createFails then (Inl CreateFailed, \<lparr>rs_instance = None, rs_steps = []\<rparr>)
      else let row = \<lparr>wi_ID = instID, wi_WorkflowID = wi_WorkflowID source, wi_TaskID = wi_TaskID source, wi_State = Running,
                      wi_BlockedReason = [], wi_ResumedFrom = wi_ID source\<rparr> in
      if snapshotFails then (Inl SnapshotFailed, \<lparr>rs_instance = Some (row\<lparr>wi_State := Failed\<rparr>), rs_steps = []\<rparr>)
      else case resumeCacheSelection w prior fromStep of
        Inl e \<Rightarrow> (Inl e, \<lparr>rs_instance = Some row, rs_steps = []\<rparr>)
      | Inr selected \<Rightarrow>
          (let (ok, written, r) = seedResume decode newID rowFails selected (initDAG instID w taskID cell []) in
           if \<not> ok then (Inl StepRunFailed, \<lparr>rs_instance = Some (row\<lparr>wi_State := Failed\<rparr>), rs_steps = written\<rparr>)
           else (Inr r, \<lparr>rs_instance = Some row, rs_steps = written\<rparr>)))"

section \<open>The preview and the admission of a resume\<close>

definition resumableState :: "string \<Rightarrow> string \<Rightarrow> bool" where
  "resumableState st reason \<longleftrightarrow> st = Failed \<or> st = Blocked \<and> reason = ReasonInterrupted"

definition first_index :: "step_config list \<Rightarrow> string \<Rightarrow> nat option" where
  "first_index steps i = find (\<lambda>k. sid (steps ! k) = i) [0..<length steps]"

definition preview_from :: "workflow_config \<Rightarrow> string \<Rightarrow> nat option" where
  "preview_from w fromStep = (if fromStep = [] then Some (length (wc_Steps w)) else first_index (wc_Steps w) fromStep)"

definition skips :: "workflow_config \<Rightarrow> step_run list \<Rightarrow> nat \<Rightarrow> nat \<Rightarrow> bool" where
  "skips w rows fromIndex k \<longleftrightarrow>
     k < fromIndex \<and> list_ex (\<lambda>sr. su_State sr = Done \<and> su_StepID sr = sid (wc_Steps w ! k)) rows
     \<and> StepType (wc_Steps w ! k) \<noteq> StepTypeSplit"

text \<open>The ids listed to be skipped and to be run.\<close>

definition resume_preview :: "workflow_config \<Rightarrow> step_run list \<Rightarrow> string \<Rightarrow> resume_error + string list \<times> string list" where
  "resume_preview w rows fromStep =
     (case preview_from w fromStep of
        None \<Rightarrow> Inl (ResumeStepNotFound fromStep)
      | Some fromIndex \<Rightarrow>
          let ks = [0..<length (wc_Steps w)] in
          Inr (map (\<lambda>k. sid (wc_Steps w ! k)) (filter (skips w rows fromIndex) ks),
               map (\<lambda>k. sid (wc_Steps w ! k)) (filter (\<lambda>k. \<not> skips w rows fromIndex k) ks)))"

section \<open>Rehydration after a restart\<close>

datatype rehydrate_error = ErrNoApprovalStep | ErrNoWaitStep

definition RehydrateApproval ::
  "decoder \<Rightarrow> string \<Rightarrow> workflow_config \<Rightarrow> string \<Rightarrow> source_item \<Rightarrow> step_run list \<Rightarrow> time \<Rightarrow> rehydrate_error + dag_run" where
  "RehydrateApproval decode instID w taskID cell prior parkedAt =
     (let r = snd (restoreCachedSteps decode prior (initDAG instID w taskID cell [])) in
      case firstRunnableApproval r of
        None \<Rightarrow> Inl ErrNoApprovalStep
      | Some i \<Rightarrow> Inr (r\<lparr>r_state := (r_state r)(i \<mapsto> stWaiting), r_waitingStep := i, r_parkedAt := parkedAt\<rparr>))"

definition RehydrateWait ::
  "golib \<Rightarrow> time \<Rightarrow> decoder \<Rightarrow> string \<Rightarrow> workflow_config \<Rightarrow> string \<Rightarrow> source_item \<Rightarrow> step_run list \<Rightarrow> rehydrate_error + dag_run" where
  "RehydrateWait lib now decode instID w taskID cell prior =
     (let r = snd (restoreCachedSteps decode prior (initDAG instID w taskID cell [])) in
      case firstRunnableWait r of
        None \<Rightarrow> Inl ErrNoWaitStep
      | Some (i, child) \<Rightarrow>
          let r1 = r\<lparr>r_state := (r_state r)(i \<mapsto> stWaiting), r_waitingStep := i, r_waitingChild := child\<rparr>;
              waitStep = fst (waitStepConfig r1);
              md = ParsedMaxDuration (lib_duration lib) (WaitFor (flds waitStep))
          in Inr (if WaitFor (flds waitStep) \<noteq> None \<and> md > 0 then r1\<lparr>r_waitDeadline := now + md\<rparr> else r1))"

section \<open>What the replay restores\<close>

definition restorable :: "dag_run \<Rightarrow> step_run \<Rightarrow> bool" where
  "restorable r sr \<longleftrightarrow> Normalize (su_State sr) = Done \<and>
     (case r_byID r (su_StepID sr) of None \<Rightarrow> False | Some step \<Rightarrow> StepType step \<noteq> StepTypeSplit)"

definition keyed :: "dag_run \<Rightarrow> bool" where
  "keyed r \<longleftrightarrow> (\<forall>i s. r_byID r i = Some s \<longrightarrow> sid s = i)"

definition contrib_of :: "decoder \<Rightarrow> dag_run \<Rightarrow> step_run \<Rightarrow> memory_step" where
  "contrib_of decode r sr = \<lparr>ms_StepID = su_StepID sr, ms_WriteFields = MemoryWriteFields (step_of r (su_StepID sr)),
     ms_Structured = decoded decode sr, ms_Summary = su_Summary sr\<rparr>"

lemma restoreParallelChild_fields [simp]:
  "r_byID (restoreParallelChild decode c sr r) = r_byID r" "r_state (restoreParallelChild decode c sr r) = r_state r"
  "r_contrib (restoreParallelChild decode c sr r) = r_contrib r" "r_passedOrder (restoreParallelChild decode c sr r) = r_passedOrder r"
  "r_order (restoreParallelChild decode c sr r) = r_order r" "r_activated (restoreParallelChild decode c sr r) = r_activated r"
  by (simp_all add: restoreParallelChild_def Let_def split: option.splits)

lemma restore_step_fields [simp]:
  "r_byID (restore_step decode step sr seen r) = r_byID r"
  "r_state (restore_step decode step sr seen r) = (r_state r)(sid step \<mapsto> stPassed)"
  "r_order (restore_step decode step sr seen r) = r_order r"
  "r_passedOrder (restore_step decode step sr seen r) = (if seen then r_passedOrder r else r_passedOrder r @ [sid step])"
  by (simp_all add: restore_step_def)

lemma keyed_cong: "r_byID r' = r_byID r \<Longrightarrow> keyed r' = keyed r"
  by (simp add: keyed_def)

lemma restorable_cong: "r_byID r' = r_byID r \<Longrightarrow> restorable r' = restorable r"
  by (simp add: restorable_def fun_eq_iff)

lemma contrib_of_cong: "r_byID r' = r_byID r \<Longrightarrow> contrib_of decode r' = contrib_of decode r"
  by (simp add: contrib_of_def step_of_def fun_eq_iff)

text \<open>A row is either restored as a step, or touches nothing but the memoized children.\<close>

lemma restore_rows_Cons:
  assumes "keyed r"
  obtains (step) s where "restorable r sr" "r_byID r (su_StepID sr) = Some s" "sid s = su_StepID sr"
      "restore_rows decode (sr # rows) seen r =
         apfst (Cons sr) (restore_rows decode rows (su_StepID sr # seen) (restore_step decode s sr (su_StepID sr \<in> set seen) r))"
    | (other) r1 where "\<not> restorable r sr" "restore_rows decode (sr # rows) seen r = restore_rows decode rows seen r1"
      "r_byID r1 = r_byID r" "r_state r1 = r_state r" "r_contrib r1 = r_contrib r" "r_passedOrder r1 = r_passedOrder r"
      "r_order r1 = r_order r" "r_activated r1 = r_activated r"
proof (cases "restorable r sr")
  case True
  then obtain s where s: "Normalize (su_State sr) = Done" "r_byID r (su_StepID sr) = Some s" "StepType s \<noteq> StepTypeSplit"
    by (auto simp: restorable_def split: option.splits)
  with assms have "sid s = su_StepID sr" by (simp add: keyed_def)
  with True s show ?thesis by (intro step) simp_all
next
  case False
  show ?thesis
  proof (cases "Normalize (su_State sr) = Done \<and> r_byID r (su_StepID sr) = None \<and> r_childByID r (su_StepID sr) \<noteq> None")
    case True
    then obtain c where "r_childByID r (su_StepID sr) = Some c" by auto
    with True False show ?thesis by (intro other [of "restoreParallelChild decode c sr r"]) simp_all
  next
    case nochild: False
    with False show ?thesis by (intro other [of r]) (auto simp: restorable_def split: option.splits)
  qed
qed

text \<open>The ids of a list in the order of their first occurrence.\<close>

definition firsts :: "'a list \<Rightarrow> 'a list" where
  "firsts xs = rev (remdups (rev xs))"

lemma remdups_snoc: "remdups (xs @ [x]) = filter (\<lambda>y. y \<noteq> x) (remdups xs) @ [x]"
  by (induction xs) auto

lemma firsts_simps [simp]: "firsts [] = []" "firsts (x # xs) = x # filter (\<lambda>y. y \<noteq> x) (firsts xs)"
  by (simp_all add: firsts_def remdups_snoc rev_filter)

lemma set_firsts [simp]: "set (firsts xs) = set xs" and distinct_firsts [simp]: "distinct (firsts xs)"
  by (simp_all add: firsts_def)

lemma restore_rows_result:
  assumes "keyed r"
  shows "fst (restore_rows decode rows seen r) = filter (restorable r) rows
    \<and> r_byID (snd (restore_rows decode rows seen r)) = r_byID r
    \<and> r_order (snd (restore_rows decode rows seen r)) = r_order r
    \<and> r_state (snd (restore_rows decode rows seen r)) i =
        (if list_ex (\<lambda>sr. restorable r sr \<and> su_StepID sr = i) rows then Some stPassed else r_state r i)
    \<and> r_contrib (snd (restore_rows decode rows seen r)) i =
        (case find (\<lambda>sr. restorable r sr \<and> su_StepID sr = i) (rev rows) of
           Some sr \<Rightarrow> Some (contrib_of decode r sr) | None \<Rightarrow> r_contrib r i)
    \<and> r_passedOrder (snd (restore_rows decode rows seen r)) =
        r_passedOrder r @ filter (\<lambda>i. i \<notin> set seen) (firsts (map su_StepID (filter (restorable r) rows)))"
  using assms
proof (induction rows arbitrary: seen r)
  case (Cons sr rows)
  note snoc = find_snoc [of "\<lambda>sr. restorable r sr \<and> su_StepID sr = i" "rev rows" sr]
  from Cons.prems show ?case
  proof (cases rule: restore_rows_Cons [where sr = sr and rows = rows and decode = decode and seen = seen])
    case (step s)
    let ?r = "restore_step decode s sr (su_StepID sr \<in> set seen) r"
    have b: "r_byID ?r = r_byID r" by simp
    have c: "r_contrib ?r i = (if su_StepID sr = i then Some (contrib_of decode r sr) else r_contrib r i)"
      using step(2,3) by (auto simp: restore_step_def contrib_of_def step_of_def)
    note IH = Cons.IH [of ?r "su_StepID sr # seen", unfolded keyed_cong [OF b] restorable_cong [OF b] contrib_of_cong [OF b] b, OF Cons.prems]
    show ?thesis unfolding step(4) using IH step(1,3) c snoc
      by (auto simp: filter_filter conj_commute cong: filter_cong split: option.splits)
  next
    case (other r1)
    note IH = Cons.IH [of r1 seen, unfolded keyed_cong [OF other(3)] restorable_cong [OF other(3)] contrib_of_cong [OF other(3)] other(3-7), OF Cons.prems]
    show ?thesis unfolding other(2) using IH other(1) snoc by (auto split: option.splits)
  qed
qed simp

lemma initDAG_keyed:
  assumes "distinct (map sid (wc_Steps w))"
  shows "keyed (initDAG instID w taskID cell seed)" and "r_byID (initDAG instID w taskID cell seed) i = find (\<lambda>s. sid s = i) (wc_Steps w)"
proof -
  have "find (\<lambda>s. sid s = i) (rev (wc_Steps w)) = find (\<lambda>s. sid s = i) (wc_Steps w)" for i
  proof (rule option.exhaust [of "find (\<lambda>s. sid s = i) (wc_Steps w)"])
    assume f: "find (\<lambda>s. sid s = i) (wc_Steps w) = None"
    then have "find (\<lambda>s. sid s = i) (rev (wc_Steps w)) = None" by (simp add: find_None_iff)
    with f show ?thesis by simp
  next
    fix s assume f: "find (\<lambda>s. sid s = i) (wc_Steps w) = Some s"
    then have "s \<in> set (wc_Steps w) \<and> sid s = i" using find_keyed [OF assms] by blast
    then have "find (\<lambda>s. sid s = i) (rev (wc_Steps w)) = Some s"
      using find_keyed [of sid "rev (wc_Steps w)" i s] assms by (simp add: rev_map [symmetric])
    with f show ?thesis by simp
  qed
  then show *: "r_byID (initDAG instID w taskID cell seed) i = find (\<lambda>s. sid s = i) (wc_Steps w)" for i by (simp add: initDAG_fields)
  show "keyed (initDAG instID w taskID cell seed)" unfolding keyed_def * by (auto simp: find_Some_iff)
qed

lemma index_iff:
  assumes "distinct (map sid steps)"
  shows "order_index steps i = Some k \<longleftrightarrow> k < length steps \<and> sid (steps ! k) = i"
    and "first_index steps i = Some k \<longleftrightarrow> k < length steps \<and> sid (steps ! k) = i"
proof -
  have m: "map (\<lambda>j. sid (steps ! j)) [0..<length steps] = map sid steps" by (rule nth_equalityI) simp_all
  then have d: "distinct (map (\<lambda>j. sid (steps ! j)) [0..<length steps])" using assms by simp
  then have d': "distinct (map (\<lambda>j. sid (steps ! j)) (rev [0..<length steps]))" unfolding rev_map [symmetric] distinct_rev .
  show "order_index steps i = Some k \<longleftrightarrow> k < length steps \<and> sid (steps ! k) = i"
    unfolding order_index_def find_keyed [OF d'] by auto
  show "first_index steps i = Some k \<longleftrightarrow> k < length steps \<and> sid (steps ! k) = i"
    unfolding first_index_def find_keyed [OF d] by auto
qed

lemma first_index_eq: "distinct (map sid steps) \<Longrightarrow> first_index steps i = order_index steps i"
proof -
  assume "distinct (map sid steps)"
  then have same: "first_index steps i = Some k \<longleftrightarrow> order_index steps i = Some k" for k by (simp only: index_iff)
  show ?thesis
  proof (cases "order_index steps i")
    case None
    then show ?thesis using same [of "the (first_index steps i)"] by (cases "first_index steps i") auto
  next
    case (Some k)
    then show ?thesis using same [of k] by simp
  qed
qed

text \<open>A row is reused for the step at position \<open>k\<close> exactly when the step lies before the one resumed from.\<close>

lemma selection_member:
  assumes "distinct (map sid (wc_Steps w))" and "k < length (wc_Steps w)" and "su_StepID sr = sid (wc_Steps w ! k)"
    and "preview_from w fromStep = Some fromIndex" and "resumeCacheSelection w prior fromStep = Inr sel"
  shows "sr \<in> set sel \<longleftrightarrow> sr \<in> set prior \<and> k < fromIndex"
proof (cases "fromStep = []")
  case True
  then show ?thesis using assms(2,4,5) by (simp add: preview_from_def resumeCacheSelection_def)
next
  case False
  have "order_index (wc_Steps w) (su_StepID sr) = Some k" using assms(1,2,3) by (simp add: index_iff)
  then show ?thesis
    using False assms(4,5) first_index_eq [OF assms(1)] by (auto simp: preview_from_def resumeCacheSelection_def split: option.splits)
qed

lemma selection_error:
  assumes "distinct (map sid (wc_Steps w))"
  shows "preview_from w fromStep = None \<longleftrightarrow> resumeCacheSelection w prior fromStep = Inl (ResumeStepNotFound fromStep)"
  using first_index_eq [OF assms] by (auto simp: preview_from_def resumeCacheSelection_def split: option.splits)

lemma selection_cases: "resumeCacheSelection w prior fromStep = Inl e \<Longrightarrow> e = ResumeStepNotFound fromStep"
  by (auto simp: resumeCacheSelection_def split: if_splits option.splits)

lemma restored_state:
  assumes "distinct (map sid (wc_Steps w))" and "k < length (wc_Steps w)"
  shows "r_state (snd (restoreCachedSteps decode rows (initDAG instID w taskID cell seed))) (sid (wc_Steps w ! k)) = Some stPassed \<longleftrightarrow>
    StepType (wc_Steps w ! k) \<noteq> StepTypeSplit \<and> (\<exists>sr\<in>set rows. Normalize (su_State sr) = Done \<and> su_StepID sr = sid (wc_Steps w ! k))"
proof -
  let ?r = "initDAG instID w taskID cell seed" and ?i = "sid (wc_Steps w ! k)"
  have b: "r_byID ?r ?i = Some (wc_Steps w ! k)"
    unfolding initDAG_keyed(2) [OF assms(1)] using find_keyed [OF assms(1), of ?i "wc_Steps w ! k"] assms(2) by simp
  have "restorable ?r sr \<and> su_StepID sr = ?i \<longleftrightarrow> Normalize (su_State sr) = Done \<and> StepType (wc_Steps w ! k) \<noteq> StepTypeSplit \<and> su_StepID sr = ?i" for sr
    using b by (auto simp: restorable_def)
  moreover have "r_state ?r ?i = Some stPending" using assms(2) by (simp add: initDAG_fields)
  ultimately show ?thesis
    unfolding restoreCachedSteps_def using restore_rows_result [OF initDAG_keyed(1) [OF assms(1)], of decode rows "[]" instID taskID cell seed ?i]
    by (auto simp: list_ex_iff)
qed

lemma normalize_done: "su_State sr = Done \<Longrightarrow> Normalize (su_State sr) = Done"
  by (simp add: Normalize_canonical_id canonical_states_def)

lemma find_filter: "find P (filter Q xs) = find (\<lambda>x. Q x \<and> P x) xs"
  by (induction xs) auto

lemma index_children_more [simp]: "r_passedOrder (index_children s r) = r_passedOrder r" "r_contrib (index_children s r) = r_contrib r"
proof -
  have "r_passedOrder (fold (\<lambda>child r. r\<lparr>r_childByID := (r_childByID r)(sid child \<mapsto> child),
        r_parentOfChild := (r_parentOfChild r)(sid child \<mapsto> sid s)\<rparr>) cs r) = r_passedOrder r \<and>
      r_contrib (fold (\<lambda>child r. r\<lparr>r_childByID := (r_childByID r)(sid child \<mapsto> child),
        r_parentOfChild := (r_parentOfChild r)(sid child \<mapsto> sid s)\<rparr>) cs r) = r_contrib r" for cs
    by (induction cs arbitrary: r) auto
  then show "r_passedOrder (index_children s r) = r_passedOrder r" "r_contrib (index_children s r) = r_contrib r"
    by (simp_all add: index_children_def)
qed

lemma initDAG_more: "r_passedOrder (initDAG instID w taskID cell seed) = []" "r_contrib (initDAG instID w taskID cell seed) = Map.empty"
proof -
  have "r_passedOrder (fold add_step ss r) = r_passedOrder r \<and> r_contrib (fold add_step ss r) = r_contrib r" for ss r
    by (induction ss arbitrary: r) (simp_all add: add_step_def)
  then show "r_passedOrder (initDAG instID w taskID cell seed) = []" "r_contrib (initDAG instID w taskID cell seed) = Map.empty"
    unfolding initDAG_def Let_def add_step_def [abs_def, symmetric] by simp_all
qed

section \<open>Properties\<close>

text \<open>
  C20. What the operator is shown before confirming a resume is what the resume does: the steps listed to be skipped
  are exactly those the replay restores as passed, those listed to run are the others, both in declaration order, and an
  unknown step to resume from is refused by both. The step ids are distinct and the rows hold canonical states.
\<close>

theorem preview_agrees:
  assumes "distinct (map sid (wc_Steps w))" and "\<forall>sr\<in>set rows. Normalize (su_State sr) = Done \<longrightarrow> su_State sr = Done"
  shows "case resume_preview w rows fromStep of
      Inl e \<Rightarrow> resumeCacheSelection w rows fromStep = Inl e
    | Inr (skip, run) \<Rightarrow> \<exists>sel. resumeCacheSelection w rows fromStep = Inr sel \<and>
        (let passed = (\<lambda>i. r_state (snd (restoreCachedSteps decode sel (initDAG instID w taskID cell []))) i = Some stPassed)
         in skip = filter passed (map sid (wc_Steps w)) \<and> run = filter (\<lambda>i. \<not> passed i) (map sid (wc_Steps w)))"
proof (cases "preview_from w fromStep")
  case None
  then show ?thesis using selection_error [OF assms(1)] by (simp add: resume_preview_def)
next
  case (Some fromIndex)
  then obtain sel where sel: "resumeCacheSelection w rows fromStep = Inr sel"
    using selection_error [OF assms(1), of fromStep rows] selection_cases [of w rows fromStep] by (cases "resumeCacheSelection w rows fromStep") auto
  let ?steps = "wc_Steps w" and ?passed = "\<lambda>i. r_state (snd (restoreCachedSteps decode sel (initDAG instID w taskID cell []))) i = Some stPassed"
  have sub: "set sel \<subseteq> set rows" using sel by (auto simp: resumeCacheSelection_def split: if_splits option.splits)
  have eq: "?passed (sid (?steps ! k)) = skips w rows fromIndex k" if "k < length ?steps" for k
  proof -
    have "(\<exists>sr\<in>set sel. Normalize (su_State sr) = Done \<and> su_StepID sr = sid (?steps ! k)) \<longleftrightarrow>
        k < fromIndex \<and> (\<exists>sr\<in>set rows. su_State sr = Done \<and> su_StepID sr = sid (?steps ! k))"
      using selection_member [OF assms(1) that _ Some sel] assms(2) sub normalize_done by blast
    then show ?thesis unfolding restored_state [OF assms(1) that] skips_def list_ex_iff by blast
  qed
  have ids: "map sid ?steps = map (\<lambda>k. sid (?steps ! k)) [0..<length ?steps]" by (rule nth_equalityI) simp_all
  have "filter (\<lambda>k. ?passed (sid (?steps ! k))) [0..<length ?steps] = filter (skips w rows fromIndex) [0..<length ?steps]"
    "filter (\<lambda>k. \<not> ?passed (sid (?steps ! k))) [0..<length ?steps] = filter (\<lambda>k. \<not> skips w rows fromIndex k) [0..<length ?steps]"
    by (rule filter_cong; simp add: eq)+
  then show ?thesis using sel Some unfolding resume_preview_def ids by (simp add: filter_map o_def Let_def)
qed

definition ex_flow :: workflow_config where
  "ex_flow = \<lparr>wc_ID = ''w'', wc_Steps =
     [Step (zero_fields\<lparr>ID := ''a''\<rparr>) [] [] None, Step (zero_fields\<lparr>ID := ''b'', DependsOn := [''a'']\<rparr>) [] [] None,
      Step (zero_fields\<lparr>ID := ''c'', DependsOn := [''b'']\<rparr>) [] [] None]\<rparr>"

definition ex_row :: "string \<Rightarrow> string \<Rightarrow> string \<Rightarrow> step_run" where
  "ex_row i st out = \<lparr>su_ID = i, su_Instance = ''old'', su_StepID = i, su_State = st, su_SkippedReason = [], su_Output = out, su_Structured = [],
     su_Summary = out, su_SkippedCached = False\<rparr>"

theorem preview_agrees_witness:
  "resume_preview ex_flow [ex_row ''a'' Done ''one'', ex_row ''b'' Failed ''two''] [] = Inr ([''a''], [''b'', ''c'']) \<and>
   (\<exists>sel. resumeCacheSelection ex_flow [ex_row ''a'' Done ''one'', ex_row ''b'' Failed ''two''] [] = Inr sel \<and>
     [''a''] = filter (\<lambda>i. r_state (snd (restoreCachedSteps (\<lambda>_. []) sel (initDAG ''i'' ex_flow ''t'' empty_item []))) i = Some stPassed)
       (map sid (wc_Steps ex_flow)))"
proof -
  let ?rows = "[ex_row ''a'' Done ''one'', ex_row ''b'' Failed ''two'']"
  have p: "resume_preview ex_flow ?rows [] = Inr ([''a''], [''b'', ''c''])" by code_simp
  have "distinct (map sid (wc_Steps ex_flow))" "\<forall>sr\<in>set ?rows. Normalize (su_State sr) = Done \<longrightarrow> su_State sr = Done" by code_simp+
  from preview_agrees [OF this, where fromStep = "[]" and decode = "\<lambda>_. []" and instID = "''i''" and taskID = "''t''" and cell = empty_item]
  show ?thesis unfolding p Let_def sum.case prod.case by blast
qed

text \<open>
  Replaying the rows of an earlier run restores exactly the completed work: a step that is not a split is passed
  if and only if some row records it done, it contributes to memory what the last such row holds, and the steps enter the
  order of contributions by their first completed row; every other step is left as in a fresh run.
\<close>

theorem restore_exact:
  assumes "distinct (map sid (wc_Steps w))" and "r = initDAG instID w taskID cell []" and "restoreCachedSteps decode rows r = (restored, r')"
  shows "restored = filter (restorable r) rows \<and> r_passedOrder r' = firsts (map su_StepID restored)
    \<and> (\<forall>i. r_state r' i = (if i \<in> su_StepID ` set restored then Some stPassed else r_state r i))
    \<and> (\<forall>i. r_contrib r' i = (case find (\<lambda>sr. su_StepID sr = i) (rev restored) of Some sr \<Rightarrow> Some (contrib_of decode r sr) | None \<Rightarrow> None))"
proof -
  note res = restore_rows_result [OF initDAG_keyed(1) [OF assms(1)], of decode rows "[]" instID taskID cell "[]", folded assms(2) restoreCachedSteps_def,
      unfolded assms(3) fst_conv snd_conv]
  have e: "restored = filter (restorable r) rows" using res by blast
  have new: "r_passedOrder r = []" "r_contrib r i = None" for i unfolding assms(2) by (simp_all add: initDAG_more)
  have "find (\<lambda>sr. restorable r sr \<and> su_StepID sr = i) (rev rows) = find (\<lambda>sr. su_StepID sr = i) (rev restored)" for i
    unfolding e rev_filter by (simp add: find_filter)
  then show ?thesis using res e new by (auto simp: list_ex_iff image_iff cong: option.case_cong)
qed

theorem restore_exact_witness:
  "firsts (map su_StepID (fst (restoreCachedSteps (\<lambda>_. []) [ex_row ''a'' Done ''one'', ex_row ''b'' Failed ''x'', ex_row ''a'' Done ''two'']
      (initDAG ''i'' ex_flow ''t'' empty_item [])))) = [''a''] \<and>
   r_passedOrder (snd (restoreCachedSteps (\<lambda>_. []) [ex_row ''a'' Done ''one'', ex_row ''b'' Failed ''x'', ex_row ''a'' Done ''two'']
      (initDAG ''i'' ex_flow ''t'' empty_item []))) = [''a'']"
proof -
  let ?rows = "[ex_row ''a'' Done ''one'', ex_row ''b'' Failed ''x'', ex_row ''a'' Done ''two'']" and ?r = "initDAG ''i'' ex_flow ''t'' empty_item []"
  have "distinct (map sid (wc_Steps ex_flow))" by code_simp
  from restore_exact [OF this refl prod.collapse [symmetric], of "\<lambda>_. []" ?rows "''i''" "''t''" empty_item]
  have "r_passedOrder (snd (restoreCachedSteps (\<lambda>_. []) ?rows ?r)) = firsts (map su_StepID (fst (restoreCachedSteps (\<lambda>_. []) ?rows ?r)))" by blast
  moreover have "firsts (map su_StepID (fst (restoreCachedSteps (\<lambda>_. []) ?rows ?r))) = [''a'']" by code_simp
  ultimately show ?thesis by simp
qed

text \<open>
  A resume records the steps it reuses as skipped, and the replay only reuses rows that are done: replaying the rows
  written by a resume restores nothing, so resuming a resumed instance, or rehydrating it after a restart, runs the reused steps again.
\<close>

theorem resume_forgets_cached:
  assumes "seedResume decode newID fails rows r = (ok, written, r')"
  shows "restoreCachedSteps decode' written r0 = ([], r0)"
proof -
  have "su_State sr = Skipped" if "sr \<in> set (snd (write_cached newID fails inst k restored))" for sr inst k restored
    using that by (induction newID fails inst k restored rule: write_cached.induct) (auto simp: Let_def cached_row_def split: if_splits)
  moreover have "written = snd (write_cached newID fails (r_instID r) 0 (fst (restoreCachedSteps decode rows r)))"
    using assms by (simp add: seedResume_def Let_def split: prod.splits)
  ultimately have "\<forall>sr\<in>set written. su_State sr = Skipped" by simp
  moreover have "Normalize Skipped \<noteq> Done" by code_simp
  ultimately have "restore_rows decode' written seen r0 = ([], r0)" for seen by (induction written) simp_all
  then show ?thesis by (simp add: restoreCachedSteps_def)
qed

theorem resume_forgets_cached_witness:
  "let r = initDAG ''i'' ex_flow ''t'' empty_item [];
       first = seedResume (\<lambda>_. []) (\<lambda>k. ''sr'') (\<lambda>_. False) [ex_row ''a'' Done ''one''] r
   in map su_StepID (fst (snd first)) = [''a''] \<and> r_state (snd (snd first)) ''a'' = Some stPassed
      \<and> restoreCachedSteps (\<lambda>_. []) (fst (snd first)) r = ([], r)"
proof -
  let ?r = "initDAG ''i'' ex_flow ''t'' empty_item []"
  let ?f = "seedResume (\<lambda>_. []) (\<lambda>k. ''sr'') (\<lambda>_. False) [ex_row ''a'' Done ''one''] ?r"
  have "map su_StepID (fst (snd ?f)) = [''a'']" "r_state (snd (snd ?f)) ''a'' = Some stPassed" by code_simp+
  moreover have "?f = (fst ?f, fst (snd ?f), snd (snd ?f))" by simp
  then have "restoreCachedSteps (\<lambda>_. []) (fst (snd ?f)) ?r = ([], ?r)" by (rule resume_forgets_cached)
  ultimately show ?thesis by (simp add: Let_def)
qed

text \<open>
  The replay looks for completed rows only: rows that come after them and are not done change nothing, so
  a step that passed on an early lap and failed when a loop ran it again is restored as passed, with the output of
  the early lap.
\<close>

theorem stale_pass_restored:
  assumes "\<forall>sr\<in>set later. Normalize (su_State sr) \<noteq> Done"
  shows "restoreCachedSteps decode (rows @ later) r = restoreCachedSteps decode rows r"
proof -
  have tail: "restore_rows d later seen r = ([], r)" for d seen r using assms by (induction later) auto
  have "restore_rows decode (rows @ later) seen r = restore_rows decode rows seen r" for seen
    by (induction decode rows seen r rule: restore_rows.induct) (simp_all add: tail split: option.splits)
  then show ?thesis by (simp add: restoreCachedSteps_def)
qed

theorem stale_pass_restored_witness:
  "let r = snd (restoreCachedSteps (\<lambda>_. []) ([ex_row ''a'' Done ''lap one'', ex_row ''b'' Failed ''x''] @ [ex_row ''a'' Failed ''lap two''])
       (initDAG ''i'' ex_flow ''t'' empty_item []))
   in r_state r ''a'' = Some stPassed \<and> map_option ss_Output (r_stepStates r ''a'') = Some ''lap one'' \<and> pickAllRunnable r = [''b'']"
proof -
  have "\<forall>sr\<in>set [ex_row ''a'' Failed ''lap two'']. Normalize (su_State sr) \<noteq> Done" by code_simp
  note e = stale_pass_restored [OF this, of "\<lambda>_. []" "[ex_row ''a'' Done ''lap one'', ex_row ''b'' Failed ''x'']"]
  show ?thesis unfolding e by code_simp
qed

text \<open>The replay never deactivates a step.\<close>

lemma restore_activated: "r_activated r i \<Longrightarrow> r_activated (snd (restore_rows decode rows seen r)) i"
proof (induction decode rows seen r rule: restore_rows.induct)
  case (2 decode sr rows seen r)
  then show ?case by (auto simp: restore_step_def split: option.splits)
qed simp

text \<open>
  An approval leaves no step run behind, so a rehydrated run does not know which gates were passed: a workflow that begins
  with an approval is always parked there again, also when that gate had been approved and the run was waiting at a later one.
\<close>

theorem rehydrate_first_gate:
  assumes "distinct (map sid (wc_Steps w))" and "wc_Steps w = s # ss" and "StepType s = StepTypeApproval" and "DependsOn (flds s) = []"
    and "SeqDependsOn (flds s) = []" and "\<not> split_targets (wc_Steps w) (sid s)" and "\<forall>sr\<in>set rows. su_StepID sr \<noteq> sid s"
  shows "\<exists>r. RehydrateApproval decode instID w taskID cell rows parkedAt = Inr r \<and> r_waitingStep r = sid s"
proof -
  let ?r0 = "initDAG instID w taskID cell []"
  define r where "r = snd (restoreCachedSteps decode rows ?r0)"
  note res = restore_rows_result [OF initDAG_keyed(1) [OF assms(1)], of decode rows "[]" instID taskID cell "[]" "sid s",
      folded restoreCachedSteps_def, folded r_def]
  have byID: "r_byID r (sid s) = Some s"
    using res initDAG_keyed(2) [OF assms(1), of instID taskID cell "[]" "sid s"] by (simp add: assms(2))
  have "r_state r (sid s) = Some stPending" using res assms(2,7) by (auto simp: list_ex_iff initDAG_fields)
  moreover have "r_activated r (sid s)"
    unfolding r_def restoreCachedSteps_def by (rule restore_activated) (use assms(2,6) in \<open>simp add: initDAG_fields\<close>)
  ultimately have run: "runnable r (sid s)" using byID assms(4,5) by (simp add: runnable_def depsPassed_def step_of_def)
  have "r_order r = sid s # map sid ss" using res assms(2) by (simp add: initDAG_fields)
  then have "firstRunnableApproval r = Some (sid s)"
    using run byID assms(3) by (simp add: firstRunnableApproval_def pickAllRunnable_def step_of_def)
  then show ?thesis unfolding RehydrateApproval_def r_def [symmetric] by (simp add: Let_def)
qed

definition ex_gates :: workflow_config where
  "ex_gates = \<lparr>wc_ID = ''w'', wc_Steps =
     [Step (zero_fields\<lparr>ID := ''g1'', Type := ''approval''\<rparr>) [] [] None,
      Step (zero_fields\<lparr>ID := ''g2'', Type := ''approval'', SeqDependsOn := [''g1'']\<rparr>) [] [] None]\<rparr>"

definition ex_second_gate :: dag_run where
  "ex_second_gate = (let (_, r, d) = ex_parked ex_gates in
     fst (snd (projr (iterate ex_lib 2 (ex_input True) (start (resolveApproval ApprovalResume r) d)))))"

theorem rehydrate_first_gate_witness:
  "r_waitingStep ex_second_gate = ''g2'' \<and> r_state ex_second_gate ''g1'' = Some stPassed \<and>
   (\<exists>r. RehydrateApproval (\<lambda>_. []) ''i'' ex_gates ''t'' empty_item [] 1 = Inr r \<and> r_waitingStep r = ''g1'')"
proof -
  let ?s = "Step (zero_fields\<lparr>ID := ''g1'', Type := ''approval''\<rparr>) [] [] None"
  have "r_waitingStep ex_second_gate = ''g2''" "r_state ex_second_gate ''g1'' = Some stPassed" by code_simp+
  moreover have "\<exists>r. RehydrateApproval (\<lambda>_. []) ''i'' ex_gates ''t'' empty_item [] 1 = Inr r \<and> r_waitingStep r = sid ?s"
    by (rule rehydrate_first_gate [where ss = "tl (wc_Steps ex_gates)"]) code_simp+
  ultimately show ?thesis by simp
qed

end
