(* ===== verification/Contract.thy ===== *)
theory Contract
  imports Router Memory_Doc Step_Graph
begin

text \<open>
  The public contract of a reusable workflow (\<open>internal/config/workflow_contract.go\<close>): typed inputs and outputs, the
  value expressions that connect them to steps, and the search for cyclic references between workflows.
  A validation error is the context it is reported under and a \<open>problem\<close>, which carries what the message quotes.
  A Go map is an association list, and the errors of its entries come in list order; the program gives them in any order.
\<close>

section \<open>Workflow definitions\<close>

record workflow_input =
  win_Type :: string
  win_Required :: bool
  win_Default :: gval

record workflow_output =
  wout_Type :: string
  wout_Value :: string

record on_complete =
  oc_SetState :: string
  oc_AddLabels :: "string list"
  oc_RemoveLabels :: "string list"
  oc_AssignFromOutput :: bool

text \<open>The fields of \<open>WorkflowConfig\<close> that validation reads, beside those the scheduler needs.\<close>

record workflow_def = workflow_config +
  wc_Inputs :: "(string \<times> workflow_input) list"
  wc_Outputs :: "(string \<times> workflow_output) list"
  wc_Resume :: string
  wc_ResultComment :: string
  wc_Trigger :: "trigger_config option"
  wc_OnComplete :: "on_complete option"
  wc_OnFail :: "on_complete option"

section \<open>Errors\<close>

datatype problem =
    Required string
  | RequiredAt nat string
  | Unknown string string
  | Invalid string string
  | NotAllowed string
  | Mismatch string string
  | Duplicate string
  | Unsupported string string
  | BadExpression string string expr_error
  | FallbackCount nat
  | CyclicReference "string list"
  | ApprovalRequired string string
  | NotIdempotent string
  | Graph graph_error
  | LoweringFailed

type_synonym verror = "string \<times> problem"

definition fail_if :: "bool \<Rightarrow> 'e \<Rightarrow> 'e list" where
  "fail_if b e = (if b then [e] else [])"

lemma fail_if_Nil [simp]: "fail_if b e = [] \<longleftrightarrow> \<not> b" "[] = fail_if b e \<longleftrightarrow> \<not> b"
  by (auto simp: fail_if_def)

text \<open>Collecting ids: a missing one is reported and not recorded, a repeated one is reported.\<close>

fun index_ids :: "(nat \<Rightarrow> 'e) \<Rightarrow> (nat \<Rightarrow> string \<Rightarrow> 'e) \<Rightarrow> nat \<Rightarrow> string list \<Rightarrow> string list \<Rightarrow> 'e list" where
  "index_ids required duplicate i [] seen = []"
| "index_ids required duplicate i (x # xs) seen =
     (if x = [] then required i # index_ids required duplicate (Suc i) xs seen
      else fail_if (x \<in> set seen) (duplicate i x) @ index_ids required duplicate (Suc i) xs (x # seen))"

definition id_set :: "string list \<Rightarrow> string \<Rightarrow> bool" where
  "id_set ids x \<longleftrightarrow> x \<noteq> [] \<and> x \<in> set ids"

lemma index_ids_Nil:
  "index_ids required duplicate i xs seen = [] \<longleftrightarrow> [] \<notin> set xs \<and> distinct xs \<and> set xs \<inter> set seen = {}"
  by (induction xs arbitrary: i seen) auto

section \<open>Values and types\<close>

definition supportedSchemaTypes :: "string list" where
  "supportedSchemaTypes = [''object'', ''string'', ''number'', ''integer'', ''boolean'', ''array'']"

definition WorkflowValueMatchesType :: "gval \<Rightarrow> string \<Rightarrow> bool" where
  "WorkflowValueMatchesType v typ =
     (if typ = ''string'' then (case v of GStr s \<Rightarrow> True | _ \<Rightarrow> False)
      else if typ = ''number'' then (case v of GInt i \<Rightarrow> True | GNum x \<Rightarrow> True | _ \<Rightarrow> False)
      else if typ = ''integer'' then (case v of GInt i \<Rightarrow> True | GNum x \<Rightarrow> float_to_int64 x \<noteq> None | _ \<Rightarrow> False)
      else if typ = ''boolean'' then (case v of GBool b \<Rightarrow> True | _ \<Rightarrow> False)
      else if typ = ''array'' then (case v of GArr vs \<Rightarrow> True | _ \<Rightarrow> False)
      else if typ = ''object'' then (case v of GObj kvs \<Rightarrow> True | _ \<Rightarrow> False)
      else False)"

definition trim_suffix :: "string \<Rightarrow> string \<Rightarrow> string" where
  "trim_suffix s p = (if has_suffix s p then take (length s - length p) s else s)"

text \<open>A trimmed string in the wrapper, and what the wrapper holds.\<close>

definition is_wrapped :: "string \<Rightarrow> bool" where
  "is_wrapped s \<longleftrightarrow> has_prefix s ''${{'' \<and> has_suffix s ''}}''"

definition wrapped_body :: "string \<Rightarrow> string" where
  "wrapped_body s = trim_space (trim_suffix (trim_prefix s ''${{'') ''}}'')"

definition isWorkflowExpression :: "gval \<Rightarrow> bool" where
  "isWorkflowExpression v = (case v of GStr s \<Rightarrow> is_wrapped (trim_space s) | _ \<Rightarrow> False)"

definition workflowStepOutputRef :: "string \<Rightarrow> (string \<times> string) option" where
  "workflowStepOutputRef v =
     (let s = trim_space v in
      if \<not> is_wrapped s then None
      else case split_on CHR ''.'' (wrapped_body s) of
        [root, stepID, field] \<Rightarrow> if root \<noteq> ''steps'' \<or> stepID = [] \<or> field = [] then None else Some (stepID, field)
      | _ \<Rightarrow> None)"

section \<open>The contract\<close>

definition validate_input :: "string \<Rightarrow> string \<times> workflow_input \<Rightarrow> verror list" where
  "validate_input ctx entry =
     (let (name, inp) = entry; ictx = ctx @ '': input '' @ go_quote name in
      fail_if (name = []) (ctx, Required ''input name'')
      @ (if win_Type inp \<notin> set supportedSchemaTypes then [(ictx, Invalid ''type'' (win_Type inp))]
         else fail_if (win_Default inp \<noteq> GNil \<and> \<not> WorkflowValueMatchesType (win_Default inp) (win_Type inp))
                (ictx, Mismatch ''default'' (win_Type inp))))"

text \<open>The type a step's schema declares for a field, empty when there is none.\<close>

definition declared_type :: "step_config \<Rightarrow> string \<Rightarrow> string" where
  "declared_type step field =
     (case (case OutputSchema (flds step) of None \<Rightarrow> Output (flds step) | Some sch \<Rightarrow> Some sch) of
        None \<Rightarrow> []
      | Some sch \<Rightarrow> (case map_of (os_Properties sch) field of None \<Rightarrow> [] | Some f \<Rightarrow> sf_Type f))"

definition step_by_id :: "step_config list \<Rightarrow> string \<Rightarrow> step_config option" where
  "step_by_id steps i = map_of (rev (map (\<lambda>s. (sid s, s)) steps)) i"

definition validate_output :: "string \<Rightarrow> step_config list \<Rightarrow> string \<times> workflow_output \<Rightarrow> verror list" where
  "validate_output ctx steps entry =
     (let (name, out) = entry; octx = ctx @ '': output '' @ go_quote name in
      fail_if (name = []) (ctx, Required ''output name'')
      @ fail_if (wout_Type out \<notin> set supportedSchemaTypes) (octx, Invalid ''type'' (wout_Type out))
      @ (case workflowStepOutputRef (wout_Value out) of
           None \<Rightarrow> [(octx, Required ''steps reference'')]
         | Some (stepID, field) \<Rightarrow>
             (case step_by_id steps stepID of
                None \<Rightarrow> [(octx, Unknown ''step'' stepID)]
              | Some step \<Rightarrow>
                  if field = ''output'' then fail_if (wout_Type out \<noteq> ''string'') (octx, Mismatch ''raw output'' ''string'')
                  else let ftype = declared_type step field in
                    if ftype = [] then [(octx, Unknown stepID field)]
                    else fail_if (wout_Type out \<noteq> [] \<and> ftype \<noteq> wout_Type out)
                           (octx, Mismatch field ftype))))"

definition validateWorkflowContract :: "string \<Rightarrow> workflow_def \<Rightarrow> verror list" where
  "validateWorkflowContract ctx w =
     concat (map (validate_input ctx) (wc_Inputs w)) @ concat (map (validate_output ctx (wc_Steps w)) (wc_Outputs w))"

section \<open>References between workflows\<close>

text \<open>\<open>wfByID\<close>: the last definition of an id wins, a workflow without an id is not indexed.\<close>

definition wf_by_id :: "workflow_def list \<Rightarrow> string \<Rightarrow> workflow_def option" where
  "wf_by_id ws i = map_of (rev (map (\<lambda>w. (wc_ID w, w)) (filter (\<lambda>w. wc_ID w \<noteq> []) ws))) i"

definition workflow_refs :: "(string \<Rightarrow> workflow_def option) \<Rightarrow> workflow_def \<Rightarrow> string list" where
  "workflow_refs byID w =
     map (\<lambda>s. Workflow (flds s))
       (filter (\<lambda>s. StepType s = StepTypeWorkflow \<and> byID (Workflow (flds s)) \<noteq> None) (wc_Steps w))"

record ref_search =
  rv_state :: colors
  rv_stack :: "string list"
  rv_errs :: "string list list"

definition cycle_of :: "string list \<Rightarrow> string \<Rightarrow> string list" where
  "cycle_of stack i = dropWhile (\<lambda>x. x \<noteq> i) stack @ [i]"

text \<open>The recursion runs on the references as an edge map, with fuel; \<open>None\<close> is lack of fuel.\<close>

function visit_ref :: "edge_map \<Rightarrow> nat \<Rightarrow> string \<Rightarrow> ref_search \<Rightarrow> ref_search option"
and visit_refs :: "edge_map \<Rightarrow> nat \<Rightarrow> string list \<Rightarrow> ref_search \<Rightarrow> ref_search option" where
  "visit_ref adj 0 i v = None"
| "visit_ref adj (Suc f) i v =
     (case rv_state v i of
        black \<Rightarrow> Some v
      | gray \<Rightarrow> Some (v\<lparr>rv_errs := rv_errs v @ [cycle_of (rv_stack v) i]\<rparr>)
      | white \<Rightarrow>
          (case visit_refs adj f (targets adj i) (v\<lparr>rv_state := (rv_state v)(i := gray), rv_stack := rv_stack v @ [i]\<rparr>) of
             None \<Rightarrow> None
           | Some v' \<Rightarrow> Some (v'\<lparr>rv_stack := butlast (rv_stack v'), rv_state := (rv_state v')(i := black)\<rparr>)))"
| "visit_refs adj f [] v = Some v"
| "visit_refs adj f (i # is) v = (case visit_ref adj f i v of None \<Rightarrow> None | Some v' \<Rightarrow> visit_refs adj f is v')"
  by pat_completeness auto
termination
  by (relation "measures [\<lambda>x. case x of Inl (adj, f, i, v) \<Rightarrow> f | Inr (adj, f, is, v) \<Rightarrow> f,
      \<lambda>x. case x of Inl (adj, f, i, v) \<Rightarrow> 0 | Inr (adj, f, is, v) \<Rightarrow> Suc (length is)]") simp_all

definition ref_ids :: "workflow_def list \<Rightarrow> string list" where
  "ref_ids ws = sort (remdups (filter (\<lambda>i. i \<noteq> []) (map wc_ID ws)))"

definition ref_edges :: "workflow_def list \<Rightarrow> edge_map" where
  "ref_edges ws = map (\<lambda>i. (i, case wf_by_id ws i of None \<Rightarrow> [] | Some w \<Rightarrow> workflow_refs (wf_by_id ws) w)) (ref_ids ws)"

definition ref_cycles :: "workflow_def list \<Rightarrow> string list list option" where
  "ref_cycles ws =
     map_option rv_errs (visit_refs (ref_edges ws) (length (ref_ids ws) + 1) (ref_ids ws)
       \<lparr>rv_state = (\<lambda>_. white), rv_stack = [], rv_errs = []\<rparr>)"

definition validateWorkflowReferenceCycles :: "workflow_def list \<Rightarrow> verror list" where
  "validateWorkflowReferenceCycles ws =
     (case ref_cycles ws of None \<Rightarrow> [] | Some cycles \<Rightarrow> map (\<lambda>c. ([], CyclicReference c)) cycles)"

section \<open>The reference search is exact\<close>

text \<open>A call leaves the nodes on the stack as they were, and only appends errors.\<close>

lemma visit_ref_frame:
  "visit_ref adj f i v = Some v' \<Longrightarrow>
     grays (rv_state v') = grays (rv_state v) \<and> whites V (rv_state v') \<subseteq> whites V (rv_state v) \<and> prefix (rv_errs v) (rv_errs v')"
  "visit_refs adj f is v = Some v' \<Longrightarrow>
     grays (rv_state v') = grays (rv_state v) \<and> whites V (rv_state v') \<subseteq> whites V (rv_state v) \<and> prefix (rv_errs v) (rv_errs v')"
proof (induction adj f i v and adj f "is" v arbitrary: v' and v' rule: visit_ref_visit_refs.induct)
  case (2 adj f i v)
  show ?case
  proof (cases "rv_state v i")
    case white
    let ?v = "v\<lparr>rv_state := (rv_state v)(i := gray), rv_stack := rv_stack v @ [i]\<rparr>"
    from white "2.prems" obtain w where w: "visit_refs adj f (targets adj i) ?v = Some w"
        and v': "v' = w\<lparr>rv_stack := butlast (rv_stack w), rv_state := (rv_state w)(i := black)\<rparr>"
      by (auto split: option.splits)
    from "2.IH" [OF white w] have ih: "grays (rv_state w) = grays ((rv_state v)(i := gray))"
        "whites V (rv_state w) \<subseteq> whites V ((rv_state v)(i := gray))" "prefix (rv_errs v) (rv_errs w)"
      by (simp_all add: fun_upd_def)
    have "grays (rv_state v') = grays (rv_state v)" using ih(1) white unfolding v' by (auto simp: grays_def set_eq_iff)
    moreover have "whites V (rv_state v') \<subseteq> whites V (rv_state v)"
      using ih(2) unfolding v' by (auto simp: whites_def subset_iff split: if_splits)
    ultimately show ?thesis using ih(3) by (simp add: v' fun_upd_def)
  qed (use 2 in auto)
next
  case (4 adj f i "is" v)
  from "4.prems" obtain w where w: "visit_ref adj f i v = Some w" "visit_refs adj f is w = Some v'" by (auto split: option.splits)
  from "4.IH"(1) [OF w(1)] "4.IH"(2) [OF w] show ?case by (auto intro: prefix_order.trans)
qed auto

text \<open>A search that reports nothing has blackened an acyclic part of the graph.\<close>

lemma visit_ref_silent:
  "visit_ref adj f i v = Some v' \<Longrightarrow> rv_errs v' = [] \<Longrightarrow> dfs_inv adj (rv_state v)
     \<Longrightarrow> dfs_step adj (rv_state v) (rv_state v') \<and> i \<in> blacks (rv_state v')"
  "visit_refs adj f is v = Some v' \<Longrightarrow> rv_errs v' = [] \<Longrightarrow> dfs_inv adj (rv_state v)
     \<Longrightarrow> dfs_step adj (rv_state v) (rv_state v') \<and> set is \<subseteq> blacks (rv_state v')"
proof (induction adj f i v and adj f "is" v arbitrary: v' and v' rule: visit_ref_visit_refs.induct)
  case (2 adj f i v)
  show ?case
  proof (cases "rv_state v i")
    case white
    let ?v = "v\<lparr>rv_state := (rv_state v)(i := gray), rv_stack := rv_stack v @ [i]\<rparr>"
    from white "2.prems"(1) obtain w where w: "visit_refs adj f (targets adj i) ?v = Some w"
        and v': "v' = w\<lparr>rv_stack := butlast (rv_stack w), rv_state := (rv_state w)(i := black)\<rparr>"
      by (auto split: option.splits)
    have "dfs_inv adj ((rv_state v)(i := gray))" using white "2.prems"(3) by (intro dfs_inv_gray) auto
    then have st: "dfs_step adj ((rv_state v)(i := gray)) (rv_state w)" and su: "set (targets adj i) \<subseteq> blacks (rv_state w)"
      using "2.IH" [OF white w] "2.prems"(2) v' by (auto simp: fun_upd_def)
    have g: "grays (rv_state w) = insert i (grays (rv_state v))" using st by (auto simp: dfs_step_def grays_def)
    then have "i \<in> grays (rv_state w)" by simp
    then have nb: "i \<notin> blacks (rv_state w)" by (simp add: grays_def blacks_def)
    have "dfs_inv adj ((rv_state w)(i := black))" using st su nb by (intro dfs_inv_blacken) (auto simp: dfs_step_def)
    then have "dfs_inv adj (rv_state v')" by (simp add: v' fun_upd_def)
    moreover have "grays (rv_state v') = grays (rv_state v)" using g white unfolding v' by (auto simp: grays_def)
    moreover have "blacks (rv_state v) \<subseteq> blacks (rv_state v')"
      using st white unfolding v' by (auto simp: dfs_step_def blacks_def)
    moreover have "i \<in> blacks (rv_state v')" unfolding v' by (simp add: blacks_def)
    ultimately show ?thesis by (simp add: dfs_step_def)
  qed (use 2 in \<open>auto simp: blacks_def intro: dfs_step_refl\<close>)
next
  case (4 adj f i "is" v)
  from "4.prems"(1) obtain w where w: "visit_ref adj f i v = Some w" "visit_refs adj f is w = Some v'" by (auto split: option.splits)
  then have "rv_errs w = []" using visit_ref_frame(2) [OF w(2)] "4.prems"(2) by simp
  with "4.IH"(1) [OF w(1)] "4.prems"(3) have a: "dfs_step adj (rv_state v) (rv_state w)" "i \<in> blacks (rv_state w)" by auto
  then have "dfs_inv adj (rv_state w)" by (simp add: dfs_step_def)
  with "4.IH"(2) [OF w "4.prems"(2)] have b: "dfs_step adj (rv_state w) (rv_state v')" "set is \<subseteq> blacks (rv_state v')" by auto
  with a show ?case by (auto simp: dfs_step_def)
qed (auto intro: dfs_step_refl)

text \<open>A reported reference closes a cycle: every node on the stack reaches the node visited.\<close>

lemma visit_ref_reports:
  "visit_ref adj f i v = Some v' \<Longrightarrow> rv_errs v = [] \<Longrightarrow> rv_errs v' \<noteq> [] \<Longrightarrow> \<forall>g\<in>grays (rv_state v). (g, i) \<in> (edge_rel adj)\<^sup>+
     \<Longrightarrow> \<not> acyclic (edge_rel adj)"
  "visit_refs adj f is v = Some v' \<Longrightarrow> rv_errs v = [] \<Longrightarrow> rv_errs v' \<noteq> []
     \<Longrightarrow> \<forall>g\<in>grays (rv_state v). \<forall>i\<in>set is. (g, i) \<in> (edge_rel adj)\<^sup>+ \<Longrightarrow> \<not> acyclic (edge_rel adj)"
proof (induction adj f i v and adj f "is" v arbitrary: v' and v' rule: visit_ref_visit_refs.induct)
  case (2 adj f i v)
  show ?case
  proof (cases "rv_state v i")
    case white
    let ?v = "v\<lparr>rv_state := (rv_state v)(i := gray), rv_stack := rv_stack v @ [i]\<rparr>"
    from white "2.prems"(1) obtain w where w: "visit_refs adj f (targets adj i) ?v = Some w"
        and v': "v' = w\<lparr>rv_stack := butlast (rv_stack w), rv_state := (rv_state w)(i := black)\<rparr>"
      by (auto split: option.splits)
    have "(g, j) \<in> (edge_rel adj)\<^sup>+" if "g \<in> grays (rv_state ?v)" "j \<in> set (targets adj i)" for g j
    proof -
      have e: "(i, j) \<in> edge_rel adj" using that(2) by (simp add: edge_rel_iff)
      show ?thesis
      proof (cases "g = i")
        case False
        then have "g \<in> grays (rv_state v)" using that(1) by (simp add: grays_def)
        with "2.prems"(4) e show ?thesis by (meson trancl.trancl_into_trancl)
      qed (use e in auto)
    qed
    then show ?thesis using "2.IH" [OF white w] "2.prems"(2,3) v' by (simp add: fun_upd_def)
  next
    case gray
    then have "i \<in> grays (rv_state v)" by (simp add: grays_def)
    with "2.prems"(4) show ?thesis by (auto simp: acyclic_def)
  qed (use 2 in auto)
next
  case (4 adj f i "is" v)
  from "4.prems"(1) obtain w where w: "visit_ref adj f i v = Some w" "visit_refs adj f is w = Some v'" by (auto split: option.splits)
  show ?case
  proof (cases "rv_errs w = []")
    case True
    then show ?thesis using "4.IH"(2) [OF w True "4.prems"(3)] visit_ref_frame(1) [OF w(1)] "4.prems"(4) by simp
  next
    case False
    then show ?thesis using "4.IH"(1) [OF w(1) "4.prems"(2)] "4.prems"(4) by simp
  qed
qed auto

lemma visit_ref_fuel:
  "i \<in> V \<Longrightarrow> card (whites V (rv_state v)) < f \<Longrightarrow> finite V \<Longrightarrow> (\<And>x. x \<in> V \<Longrightarrow> set (targets adj x) \<subseteq> V)
     \<Longrightarrow> visit_ref adj f i v \<noteq> None"
  "set is \<subseteq> V \<Longrightarrow> card (whites V (rv_state v)) < f \<Longrightarrow> finite V \<Longrightarrow> (\<And>x. x \<in> V \<Longrightarrow> set (targets adj x) \<subseteq> V)
     \<Longrightarrow> visit_refs adj f is v \<noteq> None"
proof (induction adj f i v and adj f "is" v rule: visit_ref_visit_refs.induct)
  case (2 adj f i v)
  show ?case
  proof (cases "rv_state v i")
    case white
    let ?v = "v\<lparr>rv_state := (rv_state v)(i := gray), rv_stack := rv_stack v @ [i]\<rparr>"
    have "card (whites V (rv_state ?v)) < f" using whites_gray [of V i "rv_state v"] "2.prems"(1-3) white by (simp add: fun_upd_def)
    then have "visit_refs adj f (targets adj i) ?v \<noteq> None" using "2.IH" [OF white] "2.prems" by blast
    with white show ?thesis by auto
  qed (use 2 in auto)
next
  case (4 adj f i "is" v)
  have "visit_ref adj f i v \<noteq> None" using "4.IH"(1) "4.prems" by simp
  then obtain w where w: "visit_ref adj f i v = Some w" by auto
  have "card (whites V (rv_state w)) \<le> card (whites V (rv_state v))"
    using visit_ref_frame(1) [OF w, of V] "4.prems"(3) by (intro card_mono) (auto simp: whites_def)
  then have "visit_refs adj f is w \<noteq> None" using "4.IH"(2) [OF w] "4.prems" by auto
  with w show ?case by simp
qed auto

text \<open>The workflow \<open>a\<close> has a step that runs the workflow \<open>b\<close>.\<close>

definition refers :: "workflow_def list \<Rightarrow> (string \<times> string) set" where
  "refers ws = {(a, b). \<exists>w s. wf_by_id ws a = Some w \<and> wf_by_id ws b \<noteq> None \<and> s \<in> set (wc_Steps w)
     \<and> StepType s = StepTypeWorkflow \<and> Workflow (flds s) = b}"

lemma wf_by_id_dom: "wf_by_id ws i \<noteq> None \<longleftrightarrow> i \<in> set (ref_ids ws)"
  by (auto simp: wf_by_id_def ref_ids_def map_of_eq_None_iff image_iff)

lemma wf_by_id_in: "wf_by_id ws i = Some w \<Longrightarrow> w \<in> set ws \<and> wc_ID w = i \<and> i \<noteq> []"
  by (auto simp: wf_by_id_def dest!: map_of_SomeD)

lemma targets_ref_edges:
  "targets (ref_edges ws) i = (case wf_by_id ws i of None \<Rightarrow> [] | Some w \<Rightarrow> workflow_refs (wf_by_id ws) w)"
proof (cases "i \<in> set (ref_ids ws)")
  case True
  then show ?thesis by (simp add: targets_def ref_edges_def map_of_map_restrict)
next
  case False
  then have "wf_by_id ws i = None" using wf_by_id_dom by blast
  with False show ?thesis by (simp add: targets_def ref_edges_def map_of_map_restrict)
qed

lemma edge_rel_refers: "edge_rel (ref_edges ws) = refers ws"
  by (fastforce simp: edge_rel_iff refers_def targets_ref_edges workflow_refs_def split: option.splits dest!: sym [of "Some _"])

lemma ref_cycles_exact: "\<exists>cs. ref_cycles ws = Some cs \<and> (cs = [] \<longleftrightarrow> acyclic (refers ws))"
proof -
  let ?adj = "ref_edges ws" and ?ids = "ref_ids ws" and ?v = "\<lparr>rv_state = (\<lambda>_. white), rv_stack = [], rv_errs = []\<rparr>"
  have cl: "set (targets ?adj x) \<subseteq> set ?ids" for x
    using wf_by_id_dom by (auto simp: targets_ref_edges workflow_refs_def split: option.splits)
  have "card (whites (set ?ids) (\<lambda>_. white)) < length ?ids + 1"
    by (simp add: whites_def card_length less_Suc_eq_le)
  then have "visit_refs ?adj (length ?ids + 1) ?ids ?v \<noteq> None" using cl by (intro visit_ref_fuel(2) [of _ "set ?ids"]) auto
  then obtain v where v: "visit_refs ?adj (length ?ids + 1) ?ids ?v = Some v" by auto
  have "acyclic (edge_rel ?adj)" if "rv_errs v = []"
  proof -
    have b: "dfs_inv ?adj (rv_state v)" "set ?ids \<subseteq> blacks (rv_state v)"
      using visit_ref_silent(2) [OF v that] by (auto simp: dfs_step_def dfs_inv_def blacks_def)
    have "x \<in> set ?ids" if "(x, y) \<in> (edge_rel ?adj)\<^sup>+" for x y
      using tranclD [OF that] wf_by_id_dom by (auto simp: edge_rel_refers refers_def)
    with b show ?thesis unfolding acyclic_def dfs_inv_def by blast
  qed
  moreover have "\<not> acyclic (edge_rel ?adj)" if "rv_errs v \<noteq> []"
    using visit_ref_reports(2) [OF v _ that] by (simp add: grays_def)
  ultimately show ?thesis using v by (auto simp: ref_cycles_def edge_rel_refers)
qed

lemma reference_errors: "validateWorkflowReferenceCycles ws = [] \<longleftrightarrow> acyclic (refers ws)"
  using ref_cycles_exact [of ws] by (auto simp: validateWorkflowReferenceCycles_def)

end
