(* ===== verification/Validate.thy ===== *)
theory Validate
  imports Contract Dag_Theorems Lowering
begin

text \<open>
  Validation of workflow definitions (\<open>internal/config/workflow_validate.go\<close>, \<open>workflow_validate_v2.go\<close>,
  \<open>source_caps_validate.go\<close>, and the part of \<open>Config.Validate\<close> that lowers and checks workflows). Errors are accumulated, so
  a validator is the list of its errors. The functions the \<open>cli\<close> package injects, and the libraries for regular expressions and
  durations, are the record \<open>hooks\<close>; an injected function that is missing is \<open>None\<close>.
\<close>

section \<open>Configuration\<close>

record source_caps =
  sc_SetState :: bool
  sc_AddLabels :: bool
  sc_RemoveLabels :: bool
  sc_Approvals :: bool
  sc_CIWait :: bool
  sc_PRCIWait :: bool
  sc_SubIssues :: bool

record hooks =
  h_LintExpr :: "(string \<Rightarrow> expr_error option) option"
  h_Capabilities :: "(string \<Rightarrow> source_caps) option"
  h_DependencyWait :: "(string \<Rightarrow> bool) option"
  h_PREvents :: "(string \<Rightarrow> bool) option"
  h_regexp :: regex_lib
  h_duration :: duration_lib

text \<open>A source is its id and its type, an agent its id.\<close>

record app_config =
  ac_Workflows :: "workflow_def list"
  ac_Agents :: "string list"
  ac_Sources :: "(string \<times> string) list"
  ac_RequireFor :: "string list"

text \<open>\<open>agentIDSet\<close> and \<open>sourceIDSet\<close>.\<close>

definition agentIDSet :: "app_config \<Rightarrow> string \<Rightarrow> bool" where
  "agentIDSet c a \<longleftrightarrow> a \<in> set (ac_Agents c)"

definition sourceIDSet :: "app_config \<Rightarrow> string \<Rightarrow> bool" where
  "sourceIDSet c s \<longleftrightarrow> s \<in> fst ` set (ac_Sources c)"

section \<open>Output schemas\<close>

lemma schema_sizes:
  "sf_Items f = Some g \<Longrightarrow> size g < size f" "(n, g) \<in> set (sf_Properties f) \<Longrightarrow> size g < size f"
proof -
  show "sf_Items f = Some g \<Longrightarrow> size g < size f" by (cases f) auto
  assume "(n, g) \<in> set (sf_Properties f)"
  then show "size g < size f"
  proof (cases f)
    case (SchemaField t e i ps r)
    with \<open>(n, g) \<in> set (sf_Properties f)\<close> have "(n, g) \<in> set ps" by simp
    then have "size_prod (\<lambda>_. 0) size (n, g) \<le> size_list (size_prod (\<lambda>_. 0) size) ps"
      by (intro size_list_estimation' [OF _ order.refl])
    with SchemaField show ?thesis by simp
  qed
qed

function validateSchemaField :: "string \<Rightarrow> schema_field \<Rightarrow> verror list" where
  "validateSchemaField fctx f =
     (if sf_Type f \<notin> set supportedSchemaTypes then [(fctx, Invalid ''type'' (sf_Type f))]
      else fail_if (sf_Enum f \<noteq> [] \<and> sf_Type f \<noteq> ''string'') (fctx, NotAllowed ''enum'')
        @ (if sf_Type f = ''array''
           then (case sf_Items f of None \<Rightarrow> [(fctx, Required ''items'')] | Some g \<Rightarrow> validateSchemaField (fctx @ ''.items'') g) else [])
        @ (if sf_Type f = ''object''
           then concat (map (\<lambda>(name, g). validateSchemaField (fctx @ ''.'' @ name) g) (sf_Properties f)) else []))"
  by pat_completeness auto
termination
  by (relation "measure (\<lambda>(c, f). size f)") (auto dest: schema_sizes)

definition validateOutputSchema :: "string \<Rightarrow> output_schema \<Rightarrow> verror list" where
  "validateOutputSchema sctx sch =
     fail_if (os_Type sch \<noteq> ''object'') (sctx, Invalid ''output_schema type'' (os_Type sch))
     @ concat (map (\<lambda>(name, f). validateSchemaField (sctx @ '': output_schema.'' @ name) f) (os_Properties sch))
     @ concat (map (\<lambda>req. fail_if (map_of (os_Properties sch) req = None) (sctx, Unknown ''required field'' req)) (os_Required sch))"

text \<open>\<open>foreachItemsResolveToArray\<close> walks the declared fields.\<close>

fun field_walk :: "(string \<times> schema_field) list \<Rightarrow> string list \<Rightarrow> bool" where
  "field_walk props [] = False"
| "field_walk props [p] = (case map_of props p of None \<Rightarrow> False | Some f \<Rightarrow> sf_Type f = ''array'')"
| "field_walk props (p # ps) =
     (case map_of props p of None \<Rightarrow> False | Some f \<Rightarrow> sf_Type f = ''object'' \<and> field_walk (sf_Properties f) ps)"

definition foreachItemsResolveToArray :: "string \<Rightarrow> step_config list \<Rightarrow> bool" where
  "foreachItemsResolveToArray items steps =
     (case split_on CHR ''.'' items of
        root # stepID # out # path \<Rightarrow>
          if path = [] \<or> root \<noteq> ''steps'' \<or> out \<noteq> ''output'' then False
          else (case find (\<lambda>s. sid s = stepID) steps of
                  None \<Rightarrow> False
                | Some s \<Rightarrow> (case OutputSchema (flds s) of None \<Rightarrow> False | Some sch \<Rightarrow> field_walk (os_Properties sch) path))
      | _ \<Rightarrow> False)"

section \<open>Expressions\<close>

definition lint_one :: "(string \<Rightarrow> expr_error option) \<Rightarrow> string \<Rightarrow> string \<Rightarrow> string \<Rightarrow> verror list" where
  "lint_one lint sctx what e =
     (if e = [] then [] else case lint e of None \<Rightarrow> [] | Some err \<Rightarrow> [(sctx, BadExpression what e err)])"

definition lint_fields :: "(string \<Rightarrow> expr_error option) \<Rightarrow> string \<Rightarrow> step_fields \<Rightarrow> verror list" where
  "lint_fields lint sctx s =
     lint_one lint sctx ''condition'' (Condition s) @ lint_one lint sctx ''fail_when'' (FailWhen s)
     @ concat (map (\<lambda>(j, b). lint_one lint sctx (''branches['' @ itoa (int j) @ '']'') (sb_If b)) (enumerate 0 (Branches s)))"

lemma step_sizes:
  "InnerStep s = Some t \<Longrightarrow> size t < size s" "t \<in> set (SubSteps s) \<Longrightarrow> size t < size s" "t \<in> set (ParallelSteps s) \<Longrightarrow> size t < size s"
proof -
  have le: "t \<in> set ss \<Longrightarrow> size t \<le> size_list size ss" for ss :: "step_config list" by (rule size_list_estimation') auto
  show "InnerStep s = Some t \<Longrightarrow> size t < size s" by (cases s) auto
  show "t \<in> set (SubSteps s) \<Longrightarrow> size t < size s" "t \<in> set (ParallelSteps s) \<Longrightarrow> size t < size s"
    by (cases s; fastforce dest: le)+
qed

function lint_steps :: "(string \<Rightarrow> expr_error option) \<Rightarrow> string \<Rightarrow> step_config \<Rightarrow> verror list" where
  "lint_steps lint sctx s =
     lint_fields lint sctx (flds s)
     @ (case InnerStep s of None \<Rightarrow> [] | Some t \<Rightarrow> lint_steps lint (sctx @ '' (inner step)'') t)"
  by pat_completeness auto
termination
  by (relation "measure (\<lambda>(l, c, s). size s)") (auto dest: step_sizes)

definition lintStepExprs :: "hooks \<Rightarrow> string \<Rightarrow> step_config \<Rightarrow> verror list" where
  "lintStepExprs h sctx s = (case h_LintExpr h of None \<Rightarrow> [] | Some lint \<Rightarrow> lint_steps lint sctx s)"

section \<open>Steps by type\<close>

text \<open>A goto outcome: the target must be known and the retries bounded.\<close>

definition check_outcome :: "(string \<Rightarrow> bool) \<Rightarrow> string \<Rightarrow> string \<Rightarrow> step_outcome option \<Rightarrow> verror list" where
  "check_outcome stepIDs sctx what outcome =
     (case outcome of
        None \<Rightarrow> []
      | Some o1 \<Rightarrow>
          if so_Goto o1 = [] then []
          else fail_if (\<not> stepIDs (so_Goto o1)) (sctx, Unknown what (so_Goto o1))
            @ fail_if (so_MaxRetries o1 < 1) (sctx, Required (what @ ''.max_retries'')))"

definition SpawnAwait :: string where "SpawnAwait = ''await''"
definition MaterializeSubIssue :: string where "MaterializeSubIssue = ''sub_issue''"

definition validateAgentStep :: "string \<Rightarrow> step_config \<Rightarrow> (string \<Rightarrow> bool) \<Rightarrow> (string \<Rightarrow> bool) \<Rightarrow> verror list" where
  "validateAgentStep sctx s agentIDs stepIDs =
     (let f = flds s; w = MemoryWriteFields s in
      (if Agent f = [] then [(sctx, Required ''agent'')] else fail_if (\<not> agentIDs (Agent f)) (sctx, Unknown ''agent'' (Agent f)))
      @ (case OutputSchema f of None \<Rightarrow> [] | Some sch \<Rightarrow> validateOutputSchema sctx sch)
      @ fail_if (OnMissingOutput f \<notin> {[], OnMissingOutputWarn, OnMissingOutputFail, OnMissingOutputIgnore})
          (sctx, Invalid ''on_missing_output'' (OnMissingOutput f))
      @ (case OutputSchema f of None \<Rightarrow> []
         | Some sch \<Rightarrow> fail_if (PullRequestFrom f \<noteq> [] \<and> map_of (os_Properties sch) (PullRequestFrom f) = None)
             (sctx, Unknown ''pull_request_from'' (PullRequestFrom f)))
      @ fail_if (Spawn f \<notin> {[], ''auto'', SpawnAwait}) (sctx, Invalid ''spawn'' (Spawn f))
      @ fail_if (Materialize f \<notin> {[], MaterializeSubIssue}) (sctx, Invalid ''materialize'' (Materialize f))
      @ fail_if (Materialize f = MaterializeSubIssue \<and> Spawn f = SpawnAwait) (sctx, NotAllowed ''materialize with await'')
      @ (case Memory f of None \<Rightarrow> []
         | Some m \<Rightarrow> fail_if (mc_Memorize m \<notin> {[], ''auto'', ''off''}) (sctx, Invalid ''memory.memorize'' (mc_Memorize m))
             @ concat (map (\<lambda>tier. fail_if (tier \<notin> {''task'', ''global''}) (sctx, Invalid ''memory.recall'' tier)) (mc_Recall m)))
      @ (if w = [] then []
         else case OutputSchema f of None \<Rightarrow> [(sctx, Required ''output_schema'')]
         | Some sch \<Rightarrow> concat (map (\<lambda>field. fail_if (map_of (os_Properties sch) field = None) (sctx, Unknown ''memory.write'' field)) w))
      @ (case OnPass f of None \<Rightarrow> []
         | Some nxt \<Rightarrow> fail_if (nxt \<noteq> [] \<and> \<not> stepIDs nxt) (sctx, Unknown ''on_pass.next'' nxt))
      @ check_outcome stepIDs sctx ''on_fail'' (OnFail f))"

definition validateSplitStep :: "string \<Rightarrow> step_config \<Rightarrow> (string \<Rightarrow> bool) \<Rightarrow> verror list" where
  "validateSplitStep sctx s stepIDs =
     (let f = flds s; fallbacks = length (filter IsFallback (Branches f)) in
      fail_if (Agent f \<noteq> []) (sctx, NotAllowed ''split'')
      @ (if Branches f = [] then [(sctx, Required ''branch'')]
         else concat (map (\<lambda>(j, b). if sb_Goto b = [] then [(sctx, RequiredAt j ''goto'')]
                                  else fail_if (\<not> stepIDs (sb_Goto b)) (sctx, Unknown (''branches['' @ itoa (int j) @ '']'') (sb_Goto b))) (enumerate 0 (Branches f)))
           @ fail_if (\<not> Multi f \<and> fallbacks \<noteq> 1) (sctx, FallbackCount fallbacks)))"

definition bad_duration :: "duration_lib \<Rightarrow> bool \<Rightarrow> string \<Rightarrow> bool" where
  "bad_duration pd positive raw \<longleftrightarrow>
     raw \<noteq> [] \<and> (case pd raw of None \<Rightarrow> True | Some d \<Rightarrow> positive \<and> d \<le> 0)"

fun check_delegate_list :: "string \<Rightarrow> string \<Rightarrow> string list \<Rightarrow> (string \<rightharpoonup> string) \<Rightarrow> verror list \<times> (string \<rightharpoonup> string)" where
  "check_delegate_list sctx approver [] owner = ([], owner)"
| "check_delegate_list sctx approver (d # ds) owner =
     apfst ((@) (fail_if (owner d \<noteq> None \<and> owner d \<noteq> Some approver) (sctx, Duplicate d)))
       (check_delegate_list sctx approver ds (owner(d \<mapsto> approver)))"

fun check_delegates :: "string \<Rightarrow> string list \<Rightarrow> (string \<times> string list) list \<Rightarrow> (string \<rightharpoonup> string) \<Rightarrow> verror list" where
  "check_delegates sctx approvers [] owner = []"
| "check_delegates sctx approvers ((a, ds) # rest) owner =
     (let (errs, owner') = check_delegate_list sctx a ds owner in
      fail_if (a \<notin> set approvers) (sctx, Unknown ''delegate owner'' a) @ fail_if (ds = []) (sctx, Required ''delegates'') @ errs
      @ check_delegates sctx approvers rest owner')"

fun check_fields :: "string \<Rightarrow> approval_field list \<Rightarrow> string list \<Rightarrow> verror list" where
  "check_fields sctx [] seen = []"
| "check_fields sctx (f # fs) seen =
     (if af_Name f = [] then (sctx, Required ''field name'') # check_fields sctx fs seen
      else fail_if (af_Name f \<in> set seen) (sctx, Duplicate (af_Name f))
        @ fail_if (af_Type f \<notin> {[], ''string'', ''text'', ''boolean'', ''number'', ''choice''}) (sctx, Invalid (af_Name f) (af_Type f))
        @ fail_if (af_Type f = ''choice'' \<and> af_Options f = []) (sctx, Required ''options'')
        @ check_fields sctx fs (af_Name f # seen))"

definition validateApprovalStep :: "hooks \<Rightarrow> string \<Rightarrow> step_config \<Rightarrow> verror list" where
  "validateApprovalStep h sctx s =
     (let f = flds s; pd = h_duration h in
      fail_if (Agent f \<noteq> []) (sctx, NotAllowed ''approval'')
      @ fail_if (Message f = []) (sctx, Required ''message'')
      @ fail_if (bad_duration pd True (RemindAfter f)) (sctx, Invalid ''remind_after'' (RemindAfter f))
      @ fail_if (bad_duration pd True (EscalateAfter f)) (sctx, Invalid ''escalate_after'' (EscalateAfter f))
      @ fail_if (RequiredApprovals f < 0 \<or> RequiredApprovals f > 0 \<and> RequiredApprovals f > int (length (Approvers f))) (sctx, Invalid ''required_approvals'' (itoa (RequiredApprovals f)))
      @ check_delegates sctx (Approvers f) (Delegates f) Map.empty
      @ check_fields sctx (ApprovalFields f) []
      @ fail_if (bad_duration pd False (Timeout f)) (sctx, Invalid ''timeout'' (Timeout f)))"

definition validateForeachStep :: "string \<Rightarrow> step_config \<Rightarrow> step_config list \<Rightarrow> (string \<Rightarrow> bool) \<Rightarrow> verror list" where
  "validateForeachStep sctx s steps agentIDs =
     (let f = flds s in
      (if Items f = [] then [(sctx, Required ''items'')]
       else fail_if (\<not> foreachItemsResolveToArray (Items f) steps) (sctx, Invalid ''items'' (Items f)))
      @ fail_if (Concurrency f \<noteq> 0 \<and> (Concurrency f < 1 \<or> Concurrency f > 16)) (sctx, Invalid ''concurrency'' (itoa (Concurrency f)))
      @ fail_if (MaxItems f \<noteq> 0 \<and> (MaxItems f < 1 \<or> MaxItems f > 200)) (sctx, Invalid ''max_items'' (itoa (MaxItems f)))
      @ (case InnerStep s of
           None \<Rightarrow> [(sctx, Required ''inner step'')]
         | Some inner \<Rightarrow>
             let g = flds inner in
             fail_if (Type g \<noteq> [] \<and> Type g \<noteq> StepTypeAgent) (sctx, Invalid ''inner step type'' (Type g))
             @ (if Agent g = [] then [(sctx, Required ''agent'')] else fail_if (\<not> agentIDs (Agent g)) (sctx, Unknown ''agent'' (Agent g)))
             @ (case OutputSchema g of None \<Rightarrow> [] | Some sch \<Rightarrow> validateOutputSchema (sctx @ '' (inner step)'') sch)))"

definition validateParallelChildKind :: "string \<Rightarrow> step_config \<Rightarrow> verror list" where
  "validateParallelChildKind sctx child =
     (let cctx = sctx @ '': child '' @ go_quote (sid child) in
      fail_if (StepType child \<noteq> StepTypeAgent \<and> StepType child \<noteq> StepTypeWaitFor) (cctx, NotAllowed (StepType child))
      @ (if ParallelSteps child \<noteq> [] then [(cctx, NotAllowed ''parallel'')]
         else if ForEachExpr (flds child) \<noteq> [] then [(cctx, NotAllowed ''for_each'')]
         else fail_if (SubSteps child \<noteq> [] \<and> Type (flds child) = []) (cctx, NotAllowed ''steps'')))"

definition validateWorkflowStep ::
  "hooks \<Rightarrow> string \<Rightarrow> step_config \<Rightarrow> string \<Rightarrow> (string \<Rightarrow> workflow_def option) \<Rightarrow> verror list" where
  "validateWorkflowStep h sctx s parentID byID =
     (let f = flds s in
      fail_if (Agent f \<noteq> []) (sctx, NotAllowed ''workflow'')
      @ (if Uses f \<noteq> [] \<and> Workflow f = [] then [(sctx, Unknown ''uses'' (Uses f))]
         else if Workflow f = [] then [(sctx, Required ''workflow'')]
         else if Workflow f = parentID then [(sctx, NotAllowed ''own workflow'')]
         else (case byID (Workflow f) of
             None \<Rightarrow> [(sctx, Unknown ''workflow'' (Workflow f))]
           | Some child \<Rightarrow>
               fail_if (bad_duration (h_duration h) False (Timeout f)) (sctx, Invalid ''timeout'' (Timeout f))
               @ concat (map (\<lambda>(name, v).
                   case map_of (wc_Inputs child) name of
                     None \<Rightarrow> [(sctx, Unknown (wc_ID child) name)]
                   | Some inp \<Rightarrow> fail_if (\<not> isWorkflowExpression v \<and> \<not> WorkflowValueMatchesType v (win_Type inp))
                       (sctx, Mismatch name (win_Type inp))) (With f))
               @ concat (map (\<lambda>(name, inp).
                   fail_if (win_Required inp \<and> win_Default inp = GNil \<and> map_of (With f) name = None)
                     (sctx, Required name)) (wc_Inputs child)))))"

definition check_ci_source :: "hooks \<Rightarrow> (string \<times> string) list \<Rightarrow> string \<Rightarrow> wait_for_config \<Rightarrow> verror list" where
  "check_ci_source h sources sctx cfg =
     (if wf_CISource cfg = [] then []
      else if wf_Kind cfg \<noteq> [] \<and> wf_Kind cfg \<noteq> WaitKindCI then [(sctx, NotAllowed ''ci_source'')]
      else if sources = [] then []
      else let srcType = (case find (\<lambda>src. fst src = wf_CISource cfg) sources of None \<Rightarrow> [] | Some src \<Rightarrow> snd src) in
        if srcType = [] then [(sctx, Unknown ''ci_source'' (wf_CISource cfg))]
        else case h_Capabilities h of
          None \<Rightarrow> []
        | Some caps \<Rightarrow> fail_if (\<not> sc_PRCIWait (caps srcType)) (sctx, Unsupported (wf_CISource cfg) srcType))"

definition validateWaitForStep :: "hooks \<Rightarrow> (string \<times> string) list \<Rightarrow> string \<Rightarrow> step_config \<Rightarrow> verror list" where
  "validateWaitForStep h sources sctx s =
     fail_if (Agent (flds s) \<noteq> []) (sctx, NotAllowed ''wait_for'')
     @ (case WaitFor (flds s) of
          None \<Rightarrow> [(sctx, Required ''wait_for'')]
        | Some cfg \<Rightarrow>
            (if wf_Kind cfg = [] \<or> wf_Kind cfg = WaitKindCI then []
             else if wf_Kind cfg = WaitKindDependency
             then (case h_DependencyWait h of None \<Rightarrow> []
                   | Some supports \<Rightarrow> fail_if (sources \<noteq> [] \<and> \<not> list_ex (\<lambda>src. supports (snd src)) sources) (sctx, Unsupported ''dependency'' []))
             else [(sctx, Invalid ''kind'' (wf_Kind cfg))])
            @ check_ci_source h sources sctx cfg
            @ (if wf_Kind cfg = WaitKindDependency then []
               else fail_if (wf_SatisfiedWhen cfg \<noteq> []) (sctx, NotAllowed ''satisfied_when'')
                 @ fail_if (wf_BlockerLinkType cfg \<noteq> []) (sctx, NotAllowed ''blocker_link_type''))
            @ concat (map (\<lambda>cond. fail_if (cond \<noteq> BlockerSatisfiedMerged \<and> cond \<noteq> BlockerSatisfiedDone) (sctx, Invalid ''satisfied_when'' cond))
                (wf_SatisfiedWhen cfg))
            @ fail_if (wf_OnTimeout cfg \<noteq> [] \<and> wf_OnTimeout cfg \<noteq> OnTimeoutHold \<and> wf_OnTimeout cfg \<noteq> OnTimeoutFail)
                (sctx, Invalid ''on_timeout'' (wf_OnTimeout cfg))
            @ fail_if (bad_duration (h_duration h) False (wf_CheckInterval cfg)) (sctx, Invalid ''check_interval'' (wf_CheckInterval cfg))
            @ fail_if (bad_duration (h_duration h) False (wf_MaxDuration cfg)) (sctx, Invalid ''max_duration'' (wf_MaxDuration cfg)))"

definition check_join :: "hooks \<Rightarrow> string \<Rightarrow> string \<Rightarrow> verror list" where
  "check_join h sctx join =
     (if join = [] \<or> join = JoinAll \<or> join = JoinAny then []
      else let j = trim_space join in
        if \<not> is_wrapped j then [(sctx, Invalid ''join'' join)]
        else (case h_LintExpr h of None \<Rightarrow> [] | Some lint \<Rightarrow> (case lint j of None \<Rightarrow> [] | Some e \<Rightarrow> [(sctx, BadExpression ''join'' join e)])))"

text \<open>What \<open>validateParallelStep\<close> checks of the group itself; its children are validated as steps.\<close>

definition check_group :: "hooks \<Rightarrow> string \<Rightarrow> step_config \<Rightarrow> verror list" where
  "check_group h sctx s =
     fail_if (Agent (flds s) \<noteq> []) (sctx, NotAllowed ''parallel'')
     @ fail_if (SubSteps s = []) (sctx, Required ''child step'')
     @ check_join h sctx (Join (flds s))
     @ index_ids (\<lambda>j. (sctx, RequiredAt j ''id'')) (\<lambda>j i. (sctx, Duplicate i)) 0 (map sid (SubSteps s)) []"

text \<open>What \<open>validateStep\<close> checks of every type of step after the type's own validator.\<close>

definition check_common :: "hooks \<Rightarrow> string \<Rightarrow> step_config \<Rightarrow> (string \<Rightarrow> bool) \<Rightarrow> verror list" where
  "check_common h sctx s stepIDs =
     lintStepExprs h sctx s
     @ fail_if (PullRequestFrom (flds s) \<noteq> [] \<and> StepType s \<noteq> StepTypeAgent) (sctx, NotAllowed ''pull_request_from'')
     @ (case OnConflict (flds s) of None \<Rightarrow> []
        | Some o1 \<Rightarrow> fail_if (so_Goto o1 \<noteq> [] \<and> StepType s \<noteq> StepTypeWaitFor) (sctx, NotAllowed ''on_conflict''))
     @ check_outcome stepIDs sctx ''on_conflict'' (OnConflict (flds s))"

function validateStep ::
  "hooks \<Rightarrow> app_config \<Rightarrow> workflow_def \<Rightarrow> (string \<Rightarrow> workflow_def option) \<Rightarrow> string \<Rightarrow> (string \<Rightarrow> bool) \<Rightarrow> step_config \<Rightarrow> verror list" where
  "validateStep h c w byID ctx stepIDs s =
     (let sctx = ctx @ '': step '' @ go_quote (sid s) in
      (if StepType s = StepTypeAgent then validateAgentStep sctx s (agentIDSet c) stepIDs
       else if StepType s = StepTypeSplit then validateSplitStep sctx s stepIDs
       else if StepType s = StepTypeApproval then validateApprovalStep h sctx s
       else if StepType s = StepTypeForeach then validateForeachStep sctx s (wc_Steps w) (agentIDSet c)
       else if StepType s = StepTypeWorkflow then validateWorkflowStep h sctx s (wc_ID w) byID
       else if StepType s = StepTypeWaitFor then validateWaitForStep h (ac_Sources c) sctx s
       else if StepType s = StepTypeParallel then
         check_group h sctx s
         @ concat (map (\<lambda>child. validateParallelChildKind sctx child
             @ validateStep h c w byID sctx (id_set (map sid (SubSteps s))) child) (SubSteps s))
       else [(sctx, Invalid ''step type'' (Type (flds s)))])
      @ check_common h sctx s stepIDs)"
  by pat_completeness auto
termination
  by (relation "measure (\<lambda>(h, c, w, b, ctx, ids, s). size s)") (auto dest: step_sizes)

declare validateStep.simps [simp del] lint_steps.simps [simp del] validateSchemaField.simps [simp del]

section \<open>Triggers\<close>

definition TriggerOnPRComment :: string where "TriggerOnPRComment = ''pr_comment''"

definition TriggerEventKinds :: "string list" where
  "TriggerEventKinds = [TriggerOnPRComment, ''pr_review_approved'', ''pr_review_changes_requested'']"

definition validAuthorAssociations :: "string list" where
  "validAuthorAssociations = [''OWNER'', ''MEMBER'', ''COLLABORATOR'', ''CONTRIBUTOR'', ''FIRST_TIME_CONTRIBUTOR'', ''FIRST_TIMER'',
     ''MANNEQUIN'', ''NONE'']"

definition IsEventTrigger :: "trigger_config \<Rightarrow> bool" where
  "IsEventTrigger t \<longleftrightarrow> EventKind t \<noteq> TriggerOnItem"

definition upper_char :: "char \<Rightarrow> char" where
  "upper_char c = (let n = (of_char c :: nat) in if 97 \<le> n \<and> n \<le> 122 then char_of (n - 32) else c)"

definition item_trigger_errors :: "string \<Rightarrow> trigger_config \<Rightarrow> verror list" where
  "item_trigger_errors ctx t =
     fail_if (tc_CommentMatches t \<noteq> []) (ctx, NotAllowed ''comment_matches'')
     @ fail_if (tc_Authors t \<noteq> [] \<or> tc_AuthorsAssociation t \<noteq> []) (ctx, NotAllowed ''authors/authors_association'')
     @ fail_if (tc_IgnoreAuthors t \<noteq> []) (ctx, NotAllowed ''ignore_authors'')
     @ fail_if (tc_PRAuthors t \<noteq> []) (ctx, NotAllowed ''pr_authors'')
     @ fail_if (tc_MaxDispatches t \<noteq> 0) (ctx, NotAllowed ''max_dispatches'')"

definition events_supported :: "(string \<Rightarrow> bool) \<Rightarrow> (string \<times> string) list \<Rightarrow> string \<Rightarrow> bool" where
  "events_supported supports sources source \<longleftrightarrow>
     list_ex (\<lambda>(i, typ). (source = [] \<or> i = source) \<and> supports typ) sources"

definition validateTriggerEvents :: "hooks \<Rightarrow> app_config \<Rightarrow> string \<Rightarrow> trigger_config \<Rightarrow> verror list" where
  "validateTriggerEvents h c ctx t =
     (if EventKind t \<noteq> TriggerOnItem \<and> EventKind t \<notin> set TriggerEventKinds then [(ctx, Invalid ''trigger on'' (tc_On t))]
      else if \<not> IsEventTrigger t then item_trigger_errors ctx t
      else
        (if tc_CommentMatches t = [] then []
         else fail_if (EventKind t \<noteq> TriggerOnPRComment) (ctx, NotAllowed ''comment_matches'')
           @ (case h_regexp h (tc_CommentMatches t) of Inl e \<Rightarrow> [(ctx, Invalid ''comment_matches'' (tc_CommentMatches t))] | Inr _ \<Rightarrow> []))
        @ fail_if (tc_MaxDispatches t < 0) (ctx, Invalid ''max_dispatches'' (itoa (tc_MaxDispatches t)))
        @ fail_if (tc_Once t) (ctx, NotAllowed ''once'')
        @ concat (map (\<lambda>a. fail_if (map upper_char a \<notin> set validAuthorAssociations) (ctx, Invalid ''authors_association'' a)) (tc_AuthorsAssociation t))
        @ (case h_PREvents h of None \<Rightarrow> []
           | Some supports \<Rightarrow> fail_if (ac_Sources c \<noteq> [] \<and> \<not> events_supported supports (ac_Sources c) (rm_Source (tc_Match t)))
               (ctx, Unsupported (EventKind t) (rm_Source (tc_Match t)))))"

section \<open>Workflows\<close>

definition is_gate :: "step_config \<Rightarrow> bool" where
  "is_gate s \<longleftrightarrow> StepType s = StepTypeApproval \<and> Approvers (flds s) \<noteq> []"

definition guarded :: "step_config list \<Rightarrow> nat \<Rightarrow> bool" where
  "guarded steps i \<longleftrightarrow>
     i > 0 \<and> is_gate (steps ! (i - 1))
     \<or> list_ex (\<lambda>dep. list_ex (\<lambda>cand. sid cand = dep \<and> is_gate cand) steps)
         (DependsOn (flds (steps ! i)) @ SeqDependsOn (flds (steps ! i)))"

definition check_action_class :: "string list \<Rightarrow> string \<Rightarrow> step_config list \<Rightarrow> nat \<Rightarrow> verror list" where
  "check_action_class required ctx steps i =
     (let s = steps ! i; cls = ActionClass (flds s) in
      if cls = [] then []
      else fail_if (cls \<notin> {''push'', ''deploy'', ''destructive'', ''external_publication''}) (ctx, Invalid ''action_class'' cls)
        @ fail_if (cls \<in> set required \<and> \<not> guarded steps i) (ctx, ApprovalRequired (sid s) cls))"

definition wf_ctx :: "nat \<Rightarrow> string \<Rightarrow> string" where
  "wf_ctx i wid = ''workflows['' @ itoa (int i) @ ''] '' @ go_quote wid"

definition validateWorkflow :: "hooks \<Rightarrow> app_config \<Rightarrow> nat \<Rightarrow> workflow_def \<Rightarrow> verror list" where
  "validateWorkflow h c idx w =
     (let ctx = wf_ctx idx (wc_ID w); steps = wc_Steps w; ids = map sid steps; stepIDs = id_set ids in
      validateWorkflowContract ctx w
      @ fail_if (wc_Resume w \<notin> {[], ''allowed'', ''forbidden'', ''auto''}) (ctx, Invalid ''resume'' (wc_Resume w))
      @ fail_if (wc_ResultComment w \<notin> {[], ''on_complete'', ''per_step'', ''off'', ''on_fail'', ''always''})
          (ctx, Invalid ''result_comment'' (wc_ResultComment w))
      @ (case wc_Trigger w of None \<Rightarrow> []
         | Some t \<Rightarrow>
             fail_if (rm_Source (tc_Match t) \<noteq> [] \<and> \<not> sourceIDSet c (rm_Source (tc_Match t))) (ctx, Unknown ''trigger source'' (rm_Source (tc_Match t)))
             @ validateTriggerEvents h c ctx t)
      @ (if steps = [] then [(ctx, Required ''step'')]
         else
           index_ids (\<lambda>i. (ctx, RequiredAt i ''id'')) (\<lambda>i x. (ctx, Duplicate x)) 0 ids []
           @ concat (map (validateStep h c w (wf_by_id (ac_Workflows c)) ctx stepIDs) steps)
           @ concat (map (check_action_class (ac_RequireFor c) ctx steps) [0..<length steps])
           @ map (\<lambda>e. (ctx, Graph e)) (validateStepGraph steps stepIDs)
           @ (if wc_Resume w = ''auto''
              then concat (map (\<lambda>s. fail_if (StepType s = StepTypeAgent \<and> \<not> Idempotent (flds s)) (ctx, NotIdempotent (sid s))) steps)
              else [])))"

definition validateWorkflows :: "hooks \<Rightarrow> app_config \<Rightarrow> verror list" where
  "validateWorkflows h c =
     (if ac_Workflows c = [] then []
      else
        index_ids (\<lambda>i. ([], RequiredAt i ''id'')) (\<lambda>i x. ([], Duplicate x)) 0 (map wc_ID (ac_Workflows c)) []
        @ concat (map (\<lambda>(i, w). validateWorkflow h c i w) (enumerate 0 (ac_Workflows c)))
        @ validateWorkflowReferenceCycles (ac_Workflows c))"

section \<open>Advisories\<close>

function flatten_step :: "step_config \<Rightarrow> step_config list" where
  "flatten_step s =
     s # concat (map flatten_step (SubSteps s)) @ (case InnerStep s of None \<Rightarrow> [] | Some t \<Rightarrow> flatten_step t)"
  by pat_completeness auto
termination
  by (relation "measure size") (auto dest: step_sizes)

declare flatten_step.simps [simp del]

definition flattenSteps :: "step_config list \<Rightarrow> step_config list" where
  "flattenSteps steps = concat (map flatten_step steps)"

datatype warning = NeverRuns string | ParksForever string string

definition parks_forever :: "step_config \<Rightarrow> bool" where
  "parks_forever s \<longleftrightarrow> IsOperatorGate s \<and> Timeout (flds s) = []
     \<and> (case AbortOn (flds s) of None \<Rightarrow> True | Some t \<Rightarrow> Trigger_IsEmpty t)"

definition WorkflowWarnings :: "app_config \<Rightarrow> warning list" where
  "WorkflowWarnings c =
     (let referenced = concat (map (\<lambda>w. map (\<lambda>s. Workflow (flds s))
            (filter (\<lambda>s. StepType s = StepTypeWorkflow \<and> Workflow (flds s) \<noteq> []) (wc_Steps w))) (ac_Workflows c)) in
      concat (map (\<lambda>w. if wc_ID w = [] then []
          else fail_if (wc_Trigger w = None \<and> wc_ID w \<notin> set referenced) (NeverRuns (wc_ID w))
            @ map (\<lambda>s. ParksForever (wc_ID w) (sid s)) (filter parks_forever (flattenSteps (wc_Steps w)))) (ac_Workflows c)))"

section \<open>Source capabilities\<close>

type_synonym cap_need = "string \<times> (source_caps \<Rightarrow> bool)"

definition hook_needs :: "string \<Rightarrow> on_complete option \<Rightarrow> cap_need list" where
  "hook_needs scope hook =
     (case hook of None \<Rightarrow> []
      | Some o1 \<Rightarrow> fail_if (oc_SetState o1 \<noteq> []) (scope @ ''.set_state'', sc_SetState)
          @ fail_if (oc_AddLabels o1 \<noteq> [] \<or> oc_AssignFromOutput o1) (scope @ '' label writes (add_labels/assign_from_output)'', sc_AddLabels)
          @ fail_if (oc_RemoveLabels o1 \<noteq> []) (scope @ ''.remove_labels'', sc_RemoveLabels))"

definition step_needs :: "step_config \<Rightarrow> cap_need list" where
  "step_needs s =
     (let sctx = ''step '' @ go_quote (sid s) in
      (if StepType s = StepTypeApproval then fail_if (\<not> IsOperatorGate s) (sctx @ '' (approval)'', sc_Approvals)
       else if StepType s = StepTypeWaitFor then
         (case WaitFor (flds s) of None \<Rightarrow> []
          | Some cfg \<Rightarrow> fail_if ((wf_Kind cfg = [] \<or> wf_Kind cfg = WaitKindCI) \<and> wf_CISource cfg = []) (sctx @ '' (wait_for ci)'', sc_CIWait))
       else [])
      @ fail_if (Materialize (flds s) = MaterializeSubIssue) (sctx @ '' (materialize: sub_issue)'', sc_SubIssues))"

definition workflowCapNeeds :: "workflow_def \<Rightarrow> cap_need list" where
  "workflowCapNeeds w =
     hook_needs ''on_complete'' (wc_OnComplete w) @ hook_needs ''on_fail'' (wc_OnFail w)
     @ concat (map step_needs (flattenSteps (wc_Steps w)))"

text \<open>The last source of an id gives its type.\<close>

definition check_need :: "(string \<Rightarrow> source_caps) \<Rightarrow> (string \<times> string) list \<Rightarrow> string \<Rightarrow> string \<Rightarrow> cap_need \<Rightarrow> verror list" where
  "check_need caps sources wctx pinned need =
     (if pinned \<noteq> []
      then (case map_of (rev sources) pinned of None \<Rightarrow> []
            | Some srcType \<Rightarrow> fail_if (\<not> snd need (caps srcType)) (wctx, Unsupported (fst need) srcType))
      else fail_if (\<not> list_ex (\<lambda>src. snd need (caps (snd src))) sources) (wctx, Unsupported (fst need) []))"

definition validateSourceCapabilities :: "hooks \<Rightarrow> app_config \<Rightarrow> verror list" where
  "validateSourceCapabilities h c =
     (case h_Capabilities h of None \<Rightarrow> []
      | Some caps \<Rightarrow>
          if ac_Sources c = [] then []
          else concat (map (\<lambda>(i, w).
            concat (map (check_need caps (ac_Sources c) (wf_ctx i (wc_ID w))
                (case wc_Trigger w of None \<Rightarrow> [] | Some t \<Rightarrow> rm_Source (tc_Match t))) (workflowCapNeeds w)))
            (enumerate 0 (ac_Workflows c))))"

section \<open>Authored workflows\<close>

function hasV1 :: "step_config \<Rightarrow> bool" where
  "hasV1 s \<longleftrightarrow> DependsOn (flds s) \<noteq> [] \<or> Branches (flds s) \<noteq> [] \<or> list_ex hasV1 (SubSteps s) \<or> list_ex hasV1 (ParallelSteps s)"
  by pat_completeness auto
termination
  by (relation "measure size") (auto dest: step_sizes)

definition hasV1Primitives :: "step_config list \<Rightarrow> bool" where
  "hasV1Primitives steps \<longleftrightarrow> list_ex hasV1 steps"

text \<open>The checks of one step, given the ids of the earlier steps of its list.\<close>

definition v2_step_errors :: "string \<Rightarrow> string list \<Rightarrow> step_config \<Rightarrow> verror list" where
  "v2_step_errors stepCtx seen s =
     (let f = flds s in
      fail_if (RejectWhen f \<noteq> [] \<and> OnReject f = None) (stepCtx, Required ''on_reject'')
      @ (case OnReject f of None \<Rightarrow> []
         | Some r \<Rightarrow> if or_RestartFrom r = [] then []
             else fail_if (or_RestartFrom r \<notin> set seen) (stepCtx, Unknown ''restart_from'' (or_RestartFrom r))
               @ fail_if (or_Max r < 1) (stepCtx, Invalid ''on_reject.max'' (itoa (or_Max r))))
      @ fail_if (SubSteps s \<noteq> [] \<and> ForEachExpr f = [] \<and> Type f = []
                 \<and> (RejectWhen f \<noteq> [] \<or> OnReject f \<noteq> None \<or> FailWhen f \<noteq> [] \<or> OnFail f \<noteq> None)) (stepCtx, NotAllowed ''gate on a group''))"

function validateV2Steps :: "string \<Rightarrow> step_config list \<Rightarrow> string list \<Rightarrow> verror list" where
  "validateV2Steps ctx [] seen = []"
| "validateV2Steps ctx (s # ss) seen =
     (let stepCtx = ctx @ '': step '' @ go_quote (sid s) in
      v2_step_errors stepCtx seen s
      @ (if SubSteps s = [] then [] else validateV2Steps stepCtx (SubSteps s) [])
      @ (if ParallelSteps s = [] then [] else validateV2Steps (stepCtx @ '' (parallel)'') (ParallelSteps s) [])
      @ (if ForEachExpr (flds s) = [] \<or> SubSteps s = [] then [] else validateV2Steps (stepCtx @ '' (for_each body)'') (SubSteps s) [])
      @ validateV2Steps ctx ss (seen @ [sid s]))"
  by pat_completeness auto
termination
proof (relation "measure (\<lambda>(c, ss, seen). size_list size ss)", goal_cases)
  case (2 ctx s ss seen x)
  then show ?case by (cases s) simp
next
  case (3 ctx s ss seen x)
  then show ?case by (cases s) simp
next
  case (4 ctx s ss seen x)
  then show ?case by (cases s) simp
qed simp_all

declare validateV2Steps.simps [simp del] hasV1.simps [simp del]

definition validateV2Workflow :: "string \<Rightarrow> step_config list \<Rightarrow> verror list" where
  "validateV2Workflow ctx steps =
     (if \<not> anyV2Steps steps then [] else fail_if (hasV1Primitives steps) (ctx, NotAllowed ''mixed authoring'') @ validateV2Steps ctx steps [])"

definition validateV2Workflows :: "app_config \<Rightarrow> verror list" where
  "validateV2Workflows c =
     concat (map (\<lambda>(i, w). validateV2Workflow (wf_ctx i (wc_ID w)) (wc_Steps w)) (enumerate 0 (ac_Workflows c)))"

text \<open>\<open>LowerV2WorkflowInConfig\<close> replaces the steps of each workflow in place and stops at the first error.\<close>

fun lower_workflows :: "workflow_def list \<Rightarrow> bool \<times> workflow_def list" where
  "lower_workflows [] = (True, [])"
| "lower_workflows (w # ws) =
     (case LowerV2Workflow (workflow_config.truncate w) of
        Inl e \<Rightarrow> (False, w # ws)
      | Inr w' \<Rightarrow> apsnd (Cons (w\<lparr>wc_Steps := wc_Steps w'\<rparr>)) (lower_workflows ws))"

definition LowerV2WorkflowInConfig :: "app_config \<Rightarrow> bool \<times> app_config" where
  "LowerV2WorkflowInConfig c = (let (ok, ws) = lower_workflows (ac_Workflows c) in (ok, c\<lparr>ac_Workflows := ws\<rparr>))"

text \<open>The workflow part of \<open>Config.Validate\<close>: the errors and the configuration it leaves behind.\<close>

definition validate_workflow_part :: "hooks \<Rightarrow> app_config \<Rightarrow> verror list \<times> app_config" where
  "validate_workflow_part h c =
     (let (ok, c') = LowerV2WorkflowInConfig c in
      (validateV2Workflows c @ fail_if (\<not> ok) ([], LoweringFailed) @ validateWorkflows h c' @ validateSourceCapabilities h c', c'))"

end
