(* ===== verification/Validate_Properties.thy ===== *)
theory Validate_Properties
  imports Validate
begin

text \<open>
  What validation establishes for the scheduler: a configuration without errors has well-formed graphs, so that every run
  of every workflow in it ends, its splits choose a branch, and its sub-workflows nest to a bounded depth.
\<close>

section \<open>What an accepted workflow satisfies\<close>

lemma in_enumerate: "x \<in> set xs \<Longrightarrow> \<exists>j. (j, x) \<in> set (enumerate 0 xs)"
proof -
  assume "x \<in> set xs"
  then obtain j where "j < length xs" "xs ! j = x" by (auto simp: in_set_conv_nth)
  then have "(j, x) \<in> set (enumerate 0 xs)" by (simp add: in_set_enumerate_eq)
  then show ?thesis ..
qed

lemma accepted_workflow:
  assumes "fst (validate_workflow_part h c) = []" "w \<in> set (ac_Workflows (snd (validate_workflow_part h c)))"
  shows "\<exists>i. validateWorkflow h (snd (validate_workflow_part h c)) i w = []"
proof -
  let ?c = "snd (validate_workflow_part h c)"
  have "validateWorkflows h ?c = []"
    using assms(1) by (auto simp: validate_workflow_part_def Let_def split: prod.splits)
  moreover from in_enumerate [OF assms(2)] obtain i where "(i, w) \<in> set (enumerate 0 (ac_Workflows ?c))" ..
  ultimately show ?thesis using assms(2) by (fastforce simp: validateWorkflows_def split: if_splits)
qed

lemma accepted_steps:
  assumes "validateWorkflow h c i w = []"
  shows "wc_Steps w \<noteq> []" "distinct (map sid (wc_Steps w))" "[] \<notin> set (map sid (wc_Steps w))"
    "\<And>s. s \<in> set (wc_Steps w) \<Longrightarrow>
       validateStep h c w (wf_by_id (ac_Workflows c)) (wf_ctx i (wc_ID w)) (id_set (map sid (wc_Steps w))) s = []"
    "validateStepGraph (wc_Steps w) (id_set (map sid (wc_Steps w))) = []"
  using assms by (auto simp: validateWorkflow_def Let_def index_ids_Nil split: if_splits)

lemma accepted_split:
  assumes "validateStep h c w byID ctx ids s = []" "StepType s = StepTypeSplit"
  shows "Branches (flds s) \<noteq> []" "\<And>b. b \<in> set (Branches (flds s)) \<Longrightarrow> sb_Goto b \<noteq> [] \<and> ids (sb_Goto b)"
    "\<not> Multi (flds s) \<Longrightarrow> length (filter IsFallback (Branches (flds s))) = 1"
    "\<And>lint b. h_LintExpr h = Some lint \<Longrightarrow> b \<in> set (Branches (flds s)) \<Longrightarrow> sb_If b \<noteq> [] \<Longrightarrow> lint (sb_If b) = None"
proof -
  have v: "validateSplitStep (ctx @ '': step '' @ go_quote (sid s)) s ids = []"
    and l: "lintStepExprs h (ctx @ '': step '' @ go_quote (sid s)) s = []"
    using assms by (auto simp: validateStep.simps [of h c w byID ctx ids s] Let_def check_common_def step_types)
  show "Branches (flds s) \<noteq> []" "\<not> Multi (flds s) \<Longrightarrow> length (filter IsFallback (Branches (flds s))) = 1"
    using v by (auto simp: validateSplitStep_def Let_def split: if_splits)
  show "sb_Goto b \<noteq> [] \<and> ids (sb_Goto b)" if "b \<in> set (Branches (flds s))" for b
  proof -
    from in_enumerate [OF that] obtain j where "(j, b) \<in> set (enumerate 0 (Branches (flds s)))" ..
    with v show ?thesis by (fastforce simp: validateSplitStep_def Let_def split: if_splits)
  qed
  show "lint (sb_If b) = None" if "h_LintExpr h = Some lint" "b \<in> set (Branches (flds s))" "sb_If b \<noteq> []" for lint b
  proof -
    from in_enumerate [OF that(2)] obtain j where "(j, b) \<in> set (enumerate 0 (Branches (flds s)))" ..
    with l that show ?thesis
      by (fastforce simp: lintStepExprs_def lint_steps.simps [of lint _ s] lint_fields_def lint_one_def split: if_splits option.splits)
  qed
qed

lemma accepted_targets_known:
  assumes "validateWorkflow h c i w = []"
  shows "targets_known (workflow_config.truncate w)"
proof -
  have "sb_Goto b \<in> sid ` set (wc_Steps w)"
    if "s \<in> set (wc_Steps w)" "StepType s = StepTypeSplit" "b \<in> set (Branches (flds s))" for s b
    using accepted_split(2) [OF accepted_steps(4) [OF assms that(1)] that(2,3)] by (auto simp: id_set_def)
  then show ?thesis by (simp add: targets_known_def workflow_config.truncate_def)
qed

section \<open>Splits\<close>

lemma choose_branches_members:
  "choose_branches lib ctx multi bs acc = Inr chosen \<Longrightarrow> set chosen \<subseteq> set acc \<union> sb_Goto ` set bs"
  by (induction bs arbitrary: acc) (fastforce simp: Let_def split: sum.splits bool.splits if_splits)+

lemma choose_branches_single:
  "choose_branches lib ctx False bs [] = Inr chosen \<Longrightarrow> list_ex IsFallback bs \<Longrightarrow> length chosen = 1"
  by (induction bs) (auto simp: Let_def split: sum.splits bool.splits if_splits)

lemma choose_branches_error:
  "choose_branches lib ctx multi bs acc = Inl e \<Longrightarrow>
     \<exists>b\<in>set bs. \<not> IsFallback b \<and> (\<exists>err. bind_res (ParseExpr (sb_If b)) (\<lambda>e. Eval (lib_re lib) e ctx) = Inl err)"
  by (induction bs arbitrary: acc) (auto simp: Let_def split: sum.splits bool.splits if_splits)

section \<open>Nesting\<close>

lemma relpow_acyclic_path:
  assumes "(a, b) \<in> R ^^ k" "acyclic R"
  shows "\<exists>ps. length ps = Suc k \<and> distinct ps \<and> hd ps = a \<and> (\<forall>p\<in>set ps. (a, p) \<in> R\<^sup>* \<and> (p, b) \<in> R\<^sup>*)"
  using assms(1)
proof (induction k arbitrary: a)
  case 0
  then show ?case by (intro exI [of _ "[a]"]) simp
next
  case (Suc k)
  then obtain a' where a': "(a, a') \<in> R" "(a', b) \<in> R ^^ k" by (meson relpow_Suc_D2)
  from Suc.IH [OF a'(2)] obtain ps where ps: "length ps = Suc k" "distinct ps" "hd ps = a'"
      "\<forall>p\<in>set ps. (a', p) \<in> R\<^sup>* \<and> (p, b) \<in> R\<^sup>*" by blast
  have "a \<notin> set ps"
  proof
    assume "a \<in> set ps"
    then have "(a, a) \<in> R\<^sup>+" using ps(4) a'(1) by (meson rtrancl_into_trancl2)
    with assms(2) show False by (simp add: acyclic_def)
  qed
  moreover have "(a, b) \<in> R\<^sup>*" using a' by (meson converse_rtrancl_into_rtrancl relpow_imp_rtrancl)
  ultimately show ?case using ps a'(1) by (intro exI [of _ "a # ps"]) (auto intro: converse_rtrancl_into_rtrancl)
qed

lemma nesting_bound:
  assumes "acyclic (refers ws)" "(a, b) \<in> refers ws ^^ k" "ws \<noteq> []"
  shows "k < length ws"
proof (cases k)
  case (Suc m)
  from relpow_acyclic_path [OF assms(2,1)] obtain ps where ps: "length ps = Suc k" "distinct ps" "hd ps = a"
      "\<forall>p\<in>set ps. (a, p) \<in> (refers ws)\<^sup>* \<and> (p, b) \<in> (refers ws)\<^sup>*" by blast
  have known: "x \<in> set (ref_ids ws)" "y \<in> set (ref_ids ws)" if "(x, y) \<in> refers ws" for x y
    using that wf_by_id_dom by (auto simp: refers_def)
  from assms(2) Suc obtain a' where "(a, a') \<in> refers ws" by (meson relpow_Suc_D2)
  then have "p \<in> set (ref_ids ws)" if "p \<in> set ps" for p
    using ps(4) that known by (metis rtranclE)
  then have "card (set ps) \<le> card (set (ref_ids ws))" by (intro card_mono) auto
  also have "\<dots> \<le> length (ref_ids ws)" by (rule card_length)
  also have "\<dots> \<le> length (filter (\<lambda>i. i \<noteq> []) (map wc_ID ws))" unfolding ref_ids_def length_sort by (rule length_remdups_leq)
  also have "\<dots> \<le> length (map wc_ID ws)" by (rule length_filter_le)
  finally show ?thesis using ps(1,2) by (simp add: distinct_card)
qed (use assms(3) in simp)

section \<open>A concrete configuration\<close>

text \<open>
  A deployment that a split reaches either through an approval or directly, in a configuration that requires an
  approval before a deployment; and a workflow that runs it.
\<close>

definition ex_hooks :: hooks where
  "ex_hooks = \<lparr>h_LintExpr = Some LintExpr, h_Capabilities = None, h_DependencyWait = None, h_PREvents = None,
     h_regexp = (\<lambda>_. Inl []), h_duration = (\<lambda>_. None)\<rparr>"

definition ex_def :: "string \<Rightarrow> step_config list \<Rightarrow> workflow_def" where
  "ex_def i steps = \<lparr>wc_ID = i, wc_Steps = steps, wc_Inputs = [], wc_Outputs = [], wc_Resume = [], wc_ResultComment = [],
     wc_Trigger = None, wc_OnComplete = None, wc_OnFail = None\<rparr>"

definition ex_split :: step_config where
  "ex_split = Step (zero_fields\<lparr>ID := ''pick'', Type := ''split'', Branches :=
     [\<lparr>sb_If = ''memory.risk == 1'', sb_Else = False, sb_Goto = ''approve''\<rparr>, \<lparr>sb_If = [], sb_Else = True, sb_Goto = ''deploy''\<rparr>]\<rparr>) [] [] None"

definition ex_deploy :: workflow_def where
  "ex_deploy = ex_def ''w''
     [ex_split,
      Step (zero_fields\<lparr>ID := ''approve'', Type := ''approval'', Message := ''deploy?'', Approvers := [''ann'']\<rparr>) [] [] None,
      Step (zero_fields\<lparr>ID := ''deploy'', Agent := ''ops'', ActionClass := ''deploy''\<rparr>) [] [] None]"

definition ex_outer :: workflow_def where
  "ex_outer = ex_def ''v'' [Step (zero_fields\<lparr>ID := ''sub'', Type := ''workflow'', Workflow := ''w''\<rparr>) [] [] None]"

definition ex_config :: app_config where
  "ex_config = \<lparr>ac_Workflows = [ex_deploy, ex_outer], ac_Agents = [''ops''], ac_Sources = [], ac_RequireFor = [''deploy'']\<rparr>"

definition ex_lowered :: workflow_def where
  "ex_lowered = hd (ac_Workflows (snd (validate_workflow_part ex_hooks ex_config)))"

lemma ex_config_accepted: "fst (validate_workflow_part ex_hooks ex_config) = []"
  by code_simp

lemma ex_lowered_in: "ex_lowered \<in> set (ac_Workflows (snd (validate_workflow_part ex_hooks ex_config)))"
proof -
  have "ac_Workflows (snd (validate_workflow_part ex_hooks ex_config)) \<noteq> []" by code_simp
  then show ?thesis unfolding ex_lowered_def by (rule hd_in_set)
qed

section \<open>Properties\<close>

text \<open>
  C21. A configuration that validates is safe to run: lowering and validation make the graph of every workflow
  well formed, so that a fresh run of it satisfies the scheduler's invariant and the scheduler loop returns an outcome within the
  bound of the graph, whatever the workers, the operator and the clock do.
\<close>

theorem accepted_runs_end:
  assumes "fst (validate_workflow_part h c) = []" "w \<in> set (ac_Workflows (snd (validate_workflow_part h c)))"
    and "r = initDAG instID (workflow_config.truncate w) taskID cell seed" and "loop_bound r \<le> length inps"
  shows "sched_inv limit (start r d) \<and> (\<exists>out r' d'. driveDAG lib configured inps r d = Some (out, r', d'))"
proof -
  from accepted_workflow [OF assms(1,2)] obtain i where i: "validateWorkflow h (snd (validate_workflow_part h c)) i w = []" ..
  have "distinct (map sid (wc_Steps (workflow_config.truncate w)))"
    using accepted_steps(2) [OF i] by (simp add: workflow_config.truncate_def)
  note ok = initDAG_ok [OF this accepted_targets_known [OF i], of instID taskID cell seed, folded assms(3)]
  show ?thesis using start_inv [OF ok] driveDAG_ends [OF ok assms(4)] by auto
qed

theorem accepted_runs_end_witness:
  "\<exists>out r' d'. driveDAG ex_lib 2 (replicate 40 (ex_input True)) (initDAG ''i'' (workflow_config.truncate ex_lowered) ''t'' empty_item []) empty_db
     = Some (out, r', d')"
proof -
  have "loop_bound (initDAG ''i'' (workflow_config.truncate ex_lowered) ''t'' empty_item []) \<le> length (replicate 40 (ex_input True))" by code_simp
  from accepted_runs_end [OF ex_config_accepted ex_lowered_in refl this] show ?thesis by blast
qed

text \<open>
  In a configuration that validates with the expression linter wired, a split whose conditions are not in
  the expression wrapper always decides at run time: it activates only steps of the workflow, exactly one unless it is declared multi,
  and it can fail only when a condition that parses cannot be evaluated.
\<close>

theorem accepted_split_decides:
  assumes "fst (validate_workflow_part h c) = []" "w \<in> set (ac_Workflows (snd (validate_workflow_part h c)))" "h_LintExpr h = Some LintExpr"
    and "s \<in> set (wc_Steps w)" "StepType s = StepTypeSplit" "\<forall>b\<in>set (Branches (flds s)). stripExprDelimiters (sb_If b) = sb_If b"
  shows "(\<exists>chosen. choose_branches lib ctx (Multi (flds s)) (Branches (flds s)) [] = Inr chosen
            \<and> set chosen \<subseteq> sid ` set (wc_Steps w) \<and> (Multi (flds s) \<or> length chosen = 1))
       \<or> (\<exists>b e err. b \<in> set (Branches (flds s)) \<and> ParseExpr (sb_If b) = Inr e \<and> Eval (lib_re lib) e ctx = Inl err)"
proof -
  from accepted_workflow [OF assms(1,2)] obtain i where i: "validateWorkflow h (snd (validate_workflow_part h c)) i w = []" ..
  note sp = accepted_split [OF accepted_steps(4) [OF i assms(4)] assms(5)]
  show ?thesis
  proof (cases "choose_branches lib ctx (Multi (flds s)) (Branches (flds s)) []")
    case (Inr chosen)
    have "set chosen \<subseteq> sid ` set (wc_Steps w)" using choose_branches_members [OF Inr] sp(2) by (fastforce simp: id_set_def)
    moreover have "length chosen = 1" if m: "\<not> Multi (flds s)"
    proof -
      have "filter IsFallback (Branches (flds s)) \<noteq> []" using sp(3) [OF m] by auto
      then have "list_ex IsFallback (Branches (flds s))" by (auto simp: list_ex_iff filter_empty_conv)
      with Inr m show ?thesis using choose_branches_single [of lib ctx "Branches (flds s)" chosen] by simp
    qed
    ultimately show ?thesis using Inr by blast
  next
    case (Inl e)
    from choose_branches_error [OF Inl] obtain b err where b: "b \<in> set (Branches (flds s))" "\<not> IsFallback b"
        "bind_res (ParseExpr (sb_If b)) (\<lambda>e. Eval (lib_re lib) e ctx) = Inl err" by blast
    then have "LintExpr (sb_If b) = None" using sp(4) [OF assms(3)] by (simp add: IsFallback_def)
    with assms(6) b(1) obtain p where "ParseExpr (sb_If b) = Inr p" by (auto simp: LintExpr_def split: sum.splits)
    with b show ?thesis by (auto simp: bind_res_def)
  qed
qed

theorem accepted_split_decides_witness:
  "\<exists>chosen. choose_branches ex_lib (eval_ctx ex_lib (ex_start (workflow_config.truncate ex_lowered))) False (Branches (flds ex_split)) [] = Inr chosen
     \<and> length chosen = 1"
proof -
  have s: "ex_split \<in> set (wc_Steps ex_lowered)" "StepType ex_split = StepTypeSplit" "Multi (flds ex_split) = False"
    "\<forall>b\<in>set (Branches (flds ex_split)). stripExprDelimiters (sb_If b) = sb_If b"
    by code_simp+
  have l: "h_LintExpr ex_hooks = Some LintExpr" by (simp add: ex_hooks_def)
  have "list_all (\<lambda>b. case ParseExpr (sb_If b) of Inl _ \<Rightarrow> True
      | Inr e \<Rightarrow> \<not> isl (Eval (lib_re ex_lib) e (eval_ctx ex_lib (ex_start (workflow_config.truncate ex_lowered))))) (Branches (flds ex_split))"
    by code_simp
  then have "\<not> (\<exists>b e err. b \<in> set (Branches (flds ex_split)) \<and> ParseExpr (sb_If b) = Inr e
      \<and> Eval (lib_re ex_lib) e (eval_ctx ex_lib (ex_start (workflow_config.truncate ex_lowered))) = Inl err)"
    by (force simp: list_all_iff)
  with accepted_split_decides [OF ex_config_accepted ex_lowered_in l s(1,2,4)] s(3) show ?thesis by metis
qed

text \<open>
  The search for cyclic references is exact, and without an error the sub-workflows of a configuration nest to
  a depth below the number of its workflows, so the engine's recursion through them ends.
\<close>

theorem nesting_bounded:
  assumes "ws \<noteq> []"
  shows "(validateWorkflowReferenceCycles ws = [] \<longleftrightarrow> acyclic (refers ws))
    \<and> (validateWorkflowReferenceCycles ws = [] \<longrightarrow> (\<forall>a b k. (a, b) \<in> refers ws ^^ k \<longrightarrow> k < length ws))"
  using reference_errors nesting_bound [OF _ _ assms] by blast

theorem nesting_bounded_witness:
  "validateWorkflowReferenceCycles (ac_Workflows ex_config) = [] \<and> refers (ac_Workflows ex_config) ^^ 2 = {}"
proof -
  have ok: "validateWorkflowReferenceCycles (ac_Workflows ex_config) = []" "ac_Workflows ex_config \<noteq> []" "length (ac_Workflows ex_config) = 2"
    by code_simp+
  from nesting_bounded [OF ok(2)] ok(1,3) have "(a, b) \<notin> refers (ac_Workflows ex_config) ^^ 2" for a b by fastforce
  with ok(1) show ?thesis by auto
qed


end
