(* ===== verification/Subworkflow.thy ===== *)
theory Subworkflow
  imports Validate_Properties Lifecycle
begin

text \<open>
  Sub-workflow steps (\<open>internal/workflow/subworkflow.go\<close>): resolving the inputs of the child against the parent's data, rendering
  them into the child's steps, running the child instance and resolving its typed outputs. The scheduler of the child is the
  parent's, on a run of its own. The step run of the calling step only repeats its result and is left out. A Go map is an association list, and a loop over a map runs in list order; the program may take any
  order.
\<close>

section \<open>Data\<close>

record source_binding =
  bd_ID :: string
  bd_TaskID :: string
  bd_SourceID :: string
  bd_SourceItemID :: string
  bd_SourceItemURL :: string
  bd_SourceItemNumber :: string

definition sourceItemView :: "internal_task \<Rightarrow> source_binding list \<Rightarrow> source_item" where
  "sourceItemView t bindings =
     (let m = it_Metadata t;
          item = empty_item\<lparr>si_ID := it_ID t, si_SourceID := tm_Source m, si_Title := it_Title t, si_Description := it_Description t,
            si_Labels := tm_Labels m, si_Type := tm_Type m, si_Priority := tm_Priority m, si_State := tm_State m\<rparr>
      in case bindings of
           [] \<Rightarrow> item
         | b # _ \<Rightarrow> item\<lparr>si_ID := bd_SourceItemID b, si_SourceID := bd_SourceID b, si_Number := bd_SourceItemNumber b, si_URL := bd_SourceItemURL b\<rparr>)"

definition maxSubWorkflowDepth :: nat where "maxSubWorkflowDepth = 16"

definition findWorkflow :: "workflow_def list \<Rightarrow> string \<Rightarrow> workflow_def option" where
  "findWorkflow ws i = find (\<lambda>w. wc_ID w = i) ws"

datatype sub_error =
    InvalidExpression string
  | Unresolved string
  | InputMissing string string
  | InputUnresolved string string sub_error
  | InputMismatch string string string
  | OutputInvalid string string
  | OutputUnresolved string string
  | OutputMismatch string string

section \<open>Inputs\<close>

text \<open>The value of an expression \<open>root.key\<close>, if it has one.\<close>

definition root_value ::
  "golib \<Rightarrow> internal_task \<Rightarrow> source_item \<Rightarrow> memory_step list \<Rightarrow> (string \<rightharpoonup> memory_step) \<Rightarrow> string \<Rightarrow> string list \<Rightarrow> gval option" where
  "root_value lib t cell memSnap contrib root rest =
     (let key = str_join ''.'' rest in
      if root = ''task'' then
        (if key = ''id'' then Some (GStr (it_ID t)) else if key = ''title'' then Some (GStr (it_Title t))
         else if key = ''description'' then Some (GStr (it_Description t)) else map_of (it_Input t) key)
      else if root = ''cell'' then
        (if key = ''id'' then Some (GStr (si_ID cell)) else if key = ''title'' then Some (GStr (si_Title cell))
         else if key = ''description'' then Some (GStr (si_Description cell)) else if key = ''source'' then Some (GStr (si_SourceID cell))
         else if key = ''priority'' then Some (GStr (si_Priority cell)) else if key = ''type'' then Some (GStr (si_Type cell)) else None)
      else if root = ''memory'' then map_option GStr (memoryValuesFrom lib memSnap key)
      else if root = ''steps'' then
        (case rest of
           [step, field] \<Rightarrow> (case contrib step of None \<Rightarrow> None | Some c \<Rightarrow> map_of (ms_Structured c) field)
         | _ \<Rightarrow> None)
      else None)"

definition resolveSubworkflowValue ::
  "golib \<Rightarrow> internal_task \<Rightarrow> source_binding list \<Rightarrow> memory_step list \<Rightarrow> (string \<rightharpoonup> memory_step) \<Rightarrow> gval \<Rightarrow> sub_error + gval" where
  "resolveSubworkflowValue lib t bindings memSnap contrib v =
     (case v of
        GStr s \<Rightarrow>
          (if \<not> is_wrapped (trim_space s) then Inr v
           else case split_on CHR ''.'' (wrapped_body (trim_space s)) of
             root # part # parts \<Rightarrow>
               (case root_value lib t (sourceItemView t bindings) memSnap contrib root (part # parts) of
                  None \<Rightarrow> Inl (Unresolved s) | Some x \<Rightarrow> Inr x)
           | _ \<Rightarrow> Inl (InvalidExpression s))
      | _ \<Rightarrow> Inr v)"

text \<open>The value an input gets before it is resolved: the caller's, else the declared default.\<close>

definition given_value :: "step_config \<Rightarrow> string \<Rightarrow> workflow_input \<Rightarrow> gval option" where
  "given_value s name decl =
     (case map_of (With (flds s)) name of
        Some v \<Rightarrow> Some v
      | None \<Rightarrow> if win_Default decl \<noteq> GNil then Some (win_Default decl) else None)"

fun resolve_inputs ::
  "(gval \<Rightarrow> sub_error + gval) \<Rightarrow> step_config \<Rightarrow> string \<Rightarrow> (string \<times> workflow_input) list \<Rightarrow> sub_error + (string \<times> gval) list" where
  "resolve_inputs value s childID [] = Inr []"
| "resolve_inputs value s childID ((name, decl) # decls) =
     (case given_value s name decl of
        None \<Rightarrow> if win_Required decl then Inl (InputMissing childID name) else resolve_inputs value s childID decls
      | Some v \<Rightarrow>
          (case value v of
             Inl e \<Rightarrow> Inl (InputUnresolved childID name e)
           | Inr x \<Rightarrow>
               if \<not> WorkflowValueMatchesType x (win_Type decl) then Inl (InputMismatch childID name (win_Type decl))
               else map_sum id (Cons (name, x)) (resolve_inputs value s childID decls)))"

definition resolveSubworkflowInputs ::
  "golib \<Rightarrow> step_config \<Rightarrow> workflow_def \<Rightarrow> internal_task \<Rightarrow> source_binding list \<Rightarrow> memory_step list \<Rightarrow> (string \<rightharpoonup> memory_step)
     \<Rightarrow> sub_error + (string \<times> gval) list" where
  "resolveSubworkflowInputs lib s child t bindings memSnap contrib =
     resolve_inputs (resolveSubworkflowValue lib t bindings memSnap contrib) s (wc_ID child) (wc_Inputs child)"

section \<open>Rendering\<close>

text \<open>\<open>strings.ReplaceAll\<close> for a search string that is not empty.\<close>

function replace_all :: "string \<Rightarrow> string \<Rightarrow> string \<Rightarrow> string" where
  "replace_all old new [] = []"
| "replace_all old new (c # cs) =
     (if old \<noteq> [] \<and> has_prefix (c # cs) old then new @ replace_all old new (drop (length old) (c # cs))
      else c # replace_all old new cs)"
  by pat_completeness auto
termination
  by (relation "measure (\<lambda>(o1, n, s). length s)") (auto simp: neq_Nil_conv)

definition render_one :: "golib \<Rightarrow> string \<times> gval \<Rightarrow> string \<Rightarrow> string" where
  "render_one lib entry v =
     (let (name, inp) = entry; text = renderValue lib inp in
      replace_all (''${{inputs.'' @ name @ ''}}'') text (replace_all (''${{ inputs.'' @ name @ '' }}'') text v))"

definition renderInputString :: "golib \<Rightarrow> (string \<times> gval) list \<Rightarrow> string \<Rightarrow> string" where
  "renderInputString lib inputs v = fold (render_one lib) inputs v"

definition renderInputValue :: "golib \<Rightarrow> (string \<times> gval) list \<Rightarrow> gval \<Rightarrow> gval" where
  "renderInputValue lib inputs v =
     (case v of
        GStr s \<Rightarrow>
          (case (if is_wrapped (trim_space s)
                 then (case split_on CHR ''.'' (wrapped_body (trim_space s)) of
                         [root, name] \<Rightarrow> if root = ''inputs'' then map_of inputs name else None
                       | _ \<Rightarrow> None)
                 else None) of
             Some x \<Rightarrow> x
           | None \<Rightarrow> GStr (renderInputString lib inputs s))
      | _ \<Rightarrow> v)"

definition render_fields :: "golib \<Rightarrow> (string \<times> gval) list \<Rightarrow> step_fields \<Rightarrow> step_fields" where
  "render_fields lib inputs f =
     f\<lparr>Prompt := renderInputString lib inputs (Prompt f), SummaryPrompt := renderInputString lib inputs (SummaryPrompt f),
       Message := renderInputString lib inputs (Message f), With := map (\<lambda>(k, v). (k, renderInputValue lib inputs v)) (With f)\<rparr>"

text \<open>The steps are deep copies, so rendering never reaches the configuration.\<close>

fun renderStepInputs :: "golib \<Rightarrow> (string \<times> gval) list \<Rightarrow> step_config \<Rightarrow> step_config" where
  "renderStepInputs lib inputs (Step f subs pars inner) =
     Step (render_fields lib inputs f) (map (renderStepInputs lib inputs) subs) (map (renderStepInputs lib inputs) pars)
       (map_option (renderStepInputs lib inputs) inner)"

definition renderSubworkflowInputs :: "golib \<Rightarrow> workflow_def \<Rightarrow> (string \<times> gval) list \<Rightarrow> workflow_def" where
  "renderSubworkflowInputs lib child inputs = child\<lparr>wc_Steps := map (renderStepInputs lib inputs) (wc_Steps child)\<rparr>"

section \<open>Outputs\<close>

definition output_value :: "dag_run \<Rightarrow> string \<Rightarrow> string \<Rightarrow> gval option" where
  "output_value r step field =
     (if field = ''output'' then map_option (\<lambda>st. GStr (ss_Output st)) (r_stepStates r step)
      else (case r_contrib r step of None \<Rightarrow> None | Some c \<Rightarrow> map_of (ms_Structured c) field))"

fun resolve_outputs :: "dag_run \<Rightarrow> (string \<times> workflow_output) list \<Rightarrow> sub_error + (string \<times> gval) list" where
  "resolve_outputs r [] = Inr []"
| "resolve_outputs r ((name, decl) # decls) =
     (case split_on CHR ''.'' (wrapped_body (trim_space (wout_Value decl))) of
        [root, step, field] \<Rightarrow>
          (if root \<noteq> ''steps'' then Inl (OutputInvalid name (wout_Value decl))
           else case output_value r step field of
             None \<Rightarrow> Inl (OutputUnresolved name (wout_Value decl))
           | Some v \<Rightarrow>
               if \<not> WorkflowValueMatchesType v (wout_Type decl) then Inl (OutputMismatch name (wout_Type decl))
               else map_sum id (Cons (name, v)) (resolve_outputs r decls))
      | _ \<Rightarrow> Inl (OutputInvalid name (wout_Value decl)))"

definition resolveSubworkflowOutputs :: "workflow_def \<Rightarrow> dag_run \<Rightarrow> sub_error + (string \<times> gval) list" where
  "resolveSubworkflowOutputs child r = resolve_outputs r (wc_Outputs child)"

section \<open>Running the child\<close>

text \<open>
  What the store, the context and the workers do during one call: the id generated for the child, whether creating its row or its
  snapshot fails, whether the context is canceled when the scheduler returns, and the scheduler's inputs.
\<close>

record child_env =
  ce_childID :: string
  ce_createFails :: bool
  ce_snapshotFails :: bool
  ce_canceled :: bool
  ce_inputs :: "sched_input list"

text \<open>The id, the outputs and the success, and the final state of the child's row when one was created; \<open>None\<close> while it runs.\<close>

definition runChildInstance ::
  "golib \<Rightarrow> int \<Rightarrow> child_env \<Rightarrow> workflow_def \<Rightarrow> internal_task \<Rightarrow> source_binding list \<Rightarrow> memory_step list \<Rightarrow> approval_db
     \<Rightarrow> (string \<times> (string \<times> gval) list \<times> bool \<times> string option) option" where
  "runChildInstance lib configured env child t bindings seed d =
     (if ce_createFails env then Some ([], [], False, None)
      else if ce_snapshotFails env then Some (ce_childID env, [], False, Some Failed)
      else case driveDAG lib configured (ce_inputs env)
          (initDAG (ce_childID env) (workflow_config.truncate child) (it_ID t) (sourceItemView t bindings) seed) d of
        None \<Rightarrow> None
      | Some (out, r, d') \<Rightarrow>
          if ce_canceled env \<or> out \<noteq> outcomeDone then Some (ce_childID env, [], False, Some Failed)
          else (case resolveSubworkflowOutputs child r of
              Inl e \<Rightarrow> Some (ce_childID env, [], False, Some Failed)
            | Inr outputs \<Rightarrow> Some (ce_childID env, outputs, True, Some Done)))"

definition sub_result :: "bool \<Rightarrow> string \<Rightarrow> string \<Rightarrow> (string \<times> gval) list \<Rightarrow> step_result" where
  "sub_result ok out summary structured =
     \<lparr>sr_Success = ok, sr_Output = out, sr_Structured = structured, sr_Summary = summary, sr_Pending = False, sr_Conflict = False\<rparr>"

definition input_seed :: "memory_step list \<Rightarrow> (string \<times> gval) list \<Rightarrow> memory_step list" where
  "input_seed memSnap inputs =
     memSnap @ (if inputs = [] then []
       else [\<lparr>ms_StepID = ''inputs'', ms_WriteFields = sort (map fst inputs), ms_Structured = inputs, ms_Summary = []\<rparr>])"

text \<open>The texts of errors raised by the context and the resolver are the argument \<open>show\<close>.\<close>

definition executeSubWorkflowStep ::
  "golib \<Rightarrow> int \<Rightarrow> child_env \<Rightarrow> (sub_error option \<Rightarrow> string) \<Rightarrow> workflow_def list \<Rightarrow> step_config \<Rightarrow> internal_task \<Rightarrow> source_binding list
     \<Rightarrow> memory_step list \<Rightarrow> (string \<rightharpoonup> memory_step) \<Rightarrow> nat \<Rightarrow> approval_db \<Rightarrow> step_result option" where
  "executeSubWorkflowStep lib configured env show ws s t bindings memSnap contrib depth d =
     (if depth \<ge> maxSubWorkflowDepth then Some (sub_result False ''sub-workflow nesting limit exceeded'' [] [])
      else case findWorkflow ws (Workflow (flds s)) of
        None \<Rightarrow> Some (sub_result False (''workflow '' @ go_quote (Workflow (flds s)) @ '' not found'') [] [])
      | Some child \<Rightarrow>
          (case resolveSubworkflowInputs lib s child t bindings memSnap contrib of
             Inl e \<Rightarrow> Some (sub_result False (show (Some e)) [] [])
           | Inr inputs \<Rightarrow>
               (case runChildInstance lib configured env (renderSubworkflowInputs lib child inputs) t bindings (input_seed memSnap inputs) d of
                  None \<Rightarrow> None
                | Some (childID, outputs, ok, st) \<Rightarrow>
                    Some (if ok then sub_result True childID (''sub-workflow '' @ go_quote (wc_ID child) @ '' completed'') outputs
                          else sub_result False
                            (if ce_canceled env then ''sub-workflow '' @ go_quote (wc_ID child) @ '' canceled: '' @ show None
                             else ''sub-workflow '' @ go_quote (wc_ID child) @ '' failed'') [] []))))"

section \<open>Resolving inputs\<close>

lemma resolve_literal: "\<not> isWorkflowExpression v \<Longrightarrow> resolveSubworkflowValue lib t bindings memSnap contrib v = Inr v"
  by (simp add: resolveSubworkflowValue_def isWorkflowExpression_def split: gval.splits)

lemma resolve_inputs_ok:
  "resolve_inputs value s cid decls = Inr inputs \<Longrightarrow>
     (\<forall>(n, v)\<in>set inputs. \<exists>decl. (n, decl) \<in> set decls \<and> WorkflowValueMatchesType v (win_Type decl))
     \<and> fst ` set inputs = {n. \<exists>decl. (n, decl) \<in> set decls \<and> given_value s n decl \<noteq> None}"
proof (induction decls arbitrary: inputs)
  case (Cons p decls)
  obtain n decl where p: "p = (n, decl)" by (cases p)
  show ?case
  proof (cases "given_value s n decl")
    case None
    with Cons.prems p have "resolve_inputs value s cid decls = Inr inputs" by (auto split: if_splits)
    note ih = Cons.IH [OF this]
    have "{m. \<exists>d. (m, d) \<in> set (p # decls) \<and> given_value s m d \<noteq> None} = {m. \<exists>d. (m, d) \<in> set decls \<and> given_value s m d \<noteq> None}"
      using None p by auto
    then show ?thesis using ih by (simp add: case_prod_unfold) blast
  next
    case (Some v)
    with Cons.prems p obtain x rest where x: "value v = Inr x" "WorkflowValueMatchesType x (win_Type decl)"
        "resolve_inputs value s cid decls = Inr rest" "inputs = (n, x) # rest"
      by (auto split: sum.splits if_splits) (cases "resolve_inputs value s cid decls"; auto)
    note ih = Cons.IH [OF x(3)]
    have "{m. \<exists>d. (m, d) \<in> set (p # decls) \<and> given_value s m d \<noteq> None}
        = insert n {m. \<exists>d. (m, d) \<in> set decls \<and> given_value s m d \<noteq> None}"
      using Some p by auto
    moreover have "\<forall>(m, y)\<in>set inputs. \<exists>d. (m, d) \<in> set (p # decls) \<and> WorkflowValueMatchesType y (win_Type d)"
      using ih x(2,4) p by (simp add: case_prod_unfold) blast
    ultimately show ?thesis using ih x(4) by simp
  qed
qed simp

lemma resolve_inputs_fail:
  "resolve_inputs value s cid decls = Inl e \<Longrightarrow>
     \<exists>n decl. (n, decl) \<in> set decls \<and>
       (given_value s n decl = None \<and> win_Required decl
        \<or> (\<exists>v e'. given_value s n decl = Some v \<and> value v = Inl e' \<and> e = InputUnresolved cid n e')
        \<or> (\<exists>v x. given_value s n decl = Some v \<and> value v = Inr x \<and> \<not> WorkflowValueMatchesType x (win_Type decl)
             \<and> e = InputMismatch cid n (win_Type decl)))"
proof (induction decls)
  case (Cons p decls)
  obtain n decl where p: "p = (n, decl)" by (cases p)
  show ?case
  proof (cases "resolve_inputs value s cid decls = Inl e")
    case True
    from Cons.IH [OF True] show ?thesis by fastforce
  next
    case False
    show ?thesis
    proof (cases "given_value s n decl")
      case None
      with False Cons.prems p have "win_Required decl" by (auto split: if_splits)
      with None p show ?thesis by auto
    next
      case (Some v)
      show ?thesis
      proof (cases "value v")
        case (Inl e')
        with Some Cons.prems p have "e = InputUnresolved cid n e'" by simp
        with Some Inl p show ?thesis by auto
      next
        case (Inr x)
        have "map_sum id (Cons (n, x)) (resolve_inputs value s cid decls) \<noteq> Inl e"
          using False by (cases "resolve_inputs value s cid decls") auto
        with Inr Some Cons.prems p have "\<not> WorkflowValueMatchesType x (win_Type decl)" "e = InputMismatch cid n (win_Type decl)"
          by (auto split: if_splits)
        with Some Inr p show ?thesis by auto
      qed
    qed
  qed
qed simp

text \<open>What validation has checked of the value an input gets.\<close>

lemma validated_given:
  assumes step: "validateWorkflowStep h sctx s parentID byID = []" "byID (Workflow (flds s)) = Some child"
    and contract: "validateWorkflowContract ctx child = []" and names: "distinct (map fst (wc_Inputs child))"
    and decl: "(n, decl) \<in> set (wc_Inputs child)"
  shows "given_value s n decl = None \<Longrightarrow> \<not> win_Required decl"
    and "given_value s n decl = Some v \<Longrightarrow> \<not> isWorkflowExpression v \<Longrightarrow> WorkflowValueMatchesType v (win_Type decl)"
proof -
  have lookup: "map_of (wc_Inputs child) n = Some decl" using names decl by (rule map_of_is_SomeI)
  have w: "\<forall>(n, v)\<in>set (With (flds s)). case map_of (wc_Inputs child) n of None \<Rightarrow> False
      | Some inp \<Rightarrow> isWorkflowExpression v \<or> WorkflowValueMatchesType v (win_Type inp)"
    and r: "\<forall>(n, inp)\<in>set (wc_Inputs child). \<not> (win_Required inp \<and> win_Default inp = GNil \<and> map_of (With (flds s)) n = None)"
    using step by (fastforce simp: validateWorkflowStep_def Let_def split: if_splits option.splits)+
  show "given_value s n decl = None \<Longrightarrow> \<not> win_Required decl"
    using r decl by (auto simp: given_value_def split: option.splits if_splits)
  assume g: "given_value s n decl = Some v" and lit: "\<not> isWorkflowExpression v"
  show "WorkflowValueMatchesType v (win_Type decl)"
  proof (cases "map_of (With (flds s)) n")
    case (Some v')
    then have "(n, v') \<in> set (With (flds s))" by (rule map_of_SomeD)
    with w lookup have "isWorkflowExpression v' \<or> WorkflowValueMatchesType v' (win_Type decl)" by force
    with Some g lit show ?thesis by (simp add: given_value_def)
  next
    case None
    with g have v: "v = win_Default decl" "win_Default decl \<noteq> GNil" by (auto simp: given_value_def split: if_splits)
    have "validate_input ctx (n, decl) = []" using contract decl by (auto simp: validateWorkflowContract_def)
    with v show ?thesis by (simp add: validate_input_def Let_def split: if_splits)
  qed
qed

section \<open>Rendering keeps the graph\<close>

lemma render_fields_simps [simp]:
  "ID (render_fields lib inputs f) = ID f" "Type (render_fields lib inputs f) = Type f" "Branches (render_fields lib inputs f) = Branches f"
  by (simp_all add: render_fields_def)

lemma renderStepInputs_simps [simp]:
  "flds (renderStepInputs lib inputs s) = render_fields lib inputs (flds s)" "StepType (renderStepInputs lib inputs s) = StepType s"
  by (cases s; simp add: StepType_def)+

lemma rendered_ok:
  assumes "distinct (map sid (wc_Steps child))" "targets_known (workflow_config.truncate child)"
  shows "distinct (map sid (wc_Steps (workflow_config.truncate (renderSubworkflowInputs lib child inputs))))"
    "targets_known (workflow_config.truncate (renderSubworkflowInputs lib child inputs))"
  using assms by (auto simp: renderSubworkflowInputs_def workflow_config.truncate_def targets_known_def comp_def image_image)

section \<open>Outputs\<close>

lemma resolve_outputs_ok:
  "resolve_outputs r decls = Inr outputs \<Longrightarrow>
     list_all2 (\<lambda>(n, v) (m, decl). n = m \<and> WorkflowValueMatchesType v (wout_Type decl)) outputs decls"
proof (induction decls arbitrary: outputs)
  case (Cons p decls)
  obtain n decl where p: "p = (n, decl)" by (cases p)
  from Cons.prems p obtain v rest where "WorkflowValueMatchesType v (wout_Type decl)" "resolve_outputs r decls = Inr rest"
      "outputs = (n, v) # rest"
    by (auto split: list.splits if_splits option.splits) (cases "resolve_outputs r decls"; auto)
  with Cons.IH p show ?case by simp
qed simp

section \<open>A concrete call\<close>

definition ex_sub_child :: workflow_def where
  "ex_sub_child = (ex_def ''child'' [Step (zero_fields\<lparr>ID := ''a'', Agent := ''ops'', Prompt := ''count ${{ inputs.n }}''\<rparr>) [] [] None])
     \<lparr>wc_Inputs := [(''n'', \<lparr>win_Type = ''integer'', win_Required = True, win_Default = GNil\<rparr>),
                    (''who'', \<lparr>win_Type = ''string'', win_Required = False, win_Default = GStr ''ann''\<rparr>)],
      wc_Outputs := [(''text'', \<lparr>wout_Type = ''string'', wout_Value = ''${{ steps.a.output }}''\<rparr>)]\<rparr>"

definition ex_call :: step_config where
  "ex_call = Step (zero_fields\<lparr>ID := ''sub'', Type := ''workflow'', Workflow := ''child'', With := [(''n'', GInt 3)]\<rparr>) [] [] None"

definition ex_sub_task :: internal_task where
  "ex_sub_task = \<lparr>it_ID = ''t'', it_ParentTaskID = [], it_Title = [], it_Description = [], it_Input = [], it_DedupKey = [], it_State = [],
     it_BlockedReason = [], it_Metadata = \<lparr>tm_Labels = [], tm_Priority = [], tm_Type = [], tm_Source = [], tm_State = []\<rparr>,
     it_OutstandingWorkflows = 0, it_CreatedAt = 0, it_UpdatedAt = 0\<rparr>"

definition ex_calls :: app_config where
  "ex_calls = \<lparr>ac_Workflows = [ex_sub_child, ex_def ''parent'' [ex_call]], ac_Agents = [''ops''], ac_Sources = [], ac_RequireFor = []\<rparr>"

definition ex_env :: child_env where
  "ex_env = \<lparr>ce_childID = ''c'', ce_createFails = False, ce_snapshotFails = False, ce_canceled = False, ce_inputs = replicate 4 (ex_input True)\<rparr>"

definition ex_callee :: workflow_def where
  "ex_callee = hd (ac_Workflows (snd (validate_workflow_part ex_hooks ex_calls)))"

section \<open>Properties\<close>

text \<open>
  C23. The inputs of a sub-workflow call are typed. Every value the child receives has the type declared for
  its name, every input that is given or has a default arrives, and when the calling step and the child's contract have been validated the
  resolution can fail only because of a value expression: one that does not resolve, or resolves to a value of another type.
\<close>

theorem call_inputs_typed:
  assumes "validateWorkflowStep h sctx s parentID byID = []" "byID (Workflow (flds s)) = Some child"
    and "validateWorkflowContract ctx child = []" "distinct (map fst (wc_Inputs child))"
  shows "case resolveSubworkflowInputs lib s child t bindings memSnap contrib of
      Inr inputs \<Rightarrow>
        (\<forall>(n, v)\<in>set inputs. \<exists>decl. (n, decl) \<in> set (wc_Inputs child) \<and> WorkflowValueMatchesType v (win_Type decl))
        \<and> fst ` set inputs = {n. \<exists>decl. (n, decl) \<in> set (wc_Inputs child) \<and> given_value s n decl \<noteq> None}
    | Inl e \<Rightarrow>
        \<exists>n decl v. (n, decl) \<in> set (wc_Inputs child) \<and> given_value s n decl = Some v \<and> isWorkflowExpression v
          \<and> ((\<exists>e'. e = InputUnresolved (wc_ID child) n e') \<or> e = InputMismatch (wc_ID child) n (win_Type decl))"
proof (cases "resolveSubworkflowInputs lib s child t bindings memSnap contrib")
  case (Inr inputs)
  then show ?thesis using resolve_inputs_ok [of _ s "wc_ID child" "wc_Inputs child" inputs] by (simp add: resolveSubworkflowInputs_def)
next
  case (Inl e)
  then obtain n decl where d: "(n, decl) \<in> set (wc_Inputs child)"
      and f: "given_value s n decl = None \<and> win_Required decl
        \<or> (\<exists>v e'. given_value s n decl = Some v \<and> resolveSubworkflowValue lib t bindings memSnap contrib v = Inl e'
             \<and> e = InputUnresolved (wc_ID child) n e')
        \<or> (\<exists>v x. given_value s n decl = Some v \<and> resolveSubworkflowValue lib t bindings memSnap contrib v = Inr x
             \<and> \<not> WorkflowValueMatchesType x (win_Type decl) \<and> e = InputMismatch (wc_ID child) n (win_Type decl))"
    unfolding resolveSubworkflowInputs_def using resolve_inputs_fail by blast
  note ok = validated_given [OF assms d]
  from f ok(1) obtain v where v: "given_value s n decl = Some v"
      "(\<exists>e'. e = InputUnresolved (wc_ID child) n e') \<or> e = InputMismatch (wc_ID child) n (win_Type decl)"
    and x: "\<not> isWorkflowExpression v \<Longrightarrow> \<not> WorkflowValueMatchesType v (win_Type decl)"
    using resolve_literal by fastforce
  with ok(2) [OF v(1)] d Inl show ?thesis by auto
qed

theorem call_inputs_typed_witness:
  "\<exists>decl. (''n'', decl) \<in> set (wc_Inputs ex_sub_child) \<and> WorkflowValueMatchesType (GInt 3) (win_Type decl)"
proof -
  let ?x = "resolveSubworkflowInputs ex_lib ex_call ex_sub_child ex_sub_task [] [] Map.empty"
  have ok: "validateWorkflowStep ex_hooks [] ex_call ''parent'' (\<lambda>_. Some ex_sub_child) = []" "validateWorkflowContract [] ex_sub_child = []"
    "distinct (map fst (wc_Inputs ex_sub_child))" "\<not> isl ?x" "(''n'', GInt 3) \<in> set (projr ?x)" by code_simp+
  from call_inputs_typed [OF ok(1) refl ok(2,3), of ex_lib ex_sub_task "[]" "[]" Map.empty] ok(4,5) show ?thesis by (cases ?x) auto
qed

text \<open>
  In a configuration that validates, running a sub-workflow ends: for inputs of any value, a call of any workflow of
  the configuration returns within the bound of the child's graph. It succeeds only with the child's row recorded as
  done and one output per declared name, of the declared type; otherwise it returns no outputs and a row, if there is one,
  recorded as failed.
\<close>

theorem child_run_ends:
  assumes "fst (validate_workflow_part h c) = []" "child \<in> set (ac_Workflows (snd (validate_workflow_part h c)))"
    and "loop_bound (initDAG (ce_childID env) (workflow_config.truncate (renderSubworkflowInputs lib child inputs)) (it_ID t)
           (sourceItemView t bindings) seed) \<le> length (ce_inputs env)"
  shows "\<exists>i outputs ok st. runChildInstance lib configured env (renderSubworkflowInputs lib child inputs) t bindings seed d = Some (i, outputs, ok, st)
     \<and> (ok \<and> st = Some Done \<and> list_all2 (\<lambda>(n, v) (m, decl). n = m \<and> WorkflowValueMatchesType v (wout_Type decl)) outputs (wc_Outputs child)
        \<or> \<not> ok \<and> outputs = [] \<and> (st = None \<or> st = Some Failed))"
proof -
  let ?child = "renderSubworkflowInputs lib child inputs"
  let ?r = "initDAG (ce_childID env) (workflow_config.truncate ?child) (it_ID t) (sourceItemView t bindings) seed"
  from accepted_workflow [OF assms(1,2)] obtain k where k: "validateWorkflow h (snd (validate_workflow_part h c)) k child = []" ..
  note r = rendered_ok [OF accepted_steps(2) [OF k] accepted_targets_known [OF k], of lib inputs]
  have "\<exists>out. driveDAG lib configured (ce_inputs env) ?r d = Some out" by (intro driveDAG_ends initDAG_ok [OF r] assms(3))
  then obtain out r' d' where dr: "driveDAG lib configured (ce_inputs env) ?r d = Some (out, r', d')" by auto
  show ?thesis
  proof (cases "resolveSubworkflowOutputs ?child r'")
    case (Inr outputs)
    then have "list_all2 (\<lambda>(n, v) (m, decl). n = m \<and> WorkflowValueMatchesType v (wout_Type decl)) outputs (wc_Outputs child)"
      using resolve_outputs_ok by (fastforce simp: resolveSubworkflowOutputs_def renderSubworkflowInputs_def)
    with Inr dr show ?thesis by (auto simp: runChildInstance_def)
  qed (use dr in \<open>auto simp: runChildInstance_def\<close>)
qed

theorem child_run_ends_witness:
  "\<exists>i outputs ok st. runChildInstance ex_lib 2 ex_env (renderSubworkflowInputs ex_lib ex_callee [(''n'', GInt 3)]) ex_sub_task [] [] empty_db
     = Some (i, outputs, ok, st)"
proof -
  have ok: "fst (validate_workflow_part ex_hooks ex_calls) = []" "ac_Workflows (snd (validate_workflow_part ex_hooks ex_calls)) \<noteq> []"
    "loop_bound (initDAG (ce_childID ex_env) (workflow_config.truncate (renderSubworkflowInputs ex_lib ex_callee [(''n'', GInt 3)])) (it_ID ex_sub_task)
       (sourceItemView ex_sub_task []) []) \<le> length (ce_inputs ex_env)" by code_simp+
  have "ex_callee \<in> set (ac_Workflows (snd (validate_workflow_part ex_hooks ex_calls)))"
    unfolding ex_callee_def using ok(2) by (rule hd_in_set)
  from child_run_ends [OF ok(1) this ok(3), of 2 empty_db] show ?thesis by blast
qed

text \<open>
  Rendering inputs into a prompt depends on the order in which the map of inputs is walked: when the value of one
  input contains the placeholder of another, two walks over the same map give different prompts.
\<close>

theorem render_order:
  "\<exists>inputs inputs' text. map_of inputs = map_of inputs' \<and> distinct (map fst inputs) \<and> distinct (map fst inputs')
     \<and> renderInputString lib inputs text \<noteq> renderInputString lib inputs' text"
proof -
  let ?a = "(''a'', GStr ''${{ inputs.b }}'')" and ?b = "(''b'', GStr ''x'')" and ?t = "''${{ inputs.a }}''"
  have "renderInputString lib [?a, ?b] ?t = ''x''" "renderInputString lib [?b, ?a] ?t = ''${{ inputs.b }}''"
    by (simp_all add: renderInputString_def render_one_def has_prefix_def)
  moreover have "map_of [?a, ?b] = map_of [?b, ?a]" by (auto simp: fun_eq_iff)
  ultimately show ?thesis by (intro exI [of _ "[?a, ?b]"] exI [of _ "[?b, ?a]"] exI [of _ ?t]) simp
qed

end
