(* ===== verification/Spawner.thy ===== *)
theory Spawner
  imports Transition Memory_Doc Lifecycle
begin

text \<open>
  Spawned child tasks (\<open>internal/workflow/spawner.go\<close>, with \<open>CreateTask\<close> and \<open>FindChildByDedupKey\<close> of \<open>internal/db/task_store.go\<close>). Several
  steps may spawn at once: a call is cut at the store accesses and at the uses of the spawner's mutex, and the pieces of different calls
  interleave freely. The tasks are the rows of \<open>internal_tasks\<close>; an empty parent is stored as \<open>NULL\<close>, which neither a
  query nor the unique index on (parent, dedup key) matches. Completion handles live in a heap of optional results, \<open>None\<close>
  while the channel is open. The hash function, whether a workflow is known, and the ids generated are arguments.
\<close>

section \<open>State\<close>

record spawn_request =
  sq_ParentTaskID :: string
  sq_WorkflowID :: string
  sq_Title :: string
  sq_Input :: "(string \<times> gval) list option"
  sq_Key :: string
  sq_Labels :: "string list"
  sq_Body :: string

text \<open>Where a call of \<open>Spawn\<close> stands.\<close>

datatype spawn_call =
    Checked spawn_request
  | Found internal_task
  | Persisted spawn_request internal_task

record spawner =
  sp_tasks :: "internal_task list"
  sp_running :: "string \<rightharpoonup> nat"
  sp_handles :: "bool option list"
  sp_jobs :: "(string \<times> nat) list"
  sp_calls :: "spawn_call list"
  sp_launched :: "string list"

record spawn_lib =
  sl_resolve :: "string \<Rightarrow> bool"
  sl_hash :: "string \<Rightarrow> string"
  sl_json :: "gval \<Rightarrow> string"

section \<open>Operations\<close>

definition spawnDedupKey :: "spawn_lib \<Rightarrow> spawn_request \<Rightarrow> string" where
  "spawnDedupKey lib req =
     (let k = trim_space (sq_Key req) in
      if k \<noteq> [] then k
      else let inputJSON = sl_json lib (case sq_Input req of None \<Rightarrow> GNil | Some m \<Rightarrow> GObj m) in
        ''auto:'' @ sl_hash lib (sq_WorkflowID req @ [CHR 0x1F] @ sq_Title req @ [CHR 0x1F] @ inputJSON))"

definition FindChildByDedupKey :: "string \<Rightarrow> string \<Rightarrow> internal_task list \<Rightarrow> internal_task option" where
  "FindChildByDedupKey parent key tasks =
     (if key = [] then None else find (\<lambda>t. parent \<noteq> [] \<and> it_ParentTaskID t = parent \<and> it_DedupKey t = key) tasks)"

definition CreateTask :: "internal_task \<Rightarrow> internal_task list \<Rightarrow> internal_task list option" where
  "CreateTask t tasks =
     (if list_ex (\<lambda>u. it_ID u = it_ID t) tasks
         \<or> it_ParentTaskID t \<noteq> [] \<and> it_DedupKey t \<noteq> []
           \<and> list_ex (\<lambda>u. it_ParentTaskID u = it_ParentTaskID t \<and> it_DedupKey u = it_DedupKey t) tasks
      then None else Some (tasks @ [t]))"

definition spawned_child :: "spawn_lib \<Rightarrow> string \<Rightarrow> time \<Rightarrow> spawn_request \<Rightarrow> internal_task" where
  "spawned_child lib newID now req =
     \<lparr>it_ID = newID, it_ParentTaskID = sq_ParentTaskID req, it_Title = sq_Title req, it_Description = sq_Body req,
      it_Input = (case sq_Input req of None \<Rightarrow> [] | Some m \<Rightarrow> m), it_DedupKey = spawnDedupKey lib req, it_State = Queued, it_BlockedReason = [],
      it_Metadata = \<lparr>tm_Labels = sq_Labels req, tm_Priority = [], tm_Type = ''internal'', tm_Source = [], tm_State = []\<rparr>,
      it_OutstandingWorkflows = 0, it_CreatedAt = now, it_UpdatedAt = now\<rparr>"

text \<open>The start of a call: an unknown workflow is an error, otherwise the store is asked for a child of the key.\<close>

definition spawn_check :: "spawn_lib \<Rightarrow> spawn_request \<Rightarrow> spawner \<Rightarrow> spawn_call option" where
  "spawn_check lib req s =
     (if sq_WorkflowID req \<noteq> [] \<and> \<not> sl_resolve lib (sq_WorkflowID req) then None
      else case FindChildByDedupKey (sq_ParentTaskID req) (spawnDedupKey lib req) (sp_tasks s) of
        Some t \<Rightarrow> Some (Found t)
      | None \<Rightarrow> Some (Checked req))"

text \<open>
  The insert. When it is refused, or fails as \<open>broken\<close> says, the child of the key is looked up again; without one the call returns
  the error.
\<close>

definition spawn_create :: "spawn_lib \<Rightarrow> string \<Rightarrow> time \<Rightarrow> bool \<Rightarrow> spawn_request \<Rightarrow> spawner \<Rightarrow> spawn_call option \<times> spawner" where
  "spawn_create lib newID now broken req s =
     (let child = spawned_child lib newID now req in
      case (if broken then None else CreateTask child (sp_tasks s)) of
        Some tasks \<Rightarrow> (Some (Persisted req child), s\<lparr>sp_tasks := tasks\<rparr>)
      | None \<Rightarrow> (map_option Found (FindChildByDedupKey (sq_ParentTaskID req) (spawnDedupKey lib req) (sp_tasks s)), s))"

definition trackExisting :: "internal_task \<Rightarrow> spawner \<Rightarrow> spawner" where
  "trackExisting t s =
     (if sp_running s (it_ID t) \<noteq> None then s
      else s\<lparr>sp_handles := sp_handles s @ [Some (it_State t = Done)],
             sp_running := (sp_running s)(it_ID t \<mapsto> length (sp_handles s))\<rparr>)"

definition spawn_launch :: "spawn_request \<Rightarrow> internal_task \<Rightarrow> spawner \<Rightarrow> spawner" where
  "spawn_launch req child s =
     (if sq_WorkflowID req = [] then s
      else let h = length (sp_handles s) in
        s\<lparr>sp_handles := sp_handles s @ [None], sp_running := (sp_running s)(it_ID child \<mapsto> h),
          sp_jobs := sp_jobs s @ [(it_ID child, h)], sp_launched := sp_launched s @ [it_ID child]\<rparr>)"

definition spawn_done :: "nat \<Rightarrow> bool \<Rightarrow> spawner \<Rightarrow> spawner" where
  "spawn_done h ok s = s\<lparr>sp_handles := (sp_handles s)[h := Some ok]\<rparr>"

text \<open>The answer of \<open>Await\<close>: the error of an untracked task, or the result once there is one.\<close>

datatype await_result = NotTracked | Waiting | Answer bool

definition Await :: "string \<Rightarrow> spawner \<Rightarrow> await_result" where
  "Await i s =
     (case sp_running s i of
        None \<Rightarrow> NotTracked
      | Some h \<Rightarrow> (case sp_handles s ! h of None \<Rightarrow> Waiting | Some ok \<Rightarrow> Answer ok))"

section \<open>The spawner as a concurrent system\<close>

text \<open>Other components advance the state of a task but never its identity.\<close>

definition same_identity :: "internal_task \<Rightarrow> internal_task \<Rightarrow> bool" where
  "same_identity t u \<longleftrightarrow> it_ID t = it_ID u \<and> it_ParentTaskID t = it_ParentTaskID u \<and> it_DedupKey t = it_DedupKey u"

inductive spawn_step :: "spawn_lib \<Rightarrow> spawner \<Rightarrow> spawner \<Rightarrow> bool" for lib where
  check: "spawn_check lib req s = Some call \<Longrightarrow> spawn_step lib s (s\<lparr>sp_calls := sp_calls s @ [call]\<rparr>)"
| create: "sp_calls s = as @ Checked req # bs \<Longrightarrow> spawn_create lib newID now broken req s = (call, s')
    \<Longrightarrow> spawn_step lib s (s'\<lparr>sp_calls := as @ (case call of None \<Rightarrow> [] | Some k \<Rightarrow> [k]) @ bs\<rparr>)"
| track: "sp_calls s = as @ Found t # bs \<Longrightarrow> spawn_step lib s ((trackExisting t s)\<lparr>sp_calls := as @ bs\<rparr>)"
| launch: "sp_calls s = as @ Persisted req child # bs \<Longrightarrow> spawn_step lib s ((spawn_launch req child s)\<lparr>sp_calls := as @ bs\<rparr>)"
| finish: "sp_jobs s = as @ (i, h) # bs \<Longrightarrow> spawn_step lib s ((spawn_done h ok s)\<lparr>sp_jobs := as @ bs\<rparr>)"
| advance: "list_all2 same_identity (sp_tasks s) tasks \<Longrightarrow> spawn_step lib s (s\<lparr>sp_tasks := tasks\<rparr>)"

definition empty_spawner :: spawner where
  "empty_spawner = \<lparr>sp_tasks = [], sp_running = Map.empty, sp_handles = [], sp_jobs = [], sp_calls = [], sp_launched = []\<rparr>"

definition spawn_start :: "spawner \<Rightarrow> bool" where
  "spawn_start s \<longleftrightarrow> s = empty_spawner"

section \<open>The invariant\<close>

definition one_child :: "internal_task list \<Rightarrow> bool" where
  "one_child tasks \<longleftrightarrow> distinct (map it_ID tasks)
     \<and> distinct (map (\<lambda>t. (it_ParentTaskID t, it_DedupKey t)) (filter (\<lambda>t. it_ParentTaskID t \<noteq> [] \<and> it_DedupKey t \<noteq> []) tasks))"

fun persisted_id :: "spawn_call \<Rightarrow> string list" where
  "persisted_id (Persisted req child) = [it_ID child]"
| "persisted_id _ = []"

text \<open>The children whose workflow was started, or is about to be.\<close>

definition owned_ids :: "spawner \<Rightarrow> string list" where
  "owned_ids s = concat (map persisted_id (sp_calls s)) @ sp_launched s"

definition spawn_inv :: "spawner \<Rightarrow> bool" where
  "spawn_inv s \<longleftrightarrow> one_child (sp_tasks s) \<and> distinct (owned_ids s) \<and> set (owned_ids s) \<subseteq> it_ID ` set (sp_tasks s)"

lemma CreateTask_inv:
  assumes "CreateTask t tasks = Some tasks'" "one_child tasks"
  shows "one_child tasks'" "tasks' = tasks @ [t]" "it_ID t \<notin> it_ID ` set tasks"
proof -
  have new: "\<forall>u\<in>set tasks. it_ID t \<noteq> it_ID u" and app: "tasks' = tasks @ [t]"
    and key: "it_ParentTaskID t \<noteq> [] \<and> it_DedupKey t \<noteq> [] \<Longrightarrow>
      \<forall>u\<in>set tasks. (it_ParentTaskID t, it_DedupKey t) \<noteq> (it_ParentTaskID u, it_DedupKey u)"
    using assms(1) by (auto simp: CreateTask_def list_ex_iff split: if_splits)
  show "tasks' = tasks @ [t]" by (rule app)
  show "it_ID t \<notin> it_ID ` set tasks" using new by blast
  then show "one_child tasks'" unfolding app using assms(2) key by (auto simp: one_child_def)
qed

lemma same_identity_maps:
  assumes "list_all2 same_identity ts us"
  shows "map it_ID us = map it_ID ts"
    "map (\<lambda>t. (it_ParentTaskID t, it_DedupKey t)) (filter (\<lambda>t. it_ParentTaskID t \<noteq> [] \<and> it_DedupKey t \<noteq> []) us)
     = map (\<lambda>t. (it_ParentTaskID t, it_DedupKey t)) (filter (\<lambda>t. it_ParentTaskID t \<noteq> [] \<and> it_DedupKey t \<noteq> []) ts)"
  using assms by (induction rule: list_all2_induct) (auto simp: same_identity_def)

lemma spawn_create_cases:
  assumes "spawn_create lib newID now broken req s = (call, s')"
  obtains (made) child where "CreateTask child (sp_tasks s) = Some (sp_tasks s')" "call = Some (Persisted req child)"
      "s' = s\<lparr>sp_tasks := sp_tasks s'\<rparr>"
  | (kept) "s' = s" "concat (map persisted_id (case call of None \<Rightarrow> [] | Some k \<Rightarrow> [k])) = []"
proof (cases "if broken then None else CreateTask (spawned_child lib newID now req) (sp_tasks s)")
  case None
  with assms have k: "call = map_option Found (FindChildByDedupKey (sq_ParentTaskID req) (spawnDedupKey lib req) (sp_tasks s))" "s' = s"
    by (auto simp: spawn_create_def Let_def)
  then have "concat (map persisted_id (case call of None \<Rightarrow> [] | Some k \<Rightarrow> [k])) = []"
    by (cases "FindChildByDedupKey (sq_ParentTaskID req) (spawnDedupKey lib req) (sp_tasks s)") simp_all
  from that(2) [OF k(2) this] show ?thesis .
next
  case (Some tasks)
  with assms have "call = Some (Persisted req (spawned_child lib newID now req))" "s' = s\<lparr>sp_tasks := tasks\<rparr>"
    "CreateTask (spawned_child lib newID now req) (sp_tasks s) = Some tasks"
    by (auto simp: spawn_create_def Let_def split: if_splits)
  then show ?thesis by (intro that(1)) simp_all
qed

lemma spawn_step_inv:
  assumes "spawn_inv s" "spawn_step lib s s'"
  shows "spawn_inv s'"
  using assms(2,1)
proof cases
  case (check req call)
  then have "persisted_id call = []" by (auto simp: spawn_check_def split: if_splits option.splits)
  with check(1) assms(1) show ?thesis by (simp add: spawn_inv_def owned_ids_def)
next
  case (create as req bs newID now broken call t)
  from create(3) show ?thesis
  proof (cases rule: spawn_create_cases)
    case (made child)
    have "one_child (sp_tasks s)" using assms(1) by (simp add: spawn_inv_def)
    note c = CreateTask_inv [OF made(1) this]
    have sub: "set (owned_ids s) \<subseteq> it_ID ` set (sp_tasks s)" "distinct (owned_ids s)" using assms(1) by (auto simp: spawn_inv_def)
    then have "it_ID child \<notin> set (owned_ids s)" using c(3) by blast
    moreover have "sp_launched t = sp_launched s" using made(3) by (metis spawner.select_convs(6) spawner.surjective spawner.update_convs(1))
    ultimately show ?thesis using sub c create(1,2) made(2) by (auto simp: spawn_inv_def owned_ids_def)
  next
    case kept
    have "owned_ids s' = owned_ids s" unfolding create(1) owned_ids_def kept(1) using create(2) kept(2) by (simp del: concat_eq_Nil_conv)
    with create(1) kept(1) assms(1) show ?thesis by (simp add: spawn_inv_def)
  qed
next
  case (track as t bs)
  then show ?thesis using assms(1) by (auto simp: spawn_inv_def owned_ids_def trackExisting_def)
next
  case (launch as req child bs)
  then show ?thesis using assms(1) by (auto simp: spawn_inv_def owned_ids_def spawn_launch_def Let_def)
next
  case (finish as i h bs ok)
  then show ?thesis using assms(1) by (simp add: spawn_inv_def owned_ids_def spawn_done_def)
next
  case (advance tasks)
  then have "one_child tasks" "it_ID ` set tasks = it_ID ` set (sp_tasks s)"
    using assms(1) same_identity_maps [OF advance(2)] by (simp add: spawn_inv_def one_child_def, metis set_map)
  with advance(1) assms(1) show ?thesis by (simp add: spawn_inv_def owned_ids_def)
qed

interpretation spawning: invariant_of spawn_start "spawn_step lib" spawn_inv for lib
proof
  show "spawn_inv s" if "spawn_start s" for s
    using that by (simp add: spawn_start_def empty_spawner_def spawn_inv_def owned_ids_def one_child_def)
  show "spawn_inv s'" if "spawn_inv s" "spawn_step lib s s'" for s s' using spawn_step_inv that by blast
qed

section \<open>Two concurrent spawns of one key\<close>

definition ex_spawn_lib :: spawn_lib where
  "ex_spawn_lib = \<lparr>sl_resolve = (\<lambda>_. True), sl_hash = id, sl_json = (\<lambda>_. [])\<rparr>"

definition ex_spawn :: spawn_request where
  "ex_spawn = \<lparr>sq_ParentTaskID = ''p'', sq_WorkflowID = ''w'', sq_Title = ''t'', sq_Input = None, sq_Key = ''k'', sq_Labels = [], sq_Body = []\<rparr>"

definition ex_spawned :: internal_task where
  "ex_spawned = spawned_child ex_spawn_lib ''c1'' 0 ex_spawn"

text \<open>Both calls have found no child; the first has stored one; the second has lost the insert and tracks the child it found.\<close>

definition ex_raced :: spawner where
  "ex_raced = \<lparr>sp_tasks = [ex_spawned], sp_running = [''c1'' \<mapsto> 0], sp_handles = [Some False], sp_jobs = [],
     sp_calls = [Persisted ex_spawn ex_spawned], sp_launched = []\<rparr>"

text \<open>The first call has started the workflow, and the workflow has succeeded.\<close>

definition ex_succeeded :: spawner where
  "ex_succeeded = \<lparr>sp_tasks = [ex_spawned], sp_running = [''c1'' \<mapsto> 1], sp_handles = [Some False, Some True], sp_jobs = [],
     sp_calls = [], sp_launched = [''c1'']\<rparr>"

lemma ex_raced_reachable: "reachable spawn_start (spawn_step ex_spawn_lib) ex_raced"
proof -
  let ?L = ex_spawn_lib and ?R = ex_spawn and ?s = empty_spawner
  let ?s1 = "?s\<lparr>sp_calls := sp_calls ?s @ [Checked ?R]\<rparr>"
  let ?s2 = "?s1\<lparr>sp_calls := sp_calls ?s1 @ [Checked ?R]\<rparr>"
  let ?s3 = "?s2\<lparr>sp_tasks := [ex_spawned], sp_calls := [] @ [Persisted ?R ex_spawned] @ [Checked ?R]\<rparr>"
  let ?s4 = "?s3\<lparr>sp_calls := [Persisted ?R ex_spawned] @ [Found ex_spawned] @ []\<rparr>"
  note defs = spawn_check_def spawn_create_def Let_def ex_spawn_lib_def empty_spawner_def FindChildByDedupKey_def CreateTask_def
    spawnDedupKey_def ex_spawn_def ex_spawned_def spawned_child_def trim_space_def is_space_def
  have "reachable spawn_start (spawn_step ?L) ?s" by (rule reachable_init) (simp add: spawn_start_def)
  moreover have "spawn_step ?L ?s ?s1" by (rule check) (simp add: defs)
  moreover have "spawn_step ?L ?s1 ?s2" by (rule check) (simp add: defs)
  moreover have "spawn_step ?L ?s2 ?s3"
    using create [of ?s2 "[]" ?R "[Checked ?R]" ?L "''c1''" 0 False "Some (Persisted ?R ex_spawned)" "?s2\<lparr>sp_tasks := [ex_spawned]\<rparr>"]
    by (simp add: defs)
  moreover have "spawn_step ?L ?s3 ?s4"
    using create [of ?s3 "[Persisted ?R ex_spawned]" ?R "[]" ?L "''c2''" 0 False "Some (Found ex_spawned)" ?s3] by (simp add: defs)
  moreover have "spawn_step ?L ?s4 ex_raced"
    using track [of ?s4 "[Persisted ?R ex_spawned]" ex_spawned "[]" ?L]
    by (simp add: trackExisting_def ex_raced_def empty_spawner_def ex_spawned_def spawned_child_def Done_def Queued_def)
  ultimately show ?thesis by (meson reachable_step)
qed

lemma ex_raced_steps: "(spawn_step ex_spawn_lib)\<^sup>*\<^sup>* ex_raced ex_succeeded"
proof -
  let ?s = "(spawn_launch ex_spawn ex_spawned ex_raced)\<lparr>sp_calls := [] @ []\<rparr>"
  have "spawn_step ex_spawn_lib ex_raced ?s" by (rule launch) (simp add: ex_raced_def)
  moreover have "spawn_step ex_spawn_lib ?s ((spawn_done 1 True ?s)\<lparr>sp_jobs := [] @ []\<rparr>)"
    by (rule finish [where i = "''c1''"]) (simp add: spawn_launch_def ex_raced_def ex_spawn_def ex_spawned_def spawned_child_def)
  moreover have "(spawn_done 1 True ?s)\<lparr>sp_jobs := [] @ []\<rparr> = ex_succeeded"
    by (simp add: spawn_done_def spawn_launch_def ex_raced_def ex_succeeded_def ex_spawn_def ex_spawned_def spawned_child_def)
  ultimately show ?thesis by (metis converse_rtranclp_into_rtranclp rtranclp.rtrancl_refl)
qed

section \<open>Properties\<close>

text \<open>
  C24. Spawning is idempotent under every interleaving of concurrent calls: two children of one parent under one
  dedup key are the same task, and the workflow of a child is started at most once.
\<close>

theorem spawn_once:
  assumes "reachable spawn_start (spawn_step lib) s"
  shows "distinct (sp_launched s) \<and> set (sp_launched s) \<subseteq> it_ID ` set (sp_tasks s)
    \<and> (\<forall>i j. i < length (sp_tasks s) \<and> j < length (sp_tasks s) \<and> it_ParentTaskID (sp_tasks s ! i) \<noteq> [] \<and> it_DedupKey (sp_tasks s ! i) \<noteq> []
         \<and> it_ParentTaskID (sp_tasks s ! i) = it_ParentTaskID (sp_tasks s ! j) \<and> it_DedupKey (sp_tasks s ! i) = it_DedupKey (sp_tasks s ! j)
       \<longrightarrow> i = j)"
proof -
  have inv: "spawn_inv s" using spawning.inv_reachable [OF assms] .
  let ?P = "\<lambda>t. it_ParentTaskID t \<noteq> [] \<and> it_DedupKey t \<noteq> []" and ?k = "\<lambda>t. (it_ParentTaskID t, it_DedupKey t)"
  have ids: "distinct (map it_ID (sp_tasks s))" and keys: "distinct (map ?k (filter ?P (sp_tasks s)))"
    using inv by (simp_all add: spawn_inv_def one_child_def)
  have "i = j" if "i < length (sp_tasks s)" "j < length (sp_tasks s)" "?P (sp_tasks s ! i)" "?k (sp_tasks s ! i) = ?k (sp_tasks s ! j)" for i j
  proof -
    have "sp_tasks s ! i \<in> set (filter ?P (sp_tasks s))" "sp_tasks s ! j \<in> set (filter ?P (sp_tasks s))" using that by auto
    with keys that(4) have "sp_tasks s ! i = sp_tasks s ! j" by (auto simp: distinct_map inj_on_def)
    with ids that(1,2) show ?thesis by (auto simp: distinct_map nth_eq_iff_index_eq)
  qed
  moreover have "distinct (sp_launched s)" "set (sp_launched s) \<subseteq> it_ID ` set (sp_tasks s)"
    using inv by (auto simp: spawn_inv_def owned_ids_def)
  ultimately show ?thesis by (metis (no_types, lifting) prod.inject)
qed

theorem spawn_once_witness:
  "reachable spawn_start (spawn_step ex_spawn_lib) ex_raced \<and> distinct (sp_launched ex_raced) \<and> sp_tasks ex_raced = [ex_spawned]"
  using ex_raced_reachable spawn_once [OF ex_raced_reachable] by (simp add: ex_raced_def)

text \<open>
  A call that loses the race for a key can be told that its child failed while the child has not even started: between
  the winner's insert and its registration of the handle, the loser registers a closed handle with the result failed. Awaiting the same
  child later reports that it succeeded.
\<close>

theorem await_race:
  "\<exists>s s' i. reachable spawn_start (spawn_step ex_spawn_lib) s \<and> Await i s = Answer False \<and> i \<notin> set (sp_launched s)
     \<and> (spawn_step ex_spawn_lib)\<^sup>*\<^sup>* s s' \<and> Await i s' = Answer True"
  using ex_raced_reachable ex_raced_steps
  by (intro exI [of _ ex_raced] exI [of _ ex_succeeded] exI [of _ "''c1''"]) (simp add: Await_def ex_raced_def ex_succeeded_def)

end
