(* ===== verification/Foreach.thy ===== *)
theory Foreach
  imports Dag_Gates
begin

text \<open>
  Foreach steps (\<open>internal/workflow/foreach.go\<close>): resolving the items in the output of an earlier step, rendering an item into the inner
  step's prompt, and running the inner step per item, one after the other or concurrently under a cap. Executing an agent step is the
  argument \<open>exec\<close>. The concurrent loop is a transition system whose steps interleave freely: a goroutine may be delayed
  arbitrarily, in particular while it waits for the engine's global slot. Structured output that is empty counts as missing.
\<close>

section \<open>Items\<close>

datatype foreach_error =
    InvalidPath string
  | NoStructured string
  | NotObject string string
  | FieldNotFound string string
  | NotArray string

fun walk_items :: "string \<Rightarrow> gval \<Rightarrow> string list \<Rightarrow> foreach_error + gval" where
  "walk_items path cur [] = Inr cur"
| "walk_items path cur (f # fs) =
     (case cur of
        GObj kvs \<Rightarrow> (case map_of kvs f of None \<Rightarrow> Inl (FieldNotFound path f) | Some v \<Rightarrow> walk_items path v fs)
      | _ \<Rightarrow> Inl (NotObject path f))"

definition resolveItemsFromContrib :: "string \<Rightarrow> (string \<rightharpoonup> memory_step) \<Rightarrow> foreach_error + gval list" where
  "resolveItemsFromContrib path contrib =
     (case split_on CHR ''.'' path of
        root # i # out # path_fields \<Rightarrow>
          (if path_fields = [] \<or> root \<noteq> ''steps'' \<or> out \<noteq> ''output'' then Inl (InvalidPath path)
           else case contrib i of
             None \<Rightarrow> Inl (NoStructured i)
           | Some c \<Rightarrow>
               if ms_Structured c = [] then Inl (NoStructured i)
               else bind_res (walk_items path (GObj (ms_Structured c)) path_fields)
                      (\<lambda>v. case v of GArr vs \<Rightarrow> Inr vs | _ \<Rightarrow> Inl (NotArray path)))
      | _ \<Rightarrow> Inl (InvalidPath path))"

section \<open>Templates\<close>

text \<open>
  The regular expression of a placeholder: two braces, blanks, a word, optionally a dot and a word, blanks, two braces. The longest
  word is the only one that can match, so no backtracking is needed.
\<close>

definition re_space :: "char \<Rightarrow> bool" where
  "re_space c \<longleftrightarrow> c \<in> {CHR '' '', CHR 0x09, CHR 0x0A, CHR 0x0C, CHR 0x0D}"

definition re_word :: "char \<Rightarrow> bool" where
  "re_word c \<longleftrightarrow> (let n = (of_char c :: nat) in 48 \<le> n \<and> n \<le> 57 \<or> 65 \<le> n \<and> n \<le> 90 \<or> n = 95 \<or> 97 \<le> n \<and> n \<le> 122)"

text \<open>The name and the field of a placeholder at the start of the text, with what follows it.\<close>

definition close_item :: "string \<Rightarrow> string \<Rightarrow> string \<Rightarrow> (string \<times> string \<times> string) option" where
  "close_item name field s = (let t = dropWhile re_space s in if has_prefix t ''}}'' then Some (name, field, drop 2 t) else None)"

definition match_item :: "string \<Rightarrow> (string \<times> string \<times> string) option" where
  "match_item s =
     (if \<not> has_prefix s ''{{'' then None
      else let t = dropWhile re_space (drop 2 s); name = takeWhile re_word t; u = dropWhile re_word t in
        if name = [] then None
        else case u of
          c # v \<Rightarrow>
            (let field = takeWhile re_word v in
             if c = CHR ''.'' \<and> field \<noteq> [] then close_item name field (dropWhile re_word v) else close_item name [] u)
        | [] \<Rightarrow> None)"

lemma close_item_shorter: "close_item name field s = Some (a, b, rest) \<Longrightarrow> length rest \<le> length s"
  using length_dropWhile_le [of re_space s] by (auto simp: close_item_def Let_def split: if_splits)

lemma match_item_shorter: "match_item s = Some (a, b, rest) \<Longrightarrow> length rest < length s"
proof -
  assume m: "match_item s = Some (a, b, rest)"
  let ?t = "dropWhile re_space (drop 2 s)"
  have p: "has_prefix s ''{{''" using m by (auto simp: match_item_def split: if_splits)
  then have "2 \<le> length s" by (auto simp: has_prefix_def) (metis length_Cons length_take list.size(3) min.cobounded1 numeral_2_eq_2)
  then have "length ?t < length s" using length_dropWhile_le [of re_space "drop 2 s"] by simp
  moreover have "length rest \<le> length ?t"
  proof -
    obtain c v where u: "dropWhile re_word ?t = c # v" using m by (auto simp: match_item_def Let_def split: if_splits list.splits)
    have "length rest \<le> length (c # v)"
      using m u close_item_shorter [of _ _ "c # v"] close_item_shorter [of _ _ "dropWhile re_word v"] length_dropWhile_le [of re_word v]
      by (fastforce simp: match_item_def Let_def split: if_splits)
    also have "\<dots> \<le> length ?t" using length_dropWhile_le [of re_word ?t] u by simp
    finally show ?thesis .
  qed
  ultimately show ?thesis by linarith
qed

definition item_text :: "golib \<Rightarrow> gval \<Rightarrow> string \<Rightarrow> string" where
  "item_text lib item field =
     (if field = [] then renderValue lib item
      else case item of
        GObj kvs \<Rightarrow> (case map_of kvs field of Some v \<Rightarrow> renderValue lib v | None \<Rightarrow> [])
      | _ \<Rightarrow> [])"

function renderItemTemplate :: "golib \<Rightarrow> string \<Rightarrow> gval \<Rightarrow> string \<Rightarrow> string" where
  "renderItemTemplate lib as item [] = []"
| "renderItemTemplate lib as item (c # cs) =
     (case match_item (c # cs) of
        Some (name, field, rest) \<Rightarrow>
          (if name = as then item_text lib item field else take (length (c # cs) - length rest) (c # cs))
          @ renderItemTemplate lib as item rest
      | None \<Rightarrow> c # renderItemTemplate lib as item cs)"
  by pat_completeness auto
termination
  by (relation "measure (\<lambda>(l, a, i, s). length s)") (auto dest: match_item_shorter)

section \<open>Running the items\<close>

record foreachResult =
  fe_passed :: nat
  fe_failed :: nat

definition foreachStepResult :: "string \<Rightarrow> foreachResult \<Rightarrow> step_result" where
  "foreachStepResult stepID fr =
     \<lparr>sr_Success = (fe_failed fr = 0), sr_Output = ''foreach: '' @ itoa (int (fe_passed fr)) @ '' passed, '' @ itoa (int (fe_failed fr)) @ '' failed'',
      sr_Structured = [], sr_Summary = (if fe_failed fr = 0 then stepID @ '': processed '' @ itoa (int (fe_passed fr)) @ '' item(s)'' else []),
      sr_Pending = False, sr_Conflict = False\<rparr>"

definition foreach_failed :: "string \<Rightarrow> step_result" where
  "foreach_failed msg = \<lparr>sr_Success = False, sr_Output = msg, sr_Structured = [], sr_Summary = [], sr_Pending = False, sr_Conflict = False\<rparr>"

definition item_step :: "golib \<Rightarrow> string \<Rightarrow> step_config \<Rightarrow> string \<Rightarrow> nat \<Rightarrow> gval \<Rightarrow> step_config" where
  "item_step lib stepID inner as i item =
     Step ((flds inner)\<lparr>ID := stepID @ ''['' @ itoa (int i) @ '']'', Type := StepTypeAgent, DependsOn := [],
       Prompt := renderItemTemplate lib as item (Prompt (flds inner))\<rparr>) (SubSteps inner) (ParallelSteps inner) (InnerStep inner)"

text \<open>Whether an item passes: its agent succeeds and its missing output, if any, is tolerated.\<close>

definition item_ok :: "golib \<Rightarrow> (step_config \<Rightarrow> step_result) \<Rightarrow> string \<Rightarrow> step_config \<Rightarrow> string \<Rightarrow> gval list \<Rightarrow> nat \<Rightarrow> bool" where
  "item_ok lib exec stepID inner as items i =
     (let sub = item_step lib stepID inner as i (items ! i) in sr_Success (applyMissingOutput sub (exec sub)))"

fun run_items :: "(nat \<Rightarrow> bool) \<Rightarrow> bool \<Rightarrow> nat list \<Rightarrow> foreachResult \<Rightarrow> foreachResult" where
  "run_items ok failFast [] fr = fr"
| "run_items ok failFast (i # is) fr =
     (if ok i then run_items ok failFast is (fr\<lparr>fe_passed := fe_passed fr + 1\<rparr>)
      else let fr' = fr\<lparr>fe_failed := fe_failed fr + 1\<rparr> in if failFast then fr' else run_items ok failFast is fr')"

definition no_items :: foreachResult where "no_items = \<lparr>fe_passed = 0, fe_failed = 0\<rparr>"

definition executeForeachSequential ::
  "golib \<Rightarrow> (step_config \<Rightarrow> step_result) \<Rightarrow> step_config \<Rightarrow> step_config \<Rightarrow> string \<Rightarrow> gval list \<Rightarrow> step_result" where
  "executeForeachSequential lib exec s inner as items =
     foreachStepResult (sid s) (run_items (item_ok lib exec (sid s) inner as items) (FailFast (flds s)) [0..<length items] no_items)"

definition defaultForeachMaxItems :: int where "defaultForeachMaxItems = 50"

text \<open>What \<open>executeForeachStep\<close> does before it chooses a mode: the failure, or the items, the inner step and the variable.\<close>

definition foreach_head :: "(foreach_error \<Rightarrow> string) \<Rightarrow> step_config \<Rightarrow> (string \<rightharpoonup> memory_step) \<Rightarrow> step_result + (gval list \<times> step_config \<times> string)" where
  "foreach_head show s contrib =
     (case resolveItemsFromContrib (Items (flds s)) contrib of
        Inl e \<Rightarrow> Inl (foreach_failed (show e))
      | Inr items \<Rightarrow>
          let maxItems = (if MaxItems (flds s) = 0 then defaultForeachMaxItems else MaxItems (flds s)) in
          if int (length items) > maxItems
          then Inl (foreach_failed (''foreach: '' @ itoa (int (length items)) @ '' items exceeds max_items '' @ itoa maxItems))
          else case InnerStep s of
            None \<Rightarrow> Inl (foreach_failed ''foreach: missing inner step'')
          | Some inner \<Rightarrow> Inr (items, inner, if As (flds s) = [] then ''item'' else As (flds s)))"

section \<open>The concurrent loop\<close>

datatype loop_pc = AtTop | HasSlot | Ended

record fan =
  fs_next :: nat
  fs_pc :: loop_pc
  fs_active :: "nat list"
  fs_stopped :: bool
  fs_result :: foreachResult
  fs_finished :: "nat list"

definition fan_init :: fan where
  "fan_init = \<lparr>fs_next = 0, fs_pc = AtTop, fs_active = [], fs_stopped = False, fs_result = no_items, fs_finished = []\<rparr>"

definition fan_start :: "fan \<Rightarrow> bool" where
  "fan_start s \<longleftrightarrow> s = fan_init"

text \<open>
  One item goroutine's end: the counters under the lock, the flag, and the slot it held.
\<close>

definition finish_item :: "(nat \<Rightarrow> bool) \<Rightarrow> bool \<Rightarrow> nat \<Rightarrow> nat list \<Rightarrow> fan \<Rightarrow> fan" where
  "finish_item ok failFast i rest s =
     (let fr = fs_result s in
      s\<lparr>fs_active := rest, fs_finished := fs_finished s @ [i],
        fs_result := (if ok i then fr\<lparr>fe_passed := fe_passed fr + 1\<rparr> else fr\<lparr>fe_failed := fe_failed fr + 1\<rparr>),
        fs_stopped := (fs_stopped s \<or> \<not> ok i \<and> failFast)\<rparr>)"

inductive fan_step :: "(nat \<Rightarrow> bool) \<Rightarrow> bool \<Rightarrow> nat \<Rightarrow> nat \<Rightarrow> fan \<Rightarrow> fan \<Rightarrow> bool" for ok failFast cap n where
  break_top: "fs_pc s = AtTop \<Longrightarrow> fs_next s < n \<Longrightarrow> failFast \<Longrightarrow> fs_stopped s \<Longrightarrow> fan_step ok failFast cap n s (s\<lparr>fs_pc := Ended\<rparr>)"
| acquire: "fs_pc s = AtTop \<Longrightarrow> fs_next s < n \<Longrightarrow> \<not> (failFast \<and> fs_stopped s) \<Longrightarrow> length (fs_active s) < cap
    \<Longrightarrow> fan_step ok failFast cap n s (s\<lparr>fs_pc := HasSlot\<rparr>)"
| break_slot: "fs_pc s = HasSlot \<Longrightarrow> failFast \<Longrightarrow> fs_stopped s \<Longrightarrow> fan_step ok failFast cap n s (s\<lparr>fs_pc := Ended\<rparr>)"
| launch_item: "fs_pc s = HasSlot \<Longrightarrow> \<not> (failFast \<and> fs_stopped s)
    \<Longrightarrow> fan_step ok failFast cap n s (s\<lparr>fs_pc := AtTop, fs_active := fs_active s @ [fs_next s], fs_next := fs_next s + 1\<rparr>)"
| exhausted: "fs_pc s = AtTop \<Longrightarrow> fs_next s \<ge> n \<Longrightarrow> fan_step ok failFast cap n s (s\<lparr>fs_pc := Ended\<rparr>)"
| item_done: "fs_active s = as @ i # bs \<Longrightarrow> fan_step ok failFast cap n s (finish_item ok failFast i (as @ bs) s)"

inductive_cases fan_stepE: "fan_step ok failFast cap n s s'"

text \<open>\<open>wg.Wait\<close> returns when the loop has ended and no goroutine is left.\<close>

definition fan_over :: "fan \<Rightarrow> bool" where
  "fan_over s \<longleftrightarrow> fs_pc s = Ended \<and> fs_active s = []"

section \<open>The invariant\<close>

definition fan_inv :: "(nat \<Rightarrow> bool) \<Rightarrow> bool \<Rightarrow> nat \<Rightarrow> nat \<Rightarrow> fan \<Rightarrow> bool" where
  "fan_inv ok failFast cap n s \<longleftrightarrow>
     distinct (fs_active s @ fs_finished s) \<and> set (fs_active s @ fs_finished s) = {0..<fs_next s}
     \<and> fs_next s \<le> n \<and> (fs_pc s = HasSlot \<longrightarrow> fs_next s < n)
     \<and> length (fs_active s) + (if fs_pc s = HasSlot then 1 else 0) \<le> cap
     \<and> fe_passed (fs_result s) = count_if ok (fs_finished s)
     \<and> fe_failed (fs_result s) = count_if (\<lambda>i. \<not> ok i) (fs_finished s)
     \<and> (fs_stopped s \<longleftrightarrow> failFast \<and> 0 < fe_failed (fs_result s))
     \<and> (fs_pc s = Ended \<longrightarrow> fs_next s = n \<or> fs_stopped s)"

lemma fan_step_inv:
  assumes inv: "fan_inv ok failFast cap n s" and step: "fan_step ok failFast cap n s s'"
  shows "fan_inv ok failFast cap n s'"
  using step
proof cases
  case launch_item
  have "set (fs_active s @ fs_finished s) = {0..<fs_next s}" "distinct (fs_active s @ fs_finished s)" using inv by (simp_all add: fan_inv_def)
  then have "set (fs_active s @ [fs_next s] @ fs_finished s) = {0..<fs_next s + 1}" "distinct (fs_active s @ [fs_next s] @ fs_finished s)" by auto
  with launch_item inv show ?thesis by (simp add: fan_inv_def)
next
  case (item_done as i bs)
  have "set (as @ bs @ fs_finished s @ [i]) = set (fs_active s @ fs_finished s)"
    "distinct (as @ bs @ fs_finished s @ [i]) = distinct (fs_active s @ fs_finished s)" using item_done(2) by auto
  with item_done inv show ?thesis by (auto simp: fan_inv_def finish_item_def Let_def)
qed (use inv in \<open>auto simp: fan_inv_def\<close>)

interpretation fan_out: invariant_of fan_start "fan_step ok failFast cap n" "fan_inv ok failFast cap n" for ok failFast cap n
proof
  show "fan_inv ok failFast cap n s" if "fan_start s" for s using that by (simp add: fan_start_def fan_init_def fan_inv_def no_items_def)
  show "fan_inv ok failFast cap n s'" if "fan_inv ok failFast cap n s" "fan_step ok failFast cap n s s'" for s s'
    using fan_step_inv that by blast
qed

section \<open>Progress\<close>

definition fan_left :: "nat \<Rightarrow> fan \<Rightarrow> nat" where
  "fan_left n s = 3 * (n - fs_next s) + length (fs_active s) + (case fs_pc s of AtTop \<Rightarrow> 2 | HasSlot \<Rightarrow> 1 | Ended \<Rightarrow> 0)"

lemma fan_step_less:
  assumes "fan_inv ok failFast cap n s" "fan_step ok failFast cap n s s'"
  shows "fan_left n s' < fan_left n s"
  using assms(2,1) by cases (auto simp: fan_left_def fan_inv_def finish_item_def Let_def)

lemma fan_progress:
  assumes "fan_inv ok failFast cap n s" "\<not> fan_over s" "0 < cap"
  shows "\<exists>s'. fan_step ok failFast cap n s s'"
proof (cases "fs_active s")
  case (Cons i bs)
  then show ?thesis using item_done [of s "[]" i bs ok failFast cap n] by auto
next
  case Nil
  then have "fs_pc s \<noteq> Ended" using assms(2) by (simp add: fan_over_def)
  then show ?thesis
  proof (cases "fs_pc s")
    case AtTop
    show ?thesis
    proof (cases "fs_next s < n")
      case True
      show ?thesis
      proof (cases "failFast \<and> fs_stopped s")
        case False
        from acquire [OF AtTop True False] Nil assms(3) show ?thesis by auto
      qed (use break_top [OF AtTop True] in blast)
    next
      case False
      then show ?thesis using exhausted [OF AtTop] by (meson not_less)
    qed
  next
    case HasSlot
    then show ?thesis using break_slot launch_item by blast
  qed simp
qed

section \<open>The sequential loop\<close>

lemma run_items_all:
  "run_items ok False is fr = fr\<lparr>fe_passed := fe_passed fr + count_if ok is, fe_failed := fe_failed fr + count_if (\<lambda>i. \<not> ok i) is\<rparr>"
  by (induction "is" arbitrary: fr) (auto simp: Let_def)

lemma run_items_failed: "0 < fe_failed fr \<Longrightarrow> 0 < fe_failed (run_items ok failFast is fr)"
  by (induction "is" arbitrary: fr) (auto simp: Let_def)

lemma run_items_success: "fe_failed fr = 0 \<Longrightarrow> fe_failed (run_items ok failFast is fr) = 0 \<longleftrightarrow> list_all ok is"
  by (induction "is" arbitrary: fr) (auto simp: Let_def intro: run_items_failed)

lemma count_if_same_set: "distinct xs \<Longrightarrow> distinct ys \<Longrightarrow> set xs = set ys \<Longrightarrow> count_if P xs = count_if P ys"
proof -
  assume "distinct xs" "distinct ys" "set xs = set ys"
  moreover have "count_if P zs = card (set zs \<inter> {z. P z})" if "distinct zs" for zs
    using that by (induction zs) auto
  ultimately show ?thesis by simp
qed

lemma fan_result:
  assumes inv: "fan_inv ok failFast cap n s" and over: "fan_over s"
  shows "fe_failed (fs_result s) = 0 \<longleftrightarrow> list_all ok [0..<n]"
    and "\<not> failFast \<Longrightarrow> fs_result s = run_items ok failFast [0..<n] no_items"
proof -
  have fin: "distinct (fs_finished s)" "set (fs_finished s) = {0..<fs_next s}" "fs_next s \<le> n" and st: "fs_next s = n \<or> fs_stopped s"
    and stop: "fs_stopped s \<longleftrightarrow> failFast \<and> 0 < fe_failed (fs_result s)"
    and cnt: "fe_passed (fs_result s) = count_if ok (fs_finished s)" "fe_failed (fs_result s) = count_if (\<lambda>i. \<not> ok i) (fs_finished s)"
    using inv over by (auto simp: fan_inv_def fan_over_def)
  show "fe_failed (fs_result s) = 0 \<longleftrightarrow> list_all ok [0..<n]"
  proof
    assume "fe_failed (fs_result s) = 0"
    with st stop have "fs_next s = n" by simp
    with \<open>fe_failed (fs_result s) = 0\<close> cnt(2) fin(2) show "list_all ok [0..<n]" by (auto simp: count_if_0_iff list_all_iff)
  next
    assume "list_all ok [0..<n]"
    then show "fe_failed (fs_result s) = 0" using cnt(2) fin(2,3) by (auto simp: count_if_0_iff list_all_iff)
  qed
  assume "\<not> failFast"
  with st stop have n: "fs_next s = n" by simp
  then have "count_if P (fs_finished s) = count_if P [0..<n]" for P using fin by (intro count_if_same_set) auto
  with \<open>\<not> failFast\<close> cnt show "fs_result s = run_items ok failFast [0..<n] no_items"
    by (cases "fs_result s") (simp add: run_items_all no_items_def)
qed

section \<open>Properties\<close>

text \<open>
  C25. However the item goroutines interleave, a concurrent foreach that is over has the verdict of the
  sequential one: it succeeds exactly when every item passes. Without fail-fast it has run every item exactly once and its whole result is the
  sequential result.
\<close>

theorem foreach_modes_agree:
  assumes "ok = item_ok lib exec (sid s) inner as items" "n = length items" "failFast = FailFast (flds s)"
    and "reachable fan_start (fan_step ok failFast cap n) st" "fan_over st"
  shows "(sr_Success (foreachStepResult (sid s) (fs_result st)) \<longleftrightarrow> sr_Success (executeForeachSequential lib exec s inner as items))
    \<and> (sr_Success (foreachStepResult (sid s) (fs_result st)) \<longleftrightarrow> (\<forall>i<n. ok i))
    \<and> distinct (fs_finished st)
    \<and> (failFast \<or> set (fs_finished st) = {0..<n} \<and> foreachStepResult (sid s) (fs_result st) = executeForeachSequential lib exec s inner as items)"
proof -
  have inv: "fan_inv ok failFast cap n st" using fan_out.inv_reachable [OF assms(4)] .
  note res = fan_result [OF inv assms(5)]
  have "set (fs_finished st) = {0..<n}" if "\<not> failFast"
    using inv assms(5) that by (auto simp: fan_inv_def fan_over_def)
  moreover have "distinct (fs_finished st)" using inv by (simp add: fan_inv_def)
  moreover have "fe_failed (run_items ok failFast [0..<n] no_items) = 0 \<longleftrightarrow> list_all ok [0..<n]"
    by (rule run_items_success) (simp add: no_items_def)
  ultimately show ?thesis using res by (auto simp: executeForeachSequential_def assms(1-3) foreachStepResult_def list_all_iff)
qed


text \<open>Two items, of which the second fails, run with a cap of two and finished in the other order.\<close>

definition ex_fan :: "nat \<Rightarrow> bool" where "ex_fan i \<longleftrightarrow> i = 0"

definition ex_fan_over :: fan where
  "ex_fan_over = \<lparr>fs_next = 2, fs_pc = Ended, fs_active = [], fs_stopped = False,
     fs_result = \<lparr>fe_passed = 1, fe_failed = 1\<rparr>, fs_finished = [1, 0]\<rparr>"

lemma ex_fan_reachable: "reachable fan_start (fan_step ex_fan False 2 2) ex_fan_over"
proof -
  let ?T = "fan_step ex_fan False 2 2" and ?s0 = fan_init
  let ?s1 = "?s0\<lparr>fs_pc := HasSlot\<rparr>"
  let ?s2 = "?s1\<lparr>fs_pc := AtTop, fs_active := fs_active ?s1 @ [fs_next ?s1], fs_next := fs_next ?s1 + 1\<rparr>"
  let ?s3 = "?s2\<lparr>fs_pc := HasSlot\<rparr>"
  let ?s4 = "?s3\<lparr>fs_pc := AtTop, fs_active := fs_active ?s3 @ [fs_next ?s3], fs_next := fs_next ?s3 + 1\<rparr>"
  let ?s5 = "finish_item ex_fan False 1 ([0] @ []) ?s4"
  let ?s6 = "?s5\<lparr>fs_pc := Ended\<rparr>"
  let ?s7 = "finish_item ex_fan False 0 ([] @ []) ?s6"
  have "reachable fan_start ?T ?s0" by (rule reachable_init) (simp add: fan_start_def)
  then have "reachable fan_start ?T ?s1" by (rule reachable_step) (rule acquire, simp_all add: fan_init_def)
  then have "reachable fan_start ?T ?s2" by (rule reachable_step) (rule launch_item, simp_all)
  then have "reachable fan_start ?T ?s3" by (rule reachable_step) (rule acquire, simp_all add: fan_init_def)
  then have "reachable fan_start ?T ?s4" by (rule reachable_step) (rule launch_item, simp_all)
  then have "reachable fan_start ?T ?s5" by (rule reachable_step) (rule item_done, simp add: fan_init_def)
  then have "reachable fan_start ?T ?s6" by (rule reachable_step) (rule exhausted, simp_all add: finish_item_def Let_def fan_init_def)
  then have "reachable fan_start ?T ?s7" by (rule reachable_step) (rule item_done, simp add: finish_item_def Let_def)
  then show ?thesis by (simp add: finish_item_def Let_def fan_init_def ex_fan_over_def ex_fan_def no_items_def numeral_2_eq_2)
qed

definition ex_items :: "gval list" where "ex_items = [GStr ''a'', GStr ''b'']"

definition ex_exec :: "step_config \<Rightarrow> step_result" where
  "ex_exec s = (ex_result [])\<lparr>sr_Success := (Prompt (flds s) = ''do a'')\<rparr>"

definition ex_foreach :: step_config where
  "ex_foreach = Step (zero_fields\<lparr>ID := ''f'', Type := ''foreach''\<rparr>) [] [] (Some (Step (zero_fields\<lparr>Prompt := ''do {{ item }}''\<rparr>) [] [] None))"

theorem foreach_modes_agree_witness:
  "foreachStepResult ''f'' (fs_result ex_fan_over)
   = executeForeachSequential ex_lib ex_exec ex_foreach (the (InnerStep ex_foreach)) ''item'' ex_items"
proof -
  let ?ok = "item_ok ex_lib ex_exec (sid ex_foreach) (the (InnerStep ex_foreach)) ''item'' ex_items"
  have two: "?ok 0" "\<not> ?ok 1" "length ex_items = 2" "FailFast (flds ex_foreach) = False" "sid ex_foreach = ''f''" by code_simp+
  have same: "fan_step ?ok False 2 2 s s'" if "fan_step ex_fan False 2 2 s s'" "fan_inv ex_fan False 2 2 s" for s s'
    using that
  proof cases
    case (item_done as i bs)
    then have "i \<in> set (fs_active s @ fs_finished s)" by simp
    moreover have "set (fs_active s @ fs_finished s) = {0..<fs_next s}" "fs_next s \<le> 2" using that(2) by (simp_all add: fan_inv_def)
    ultimately have "i < 2" by (metis atLeastLessThan_iff less_le_trans)
    then have "ex_fan i = ?ok i" using two(1,2) by (cases i) (auto simp: ex_fan_def less_2_cases_iff)
    then show ?thesis using fan_step.item_done [OF item_done(2), of ?ok False 2 2] item_done(1) by (simp add: finish_item_def)
  next
    case launch_item
    show ?thesis unfolding launch_item(1) using launch_item(2,3) by (rule fan_step.launch_item)
  qed (auto intro: fan_step.intros)
  have "reachable fan_start (fan_step ?ok False 2 2) s" if "reachable fan_start (fan_step ex_fan False 2 2) s" for s
    using that
  proof induction
    case (reachable_init s)
    then show ?case by (rule reachable.reachable_init)
  next
    case (reachable_step s s')
    then show ?case using same fan_out.inv_reachable by (meson reachable.reachable_step)
  qed
  then have r: "reachable fan_start (fan_step ?ok False 2 2) ex_fan_over" using ex_fan_reachable by blast
  have over: "fan_over ex_fan_over" by (simp add: fan_over_def ex_fan_over_def)
  from foreach_modes_agree [OF refl two(3) [symmetric] two(4) [symmetric] r over] two(5) show ?thesis by simp
qed


end
