(* ===== verification/Approval_Gate.thy ===== *)
theory Approval_Gate
  imports Parking "HOL-Library.AList"
begin

text \<open>
  Answering an approval gate (\<open>internal/workflow/approval.go\<close>): the triggers a source item can satisfy, the periodic re-check of a parked
  gate with its reminder, escalation and timeout, and the two ways an answer reaches the run, from the source and from a person.
  The store is \<open>Approval_Store\<close>, the parked set \<open>Parking\<close>. The source bindings of the run are polled in order; \<open>polls\<close> is what each poll
  returns, \<open>None\<close> for an error. Events and notifications change no state and are left out.
\<close>

section \<open>Triggers\<close>

definition commentContains :: "source_item \<Rightarrow> string \<Rightarrow> bool" where
  "commentContains cell sub = list_ex (\<lambda>c. str_contains (to_lower (cm_Body c)) (to_lower sub)) (si_Comments cell)"

definition labelPresent :: "source_item \<Rightarrow> string \<Rightarrow> bool" where
  "labelPresent cell label = list_ex (\<lambda>l. equal_fold l label) (si_Labels cell)"

definition matchApprovalTrigger :: "approval_trigger \<Rightarrow> source_item \<Rightarrow> bool" where
  "matchApprovalTrigger t cell \<longleftrightarrow>
     at_CommentContains t \<noteq> [] \<and> commentContains cell (at_CommentContains t)
     \<or> at_LabelAdded t \<noteq> [] \<and> labelPresent cell (at_LabelAdded t)
     \<or> at_StateChanged t \<noteq> [] \<and> equal_fold (si_State cell) (at_StateChanged t)"

definition EvaluateApproval :: "step_config \<Rightarrow> source_item \<Rightarrow> approval_decision" where
  "EvaluateApproval s cell =
     (if Approvers (flds s) \<noteq> [] then ApprovalWait
      else if (case ResumeOn (flds s) of None \<Rightarrow> False | Some t \<Rightarrow> matchApprovalTrigger t cell) then ApprovalResume
      else if (case AbortOn (flds s) of None \<Rightarrow> False | Some t \<Rightarrow> matchApprovalTrigger t cell) then ApprovalAbort
      else ApprovalWait)"

section \<open>The periodic re-check\<close>

text \<open>The first binding whose item decides; an item that cannot be polled is skipped.\<close>

fun first_decision :: "step_config \<Rightarrow> source_item option list \<Rightarrow> approval_decision" where
  "first_decision s [] = ApprovalWait"
| "first_decision s (None # polls) = first_decision s polls"
| "first_decision s (Some item # polls) =
     (if EvaluateApproval s item \<noteq> ApprovalWait then EvaluateApproval s item else first_decision s polls)"

definition due :: "duration_lib \<Rightarrow> string \<Rightarrow> time \<Rightarrow> time \<Rightarrow> bool" where
  "due pd raw now parkedAt \<longleftrightarrow> raw \<noteq> [] \<and> (case pd raw of None \<Rightarrow> False | Some after \<Rightarrow> now - parkedAt \<ge> after)"

definition with_request :: "(string \<Rightarrow> approval_db \<Rightarrow> bool \<times> approval_db) \<Rightarrow> string \<Rightarrow> approval_db \<Rightarrow> approval_db" where
  "with_request act inst d = (case GetApprovalByInstance inst d of None \<Rightarrow> d | Some req \<Rightarrow> snd (act (ar_ID req) d))"

definition timed_out :: "duration_lib \<Rightarrow> step_config \<Rightarrow> time \<Rightarrow> time \<Rightarrow> bool" where
  "timed_out pd s now parkedAt \<longleftrightarrow> ParsedTimeout pd s > 0 \<and> now - parkedAt \<ge> ParsedTimeout pd s"

definition RecheckApproval ::
  "duration_lib \<Rightarrow> faults \<Rightarrow> time \<Rightarrow> string \<Rightarrow> source_item option list \<Rightarrow> engine \<Rightarrow> approval_db \<Rightarrow> approval_decision \<times> engine \<times> approval_db" where
  "RecheckApproval pd f now inst polls e d =
     (case e_parked e inst of
        None \<Rightarrow> (ApprovalWait, e, d)
      | Some a \<Rightarrow>
          (let (ok, e1) = stillParkedLocked f a e; r = e_heap e a; s = step_of r (r_waitingStep r); at = r_parkedAt r in
           if \<not> ok \<or> StepType s \<noteq> StepTypeApproval then (ApprovalWait, e1, d)
           else
             let d1 = (if due pd (RemindAfter (flds s)) now at then with_request (MarkApprovalReminded now) inst d else d);
                 d2 = (if due pd (EscalateAfter (flds s)) now at then with_request (EscalateApproval now) inst d1 else d1) in
             if timed_out pd s now at then (ApprovalAbort, e1, with_request (MarkApprovalTimedOut now) inst d2)
             else (first_decision s polls, e1, d2)))"

section \<open>An answer from the source\<close>

definition decision_name :: "approval_decision \<Rightarrow> string" where
  "decision_name decision = (if decision = ApprovalAbort then ''reject'' else ''approve'')"

definition source_response :: "string \<Rightarrow> approval_decision \<Rightarrow> approval_response" where
  "source_response inst decision =
     \<lparr>rp_Decision = decision_name decision, rp_Actor = ''source-trigger'', rp_Approver = [], rp_Channel = ''source'',
      rp_IdempotencyKey = ''source:'' @ inst @ '':'' @ decision_name decision, rp_Feedback = [], rp_Values = []\<rparr>"

text \<open>What \<open>ResolveApproval\<close> does with the store before it touches the run: an error, nothing, or a response to apply.\<close>

datatype resolution = StoreError approval_error | StayParked | Apply approval_response

definition stored_response :: "approval_response \<Rightarrow> approval_request \<Rightarrow> approval_response" where
  "stored_response resp q =
     resp\<lparr>rp_Decision := (if ar_Status q = ApprovalApproved then ''approve'' else ''reject''), rp_Actor := ar_RespondedBy q,
          rp_Channel := ar_ResponseChannel q, rp_Feedback := ar_Feedback q, rp_Values := ar_Values q\<rparr>"

definition ResolveApproval :: "time \<Rightarrow> string \<Rightarrow> approval_decision \<Rightarrow> approval_db \<Rightarrow> resolution \<times> approval_db" where
  "ResolveApproval now inst decision d =
     (let resp = source_response inst decision in
      case GetApprovalByInstance inst d of
        None \<Rightarrow> (Apply resp, d)
      | Some req \<Rightarrow>
          (case ResolveApprovalRequest now (ar_ID req) resp d of
             Inl err \<Rightarrow> (StoreError err, d)
           | Inr ((stored, won), d') \<Rightarrow>
               (case stored of
                  Some q \<Rightarrow> if won then (Apply resp, d') else if unresolved q then (StayParked, d') else (Apply (stored_response resp q), d')
                | None \<Rightarrow> (Apply resp, d'))))"

section \<open>Applying a response\<close>

definition response_decision :: "approval_response \<Rightarrow> approval_decision" where
  "response_decision resp =
     (if equal_fold (rp_Decision resp) ''reject'' \<or> equal_fold (rp_Decision resp) ''rejected'' then ApprovalAbort else ApprovalResume)"

definition approval_contrib :: "string \<Rightarrow> approval_response \<Rightarrow> memory_step" where
  "approval_contrib stepID resp =
     \<lparr>ms_StepID = stepID, ms_WriteFields = [''approval_decision'', ''approval_feedback''] @ map fst (rp_Values resp),
      ms_Structured = fold (\<lambda>(k, v). AList.update k v) (rp_Values resp)
        [(''approval_decision'', GStr (if response_decision resp = ApprovalAbort then ''abort'' else ''resume'')), (''approval_feedback'', GStr (rp_Feedback resp))],
      ms_Summary = rp_Feedback resp\<rparr>"

text \<open>The claimed run with the answer recorded, ready for the scheduler; \<open>None\<close> when the instance is not parked.\<close>

definition ResolveApprovalResponse :: "faults \<Rightarrow> string \<Rightarrow> approval_response \<Rightarrow> engine \<Rightarrow> nat option \<times> engine" where
  "ResolveApprovalResponse f inst resp e =
     (case claimParked f inst e of
        (None, e1) \<Rightarrow> (None, e1)
      | (Some a, e1) \<Rightarrow>
          let r = e_heap e1 a; stepID = r_waitingStep r;
              r1 = r\<lparr>r_contrib := (r_contrib r)(stepID \<mapsto> approval_contrib stepID resp)\<rparr>
          in (Some a, e1\<lparr>e_heap := (e_heap e1)(a := resolveApproval (response_decision resp) r1)\<rparr>))"

section \<open>Facts\<close>

lemma first_decision_resume:
  "first_decision s polls = ApprovalResume \<Longrightarrow>
     \<exists>item. Some item \<in> set polls \<and> EvaluateApproval s item = ApprovalResume"
  by (induction s polls rule: first_decision.induct) (auto split: if_splits)

lemma EvaluateApproval_resume:
  "EvaluateApproval s item = ApprovalResume \<longleftrightarrow> Approvers (flds s) = [] \<and> (\<exists>t. ResumeOn (flds s) = Some t \<and> matchApprovalTrigger t item)"
  by (auto simp: EvaluateApproval_def split: option.splits)

lemma find_request:
  assumes "approval_inv d" "GetApprovalByInstance inst d = Some req"
  shows "GetApprovalRequest (ar_ID req) d = Some req" "ar_Instance req = inst"
proof -
  have "req \<in> set (filter (\<lambda>q. ar_Instance q = inst) (db_requests d))"
    using assms(2) last_by_Some(1) by (fastforce simp: GetApprovalByInstance_def)
  then have req: "req \<in> set (db_requests d)" "ar_Instance req = inst" by auto
  then show "ar_Instance req = inst" by simp
  have "find (\<lambda>q. ar_ID q = ar_ID req) (db_requests d) \<noteq> None" using req by (auto simp: find_None_iff)
  then obtain q where q: "GetApprovalRequest (ar_ID req) d = Some q" by (auto simp: GetApprovalRequest_def)
  then have "q \<in> set (db_requests d)" "ar_ID q = ar_ID req" using GetApprovalRequest_Some by auto
  with q same_id_same_row [OF assms(1)] req(1) show "GetApprovalRequest (ar_ID req) d = Some req" by metis
qed

lemma source_decision [simp]:
  "decision_status (decision_name decision) = (if decision = ApprovalAbort then ApprovalRejected else ApprovalApproved)"
  "response_decision (source_response inst decision) = (if decision = ApprovalAbort then ApprovalAbort else ApprovalResume)"
  "response_decision (stored_response resp q) = (if ar_Status q = ApprovalApproved then ApprovalResume else ApprovalAbort)"
proof -
  have c: "equal_fold ''reject'' ''reject''" "\<not> equal_fold ''approve'' ''reject''" "\<not> equal_fold ''approve'' ''rejected''" by code_simp+
  then show "decision_status (decision_name decision) = (if decision = ApprovalAbort then ApprovalRejected else ApprovalApproved)"
    "response_decision (source_response inst decision) = (if decision = ApprovalAbort then ApprovalAbort else ApprovalResume)"
    "response_decision (stored_response resp q) = (if ar_Status q = ApprovalApproved then ApprovalResume else ApprovalAbort)"
    by (simp_all add: decision_status_def decision_name_def response_decision_def source_response_def stored_response_def)
qed

lemma updated_request:
  assumes "GetApprovalRequest i d = Some q" "\<And>q. ar_ID (g q) = ar_ID q"
  shows "GetApprovalRequest i (snd (update_where P g d)) = Some (if P q then g q else q)"
proof -
  have "find (\<lambda>q. ar_ID q = i) (map (\<lambda>q. if P q then g q else q) xs) = map_option (\<lambda>q. if P q then g q else q) (find (\<lambda>q. ar_ID q = i) xs)" for xs
    using assms(2) by (induction xs) auto
  with assms(1) show ?thesis by (simp add: GetApprovalRequest_def update_where_def)
qed

section \<open>Properties\<close>

text \<open>
  C27. The source of a task can resume a gate only within its authority: a re-check answers resume only for
  a gate that is parked, names no approvers, has not timed out, and whose declared resume trigger matches the live state of one of the
  task's items. A gate that names approvers, or declares no trigger, waits for a person or its timeout.
\<close>

theorem source_authority:
  assumes "RecheckApproval pd f now inst polls e d = (ApprovalResume, e', d')"
  shows "\<exists>a t item. e_parked e inst = Some a \<and> StepType (step_of (e_heap e a) (r_waitingStep (e_heap e a))) = StepTypeApproval
     \<and> \<not> IsOperatorGate (step_of (e_heap e a) (r_waitingStep (e_heap e a)))
     \<and> Approvers (flds (step_of (e_heap e a) (r_waitingStep (e_heap e a)))) = []
     \<and> ResumeOn (flds (step_of (e_heap e a) (r_waitingStep (e_heap e a)))) = Some t
     \<and> Some item \<in> set polls \<and> matchApprovalTrigger t item
     \<and> \<not> timed_out pd (step_of (e_heap e a) (r_waitingStep (e_heap e a))) now (r_parkedAt (e_heap e a))"
proof -
  from assms obtain a where a: "e_parked e inst = Some a" by (auto simp: RecheckApproval_def split: option.splits)
  let ?s = "step_of (e_heap e a) (r_waitingStep (e_heap e a))"
  have s: "StepType ?s = StepTypeApproval" "\<not> timed_out pd ?s now (r_parkedAt (e_heap e a))" "first_decision ?s polls = ApprovalResume"
    using assms a by (auto simp: RecheckApproval_def Let_def split: prod.splits if_splits)
  from first_decision_resume [OF s(3)] obtain item where i: "Some item \<in> set polls" "EvaluateApproval ?s item = ApprovalResume" by blast
  then obtain t where t: "Approvers (flds ?s) = []" "ResumeOn (flds ?s) = Some t" "matchApprovalTrigger t item"
    by (auto simp: EvaluateApproval_resume)
  then have "\<not> IsOperatorGate ?s" by (auto simp: IsOperatorGate_def Trigger_IsEmpty_def matchApprovalTrigger_def)
  with a s i t show ?thesis by blast
qed


text \<open>
  A gate that a loop re-enters can be approved by the source once only: the idempotency key of the source's answer names the
  instance and the decision but not the request, so once it is on record every later approval by the source is refused as a repetition. The
  store and the parked run stay as they are, at every time.
\<close>

theorem second_lap_stuck:
  assumes "reachable (\<lambda>d. d = empty_db) approval_step d" "GetApprovalByInstance inst d = Some req" "unresolved req"
    and "w \<in> set (db_responses d)" "rp_IdempotencyKey (rr_Response w) = ''source:'' @ inst @ '':approve''"
  shows "ResolveApproval now inst ApprovalResume d = (StayParked, d)"
proof -
  have inv: "approval_inv d" using approvals.inv_reachable [OF assms(1)] .
  have req: "GetApprovalRequest (ar_ID req) d = Some req" using find_request [OF inv assms(2)] by simp
  have "response_clash (ar_ID req) (effective_row (source_response inst ApprovalResume)) d"
    using assms(4,5) by (auto simp: response_clash_def list_ex_iff effective_row_def source_response_def decision_name_def)
  then have "ResolveApprovalRequest now (ar_ID req) (source_response inst ApprovalResume) d = Inr ((Some req, False), d)"
    using req assms(3) unfolding ResolveApprovalRequest_def Let_def effective_row_def [symmetric] by (simp add: source_response_def)
  with assms(2,3) show ?thesis by (simp add: ResolveApproval_def Let_def)
qed

section \<open>Witnesses\<close>

text \<open>A gate without approvers, approved by the source in its first lap and entered again.\<close>

definition ex_lap_request :: approval_request where
  "ex_lap_request = ex_request\<lparr>ar_Approvers := [], ar_Required := 1\<rparr>"

definition ex_lap1 :: approval_db where
  "ex_lap1 = snd (projr (CreateApprovalRequest 5 ex_lap_request empty_db))"

definition ex_lap1_done :: approval_db where
  "ex_lap1_done = snd (projr (ResolveApprovalRequest 6 ''i:gate'' (source_response ''i'' ApprovalResume) ex_lap1))"

definition ex_lap2 :: approval_db where
  "ex_lap2 = snd (projr (CreateApprovalRequest 9 (ex_lap_request\<lparr>ar_CreatedAt := 9\<rparr>) ex_lap1_done))"

lemma ex_laps_reachable:
  "reachable (\<lambda>d. d = empty_db) approval_step ex_lap1" "reachable (\<lambda>d. d = empty_db) approval_step ex_lap2"
proof -
  have st: "ar_Status ex_lap_request = []" "ar_Status (ex_lap_request\<lparr>ar_CreatedAt := 9\<rparr>) = []" by (simp_all add: ex_lap_request_def ex_request_def)
  have "\<not> isl (CreateApprovalRequest 5 ex_lap_request empty_db)"
    "\<not> isl (ResolveApprovalRequest 6 ''i:gate'' (source_response ''i'' ApprovalResume) ex_lap1)"
    "\<not> isl (CreateApprovalRequest 9 (ex_lap_request\<lparr>ar_CreatedAt := 9\<rparr>) ex_lap1_done)" by code_simp+
  note s = approval_step.create [OF Inr_projr [OF this(1)] st(1), folded ex_lap1_def] approval_step.resolve [OF Inr_projr [OF this(2)], folded ex_lap1_done_def]
    approval_step.create [OF Inr_projr [OF this(3)] st(2), folded ex_lap2_def]
  have "reachable (\<lambda>d. d = empty_db) approval_step empty_db" by (rule reachable_init) simp
  from reachable_step [OF this s(1)] show "reachable (\<lambda>d. d = empty_db) approval_step ex_lap1" .
  from reachable_step [OF reachable_step [OF this s(2)] s(3)] show "reachable (\<lambda>d. d = empty_db) approval_step ex_lap2" .
qed

theorem second_lap_stuck_witness:
  "ResolveApproval 10 ''i'' ApprovalResume ex_lap2 = (StayParked, ex_lap2)"
proof -
  let ?req = "the (GetApprovalByInstance ''i'' ex_lap2)" and ?w = "hd (db_responses ex_lap2)"
  have "GetApprovalByInstance ''i'' ex_lap2 \<noteq> None" "unresolved ?req" "?w \<in> set (db_responses ex_lap2)"
    "rp_IdempotencyKey (rr_Response ?w) = ''source:'' @ ''i'' @ '':approve''" by code_simp+
  with second_lap_stuck [OF ex_laps_reachable(2), of "''i''" ?req ?w] show ?thesis by simp
qed


text \<open>A parked gate whose resume trigger is a label, on a task whose first source cannot be reached.\<close>

definition ex_gate_trigger :: approval_trigger where
  "ex_gate_trigger = \<lparr>at_CommentContains = [], at_LabelAdded = ''Approved'', at_StateChanged = []\<rparr>"

definition ex_gate_run :: dag_run where
  "ex_gate_run = (initDAG ''i'' \<lparr>wc_ID = ''w'', wc_Steps = [Step (zero_fields\<lparr>ID := ''gate'', Type := ''approval'', ResumeOn := Some ex_gate_trigger\<rparr>) [] [] None]\<rparr>
     ''t'' empty_item [])\<lparr>r_waitingStep := ''gate'', r_parkedAt := 5\<rparr>"

definition ex_gate_engine :: engine where
  "ex_gate_engine = (empty_engine (\<lambda>_. ex_gate_run) [''i'' \<mapsto> (Blocked, ReasonApproval)] (\<lambda>_. 1))\<lparr>e_parked := [''i'' \<mapsto> 0]\<rparr>"

definition ex_gate_item :: source_item where
  "ex_gate_item = empty_item\<lparr>si_Labels := [''bug'', ''approved'']\<rparr>"

theorem source_authority_witness:
  "\<exists>a t item. e_parked ex_gate_engine ''i'' = Some a \<and> Some item \<in> set [None, Some ex_gate_item] \<and> matchApprovalTrigger t item"
proof -
  let ?r = "RecheckApproval (\<lambda>_. None) no_faults 9 ''i'' [None, Some ex_gate_item] ex_gate_engine ex_lap1"
  have "fst ?r = ApprovalResume" by code_simp
  then have "?r = (ApprovalResume, fst (snd ?r), snd (snd ?r))" by (metis prod.collapse)
  from source_authority [OF this] show ?thesis by blast
qed

end
