(* ===== verification/Task_Store.thy ===== *)
theory Task_Store
  imports Lifecycle Model_Types Tables
begin

text \<open>
  The rows that account for the work on a task (\<open>internal/db/task_store.go\<close>, \<open>internal/db/workflow_store.go\<close>): tasks with
  their counter of outstanding workflows and their dispatch generation, and workflow instances stamped with the generation they were
  dispatched in. One statement of the store is one function on the two tables. A nullable text column holds the empty string
  for NULL. The statements accept the state names of older versions beside the present ones, so they are spelled out here too. The last
  part is the repair a starting daemon makes after a crash.
\<close>

section \<open>Tables\<close>

record task_row = internal_task +
  tr_Generation :: int

record instance_rec =
  ir_ID :: string
  ir_Workflow :: string
  ir_Task :: string
  ir_Cell :: string
  ir_Source :: string
  ir_State :: string
  ir_Reason :: string
  ir_Parent :: string
  ir_ResumedFrom :: string
  ir_Generation :: int
  ir_CreatedAt :: time
  ir_UpdatedAt :: time

record work_db =
  w_tasks :: "task_row list"
  w_instances :: "instance_rec list"

section \<open>Tasks\<close>

definition find_task :: "string \<Rightarrow> 'a work_db_scheme \<Rightarrow> task_row option" where
  "find_task i d = find (\<lambda>t. it_ID t = i) (w_tasks d)"

definition update_task :: "string \<Rightarrow> (task_row \<Rightarrow> task_row) \<Rightarrow> 'a work_db_scheme \<Rightarrow> 'a work_db_scheme" where
  "update_task i f d = d\<lparr>w_tasks := update_rows (\<lambda>t. it_ID t = i) f (w_tasks d)\<rparr>"

definition UpdateTaskStateReason :: "time \<Rightarrow> string \<Rightarrow> string \<Rightarrow> string \<Rightarrow> 'a work_db_scheme \<Rightarrow> 'a work_db_scheme" where
  "UpdateTaskStateReason now i st reason d =
     update_task i (\<lambda>t. t\<lparr>it_State := st, it_BlockedReason := reason, it_UpdatedAt := now\<rparr>) d"

definition UpdateTaskState :: "time \<Rightarrow> string \<Rightarrow> string \<Rightarrow> 'a work_db_scheme \<Rightarrow> 'a work_db_scheme" where
  "UpdateTaskState now i st d = UpdateTaskStateReason now i st [] d"

text \<open>A settled task, or one that waits for its retry, is opened again by a new dispatch.\<close>

definition taskReopenable :: "task_row \<Rightarrow> bool" where
  "taskReopenable t \<longleftrightarrow> it_State t \<in> {Done, Failed, Canceled} \<or> it_State t = Blocked \<and> it_BlockedReason t = ReasonRetryBackoff"

definition add_outstanding :: "time \<Rightarrow> int \<Rightarrow> task_row \<Rightarrow> task_row" where
  "add_outstanding now delta t =
     (let reopen = (delta > 0 \<and> taskReopenable t) in
      t\<lparr>it_OutstandingWorkflows := it_OutstandingWorkflows t + delta,
        tr_Generation := (if reopen then tr_Generation t + 1 else tr_Generation t),
        it_State := (if reopen then Running else it_State t),
        it_BlockedReason := (if reopen then [] else it_BlockedReason t),
        it_UpdatedAt := now\<rparr>)"

definition outstanding :: "string \<Rightarrow> 'a work_db_scheme \<Rightarrow> int" where
  "outstanding i d = (case find_task i d of None \<Rightarrow> 0 | Some t \<Rightarrow> it_OutstandingWorkflows t)"

definition IncrementOutstanding :: "time \<Rightarrow> string \<Rightarrow> int \<Rightarrow> 'a work_db_scheme \<Rightarrow> int \<times> 'a work_db_scheme" where
  "IncrementOutstanding now i delta d = (let d' = update_task i (add_outstanding now delta) d in (outstanding i d', d'))"

definition decrement_outstanding :: "time \<Rightarrow> string \<Rightarrow> 'a work_db_scheme \<Rightarrow> int \<times> 'a work_db_scheme" where
  "decrement_outstanding now i d =
     (let d' = update_task i (\<lambda>t. t\<lparr>it_OutstandingWorkflows := max (it_OutstandingWorkflows t - 1) 0, it_UpdatedAt := now\<rparr>) d
      in (outstanding i d', d'))"

definition Generation :: "string \<Rightarrow> 'a work_db_scheme \<Rightarrow> int" where
  "Generation i d = (case find_task i d of None \<Rightarrow> 0 | Some t \<Rightarrow> tr_Generation t)"

definition BumpGeneration :: "time \<Rightarrow> string \<Rightarrow> 'a work_db_scheme \<Rightarrow> int \<times> 'a work_db_scheme" where
  "BumpGeneration now i d =
     (let d' = update_task i (\<lambda>t. t\<lparr>tr_Generation := tr_Generation t + 1, it_UpdatedAt := now\<rparr>) d in (Generation i d', d'))"

section \<open>Instances\<close>

definition GetWorkflowInstance :: "string \<Rightarrow> 'a work_db_scheme \<Rightarrow> instance_rec option" where
  "GetWorkflowInstance i d = find (\<lambda>w. ir_ID w = i) (w_instances d)"

text \<open>The insert stamps the generation of the task; an id that exists is refused.\<close>

definition CreateWorkflowInstance :: "time \<Rightarrow> instance_rec \<Rightarrow> 'a work_db_scheme \<Rightarrow> 'a work_db_scheme option" where
  "CreateWorkflowInstance now inst d =
     (if list_ex (\<lambda>w. ir_ID w = ir_ID inst) (w_instances d) then None
      else Some (d\<lparr>w_instances := w_instances d @
        [inst\<lparr>ir_Generation := Generation (ir_Task inst) d, ir_UpdatedAt := now,
              ir_CreatedAt := (if ir_CreatedAt inst = 0 then now else ir_CreatedAt inst)\<rparr>]\<rparr>))"

definition LeaveQueuedState :: "time \<Rightarrow> string \<Rightarrow> string \<Rightarrow> string \<Rightarrow> 'a work_db_scheme \<Rightarrow> bool \<times> 'a work_db_scheme" where
  "LeaveQueuedState now i newState reason d =
     (let named = (\<lambda>w. ir_ID w = i \<and> ir_State w = Queued) in
      (list_ex named (w_instances d),
       d\<lparr>w_instances := update_rows named (\<lambda>w. w\<lparr>ir_State := newState, ir_Reason := reason, ir_UpdatedAt := now\<rparr>) (w_instances d)\<rparr>))"

definition HasFailedInstance :: "string \<Rightarrow> 'a work_db_scheme \<Rightarrow> bool" where
  "HasFailedInstance i d =
     list_ex (\<lambda>w. ir_Task w = i \<and> ir_State w = Failed \<and> ir_Generation w = Generation i d) (w_instances d)"

text \<open>The failures after the last instance that did not fail, in insertion order.\<close>

definition CountConsecutiveFailedInstances :: "string \<Rightarrow> string \<Rightarrow> 'a work_db_scheme \<Rightarrow> int" where
  "CountConsecutiveFailedInstances i wfID d =
     int (length (takeWhile (\<lambda>w. ir_State w = Failed) (rev (filter (\<lambda>w. ir_Task w = i \<and> ir_Workflow w = wfID) (w_instances d)))))"

definition active_instance :: "instance_rec \<Rightarrow> bool" where
  "active_instance w \<longleftrightarrow> ir_State w \<in> {Running, ''approval_waiting'', ''waiting''} \<or> ir_State w = Blocked \<and> ir_Reason w \<noteq> ReasonInterrupted"

definition HasActiveInstanceForRoute :: "string \<Rightarrow> string \<Rightarrow> 'a work_db_scheme \<Rightarrow> bool" where
  "HasActiveInstanceForRoute i wfID d = list_ex (\<lambda>w. ir_Task w = i \<and> ir_Workflow w = wfID \<and> active_instance w) (w_instances d)"

definition HasCompletedInstanceForRoute :: "string \<Rightarrow> string \<Rightarrow> 'a work_db_scheme \<Rightarrow> bool" where
  "HasCompletedInstanceForRoute i wfID d = list_ex (\<lambda>w. ir_Task w = i \<and> ir_Workflow w = wfID \<and> ir_State w = Done) (w_instances d)"

definition HasResumeDescendant :: "string \<Rightarrow> 'a work_db_scheme \<Rightarrow> bool" where
  "HasResumeDescendant i d = list_ex (\<lambda>w. ir_ResumedFrom w = i) (w_instances d)"

definition ListWorkflowInstancesByTask :: "string \<Rightarrow> 'a work_db_scheme \<Rightarrow> instance_rec list" where
  "ListWorkflowInstancesByTask i d = rev (sort_key ir_CreatedAt (filter (\<lambda>w. ir_Task w = i) (w_instances d)))"

definition legacy_park :: "string \<Rightarrow> string list" where
  "legacy_park r =
     (if r = ReasonApproval then [''approval_waiting''] else if r = ReasonCI \<or> r = ReasonDependency then [''waiting'']
      else if r = ReasonInterrupted then [''interrupted''] else [])"

definition ListWorkflowInstancesBlockedBy :: "string list \<Rightarrow> 'a work_db_scheme \<Rightarrow> instance_rec list" where
  "ListWorkflowInstancesBlockedBy reasons d =
     (if reasons = [] then []
      else sort_key ir_CreatedAt (filter (\<lambda>w. ir_State w = Blocked \<and> ir_Reason w \<in> set reasons
             \<or> ir_State w \<in> set (concat (map legacy_park reasons))) (w_instances d)))"

section \<open>Repair at startup\<close>

definition interrupt_rows :: "time \<Rightarrow> (instance_rec \<Rightarrow> bool) \<Rightarrow> 'a work_db_scheme \<Rightarrow> 'a work_db_scheme" where
  "interrupt_rows now P d =
     d\<lparr>w_instances := update_rows P (\<lambda>w. w\<lparr>ir_State := Blocked, ir_Reason := ReasonInterrupted, ir_UpdatedAt := now\<rparr>) (w_instances d)\<rparr>"

definition ReconcileOrphanWorkflowInstances :: "time \<Rightarrow> 'a work_db_scheme \<Rightarrow> 'a work_db_scheme" where
  "ReconcileOrphanWorkflowInstances now d = interrupt_rows now (\<lambda>w. ir_State w = Running) d"

text \<open>\<open>reserved i\<close> says whether a dispatch job that is not terminal reserved the instance.\<close>

definition ReconcileOrphanQueuedInstances :: "time \<Rightarrow> (string \<Rightarrow> bool) \<Rightarrow> 'a work_db_scheme \<Rightarrow> 'a work_db_scheme" where
  "ReconcileOrphanQueuedInstances now reserved d = interrupt_rows now (\<lambda>w. ir_State w = Queued \<and> \<not> reserved (ir_ID w)) d"

definition live_instance :: "instance_rec \<Rightarrow> bool" where
  "live_instance w \<longleftrightarrow> ir_State w \<in> {Queued, Running, ''pending'', ''approval_waiting'', ''waiting''}
     \<or> ir_State w = Blocked \<and> ir_Reason w \<noteq> ReasonInterrupted"

definition live_count :: "string \<Rightarrow> instance_rec list \<Rightarrow> int" where
  "live_count i ws = int (count_if (\<lambda>w. ir_Task w = i \<and> live_instance w) ws)"

definition settled_task :: "task_row \<Rightarrow> bool" where
  "settled_task t \<longleftrightarrow> it_State t \<in> {Done, Failed, Canceled}"

text \<open>The recount of a task that is not settled, and the settlement of one whose work is over.\<close>

definition recount_task :: "time \<Rightarrow> instance_rec list \<Rightarrow> task_row \<Rightarrow> task_row" where
  "recount_task now ws t =
     (if \<not> settled_task t \<and> it_OutstandingWorkflows t \<noteq> live_count (it_ID t) ws
      then t\<lparr>it_OutstandingWorkflows := live_count (it_ID t) ws, it_UpdatedAt := now\<rparr> else t)"

definition of_round :: "task_row \<Rightarrow> instance_rec \<Rightarrow> bool" where
  "of_round t w \<longleftrightarrow> ir_Task w = it_ID t \<and> ir_Generation w = tr_Generation t"

definition settle_task :: "time \<Rightarrow> instance_rec list \<Rightarrow> task_row \<Rightarrow> task_row" where
  "settle_task now ws t =
     (if it_State t = Running \<and> it_OutstandingWorkflows t = 0
          \<and> list_ex (\<lambda>w. of_round t w \<and> (ir_State w = Done \<or> ir_State w = Failed)) ws
      then t\<lparr>it_State := (if list_ex (\<lambda>w. of_round t w \<and> ir_State w = Failed) ws then Failed else Done), it_UpdatedAt := now\<rparr> else t)"

definition ReconcileOrphanTaskCounters :: "time \<Rightarrow> 'a work_db_scheme \<Rightarrow> 'a work_db_scheme" where
  "ReconcileOrphanTaskCounters now d =
     d\<lparr>w_tasks := map (settle_task now (w_instances d)) (map (recount_task now (w_instances d)) (w_tasks d))\<rparr>"

definition interrupted_instance :: "instance_rec \<Rightarrow> bool" where
  "interrupted_instance w \<longleftrightarrow> ir_State w = ''interrupted'' \<or> ir_State w = Blocked \<and> ir_Reason w = ReasonInterrupted"

definition propagate_task :: "time \<Rightarrow> instance_rec list \<Rightarrow> task_row \<Rightarrow> task_row" where
  "propagate_task now ws t =
     (if it_State t \<notin> {Done, Failed, Canceled, Running} \<and> it_BlockedReason t \<noteq> ReasonInterrupted \<and> it_OutstandingWorkflows t = 0
          \<and> list_ex (\<lambda>w. ir_Task w = it_ID t \<and> interrupted_instance w) ws
          \<and> \<not> list_ex (\<lambda>w. ir_Task w = it_ID t \<and> live_instance w) ws
      then t\<lparr>it_State := Blocked, it_BlockedReason := ReasonInterrupted, it_UpdatedAt := now\<rparr> else t)"

definition PropagateInterruptedToTasks :: "time \<Rightarrow> 'a work_db_scheme \<Rightarrow> 'a work_db_scheme" where
  "PropagateInterruptedToTasks now d = d\<lparr>w_tasks := map (propagate_task now (w_instances d)) (w_tasks d)\<rparr>"

text \<open>The repairs in the order of \<open>Start\<close>; \<open>settle\<close> is the settlement of terminal queue jobs between them.\<close>

definition repair ::
  "time \<Rightarrow> ('a work_db_scheme \<Rightarrow> 'a work_db_scheme) \<Rightarrow> (string \<Rightarrow> bool) \<Rightarrow> 'a work_db_scheme \<Rightarrow> 'a work_db_scheme" where
  "repair now settle reserved d =
     PropagateInterruptedToTasks now (ReconcileOrphanTaskCounters now (ReconcileOrphanQueuedInstances now reserved
       (settle (ReconcileOrphanWorkflowInstances now d))))"

end
