(* ===== verification/Dispatch_Queue.thy ===== *)
theory Dispatch_Queue
  imports Queue_Moves Task_Store Router
begin

text \<open>
  Dispatching through the durable queue (\<open>internal/daemon/queue_dispatch.go\<close>, the start of a run in \<open>internal/workflow/engine.go\<close> and
  \<open>internal/daemon/workflow.go\<close>): a fan-out becomes jobs, a delivered job decides whether it may run and takes an instance, and a terminal
  job is settled against the counter of its task. Tasks and instances are \<open>Task_Store\<close>, jobs \<open>Queue_Store\<close>. The payload of a job
  is JSON; its encoder and decoder are the record \<open>codec\<close>. Failures of the store are the record \<open>store_faults\<close>. Events and log lines
  change no state and are left out.
\<close>

section \<open>State\<close>

record dispatch_db = work_db +
  dd_queue :: queue_db

definition dispatchPayloadVersion :: int where "dispatchPayloadVersion = 1"

record 'w payload =
  pl_Version :: int
  pl_Cell :: source_item
  pl_Task :: internal_task
  pl_Match :: "'w match"

record 'w codec =
  encode :: "'w payload \<Rightarrow> string"
  decode :: "string \<Rightarrow> 'w payload option"
  json_ok :: "string \<Rightarrow> bool"

record store_faults =
  sf_increment :: bool
  sf_generation :: bool
  sf_enqueue :: "string \<Rightarrow> bool"
  sf_decrement :: bool
  sf_query :: bool

definition sound_store :: store_faults where
  "sound_store = \<lparr>sf_increment = False, sf_generation = False, sf_enqueue = (\<lambda>_. False), sf_decrement = False, sf_query = False\<rparr>"

record agent_config =
  ag_ID :: string
  ag_MaxWorkers :: int
  ag_WorkerPool :: string
  ag_RequiresLabels :: "string list"
  ag_RequiresCapabilities :: "string list"
  ag_WorkspaceAffinity :: bool

record dispatcher =
  dp_Workflows :: "workflow_config list"
  dp_Agents :: "agent_config list"
  dp_agentRunner :: "string \<Rightarrow> string"
  dp_project :: string
  dp_MaxAttempts :: int

section \<open>What a job requires of its worker\<close>

definition uniqueStrings :: "string list \<Rightarrow> string list" where
  "uniqueStrings values = sort (remdups (filter (\<lambda>v. v \<noteq> []) (map trim_space values)))"

fun step_agents :: "step_config \<Rightarrow> string list" where
  "step_agents (Step f subs pars inner) =
     (if Agent f \<noteq> [] then [Agent f] else []) @ (case map_option step_agents inner of None \<Rightarrow> [] | Some as \<Rightarrow> as) @ concat (map step_agents pars)"

definition workflowAgentIDs :: "step_config list \<Rightarrow> string list" where
  "workflowAgentIDs steps = concat (map step_agents steps)"

text \<open>Pool, labels, capabilities and affinity key, collected over the agents in order.\<close>

definition require_agent :: "dispatcher \<Rightarrow> string \<Rightarrow> string \<Rightarrow> agent_config \<Rightarrow> string \<times> string list \<times> string list \<times> string
    \<Rightarrow> string \<times> string list \<times> string list \<times> string" where
  "require_agent dp taskID i agent acc =
     (let (pool, labels, capabilities, affinity) = acc in
      if ag_ID agent \<noteq> i then acc
      else (if ag_WorkerPool agent \<noteq> [] then ag_WorkerPool agent else pool, labels @ ag_RequiresLabels agent,
            capabilities @ ag_RequiresCapabilities agent @ (if dp_agentRunner dp i \<noteq> [] then [''runner:'' @ dp_agentRunner dp i] else []),
            if ag_WorkspaceAffinity agent then ''task:'' @ taskID else affinity))"

definition requirementsForMatch :: "dispatcher \<Rightarrow> string \<Rightarrow> 'w match \<Rightarrow> string \<times> string list \<times> string list \<times> string" where
  "requirementsForMatch dp taskID m =
     (let agents = (case find (\<lambda>w. wc_ID w = rc_ID (m_Route m)) (dp_Workflows dp) of
                      None \<Rightarrow> [rc_Agent (m_Route m)] | Some w \<Rightarrow> workflowAgentIDs (wc_Steps w));
          (pool, labels, capabilities, affinity) =
            fold (\<lambda>i. fold (require_agent dp taskID i) (dp_Agents dp)) (uniqueStrings agents) (''default'', [], [], [])
      in (pool, uniqueStrings labels, uniqueStrings (capabilities @ [''apiary.workflow'']), affinity))"

definition hasAllStrings :: "string list \<Rightarrow> string list \<Rightarrow> bool" where
  "hasAllStrings owned need \<longleftrightarrow> (\<forall>v\<in>set need. v \<in> set owned)"

definition jobSatisfiableByAnyWorker :: "job \<Rightarrow> qworker list \<Rightarrow> bool" where
  "jobSatisfiableByAnyWorker j ws =
     list_ex (\<lambda>w. \<not> (q_Pool j \<noteq> [] \<and> q_Pool j \<noteq> wk_Pool w)
       \<and> hasAllStrings (wk_Labels w) (q_Labels j) \<and> hasAllStrings (wk_Capabilities w) (q_Capabilities j)) ws"

section \<open>Enqueueing a fan-out\<close>

definition dispatchIdempotencyKey :: "string \<Rightarrow> int \<Rightarrow> string \<Rightarrow> string \<Rightarrow> string" where
  "dispatchIdempotencyKey taskID generation workflowID nonce =
     taskID @ '':'' @ itoa generation @ '':'' @ workflowID @ (if nonce \<noteq> [] then '':'' @ nonce else [])"

definition isTerminalJobState :: "string \<Rightarrow> bool" where
  "isTerminalJobState s \<longleftrightarrow> s \<in> {JobSucceeded, JobFailed, JobCanceled}"

definition abandonReservation :: "time \<Rightarrow> 'w match \<Rightarrow> dispatch_db \<Rightarrow> dispatch_db" where
  "abandonReservation now m d = (if m_InstanceID m = [] then d else snd (LeaveQueuedState now (m_InstanceID m) Canceled [] d))"

definition rollbackQueuedOutstanding :: "store_faults \<Rightarrow> time \<Rightarrow> string \<Rightarrow> dispatch_db \<Rightarrow> dispatch_db" where
  "rollbackQueuedOutstanding f now taskID d = (if sf_decrement f then d else snd (decrement_outstanding now taskID d))"

definition dispatch_job :: "dispatcher \<Rightarrow> 'w codec \<Rightarrow> int \<Rightarrow> string \<Rightarrow> source_item \<Rightarrow> internal_task \<Rightarrow> 'w match \<Rightarrow> job" where
  "dispatch_job dp c generation nonce cell task m =
     (let (pool, labels, capabilities, affinity) = requirementsForMatch dp (it_ID task) m; route = m_Route m in
      \<lparr>q_ID = [], q_Key = dispatchIdempotencyKey (it_ID task) generation (rc_ID route) nonce, q_Project = dp_project dp,
       q_Source = si_SourceID cell, q_Task = it_ID task, q_Workflow = rc_ID route, q_Agent = rc_Agent route,
       q_Runner = dp_agentRunner dp (rc_Agent route), q_Pool = pool, q_Labels = labels, q_Capabilities = capabilities,
       q_AffinityKey = affinity, q_AffinityWorker = [], q_PayloadVersion = dispatchPayloadVersion,
       q_Payload = encode c \<lparr>pl_Version = dispatchPayloadVersion, pl_Cell = cell, pl_Task = task, pl_Match = m\<rparr>,
       q_Priority = - rc_Priority route, q_State = [], q_Attempts = 0, q_Max = dp_MaxAttempts dp, q_Cancel = False,
       q_AvailableAt = 0, q_LeaseAttempt = None, q_LeaseToken = None, q_LeaseWorker = None, q_LeaseExpires = None,
       q_TerminalAt = None, q_CreatedAt = 0, q_UpdatedAt = 0\<rparr>)"

text \<open>\<open>fresh k\<close> is the random id and the clock reading of the k-th insert.\<close>

fun enqueue_matches ::
  "dispatcher \<Rightarrow> 'w codec \<Rightarrow> store_faults \<Rightarrow> (nat \<Rightarrow> string \<times> time) \<Rightarrow> int \<Rightarrow> string \<Rightarrow> source_item \<Rightarrow> internal_task
     \<Rightarrow> nat \<Rightarrow> 'w match list \<Rightarrow> dispatch_db \<Rightarrow> dispatch_db" where
  "enqueue_matches dp c f fresh generation nonce cell task k [] d = d"
| "enqueue_matches dp c f fresh generation nonce cell task k (m # ms) d =
     (let (newID, now) = fresh k;
          undo = (\<lambda>d. abandonReservation now m (rollbackQueuedOutstanding f now (it_ID task) d));
          d' = (if sf_enqueue f (rc_ID (m_Route m)) then undo d
                else case Enqueue (json_ok c) newID now (dispatch_job dp c generation nonce cell task m) (dd_queue d) of
                  Inl e \<Rightarrow> undo d
                | Inr ((created, existing), q) \<Rightarrow> if created then d\<lparr>dd_queue := q\<rparr> else undo (d\<lparr>dd_queue := q\<rparr>))
      in enqueue_matches dp c f fresh generation nonce cell task (Suc k) ms d')"

definition enqueueFanOut ::
  "dispatcher \<Rightarrow> 'w codec \<Rightarrow> store_faults \<Rightarrow> time \<Rightarrow> (nat \<Rightarrow> string \<times> time) \<Rightarrow> string \<Rightarrow> source_item \<Rightarrow> internal_task \<Rightarrow> 'w match list
     \<Rightarrow> dispatch_db \<Rightarrow> dispatch_db" where
  "enqueueFanOut dp c f now fresh nonce cell task matches d =
     (if sf_increment f then fold (abandonReservation now) matches d
      else let d1 = snd (IncrementOutstanding now (it_ID task) (int (length matches)) d);
               generation = (if sf_generation f then 0 else Generation (it_ID task) d1)
           in enqueue_matches dp c f fresh generation nonce cell task 0 matches d1)"

section \<open>Delivering a job\<close>

definition failed_delivery :: "string \<Rightarrow> bool \<Rightarrow> finish_result" where
  "failed_delivery msg retry = \<lparr>fr_Success = False, fr_Error = msg, fr_Note = [], fr_Retry = retry, fr_RetryAt = None\<rparr>"

definition skipped_delivery :: "string \<Rightarrow> finish_result" where
  "skipped_delivery reason = \<lparr>fr_Success = True, fr_Error = [], fr_Note = ''skipped: '' @ reason, fr_Retry = False, fr_RetryAt = None\<rparr>"

text \<open>\<open>resuming\<close> holds the pairs of task and workflow that startup is resuming.\<close>

definition redeliveryConflict :: "store_faults \<Rightarrow> (string \<Rightarrow> string \<Rightarrow> bool) \<Rightarrow> string \<Rightarrow> string \<Rightarrow> dispatch_db \<Rightarrow> string + string option" where
  "redeliveryConflict f resuming taskID workflowID d =
     (if resuming taskID workflowID then Inr (Some ''the interrupted run is being auto-resumed (resume: auto)'')
      else if sf_query f then Inl ''check live workflow instance''
      else if HasActiveInstanceForRoute taskID workflowID d then Inr (Some ''the workflow already has a live instance for this task'')
      else Inr None)"

text \<open>A delivery ends at once with a result, or runs the payload.\<close>

datatype 'w delivery = Finished finish_result | Runs "'w payload"

definition completed_guard :: "store_faults \<Rightarrow> job \<Rightarrow> 'w payload \<Rightarrow> dispatch_db \<Rightarrow> finish_result option" where
  "completed_guard f j p d =
     (let taskID = it_ID (pl_Task p); route = m_Route (pl_Match p) in
      if taskID \<noteq> [] \<and> (q_Attempts j > 1 \<or> rc_Once route) then
        (if sf_query f then Some (failed_delivery ''check completed workflow'' True)
         else if HasCompletedInstanceForRoute taskID (rc_ID route) d then
           Some (skipped_delivery (if rc_Once route then ''trigger declared once: true and the workflow already completed''
                                   else ''redelivery of an already-completed workflow''))
         else None)
      else None)"

definition live_guard :: "store_faults \<Rightarrow> (string \<Rightarrow> string \<Rightarrow> bool) \<Rightarrow> job \<Rightarrow> 'w payload \<Rightarrow> dispatch_db \<Rightarrow> finish_result option" where
  "live_guard f resuming j p d =
     (let taskID = it_ID (pl_Task p) in
      if taskID \<noteq> [] \<and> q_Attempts j > 1 then
        (case redeliveryConflict f resuming taskID (rc_ID (m_Route (pl_Match p))) d of
           Inl msg \<Rightarrow> Some (failed_delivery msg True)
         | Inr (Some reason) \<Rightarrow> Some (skipped_delivery reason)
         | Inr None \<Rightarrow> None)
      else None)"

text \<open>A reservation that the first attempt used up is dropped, so that the run takes a new row.\<close>

definition spent_reservation :: "job \<Rightarrow> 'w payload \<Rightarrow> dispatch_db \<Rightarrow> bool" where
  "spent_reservation j p d \<longleftrightarrow>
     m_InstanceID (pl_Match p) \<noteq> [] \<and> q_Attempts j > 1
     \<and> (case GetWorkflowInstance (m_InstanceID (pl_Match p)) d of None \<Rightarrow> False | Some w \<Rightarrow> ir_State w \<noteq> Queued \<and> ir_State w \<noteq> Canceled)"

definition ExecuteQueuedJob ::
  "'w codec \<Rightarrow> store_faults \<Rightarrow> (string \<Rightarrow> string \<Rightarrow> bool) \<Rightarrow> job \<Rightarrow> dispatch_db \<Rightarrow> 'w delivery" where
  "ExecuteQueuedJob c f resuming j d =
     (case decode c (q_Payload j) of
        None \<Rightarrow> Finished (failed_delivery ''decode dispatch payload'' False)
      | Some p \<Rightarrow>
          if pl_Version p \<noteq> dispatchPayloadVersion then Finished (failed_delivery (''unsupported dispatch payload version '' @ itoa (pl_Version p)) False)
          else case completed_guard f j p d of Some r \<Rightarrow> Finished r
          | None \<Rightarrow>
              (case live_guard f resuming j p d of Some r \<Rightarrow> Finished r
               | None \<Rightarrow>
                   if m_InstanceID (pl_Match p) \<noteq> [] \<and> q_Attempts j > 1 \<and> sf_query f
                   then Finished (failed_delivery ''read reserved instance'' True)
                   else Runs (if spent_reservation j p d then p\<lparr>pl_Match := (pl_Match p)\<lparr>m_InstanceID := []\<rparr>\<rparr> else p)))"

text \<open>The result reported after the run: a canceled context, a failure, or a success.\<close>

definition run_result :: "string option \<Rightarrow> bool \<Rightarrow> finish_result" where
  "run_result ctxErr success =
     (case ctxErr of
        Some e \<Rightarrow> failed_delivery e False
      | None \<Rightarrow> if \<not> success then failed_delivery ''workflow dispatch failed'' False
                else \<lparr>fr_Success = True, fr_Error = [], fr_Note = [], fr_Retry = False, fr_RetryAt = None\<rparr>)"

section \<open>Taking an instance\<close>

definition createInstance :: "time \<Rightarrow> string \<Rightarrow> string \<Rightarrow> internal_task \<Rightarrow> source_item \<Rightarrow> string \<Rightarrow> dispatch_db \<Rightarrow> dispatch_db option" where
  "createInstance now instID wfID task cell st d =
     CreateWorkflowInstance now \<lparr>ir_ID = instID, ir_Workflow = wfID, ir_Task = it_ID task, ir_Cell = si_ID cell, ir_Source = si_SourceID cell,
       ir_State = st, ir_Reason = [], ir_Parent = [], ir_ResumedFrom = [], ir_Generation = 0, ir_CreatedAt = now, ir_UpdatedAt = now\<rparr> d"

definition ReserveInstance :: "time \<Rightarrow> string \<Rightarrow> string \<Rightarrow> internal_task \<Rightarrow> source_item \<Rightarrow> dispatch_db \<Rightarrow> dispatch_db option" where
  "ReserveInstance now newID wfID task cell d = createInstance now newID wfID task cell Queued d"

datatype start_outcome = Started string dispatch_db | ReservationLost | StartFailed

definition start_created :: "time \<Rightarrow> string \<Rightarrow> string \<Rightarrow> internal_task \<Rightarrow> source_item \<Rightarrow> dispatch_db \<Rightarrow> start_outcome" where
  "start_created now instID wfID task cell d =
     (case createInstance now instID wfID task cell Running d of None \<Rightarrow> StartFailed | Some d' \<Rightarrow> Started instID d')"

definition start_reserved :: "time \<Rightarrow> string \<Rightarrow> string \<Rightarrow> internal_task \<Rightarrow> source_item \<Rightarrow> dispatch_db \<Rightarrow> start_outcome" where
  "start_reserved now instID wfID task cell d =
     (case LeaveQueuedState now instID Running [] d of
        (True, d') \<Rightarrow> Started instID d'
      | (False, d') \<Rightarrow> if GetWorkflowInstance instID d' \<noteq> None then ReservationLost else start_created now instID wfID task cell d')"

text \<open>The start of \<open>dispatchWorkflow\<close>: a match with a reservation adopts it, any other gets a new instance.\<close>

definition start_dispatch :: "time \<Rightarrow> string \<Rightarrow> 'w payload \<Rightarrow> source_item \<Rightarrow> dispatch_db \<Rightarrow> start_outcome" where
  "start_dispatch now newID p cell d =
     (let m = pl_Match p in
      if m_InstanceID m \<noteq> [] then start_reserved now (m_InstanceID m) (rc_ID (m_Route m)) (pl_Task p) cell d
      else start_created now newID (rc_ID (m_Route m)) (pl_Task p) cell d)"

section \<open>Settling a terminal job\<close>

definition reservedInstanceID :: "'w codec \<Rightarrow> job \<Rightarrow> string" where
  "reservedInstanceID c j = (case decode c (q_Payload j) of None \<Rightarrow> [] | Some p \<Rightarrow> m_InstanceID (pl_Match p))"

definition instanceStateForJob :: "job \<Rightarrow> string" where
  "instanceStateForJob j = (if q_State j = JobSucceeded then Done else if q_State j = JobCanceled then Canceled else Failed)"

definition settleJobAccounting :: "time \<Rightarrow> job \<Rightarrow> dispatch_db \<Rightarrow> dispatch_db" where
  "settleJobAccounting now j d =
     (let (remaining, d') = decrement_outstanding now (q_Task j) d in
      if remaining > 0 \<or> q_State j = JobCanceled then d'
      else UpdateTaskState now (q_Task j) (if q_State j = JobFailed \<or> HasFailedInstance (q_Task j) d' then Failed else Done) d')"

definition queue_instance :: "job \<Rightarrow> string" where
  "queue_instance j = ''queue-'' @ q_ID j"

definition mirror_row :: "job \<Rightarrow> instance_rec" where
  "mirror_row j =
     \<lparr>ir_ID = queue_instance j, ir_Workflow = q_Workflow j, ir_Task = q_Task j, ir_Cell = [], ir_Source = q_Source j,
      ir_State = instanceStateForJob j, ir_Reason = [], ir_Parent = [], ir_ResumedFrom = [], ir_Generation = 0, ir_CreatedAt = 0, ir_UpdatedAt = 0\<rparr>"

text \<open>The part for a job without a reservation.\<close>

definition settle_unreserved :: "time \<Rightarrow> job \<Rightarrow> dispatch_db \<Rightarrow> dispatch_db" where
  "settle_unreserved now j d =
     (if GetWorkflowInstance (queue_instance j) d \<noteq> None then d
      else if list_ex (\<lambda>w. ir_Workflow w = q_Workflow j \<and> \<not> ir_CreatedAt w < q_CreatedAt j) (ListWorkflowInstancesByTask (q_Task j) d) then d
      else case CreateWorkflowInstance now (mirror_row j) d of None \<Rightarrow> d | Some d' \<Rightarrow> settleJobAccounting now j d')"

definition settleRemoteQueueJob :: "'w codec \<Rightarrow> time \<Rightarrow> job \<Rightarrow> dispatch_db \<Rightarrow> dispatch_db" where
  "settleRemoteQueueJob c now j d =
     (if q_Task j = [] then d
      else let r = reservedInstanceID c j in
        if r \<noteq> [] \<and> GetWorkflowInstance r d \<noteq> None then
          (case LeaveQueuedState now r (instanceStateForJob j) [] d of
             (left, d') \<Rightarrow> if left then settleJobAccounting now j d' else d')
        else settle_unreserved now j d)"

definition reconcileTerminalQueueJobs :: "'w codec \<Rightarrow> time \<Rightarrow> dispatch_db \<Rightarrow> dispatch_db" where
  "reconcileTerminalQueueJobs c now d =
     fold (\<lambda>st d. fold (settleRemoteQueueJob c now) (ListJobs st 1000 (dd_queue d)) d) [JobSucceeded, JobFailed, JobCanceled] d"

section \<open>Stopping a reservation, restarting a round\<close>

definition stop_reserved :: "time \<Rightarrow> instance_rec \<Rightarrow> dispatch_db \<Rightarrow> bool \<times> dispatch_db" where
  "stop_reserved now w d =
     (let d1 = d\<lparr>dd_queue := snd (RequestCancelFor now (ir_Task w) (ir_Workflow w) (dd_queue d))\<rparr> in
      if ir_State w \<noteq> Queued then (False, d1)
      else case LeaveQueuedState now (ir_ID w) Canceled [] d1 of
        (left, d2) \<Rightarrow> (left, if left \<and> ir_Task w \<noteq> [] then snd (decrement_outstanding now (ir_Task w) d2) else d2))"

text \<open>The tail of \<open>redispatchCell\<close>: the queued jobs of the matches are canceled, the round is advanced, and the matches are enqueued.\<close>

definition restart_round ::
  "dispatcher \<Rightarrow> 'w codec \<Rightarrow> store_faults \<Rightarrow> time \<Rightarrow> (nat \<Rightarrow> string \<times> time) \<Rightarrow> source_item \<Rightarrow> internal_task \<Rightarrow> 'w match list \<Rightarrow> dispatch_db \<Rightarrow> dispatch_db" where
  "restart_round dp c f now fresh cell task matches d =
     (let d1 = d\<lparr>dd_queue := fold (\<lambda>m q. snd (RequestCancelFor now (it_ID task) (rc_ID (m_Route m)) q)) matches (dd_queue d)\<rparr>;
          d2 = snd (BumpGeneration now (it_ID task) d1)
      in enqueueFanOut dp c f now fresh [] cell task matches d2)"

end
