(* ===== verification/Dispatch_Accounting.thy ===== *)
theory Dispatch_Accounting
  imports Dispatch_Queue
begin

text \<open>
  The counter of a task's outstanding workflows under dispatch through the queue. A poll may repeat, workers may lose their leases, and
  jobs are settled in any order; the counter stays the number of jobs whose outcome is not recorded yet. The last part holds the cases
  in which the counter goes wrong.
\<close>

section \<open>Rows\<close>

lemma find_task_update:
  assumes "\<And>t. it_ID (f t) = it_ID t"
  shows "find_task i (update_task j f d) = (if i = j then map_option f (find_task i d) else find_task i d)"
proof -
  have "find (\<lambda>t. it_ID t = i) (update_rows (\<lambda>t. it_ID t = j) f xs)
      = (if i = j then map_option f (find (\<lambda>t. it_ID t = i) xs) else find (\<lambda>t. it_ID t = i) xs)" for xs
    using assms by (induction xs) auto
  then show ?thesis by (simp add: find_task_def update_task_def)
qed

lemma update_task_simps [simp]:
  "w_instances (update_task i f d) = w_instances d" "dd_queue (update_task i f e) = dd_queue e"
  by (simp_all add: update_task_def)

lemma find_task_frame [simp]:
  "find_task i (d\<lparr>dd_queue := q\<rparr>) = find_task i d" "find_task i (e\<lparr>w_instances := ws\<rparr>) = find_task i e"
  by (simp_all add: find_task_def)

lemma find_task_id: "find_task i d = Some t \<Longrightarrow> it_ID t = i"
  by (auto simp: find_task_def find_Some_iff)

lemma add_outstanding_id [simp]: "it_ID (add_outstanding now n t) = it_ID t"
  by (simp add: add_outstanding_def Let_def)

lemma decrement_simps [simp]:
  "w_instances (snd (decrement_outstanding now i d)) = w_instances d" "dd_queue (snd (decrement_outstanding now i e)) = dd_queue e"
  by (simp_all add: decrement_outstanding_def Let_def)

lemma find_decrement:
  "find_task i (snd (decrement_outstanding now j d)) =
     (if i = j then map_option (\<lambda>t. t\<lparr>it_OutstandingWorkflows := max (it_OutstandingWorkflows t - 1) 0, it_UpdatedAt := now\<rparr>) (find_task i d)
      else find_task i d)"
  by (simp add: decrement_outstanding_def Let_def find_task_update)

lemma fst_decrement: "fst (decrement_outstanding now j d) = outstanding j (snd (decrement_outstanding now j d))"
  by (simp add: decrement_outstanding_def Let_def)

section \<open>One fan-out\<close>

text \<open>What is relied on of the JSON encoder: the payload of every match is valid JSON and decodes to itself.\<close>

definition lawful_codec :: "'w codec \<Rightarrow> source_item \<Rightarrow> internal_task \<Rightarrow> 'w match list \<Rightarrow> bool" where
  "lawful_codec c cell task ms = list_all (\<lambda>m. let p = \<lparr>pl_Version = dispatchPayloadVersion, pl_Cell = cell, pl_Task = task, pl_Match = m\<rparr>
     in json_ok c (encode c p) \<and> decode c (encode c p) = Some p) ms"

definition fresh_ids :: "(nat \<Rightarrow> string \<times> time) \<Rightarrow> nat \<Rightarrow> nat \<Rightarrow> queue_db \<Rightarrow> bool" where
  "fresh_ids fresh k n q \<longleftrightarrow> distinct (map (\<lambda>i. fst (fresh i)) [k..<k + n])
     \<and> (\<forall>i. k \<le> i \<and> i < k + n \<longrightarrow> fst (fresh i) \<noteq> [] \<and> fst (fresh i) \<notin> q_ID ` set (t_jobs q))"

lemma fresh_ids_code [code]:
  "fresh_ids fresh k n q \<longleftrightarrow> distinct (map (\<lambda>i. fst (fresh i)) [k..<k + n])
     \<and> list_all (\<lambda>i. fst (fresh i) \<noteq> [] \<and> list_all (\<lambda>j. fst (fresh i) \<noteq> q_ID j) (t_jobs q)) [k..<k + n]"
  unfolding fresh_ids_def list_all_iff image_iff set_upt by auto

lemma dispatch_job_simps [simp]:
  "q_ID (dispatch_job dp c g nonce cell task m) = []"
  "q_Key (dispatch_job dp c g nonce cell task m) = dispatchIdempotencyKey (it_ID task) g (rc_ID (m_Route m)) nonce"
  "q_Task (dispatch_job dp c g nonce cell task m) = it_ID task" "q_Workflow (dispatch_job dp c g nonce cell task m) = rc_ID (m_Route m)"
  "q_PayloadVersion (dispatch_job dp c g nonce cell task m) = 1"
  "q_Payload (dispatch_job dp c g nonce cell task m) =
     encode c \<lparr>pl_Version = dispatchPayloadVersion, pl_Cell = cell, pl_Task = task, pl_Match = m\<rparr>"
  by (simp_all add: dispatch_job_def Let_def dispatchPayloadVersion_def split: prod.splits)

lemma enqueue_row_simps [simp]:
  "q_Key (enqueue_row i now j) = q_Key j" "q_Task (enqueue_row i now j) = q_Task j" "q_Workflow (enqueue_row i now j) = q_Workflow j"
  "q_Payload (enqueue_row i now j) = q_Payload j" "q_CreatedAt (enqueue_row i now j) = now"
  "q_ID (enqueue_row i now j) = (if q_ID j = [] then i else q_ID j)"
  by (simp_all add: enqueue_row_def)

lemma dispatch_key_used: "trim_space (dispatchIdempotencyKey i g w nonce) \<noteq> []"
proof
  assume e: "trim_space (dispatchIdempotencyKey i g w nonce) = []"
  have c: "CHR '':'' \<in> set (dispatchIdempotencyKey i g w nonce)" "\<not> is_space (CHR '':'')"
    by (simp_all add: dispatchIdempotencyKey_def is_space_def)
  then have "dropWhile is_space (dispatchIdempotencyKey i g w nonce) \<noteq> []" by auto
  with hd_dropWhile [OF this] e show False by (auto simp: trim_space_def)
qed

lemma Enqueue_dispatch:
  assumes "lawful_codec c cell task [m]" "newID \<noteq> []" "newID \<notin> q_ID ` set (t_jobs q)"
  shows "Enqueue (json_ok c) newID now (dispatch_job dp c g nonce cell task m) q =
     (if dispatchIdempotencyKey (it_ID task) g (rc_ID (m_Route m)) nonce \<in> q_Key ` set (t_jobs q)
      then Inr ((False, the (getJobByKey (dispatchIdempotencyKey (it_ID task) g (rc_ID (m_Route m)) nonce) q)), q)
      else Inr ((True, enqueue_row newID now (dispatch_job dp c g nonce cell task m)),
                q\<lparr>t_jobs := t_jobs q @ [enqueue_row newID now (dispatch_job dp c g nonce cell task m)]\<rparr>))"
proof -
  let ?j = "dispatch_job dp c g nonce cell task m" and ?k = "dispatchIdempotencyKey (it_ID task) g (rc_ID (m_Route m)) nonce"
  have ok: "json_ok c (q_Payload ?j)" using assms(1) by (simp add: lawful_codec_def Let_def)
  have ex: "list_ex (\<lambda>j. q_ID j = q_ID (enqueue_row newID now ?j) \<or> q_Key j = q_Key (enqueue_row newID now ?j)) (t_jobs q)
      \<longleftrightarrow> ?k \<in> q_Key ` set (t_jobs q)"
    using assms(3) by (auto simp: list_ex_iff image_iff) (metis+)
  have "?k \<in> q_Key ` set (t_jobs q) \<Longrightarrow> getJobByKey ?k q \<noteq> None"
    by (auto simp: getJobByKey_def find_None_iff)
  with ok ex show ?thesis by (auto simp: Enqueue_def Let_def dispatch_key_used)
qed

text \<open>The jobs a fan-out adds, and what it leaves on the task's counter.\<close>

definition sent :: "dispatcher \<Rightarrow> 'w codec \<Rightarrow> (nat \<Rightarrow> string \<times> time) \<Rightarrow> int \<Rightarrow> string \<Rightarrow> source_item \<Rightarrow> internal_task \<Rightarrow> 'w match list \<Rightarrow> nat \<Rightarrow> job \<Rightarrow> bool" where
  "sent dp c fresh g nonce cell task ms k j \<longleftrightarrow>
     (\<exists>m\<in>set ms. \<exists>i. k \<le> i \<and> i < k + length ms \<and> j = enqueue_row (fst (fresh i)) (snd (fresh i)) (dispatch_job dp c g nonce cell task m))"

definition rolled :: "task_row \<Rightarrow> int \<Rightarrow> task_row \<Rightarrow> bool" where
  "rolled t n t' \<longleftrightarrow> (\<exists>u. t' = t\<lparr>it_OutstandingWorkflows := it_OutstandingWorkflows t - n, it_UpdatedAt := u\<rparr>)"

lemma rolled_0 [simp]: "rolled t 0 t"
  by (auto simp: rolled_def intro: exI [of _ "it_UpdatedAt t"])

lemma fresh_ids_later:
  assumes "fresh_ids fresh k (Suc n) q"
  shows "fresh_ids fresh (Suc k) n q" "fst (fresh k) \<noteq> []" "fst (fresh k) \<notin> q_ID ` set (t_jobs q)"
    "q_ID j = fst (fresh k) \<Longrightarrow> fresh_ids fresh (Suc k) n (q\<lparr>t_jobs := t_jobs q @ [j]\<rparr>)"
proof -
  have u: "[k..<k + Suc n] = k # [Suc k..<Suc k + n]" by (simp add: upt_rec)
  show 1: "fresh_ids fresh (Suc k) n q" "fst (fresh k) \<noteq> []" "fst (fresh k) \<notin> q_ID ` set (t_jobs q)"
    using assms unfolding fresh_ids_def u by auto
  have "fst (fresh i) \<noteq> fst (fresh k)" if "Suc k \<le> i" "i < Suc k + n" for i
  proof -
    have "fst (fresh k) \<notin> set (map (\<lambda>i. fst (fresh i)) [Suc k..<Suc k + n])" using assms unfolding fresh_ids_def u by simp
    moreover have "i \<in> set [Suc k..<Suc k + n]" using that unfolding set_upt by auto
    ultimately show ?thesis by (metis (mono_tags, lifting) imageI list.set_map)
  qed
  with 1 show "q_ID j = fst (fresh k) \<Longrightarrow> fresh_ids fresh (Suc k) n (q\<lparr>t_jobs := t_jobs q @ [j]\<rparr>)"
    by (auto simp: fresh_ids_def)
qed

definition fan_effect ::
  "dispatcher \<Rightarrow> 'w codec \<Rightarrow> (nat \<Rightarrow> string \<times> time) \<Rightarrow> int \<Rightarrow> string \<Rightarrow> source_item \<Rightarrow> internal_task \<Rightarrow> 'w match list \<Rightarrow> nat \<Rightarrow> dispatch_db \<Rightarrow> task_row
     \<Rightarrow> dispatch_db \<Rightarrow> job list \<Rightarrow> task_row \<Rightarrow> bool" where
  "fan_effect dp c fresh g nonce cell task ms k d t e new t' \<longleftrightarrow>
     dd_queue e = (dd_queue d)\<lparr>t_jobs := t_jobs (dd_queue d) @ new\<rparr> \<and> w_instances e = w_instances d
     \<and> (\<forall>i. find_task i e = (if i = it_ID task then Some t' else find_task i d))
     \<and> rolled t (int (length ms) - int (length new)) t' \<and> (\<forall>j\<in>set new. sent dp c fresh g nonce cell task ms k j)
     \<and> (\<forall>m\<in>set ms. dispatchIdempotencyKey (it_ID task) g (rc_ID (m_Route m)) nonce \<in> q_Key ` set (t_jobs (dd_queue e)))
     \<and> (\<forall>j\<in>set new. q_Key j \<notin> q_Key ` set (t_jobs (dd_queue d))) \<and> queue_step\<^sup>*\<^sup>* (dd_queue d) (dd_queue e)"

lemma sent_later: "sent dp c fresh g nonce cell task ms (Suc k) j \<Longrightarrow> sent dp c fresh g nonce cell task (m # ms) k j"
  unfolding sent_def by (metis Suc_leD add_Suc_shift length_Cons list.set_intros(2))

lemma enqueue_matches_effect:
  assumes "lawful_codec c cell task ms" "\<forall>m\<in>set ms. m_InstanceID m = []" "fresh_ids fresh k (length ms) (dd_queue d)"
    and "find_task (it_ID task) d = Some t" "int (length ms) \<le> it_OutstandingWorkflows t"
  shows "\<exists>new t'. fan_effect dp c fresh g nonce cell task ms k d t (enqueue_matches dp c sound_store fresh g nonce cell task k ms d) new t'"
  using assms
proof (induction ms arbitrary: k d t)
  case Nil
  then have "fan_effect dp c fresh g nonce cell task [] k d t d [] t" by (simp add: fan_effect_def)
  then show ?case by auto
next
  case (Cons m ms)
  let ?key = "dispatchIdempotencyKey (it_ID task) g (rc_ID (m_Route m)) nonce"
  let ?row = "enqueue_row (fst (fresh k)) (snd (fresh k)) (dispatch_job dp c g nonce cell task m)"
  note later = fresh_ids_later [OF Cons.prems(3) [simplified]]
  have c: "lawful_codec c cell task [m]" "lawful_codec c cell task ms" using Cons.prems(1) by (simp_all add: lawful_codec_def)
  note enq = Enqueue_dispatch [OF c(1) later(2,3), of "snd (fresh k)" dp g nonce]
  have m: "m_InstanceID m = []" "\<forall>m\<in>set ms. m_InstanceID m = []" using Cons.prems(2) by auto
  show ?case
  proof (cases "?key \<in> q_Key ` set (t_jobs (dd_queue d))")
    case True
    define d1 where "d1 = snd (decrement_outstanding (snd (fresh k)) (it_ID task) d)"
    have step: "enqueue_matches dp c sound_store fresh g nonce cell task k (m # ms) d = enqueue_matches dp c sound_store fresh g nonce cell task (Suc k) ms d1"
      using enq True m(1)
      by (simp add: sound_store_def Let_def case_prod_beta d1_def rollbackQueuedOutstanding_def abandonReservation_def)
    let ?t = "t\<lparr>it_OutstandingWorkflows := it_OutstandingWorkflows t - 1, it_UpdatedAt := snd (fresh k)\<rparr>"
    have t1: "find_task (it_ID task) d1 = Some ?t" "int (length ms) \<le> it_OutstandingWorkflows ?t"
      using Cons.prems(4,5) by (simp_all add: d1_def find_decrement)
    have frame: "dd_queue d1 = dd_queue d" "w_instances d1 = w_instances d" "\<And>i. i \<noteq> it_ID task \<Longrightarrow> find_task i d1 = find_task i d"
      by (simp_all add: d1_def find_decrement)
    have "fresh_ids fresh (Suc k) (length ms) (dd_queue d1)" using later(1) frame(1) by simp
    from Cons.IH [OF c(2) m(2) this t1] obtain new t' where
      ih: "fan_effect dp c fresh g nonce cell task ms (Suc k) d1 ?t (enqueue_matches dp c sound_store fresh g nonce cell task (Suc k) ms d1) new t'"
      by blast
    then have "rolled t (int (length (m # ms)) - int (length new)) t'" by (auto simp: fan_effect_def rolled_def algebra_simps)
    with ih True frame have "fan_effect dp c fresh g nonce cell task (m # ms) k d t
        (enqueue_matches dp c sound_store fresh g nonce cell task (Suc k) ms d1) new t'"
      by (auto simp: fan_effect_def intro: sent_later)
    with step show ?thesis by metis
  next
    case False
    define d1 where "d1 = d\<lparr>dd_queue := (dd_queue d)\<lparr>t_jobs := t_jobs (dd_queue d) @ [?row]\<rparr>\<rparr>"
    have step: "enqueue_matches dp c sound_store fresh g nonce cell task k (m # ms) d = enqueue_matches dp c sound_store fresh g nonce cell task (Suc k) ms d1"
      using enq False by (simp add: sound_store_def Let_def case_prod_beta d1_def)
    have t1: "find_task (it_ID task) d1 = Some t" "int (length ms) \<le> it_OutstandingWorkflows t" using Cons.prems(4,5) by (simp_all add: d1_def)
    have frame: "dd_queue d1 = (dd_queue d)\<lparr>t_jobs := t_jobs (dd_queue d) @ [?row]\<rparr>" "w_instances d1 = w_instances d" "\<And>i. find_task i d1 = find_task i d"
      by (simp_all add: d1_def)
    have q: "queue_step (dd_queue d) (dd_queue d1)" using queue_step.enqueue [OF trans [OF enq if_not_P [OF False]]] frame(1) by simp
    have "fresh_ids fresh (Suc k) (length ms) (dd_queue d1)" using later(4) [of ?row] frame(1) by simp
    from Cons.IH [OF c(2) m(2) this t1] obtain new t' where
      ih: "fan_effect dp c fresh g nonce cell task ms (Suc k) d1 t (enqueue_matches dp c sound_store fresh g nonce cell task (Suc k) ms d1) new t'"
      by blast
    have "sent dp c fresh g nonce cell task (m # ms) k ?row" unfolding sent_def by force
    moreover have "queue_step\<^sup>*\<^sup>* (dd_queue d) (dd_queue (enqueue_matches dp c sound_store fresh g nonce cell task (Suc k) ms d1))"
      using q ih by (auto simp: fan_effect_def)
    ultimately have "fan_effect dp c fresh g nonce cell task (m # ms) k d t
        (enqueue_matches dp c sound_store fresh g nonce cell task (Suc k) ms d1) (?row # new) t'"
      using ih False frame by (auto simp: fan_effect_def intro: sent_later)
    with step show ?thesis by metis
  qed
qed

lemma find_increment:
  "find_task i (snd (IncrementOutstanding now j n d)) = (if i = j then map_option (add_outstanding now n) (find_task i d) else find_task i d)"
  "w_instances (snd (IncrementOutstanding now j n d)) = w_instances d" "dd_queue (snd (IncrementOutstanding now j n e)) = dd_queue e"
  by (simp_all add: IncrementOutstanding_def Let_def find_task_update)

lemma add_outstanding_simps [simp]:
  "it_OutstandingWorkflows (add_outstanding now n t) = it_OutstandingWorkflows t + n"
  "0 < n \<Longrightarrow> \<not> taskReopenable (add_outstanding now n t)"
  "\<not> taskReopenable t \<Longrightarrow> add_outstanding now n t = t\<lparr>it_OutstandingWorkflows := it_OutstandingWorkflows t + n, it_UpdatedAt := now\<rparr>"
  by (auto simp: add_outstanding_def Let_def taskReopenable_def lifecycle_states)

text \<open>The whole fan-out of an automatic dispatch, with the task's row after the increment.\<close>

lemma enqueueFanOut_effect:
  assumes "lawful_codec c cell task ms" "\<forall>m\<in>set ms. m_InstanceID m = []" "fresh_ids fresh 0 (length ms) (dd_queue d)"
    and "find_task (it_ID task) d = Some t" "0 \<le> it_OutstandingWorkflows t"
  shows "\<exists>new t'. fan_effect dp c fresh (tr_Generation (add_outstanding now (int (length ms)) t)) nonce cell task ms 0 d
     (add_outstanding now (int (length ms)) t) (enqueueFanOut dp c sound_store now fresh nonce cell task ms d) new t'"
proof -
  define d1 where "d1 = snd (IncrementOutstanding now (it_ID task) (int (length ms)) d)"
  let ?t = "add_outstanding now (int (length ms)) t" and ?g = "tr_Generation (add_outstanding now (int (length ms)) t)"
  have f: "find_task (it_ID task) d1 = Some ?t" "w_instances d1 = w_instances d" "dd_queue d1 = dd_queue d"
    "\<And>i. i \<noteq> it_ID task \<Longrightarrow> find_task i d1 = find_task i d"
    using assms(4) by (simp_all add: d1_def find_increment)
  have e: "enqueueFanOut dp c sound_store now fresh nonce cell task ms d = enqueue_matches dp c sound_store fresh ?g nonce cell task 0 ms d1"
    using f(1) by (simp add: enqueueFanOut_def sound_store_def Let_def d1_def Generation_def)
  have "fresh_ids fresh 0 (length ms) (dd_queue d1)" "int (length ms) \<le> it_OutstandingWorkflows ?t" using assms(3,5) f(3) by simp_all
  from enqueue_matches_effect [OF assms(1,2) this(1) f(1) this(2)] obtain new t' where
    "fan_effect dp c fresh ?g nonce cell task ms 0 d1 ?t (enqueue_matches dp c sound_store fresh ?g nonce cell task 0 ms d1) new t'" by blast
  then have "fan_effect dp c fresh ?g nonce cell task ms 0 d ?t (enqueueFanOut dp c sound_store now fresh nonce cell task ms d) new t'"
    using f(2-) by (auto simp: fan_effect_def e)
  then show ?thesis by blast
qed

lemma sent_simps:
  assumes "sent dp c fresh g nonce cell task ms k j"
  shows "q_Task j = it_ID task" "q_Key j = dispatchIdempotencyKey (it_ID task) g (q_Workflow j) nonce" "\<exists>m\<in>set ms. q_Workflow j = rc_ID (m_Route m)"
  using assms by (auto simp: sent_def)

text \<open>C30. A poll that finds the same matches again before their task has settled changes nothing: no job is added, no instance, and
  the counter, the state and the round of the task stay as the first poll left them.\<close>

theorem repoll_idempotent:
  assumes "lawful_codec c cell task ms" "ms \<noteq> []" "\<forall>m\<in>set ms. m_InstanceID m = []"
    and "find_task (it_ID task) d = Some t" "0 \<le> it_OutstandingWorkflows t"
    and "fresh_ids fresh 0 (length ms) (dd_queue d)"
    and "d' = enqueueFanOut dp c sound_store now fresh nonce cell task ms d"
    and "fresh_ids fresh' 0 (length ms) (dd_queue d')"
    and "d'' = enqueueFanOut dp c sound_store now' fresh' nonce cell task ms d'"
  shows "dd_queue d'' = dd_queue d' \<and> w_instances d'' = w_instances d'
     \<and> (\<exists>t' u. find_task (it_ID task) d' = Some t' \<and> find_task (it_ID task) d'' = Some (t'\<lparr>it_UpdatedAt := u\<rparr>))"
proof -
  let ?n = "int (length ms)"
  have n: "0 < ?n" using assms(2) by simp
  let ?g = "tr_Generation (add_outstanding now ?n t)"
  from enqueueFanOut_effect [OF assms(1,3,6,4,5), of dp now nonce] obtain new t' where
    e: "fan_effect dp c fresh ?g nonce cell task ms 0 d (add_outstanding now ?n t) d' new t'" unfolding assms(7) by blast
  then obtain u where t': "find_task (it_ID task) d' = Some t'"
      "t' = (add_outstanding now ?n t)\<lparr>it_OutstandingWorkflows := it_OutstandingWorkflows t + ?n - (?n - int (length new)), it_UpdatedAt := u\<rparr>"
    by (auto simp: fan_effect_def rolled_def)
  have r: "\<not> taskReopenable t'" "tr_Generation t' = ?g" "0 \<le> it_OutstandingWorkflows t'"
    using n assms(5) by (simp_all add: t'(2)) (use add_outstanding_simps(2) [OF n, of now t] in \<open>simp add: taskReopenable_def\<close>)
  have g: "tr_Generation (add_outstanding now' ?n t') = ?g" using r(1,2) by simp
  from enqueueFanOut_effect [OF assms(1,3,8) t'(1) r(3), of dp now' nonce] obtain new' t'' where
    e': "fan_effect dp c fresh' ?g nonce cell task ms 0 d' (add_outstanding now' ?n t') d'' new' t''" unfolding assms(9) g by blast
  have "new' = []"
  proof (rule ccontr)
    assume "new' \<noteq> []"
    then have h: "hd new' \<in> set new'" by simp
    with e' have s: "sent dp c fresh' ?g nonce cell task ms 0 (hd new')" "q_Key (hd new') \<notin> q_Key ` set (t_jobs (dd_queue d'))" by (auto simp: fan_effect_def)
    from sent_simps(2,3) [OF s(1)] e have "q_Key (hd new') \<in> q_Key ` set (t_jobs (dd_queue d'))" by (auto simp: fan_effect_def)
    with s(2) show False by contradiction
  qed
  moreover from e' \<open>new' = []\<close> r(1) obtain v where "find_task (it_ID task) d'' = Some (t'\<lparr>it_UpdatedAt := v\<rparr>)"
    by (auto simp: fan_effect_def rolled_def)
  ultimately show ?thesis using e' t'(1) by (auto simp: fan_effect_def)
qed

section \<open>The counter under any schedule\<close>

text \<open>
  Polls, the operations of the queue and the settlement of terminal jobs, in any order. The clock of a poll or of a settlement is past every
  earlier one. A settlement may come late, and may be repeated.
\<close>

inductive control_step :: "dispatcher \<Rightarrow> 'w codec \<Rightarrow> time \<times> dispatch_db \<Rightarrow> time \<times> dispatch_db \<Rightarrow> bool" for dp c where
  poll: "find_task (it_ID task) d \<noteq> None \<Longrightarrow> it_ID task \<noteq> [] \<Longrightarrow> \<forall>m\<in>set ms. m_InstanceID m = [] \<Longrightarrow> lawful_codec c cell task ms
    \<Longrightarrow> fresh_ids fresh 0 (length ms) (dd_queue d) \<Longrightarrow> now \<le> now' \<Longrightarrow> \<forall>k<length ms. now < snd (fresh k) \<and> snd (fresh k) \<le> now'
    \<Longrightarrow> control_step dp c (now, d) (now', enqueueFanOut dp c sound_store t0 fresh [] cell task ms d)"
| queue: "queue_step (dd_queue d) q \<Longrightarrow> length (t_jobs q) = length (t_jobs (dd_queue d)) \<Longrightarrow> control_step dp c (now, d) (now, d\<lparr>dd_queue := q\<rparr>)"
| settle: "j \<in> set (t_jobs (dd_queue d)) \<Longrightarrow> isTerminalJobState (q_State j) \<Longrightarrow> now < now' \<Longrightarrow> control_step dp c (now, d) (now', settleRemoteQueueJob c now' j d)"

definition control_start :: "time \<times> dispatch_db \<Rightarrow> bool" where
  "control_start s \<longleftrightarrow> dd_queue (snd s) = empty_queue \<and> w_instances (snd s) = [] \<and> list_all (\<lambda>t. it_OutstandingWorkflows t = 0) (w_tasks (snd s))"

definition unsettled :: "dispatch_db \<Rightarrow> job \<Rightarrow> bool" where
  "unsettled d j \<longleftrightarrow> GetWorkflowInstance (queue_instance j) d = None"

definition open_jobs :: "string \<Rightarrow> dispatch_db \<Rightarrow> nat" where
  "open_jobs i d = count_if (\<lambda>j. q_Task j = i \<and> unsettled d j) (t_jobs (dd_queue d))"

text \<open>What every job keeps while it moves through the queue.\<close>

definition identity :: "job \<Rightarrow> string \<times> string \<times> string \<times> string \<times> time \<times> string" where
  "identity j = (q_ID j, q_Key j, q_Task j, q_Workflow j, q_CreatedAt j, q_Payload j)"

lemma identity_simps [simp]:
  "identity (lease_row aid tok wid ex now j) = identity j" "identity (end_lease st av t now j) = identity j"
  "identity (cancel_row now j) = identity j" "identity (j\<lparr>q_LeaseExpires := e, q_UpdatedAt := now\<rparr>) = identity j"
  "identity (j\<lparr>q_AffinityWorker := a, q_UpdatedAt := now\<rparr>) = identity j"
  by (simp_all add: identity_def lease_row_def end_lease_def cancel_row_def)

lemma identity_update [simp]: "(\<And>j. identity (f j) = identity j) \<Longrightarrow> map identity (update_rows P f xs) = map identity xs"
  by (simp add: update_rows_def)

lemma identity_reclaim: "map identity (t_jobs (snd (fold (reclaim_one now) js nd))) = map identity (t_jobs (snd nd))"
proof (induction js arbitrary: nd)
  case (Cons j js)
  have "map identity (t_jobs (snd (reclaim_one now j nd))) = map identity (t_jobs (snd nd))"
    by (simp add: reclaim_one_def Let_def case_prod_beta)
  with Cons.IH show ?case by simp
qed simp

lemma queue_step_identity:
  assumes "queue_step q q'" "length (t_jobs q') = length (t_jobs q)"
  shows "map identity (t_jobs q') = map identity (t_jobs q)"
  using assms(1)
proof cases
  case (enqueue json_valid newID now job out)
  then have "q' = q \<or> (\<exists>row. q' = q\<lparr>t_jobs := t_jobs q @ [row]\<rparr>)"
    by (auto simp: Enqueue_def Let_def split: if_splits option.splits)
  with assms(2) show ?thesis by auto
next
  case (claim clock attemptID token req out)
  from claim(1) show ?thesis by (cases rule: claim_cases) (simp add: grant_lease_cases)
next
  case (finish now jobID attemptID token res)
  from finish(1) show ?thesis by (cases rule: finish_cases) simp
next
  case (reclaim now cutoff n)
  then show ?thesis using identity_reclaim [of now "expired_jobs cutoff q" "(0, q)"] by (simp add: reclaimExpired_def)
qed (auto simp: RegisterWorker_def HeartbeatWorker_def SetWorkerDrain_def requireWorkerRow_def heartbeat_def RequestCancel_def RequestCancelFor_def
    ReleaseAffinity_def Let_def split: if_splits option.splits)

definition job_acct :: "'w codec \<Rightarrow> time \<Rightarrow> dispatch_db \<Rightarrow> job \<Rightarrow> bool" where
  "job_acct c now d j \<longleftrightarrow> find_task (q_Task j) d \<noteq> None \<and> q_Task j \<noteq> [] \<and> reservedInstanceID c j = [] \<and> q_CreatedAt j \<le> now
     \<and> (unsettled d j \<longrightarrow> q_Key j = dispatchIdempotencyKey (q_Task j) (Generation (q_Task j) d) (q_Workflow j) []
        \<and> (\<forall>w\<in>set (w_instances d). ir_Task w = q_Task j \<and> ir_Workflow w = q_Workflow j \<longrightarrow> ir_CreatedAt w < q_CreatedAt j))"

definition task_acct :: "dispatch_db \<Rightarrow> string \<Rightarrow> task_row \<Rightarrow> bool" where
  "task_acct d i t \<longleftrightarrow> it_OutstandingWorkflows t = int (open_jobs i d) \<and> (taskReopenable t \<longrightarrow> open_jobs i d = 0)"

definition acct_inv :: "'w codec \<Rightarrow> time \<times> dispatch_db \<Rightarrow> bool" where
  "acct_inv c s \<longleftrightarrow> (case s of (now, d) \<Rightarrow> queue_inv (dd_queue d) \<and> (\<forall>j\<in>set (t_jobs (dd_queue d)). job_acct c now d j)
     \<and> (\<forall>w\<in>set (w_instances d). ir_CreatedAt w \<le> now \<and> ir_ID w \<in> queue_instance ` set (t_jobs (dd_queue d)))
     \<and> (\<forall>i t. find_task i d = Some t \<longrightarrow> task_acct d i t))"

lemma acct_init: "control_start s \<Longrightarrow> acct_inv c s"
  by (auto simp: control_start_def acct_inv_def empty_queue_def queue_inv_def task_acct_def open_jobs_def find_task_def find_Some_iff list_all_iff)

lemma acct_invD:
  assumes "acct_inv c (now, d)"
  shows "queue_inv (dd_queue d)" "j \<in> set (t_jobs (dd_queue d)) \<Longrightarrow> job_acct c now d j"
    "w \<in> set (w_instances d) \<Longrightarrow> ir_CreatedAt w \<le> now" "w \<in> set (w_instances d) \<Longrightarrow> ir_ID w \<in> queue_instance ` set (t_jobs (dd_queue d))"
    "find_task i d = Some t \<Longrightarrow> task_acct d i t"
  using assms unfolding acct_inv_def prod.case by blast+

lemma acct_invI:
  assumes "queue_inv (dd_queue d)" "\<And>j. j \<in> set (t_jobs (dd_queue d)) \<Longrightarrow> job_acct c now d j"
    and "\<And>w. w \<in> set (w_instances d) \<Longrightarrow> ir_CreatedAt w \<le> now \<and> ir_ID w \<in> queue_instance ` set (t_jobs (dd_queue d))"
    and "\<And>i t. find_task i d = Some t \<Longrightarrow> task_acct d i t"
  shows "acct_inv c (now, d)"
  using assms unfolding acct_inv_def prod.case by blast

text \<open>Operations of the queue.\<close>

lemma identity_fields:
  assumes "identity j = identity j'"
  shows "q_ID j = q_ID j'" "q_Key j = q_Key j'" "q_Task j = q_Task j'" "q_Workflow j = q_Workflow j'" "q_CreatedAt j = q_CreatedAt j'"
    "queue_instance j = queue_instance j'" "reservedInstanceID c j = reservedInstanceID c j'"
  using assms by (simp_all add: identity_def queue_instance_def reservedInstanceID_def)

lemma acct_queue:
  assumes "acct_inv c (now, d)" "queue_step (dd_queue d) q" "length (t_jobs q) = length (t_jobs (dd_queue d))"
  shows "acct_inv c (now, d\<lparr>dd_queue := q\<rparr>)"
proof -
  let ?e = "d\<lparr>dd_queue := q\<rparr>"
  have m: "map identity (t_jobs q) = map identity (t_jobs (dd_queue d))" by (rule queue_step_identity [OF assms(2,3)])
  have un: "unsettled ?e = unsettled d" by (simp add: unsettled_def GetWorkflowInstance_def fun_eq_iff)
  have via: "map (\<lambda>j. h (identity j)) (t_jobs q) = map (\<lambda>j. h (identity j)) (t_jobs (dd_queue d))" for h :: "_ \<Rightarrow> 'x"
    using arg_cong [OF m, of "map h"] by (simp add: comp_def)
  have op: "open_jobs i ?e = open_jobs i d" for i
  proof -
    let ?h = "\<lambda>(a, b, t, x). t = i \<and> GetWorkflowInstance (''queue-'' @ a) d = None"
    have h: "(\<lambda>j. q_Task j = i \<and> unsettled d j) = (\<lambda>j. ?h (identity j))" by (auto simp: identity_def unsettled_def queue_instance_def)
    have "count_if P xs = count_if id (map P xs)" for P :: "job \<Rightarrow> bool" and xs by (induction xs) auto
    then show ?thesis unfolding open_jobs_def un h using via [of ?h] by simp
  qed
  have qi: "queue_instance ` set (t_jobs q) = queue_instance ` set (t_jobs (dd_queue d))"
    using via [of "\<lambda>(a, x). ''queue-'' @ a"] unfolding identity_def queue_instance_def prod.case by (metis list.set_map)
  have "job_acct c now ?e j" if "j \<in> set (t_jobs q)" for j
  proof -
    have "identity j \<in> set (map identity (t_jobs (dd_queue d)))" using that m by (metis image_eqI list.set_map)
    then obtain x where x: "x \<in> set (t_jobs (dd_queue d))" "identity j = identity x" by auto
    from acct_invD(2) [OF assms(1) x(1)] show ?thesis
      by (simp add: job_acct_def identity_fields [OF x(2)] unsettled_def GetWorkflowInstance_def Generation_def)
  qed
  moreover have "queue_inv q" using assms(2) acct_invD(1) [OF assms(1)] by (rule queue_step_inv)
  moreover have "task_acct ?e i t" if "find_task i d = Some t" for i t using acct_invD(5) [OF assms(1) that] by (simp add: task_acct_def op)
  ultimately show ?thesis using acct_invD(3,4) [OF assms(1)] by (intro acct_invI) (simp_all add: qi)
qed

lemma acct_later: "acct_inv c (now, d) \<Longrightarrow> now \<le> now' \<Longrightarrow> acct_inv c (now', d)"
  by (rule acct_invI) (auto simp: job_acct_def dest: acct_invD intro: order_trans)

text \<open>A poll.\<close>

lemma reserved_sent:
  assumes "sent dp c fresh g nonce cell task ms k j" "lawful_codec c cell task ms" "\<forall>m\<in>set ms. m_InstanceID m = []"
  shows "reservedInstanceID c j = []"
  using assms by (auto simp: sent_def lawful_codec_def list_all_iff reservedInstanceID_def Let_def)

lemma fan_counter:
  assumes "fan_effect dp c fresh g nonce cell task ms k d (add_outstanding t0 (int (length ms)) t) e new t'"
  shows "it_OutstandingWorkflows t' = it_OutstandingWorkflows t + int (length new)" "tr_Generation t' = tr_Generation (add_outstanding t0 (int (length ms)) t)"
    "\<not> taskReopenable t \<Longrightarrow> tr_Generation t' = tr_Generation t" "taskReopenable t' \<Longrightarrow> taskReopenable t \<and> new = []"
proof -
  let ?t = "add_outstanding t0 (int (length ms)) t"
  from assms obtain u where t': "t' = ?t\<lparr>it_OutstandingWorkflows := it_OutstandingWorkflows ?t - (int (length ms) - int (length new)), it_UpdatedAt := u\<rparr>"
    by (auto simp: fan_effect_def rolled_def)
  then show "it_OutstandingWorkflows t' = it_OutstandingWorkflows t + int (length new)" "tr_Generation t' = tr_Generation ?t"
      "\<not> taskReopenable t \<Longrightarrow> tr_Generation t' = tr_Generation t"
    by simp_all
  have re: "taskReopenable t' \<longleftrightarrow> taskReopenable ?t" by (simp add: t' taskReopenable_def)
  assume "taskReopenable t'"
  with re have "\<not> 0 < int (length ms)" "taskReopenable ?t" using add_outstanding_simps(2) by blast+
  then have "ms = []" by simp
  moreover have "new = []" if "ms = []"
  proof (cases new)
    case (Cons j js)
    with assms have "sent dp c fresh g nonce cell task ms k j" by (simp add: fan_effect_def)
    with that show ?thesis by (simp add: sent_def)
  qed simp
  ultimately show "taskReopenable t \<and> new = []"
    using \<open>taskReopenable ?t\<close> by (simp add: add_outstanding_def Let_def taskReopenable_def)
qed

lemma acct_poll:
  assumes inv: "acct_inv c (now, d)" and task: "find_task (it_ID task) d = Some t" "it_ID task \<noteq> []"
    and ms: "\<forall>m\<in>set ms. m_InstanceID m = []" "lawful_codec c cell task ms" "fresh_ids fresh 0 (length ms) (dd_queue d)"
    and clock: "now \<le> now'" "\<forall>k<length ms. now < snd (fresh k) \<and> snd (fresh k) \<le> now'"
  shows "acct_inv c (now', enqueueFanOut dp c sound_store t0 fresh [] cell task ms d)"
proof -
  define e where "e = enqueueFanOut dp c sound_store t0 fresh [] cell task ms d"
  let ?g = "tr_Generation (add_outstanding t0 (int (length ms)) t)"
  have ta: "task_acct d (it_ID task) t" by (rule acct_invD(5) [OF inv task(1)])
  then have "0 \<le> it_OutstandingWorkflows t" by (simp add: task_acct_def)
  from enqueueFanOut_effect [OF ms(2,1,3) task(1) this] obtain new t' where
    eff: "fan_effect dp c fresh ?g [] cell task ms 0 d (add_outstanding t0 (int (length ms)) t) e new t'" unfolding e_def by blast
  then have e: "dd_queue e = (dd_queue d)\<lparr>t_jobs := t_jobs (dd_queue d) @ new\<rparr>" "w_instances e = w_instances d"
    "\<And>i. find_task i e = (if i = it_ID task then Some t' else find_task i d)" "queue_step\<^sup>*\<^sup>* (dd_queue d) (dd_queue e)"
    and sent: "\<And>j. j \<in> set new \<Longrightarrow> sent dp c fresh ?g [] cell task ms 0 j"
    by (auto simp: fan_effect_def)
  note t' = fan_counter [OF eff]
  have un: "unsettled e = unsettled d" by (simp add: unsettled_def GetWorkflowInstance_def fun_eq_iff e(2))
  have new: "unsettled d j \<and> now < q_CreatedAt j \<and> q_CreatedAt j \<le> now'" if "j \<in> set new" for j
  proof -
    from sent [OF that] obtain k where "k < length ms" "q_ID j = fst (fresh k)" "q_CreatedAt j = snd (fresh k)" by (auto simp: sent_def)
    with ms(3) clock(2) have "q_ID j \<notin> q_ID ` set (t_jobs (dd_queue d))" "now < q_CreatedAt j" "q_CreatedAt j \<le> now'"
      by (auto simp: fresh_ids_def)
    moreover from this(1) have "ir_ID w \<noteq> queue_instance j" if "w \<in> set (w_instances d)" for w
      using acct_invD(4) [OF inv that] by (auto simp: queue_instance_def)
    ultimately show ?thesis by (simp add: unsettled_def GetWorkflowInstance_def find_None_iff)
  qed
  have "count_if (\<lambda>j. q_Task j = i \<and> unsettled d j) new = (if i = it_ID task then length new else 0)" for i
    using new sent_simps(1) [OF sent] unfolding count_if_def by (auto simp: filter_empty_conv intro!: arg_cong [where f = length] filter_True)
  then have op: "open_jobs i e = open_jobs i d + (if i = it_ID task then length new else 0)" for i by (simp add: open_jobs_def un e(1))
  have qi: "queue_inv (dd_queue e)" using e(4) acct_invD(1) [OF inv] by (rule dispatch_queue.inv_steps)
  have old: "job_acct c now' e j" if "j \<in> set (t_jobs (dd_queue d))" for j
  proof -
    have "tr_Generation t' = tr_Generation t" if u: "unsettled d j" "q_Task j = it_ID task"
    proof (rule t'(3))
      have "0 < open_jobs (it_ID task) d" unfolding open_jobs_def using u \<open>j \<in> _\<close> by (intro count_if_pos) auto
      with ta show "\<not> taskReopenable t" by (auto simp: task_acct_def)
    qed
    with acct_invD(2) [OF inv that] clock(1) task(1) show ?thesis by (auto simp: job_acct_def un e(2,3) Generation_def)
  qed
  have added: "job_acct c now' e j" if "j \<in> set new" for j
    using new [OF that] sent_simps(1,2) [OF sent [OF that]] reserved_sent [OF sent [OF that] ms(2,1)] task(2) t'(2) acct_invD(3) [OF inv]
    by (auto simp: job_acct_def e(2,3) Generation_def intro: le_less_trans)
  have "task_acct e i x" if "find_task i e = Some x" for i x
  proof (cases "i = it_ID task")
    case True
    with that ta t'(1,4) show ?thesis by (auto simp: e(3) op task_acct_def)
  next
    case False
    with that acct_invD(5) [OF inv, of i x] show ?thesis by (simp add: e(3) op task_acct_def)
  qed
  with qi old added acct_invD(3,4) [OF inv] clock(1) show ?thesis unfolding e_def [symmetric]
    by (intro acct_invI) (auto simp: e(1,2) image_Un intro: order_trans)
qed

text \<open>A settlement.\<close>

lemma count_if_but:
  assumes "x \<in> set xs" "distinct (map key xs)"
  shows "count_if (\<lambda>y. P y \<and> key y \<noteq> key x) xs + (if P x then 1 else 0) = count_if P xs"
  using assms
proof (induction xs)
  case (Cons y ys)
  show ?case
  proof (cases "y = x")
    case True
    with Cons.prems have "key z \<noteq> key x" if "z \<in> set ys" for z using that by (auto simp: image_iff)
    then have "count_if (\<lambda>y. P y \<and> key y \<noteq> key x) ys = count_if P ys" unfolding count_if_def by (intro arg_cong [where f = length] filter_cong) auto
    with True show ?thesis by simp
  next
    case False
    with Cons show ?thesis by (force simp: image_iff)
  qed
qed simp

lemma settle_accounting_effect:
  assumes "find_task (q_Task j) d = Some t" "0 < it_OutstandingWorkflows t"
  shows "dd_queue (settleJobAccounting now j d) = dd_queue d" "w_instances (settleJobAccounting now j d) = w_instances d"
    "\<exists>t'. (\<forall>i. find_task i (settleJobAccounting now j d) = (if i = q_Task j then Some t' else find_task i d))
       \<and> it_OutstandingWorkflows t' = it_OutstandingWorkflows t - 1 \<and> tr_Generation t' = tr_Generation t
       \<and> (taskReopenable t' \<longrightarrow> taskReopenable t \<or> it_OutstandingWorkflows t' = 0)"
proof -
  show "dd_queue (settleJobAccounting now j d) = dd_queue d" "w_instances (settleJobAccounting now j d) = w_instances d"
    by (simp_all add: settleJobAccounting_def Let_def case_prod_beta UpdateTaskState_def UpdateTaskStateReason_def)
  let ?d = "snd (decrement_outstanding now (q_Task j) d)" and ?t = "t\<lparr>it_OutstandingWorkflows := it_OutstandingWorkflows t - 1, it_UpdatedAt := now\<rparr>"
  have f: "find_task i ?d = (if i = q_Task j then Some ?t else find_task i d)" for i using assms by (simp add: find_decrement)
  have r: "fst (decrement_outstanding now (q_Task j) d) = it_OutstandingWorkflows t - 1" by (simp add: fst_decrement outstanding_def f)
  define st where "st = (if q_State j = JobFailed \<or> HasFailedInstance (q_Task j) ?d then Failed else Done)"
  have s: "settleJobAccounting now j d = (if it_OutstandingWorkflows t - 1 > 0 \<or> q_State j = JobCanceled then ?d else UpdateTaskState now (q_Task j) st ?d)"
    by (simp add: settleJobAccounting_def Let_def case_prod_beta r st_def)
  have u: "find_task i (UpdateTaskState now (q_Task j) st ?d) =
      (if i = q_Task j then Some (?t\<lparr>it_State := st, it_BlockedReason := [], it_UpdatedAt := now\<rparr>) else find_task i d)" for i
    by (simp add: UpdateTaskState_def UpdateTaskStateReason_def find_task_update f)
  show "\<exists>t'. (\<forall>i. find_task i (settleJobAccounting now j d) = (if i = q_Task j then Some t' else find_task i d))
       \<and> it_OutstandingWorkflows t' = it_OutstandingWorkflows t - 1 \<and> tr_Generation t' = tr_Generation t
       \<and> (taskReopenable t' \<longrightarrow> taskReopenable t \<or> it_OutstandingWorkflows t' = 0)"
  proof (cases "it_OutstandingWorkflows t - 1 > 0 \<or> q_State j = JobCanceled")
    case True
    then show ?thesis by (intro exI [of _ ?t]) (simp add: s f taskReopenable_def)
  next
    case False
    then show ?thesis using assms(2) by (intro exI [of _ "?t\<lparr>it_State := st, it_BlockedReason := [], it_UpdatedAt := now\<rparr>"]) (simp add: s u)
  qed
qed

lemma settle_first:
  assumes inv: "acct_inv c (now, d)" and j: "j \<in> set (t_jobs (dd_queue d))" "unsettled d j"
  shows "\<exists>w. settleRemoteQueueJob c now' j d = settleJobAccounting now' j (d\<lparr>w_instances := w_instances d @ [w]\<rparr>)
     \<and> ir_ID w = queue_instance j \<and> ir_Task w = q_Task j \<and> ir_Workflow w = q_Workflow j \<and> ir_CreatedAt w = now'"
proof -
  have a: "q_Task j \<noteq> []" "reservedInstanceID c j = []"
    "\<And>w. w \<in> set (w_instances d) \<Longrightarrow> ir_Task w = q_Task j \<Longrightarrow> ir_Workflow w = q_Workflow j \<Longrightarrow> ir_CreatedAt w < q_CreatedAt j"
    using acct_invD(2) [OF inv j(1)] j(2) by (auto simp: job_acct_def)
  have "\<not> list_ex (\<lambda>w. ir_Workflow w = q_Workflow j \<and> \<not> ir_CreatedAt w < q_CreatedAt j) (ListWorkflowInstancesByTask (q_Task j) d)"
    using a(3) by (auto simp: list_ex_iff ListWorkflowInstancesByTask_def)
  moreover have "\<not> list_ex (\<lambda>w. ir_ID w = queue_instance j) (w_instances d)"
    using j(2) by (auto simp: unsettled_def GetWorkflowInstance_def find_None_iff list_ex_iff)
  ultimately show ?thesis using a(1,2) j(2)
    by (auto simp: settleRemoteQueueJob_def settle_unreserved_def Let_def unsettled_def CreateWorkflowInstance_def mirror_row_def)
qed

lemma settle_again:
  assumes inv: "acct_inv c (now, d)" and j: "j \<in> set (t_jobs (dd_queue d))" "\<not> unsettled d j"
  shows "settleRemoteQueueJob c now' j d = d"
  using acct_invD(2) [OF inv j(1)] j(2) by (simp add: job_acct_def settleRemoteQueueJob_def settle_unreserved_def unsettled_def)

lemma same_open_job:
  assumes "acct_inv c (now, d)" "j \<in> set (t_jobs (dd_queue d))" "x \<in> set (t_jobs (dd_queue d))" "unsettled d j" "unsettled d x"
    and "q_Task x = q_Task j" "q_Workflow x = q_Workflow j"
  shows "x = j"
proof -
  have "q_Key x = q_Key j" using acct_invD(2) [OF assms(1,2)] acct_invD(2) [OF assms(1,3)] assms(4-) by (simp add: job_acct_def)
  moreover have "distinct (map q_Key (t_jobs (dd_queue d)))" using acct_invD(1) [OF assms(1)] by (simp add: queue_inv_def)
  ultimately show ?thesis using assms(2,3) by (simp add: distinct_map inj_on_def)
qed

lemma acct_settle:
  assumes inv: "acct_inv c (now, d)" and j: "j \<in> set (t_jobs (dd_queue d))" and clock: "now < now'"
  shows "acct_inv c (now', settleRemoteQueueJob c now' j d)"
proof (cases "unsettled d j")
  case False
  then show ?thesis using settle_again [OF inv j] acct_later [OF inv] clock by simp
next
  case u: True
  define e where "e = settleRemoteQueueJob c now' j d"
  from settle_first [OF inv j u] obtain w where w: "e = settleJobAccounting now' j (d\<lparr>w_instances := w_instances d @ [w]\<rparr>)"
    "ir_ID w = queue_instance j" "ir_Task w = q_Task j" "ir_Workflow w = q_Workflow j" "ir_CreatedAt w = now'" unfolding e_def by blast
  obtain t where t: "find_task (q_Task j) d = Some t" using acct_invD(2) [OF inv j] by (auto simp: job_acct_def)
  have ta: "task_acct d (q_Task j) t" by (rule acct_invD(5) [OF inv t])
  have pos: "0 < open_jobs (q_Task j) d" unfolding open_jobs_def using j u by (intro count_if_pos) auto
  have t1: "find_task (q_Task j) (d\<lparr>w_instances := w_instances d @ [w]\<rparr>) = Some t" "0 < it_OutstandingWorkflows t" using t ta pos by (simp_all add: task_acct_def)
  note eff = settle_accounting_effect [OF t1, of now', folded w(1)]
  from eff(3) [unfolded find_task_frame] obtain t' where t': "\<And>i. find_task i e = (if i = q_Task j then Some t' else find_task i d)"
    "it_OutstandingWorkflows t' = it_OutstandingWorkflows t - 1" "tr_Generation t' = tr_Generation t"
    "taskReopenable t' \<Longrightarrow> taskReopenable t \<or> it_OutstandingWorkflows t' = 0" by auto
  have e: "dd_queue e = dd_queue d" "w_instances e = w_instances d @ [w]" using eff(1,2) by simp_all
  have ids: "distinct (map q_ID (t_jobs (dd_queue d)))" using acct_invD(1) [OF inv] by (simp add: queue_inv_def)
  have un: "unsettled e x \<longleftrightarrow> unsettled d x \<and> q_ID x \<noteq> q_ID j" for x
    by (auto simp: unsettled_def GetWorkflowInstance_def e(2) find_None_iff w(2) queue_instance_def)
  have op: "open_jobs i e + (if i = q_Task j then 1 else 0) = open_jobs i d" for i
    using count_if_but [OF j ids, of "\<lambda>x. q_Task x = i \<and> unsettled d x"] u by (auto simp: open_jobs_def e(1) un conj_assoc)
  have jobs: "job_acct c now' e x" if x: "x \<in> set (t_jobs (dd_queue d))" for x
  proof -
    have gen: "Generation i e = Generation i d" for i using t'(3) t by (simp add: Generation_def t'(1))
    have "\<not> (q_Task x = q_Task j \<and> q_Workflow x = q_Workflow j)" if "unsettled e x"
      using same_open_job [OF inv j x u] that by (auto simp: un)
    with acct_invD(2) [OF inv x] clock w(3,4) t show ?thesis by (auto simp: job_acct_def gen e(2) un t'(1))
  qed
  have "task_acct e i x" if "find_task i e = Some x" for i x
  proof (cases "i = q_Task j")
    case True
    with that t' have "x = t'" by simp
    moreover have "open_jobs i e + 1 = open_jobs i d" using op [of i] True by simp
    ultimately show ?thesis using ta t'(2,4) pos True by (auto simp: task_acct_def)
  next
    case False
    with that t'(1) acct_invD(5) [OF inv, of i x] op [of i] show ?thesis by (simp add: task_acct_def)
  qed
  moreover have "ir_CreatedAt x \<le> now' \<and> ir_ID x \<in> queue_instance ` set (t_jobs (dd_queue d))" if "x \<in> set (w_instances e)" for x
    using that acct_invD(3,4) [OF inv, of x] clock w(2,5) j by (auto simp: e(2))
  ultimately have "acct_inv c (now', e)" using jobs acct_invD(1) [OF inv] by (intro acct_invI) (simp_all add: e(1))
  then show ?thesis by (simp add: e_def)
qed

interpretation remote_dispatch: invariant_of control_start "control_step dp c" "acct_inv c" for dp :: dispatcher and c :: "'w codec"
proof
  show "acct_inv c s" if "control_start s" for s using that by (rule acct_init)
  show "acct_inv c s'" if "acct_inv c s" "control_step dp c s s'" for s s'
    using that(2,1) by cases (auto intro: acct_poll acct_queue acct_settle)
qed

text \<open>C29. However polls, leases, failures, cancellations and settlements interleave, the counter of a task is the number of its jobs whose
  outcome is not recorded yet, and a task is open to a new round only when there is none.\<close>

theorem remote_accounting:
  assumes "reachable control_start (control_step dp c) (now, d)" "find_task i d = Some t"
  shows "it_OutstandingWorkflows t = int (open_jobs i d) \<and> (taskReopenable t \<longrightarrow> open_jobs i d = 0)"
  using acct_invD(5) [OF remote_dispatch.inv_reachable [OF assms(1)] assms(2)] by (simp add: task_acct_def)

definition ex_match :: "string \<Rightarrow> nat match" where
  "ex_match w = \<lparr>m_Worker = None, m_Route = \<lparr>rc_ID = w, rc_Priority = 0, rc_Match = zero_match, rc_Agent = [], rc_Worker = [], rc_Exclusive = False,
     rc_Once = False, rc_On = [], rc_CommentMatches = [], rc_Authors = [], rc_AuthorsAssociation = [], rc_IgnoreAuthors = [], rc_PRAuthors = [],
     rc_MaxDispatches = 0\<rparr>, m_InstanceID = []\<rparr>"

definition ex_codec :: "nat codec" where
  "ex_codec = \<lparr>encode = (\<lambda>p. rc_ID (m_Route (pl_Match p))),
     decode = (\<lambda>s. Some \<lparr>pl_Version = dispatchPayloadVersion, pl_Cell = empty_item, pl_Task = ex_task, pl_Match = ex_match s\<rparr>), json_ok = (\<lambda>_. True)\<rparr>"

definition ex_dispatcher :: dispatcher where
  "ex_dispatcher = \<lparr>dp_Workflows = [], dp_Agents = [], dp_agentRunner = (\<lambda>_. []), dp_project = ''p'', dp_MaxAttempts = 3\<rparr>"

definition ex_task_row :: "string \<Rightarrow> int \<Rightarrow> task_row" where
  "ex_task_row st n = internal_task.extend (ex_task\<lparr>it_State := st, it_OutstandingWorkflows := n\<rparr>) (task_row.fields 1)"

definition ex_db :: dispatch_db where
  "ex_db = \<lparr>w_tasks = [ex_task_row Done 0], w_instances = [], dd_queue = empty_queue\<rparr>"

definition ex_ids :: "nat \<Rightarrow> nat \<Rightarrow> string \<times> time" where
  "ex_ids n k = (''j'' @ itoa (int (n + k)), int (n + k) + 1)"

definition ex_polled :: dispatch_db where
  "ex_polled = enqueueFanOut ex_dispatcher ex_codec sound_store 1 (ex_ids 0) [] empty_item ex_task [ex_match ''a'', ex_match ''b''] ex_db"

theorem repoll_idempotent_witness:
  "length (t_jobs (dd_queue ex_polled)) = 2 \<and> outstanding ''t'' ex_polled = 2
   \<and> dd_queue (enqueueFanOut ex_dispatcher ex_codec sound_store 5 (ex_ids 5) [] empty_item ex_task [ex_match ''a'', ex_match ''b''] ex_polled) = dd_queue ex_polled"
proof -
  have f: "find_task (it_ID ex_task) ex_db = Some (ex_task_row Done 0)" by code_simp
  have o: "0 \<le> it_OutstandingWorkflows (ex_task_row Done 0)" by code_simp
  have c: "lawful_codec ex_codec empty_item ex_task [ex_match ''a'', ex_match ''b'']" by (simp add: lawful_codec_def ex_codec_def ex_match_def)
  have i: "\<forall>m\<in>set [ex_match ''a'', ex_match ''b'']. m_InstanceID m = []" by (simp add: ex_match_def)
  have "fresh_ids (ex_ids 0) 0 (length [ex_match ''a'', ex_match ''b'']) (dd_queue ex_db)"
    "fresh_ids (ex_ids 5) 0 (length [ex_match ''a'', ex_match ''b'']) (dd_queue ex_polled)" by code_simp+
  note r = repoll_idempotent [OF c _ i f o this(1) ex_polled_def this(2) refl, of 5]
  have "length (t_jobs (dd_queue ex_polled)) = 2" "outstanding ''t'' ex_polled = 2" by code_simp+
  with r show ?thesis by simp
qed

definition ex_canceled :: dispatch_db where
  "ex_canceled = ex_polled\<lparr>dd_queue := projr (RequestCancel 3 ''j0'' (dd_queue ex_polled))\<rparr>"

definition ex_settled :: dispatch_db where
  "ex_settled = settleRemoteQueueJob ex_codec 4 (hd (t_jobs (dd_queue ex_canceled))) ex_canceled"

theorem remote_accounting_witness:
  "\<exists>t. reachable control_start (control_step ex_dispatcher ex_codec) (4, ex_settled) \<and> find_task ''t'' ex_settled = Some t \<and> it_OutstandingWorkflows t = 1"
proof -
  have "reachable control_start (control_step ex_dispatcher ex_codec) (0, ex_db)"
    by (rule reachable_init) (simp add: control_start_def ex_db_def ex_task_row_def ex_task_def task_row.defs internal_task.defs)
  then have "reachable control_start (control_step ex_dispatcher ex_codec) (3, ex_polled)"
  proof (rule reachable_step)
    have "fresh_ids (ex_ids 0) 0 (length [ex_match ''a'', ex_match ''b'']) (dd_queue ex_db)" "find_task (it_ID ex_task) ex_db \<noteq> None" by code_simp+
    then show "control_step ex_dispatcher ex_codec (0, ex_db) (3, ex_polled)" unfolding ex_polled_def
      by (intro control_step.poll) (auto simp: ex_task_def ex_match_def lawful_codec_def ex_codec_def ex_ids_def less_Suc_eq numeral_2_eq_2)
  qed
  then have "reachable control_start (control_step ex_dispatcher ex_codec) (3, ex_canceled)"
  proof (rule reachable_step)
    have "RequestCancel 3 ''j0'' (dd_queue ex_polled) = Inr (dd_queue ex_canceled)" "length (t_jobs (dd_queue ex_canceled)) = length (t_jobs (dd_queue ex_polled))"
      by code_simp+
    then show "control_step ex_dispatcher ex_codec (3, ex_polled) (3, ex_canceled)"
      using control_step.queue [of ex_polled "dd_queue ex_canceled" ex_dispatcher ex_codec 3] by (simp add: ex_canceled_def queue_step.cancel)
  qed
  then have r: "reachable control_start (control_step ex_dispatcher ex_codec) (4, ex_settled)"
  proof (rule reachable_step)
    have "t_jobs (dd_queue ex_canceled) \<noteq> []" "isTerminalJobState (q_State (hd (t_jobs (dd_queue ex_canceled))))" by code_simp+
    then show "control_step ex_dispatcher ex_codec (3, ex_canceled) (4, ex_settled)" unfolding ex_settled_def
      by (intro control_step.settle) simp_all
  qed
  have "find_task ''t'' ex_settled \<noteq> None" by code_simp
  then obtain t where t: "find_task ''t'' ex_settled = Some t" by blast
  have "open_jobs ''t'' ex_settled = 1" by code_simp
  with remote_accounting [OF r t] r t show ?thesis by auto
qed

end
