(* ===== verification/Dispatch_Recovery.thy ===== *)
theory Dispatch_Recovery
  imports Dispatch_Accounting
begin

text \<open>
  What holds of the work tables after a crash: the state a starting daemon leaves behind its repairs, and the exclusion of a second run
  when the queue delivers a job again.
\<close>

section \<open>Repairs\<close>

definition no_state :: "string \<Rightarrow> 'a work_db_scheme \<Rightarrow> bool" where
  "no_state st d = list_all (\<lambda>w. ir_State w \<noteq> st) (w_instances d)"

lemma no_state_update:
  assumes "no_state st d" "\<And>w. ir_State (f w) \<noteq> st" "w_instances e = update_rows P f (w_instances d)"
  shows "no_state st e"
  using assms by (auto simp: no_state_def list_all_iff set_update_rows)

lemma job_outcome [simp]: "instanceStateForJob j \<noteq> Running"
  by (simp add: instanceStateForJob_def lifecycle_states)

lemma settle_accounting_rows [simp]: "w_instances (settleJobAccounting now j d) = w_instances d"
  by (simp add: settleJobAccounting_def Let_def case_prod_beta UpdateTaskState_def UpdateTaskStateReason_def)

lemma no_running_settle:
  assumes "no_state Running d"
  shows "no_state Running (settleRemoteQueueJob c now j d)"
proof -
  have "no_state Running (snd (LeaveQueuedState now r (instanceStateForJob j) [] d))" for r
    by (rule no_state_update [OF assms]) (simp_all add: LeaveQueuedState_def Let_def)
  moreover have "no_state Running d'" if "CreateWorkflowInstance now (mirror_row j) d = Some d'" for d'
    using that assms by (auto simp: CreateWorkflowInstance_def no_state_def mirror_row_def split: if_splits)
  moreover have "no_state Running (settleJobAccounting now j e) = no_state Running e" for e by (simp add: no_state_def)
  ultimately show ?thesis using assms
    by (auto simp: settleRemoteQueueJob_def settle_unreserved_def Let_def case_prod_beta split: option.splits)
qed

lemma no_running_reconcile: "no_state Running d \<Longrightarrow> no_state Running (reconcileTerminalQueueJobs c now d)"
proof -
  have one: "no_state Running e \<Longrightarrow> no_state Running (fold (settleRemoteQueueJob c now) js e)" for js and e :: dispatch_db
    by (induction js arbitrary: e) (auto intro: no_running_settle)
  assume "no_state Running d"
  then show ?thesis by (simp add: reconcileTerminalQueueJobs_def one)
qed

lemma no_running_interrupt: "no_state Running (ReconcileOrphanWorkflowInstances now d)"
  by (auto simp: ReconcileOrphanWorkflowInstances_def interrupt_rows_def no_state_def list_all_iff set_update_rows lifecycle_states split: if_splits)

lemma queued_reserved:
  "w \<in> set (w_instances (ReconcileOrphanQueuedInstances now reserved d)) \<Longrightarrow> ir_State w = Queued \<Longrightarrow> reserved (ir_ID w)"
  by (auto simp: ReconcileOrphanQueuedInstances_def interrupt_rows_def set_update_rows lifecycle_states split: if_splits)

text \<open>What a repaired task shows, and that the last repair keeps it.\<close>

definition repaired_task :: "instance_rec list \<Rightarrow> task_row \<Rightarrow> bool" where
  "repaired_task ws t \<longleftrightarrow> (settled_task t \<or> it_OutstandingWorkflows t = live_count (it_ID t) ws)
     \<and> (it_State t = Running \<and> it_OutstandingWorkflows t = 0 \<longrightarrow> \<not> list_ex (\<lambda>w. of_round t w \<and> (ir_State w = Done \<or> ir_State w = Failed)) ws)"

lemma repaired_settle: "repaired_task ws (settle_task now ws (recount_task now ws t))"
proof -
  have "settled_task u \<or> it_OutstandingWorkflows u = live_count (it_ID u) ws \<Longrightarrow> repaired_task ws (settle_task now ws u)" for u
    by (auto simp: repaired_task_def settle_task_def settled_task_def lifecycle_states)
  then show ?thesis by (simp add: recount_task_def)
qed

lemma repaired_propagate: "repaired_task ws t \<Longrightarrow> repaired_task ws (propagate_task now ws t)"
  by (auto simp: repaired_task_def propagate_task_def settled_task_def lifecycle_states)

text \<open>A task is shown interrupted when an interrupted instance is all it has left.\<close>

lemma propagated:
  assumes "it_State u \<notin> {Done, Failed, Canceled, Running}" "it_OutstandingWorkflows u = 0" "u = propagate_task now ws t"
    and "list_ex (\<lambda>w. ir_Task w = it_ID u \<and> interrupted_instance w) ws" "\<not> list_ex (\<lambda>w. ir_Task w = it_ID u \<and> live_instance w) ws"
  shows "it_BlockedReason u = ReasonInterrupted"
  using assms by (auto simp: propagate_task_def split: if_splits)


section \<open>Redelivery\<close>

lemma runs_checked:
  assumes "ExecuteQueuedJob c f resuming j d = Runs p" "q_Attempts j > 1" "it_ID (pl_Task p) \<noteq> []"
  shows "\<not> sf_query f" "\<not> resuming (it_ID (pl_Task p)) (rc_ID (m_Route (pl_Match p)))"
    "\<not> HasCompletedInstanceForRoute (it_ID (pl_Task p)) (rc_ID (m_Route (pl_Match p))) d"
    "\<not> HasActiveInstanceForRoute (it_ID (pl_Task p)) (rc_ID (m_Route (pl_Match p))) d"
proof -
  obtain p0 where p0: "decode c (q_Payload j) = Some p0" using assms(1) by (auto simp: ExecuteQueuedJob_def split: option.splits)
  have "completed_guard f j p0 d = None" "live_guard f resuming j p0 d = None" and
    p: "p = (if spent_reservation j p0 d then p0\<lparr>pl_Match := (pl_Match p0)\<lparr>m_InstanceID := []\<rparr>\<rparr> else p0)"
    using assms(1) p0 by (auto simp: ExecuteQueuedJob_def split: if_splits option.splits)
  moreover have "pl_Task p = pl_Task p0" "m_Route (pl_Match p) = m_Route (pl_Match p0)" by (simp_all add: p)
  ultimately show "\<not> sf_query f" "\<not> resuming (it_ID (pl_Task p)) (rc_ID (m_Route (pl_Match p)))"
      "\<not> HasCompletedInstanceForRoute (it_ID (pl_Task p)) (rc_ID (m_Route (pl_Match p))) d"
      "\<not> HasActiveInstanceForRoute (it_ID (pl_Task p)) (rc_ID (m_Route (pl_Match p))) d"
    using assms(2,3) by (auto simp: completed_guard_def live_guard_def redeliveryConflict_def Let_def split: if_splits option.splits sum.splits)
qed

lemma created_only:
  assumes "start_created now i flow task cell d = Started s d'" "\<not> HasActiveInstanceForRoute t wfID d" "w \<in> set (w_instances d')"
    and "ir_Task w = t" "ir_Workflow w = wfID" "active_instance w"
  shows "ir_ID w = s"
  using assms
  by (auto simp: start_created_def createInstance_def CreateWorkflowInstance_def HasActiveInstanceForRoute_def list_ex_iff split: option.splits if_splits)

lemma started_only:
  assumes "start_dispatch now newID p cell d = Started s d'" "\<not> HasActiveInstanceForRoute t wfID d" "w \<in> set (w_instances d')"
    and "ir_Task w = t" "ir_Workflow w = wfID" "active_instance w"
  shows "ir_ID w = s"
proof (cases "m_InstanceID (pl_Match p) \<noteq> []")
  case False
  with assms(1) created_only [OF _ assms(2-)] show ?thesis by (simp add: start_dispatch_def Let_def)
next
  case True
  let ?i = "m_InstanceID (pl_Match p)"
  obtain left d1 where l: "LeaveQueuedState now ?i Running [] d = (left, d1)" by (cases "LeaveQueuedState now ?i Running [] d")
  have rows: "ir_ID w = ?i \<or> w \<in> set (w_instances d)" if "w \<in> set (w_instances d1)" for w
    using l that by (auto simp: LeaveQueuedState_def Let_def set_update_rows)
  show ?thesis
  proof (cases left)
    case True
    with assms(1) l \<open>?i \<noteq> []\<close> have "s = ?i" "d' = d1" by (simp_all add: start_dispatch_def start_reserved_def Let_def)
    with rows [of w] assms(2-) show ?thesis by (auto simp: HasActiveInstanceForRoute_def list_ex_iff)
  next
    case False
    have "d1 = d"
    proof -
      have "\<not> list_ex (\<lambda>w. ir_ID w = ?i \<and> ir_State w = Queued) (w_instances d)" using l False by (auto simp: LeaveQueuedState_def Let_def)
      then have "update_rows (\<lambda>w. ir_ID w = ?i \<and> ir_State w = Queued) f (w_instances d) = w_instances d" for f
        unfolding update_rows_def by (intro map_idI) (auto simp: list_ex_iff)
      with l show ?thesis by (auto simp: LeaveQueuedState_def Let_def)
    qed
    with assms(1) l False \<open>?i \<noteq> []\<close> have "\<exists>flow. start_created now ?i flow (pl_Task p) cell d = Started s d'"
      by (auto simp: start_dispatch_def start_reserved_def Let_def split: if_splits)
    then show ?thesis using created_only [OF _ assms(2-)] by blast
  qed
qed


section \<open>Witnesses\<close>

definition ex_instance :: "string \<Rightarrow> string \<Rightarrow> string \<Rightarrow> instance_rec" where
  "ex_instance i flow st =
     \<lparr>ir_ID = i, ir_Workflow = flow, ir_Task = ''t'', ir_Cell = [], ir_Source = [], ir_State = st, ir_Reason = [], ir_Parent = [], ir_ResumedFrom = [],
      ir_Generation = 1, ir_CreatedAt = 1, ir_UpdatedAt = 1\<rparr>"

text \<open>A crash left one instance running, one finished and one reserved; the queue is empty.\<close>

definition ex_crashed :: dispatch_db where
  "ex_crashed = \<lparr>w_tasks = [ex_task_row Running 3], w_instances = [ex_instance ''x'' ''a'' Running, ex_instance ''y'' ''b'' Done, ex_instance ''z'' ''c'' Queued],
     dd_queue = empty_queue\<rparr>"

definition ex_repaired :: dispatch_db where
  "ex_repaired = repair 9 (reconcileTerminalQueueJobs ex_codec 9) (\<lambda>_. False) ex_crashed"


text \<open>The first attempt of a job was interrupted by the crash; the job is delivered again after the repair.\<close>

definition ex_again :: job where
  "ex_again = (enqueue_row ''j'' 1 (dispatch_job ex_dispatcher ex_codec 1 [] empty_item ex_task (ex_match ''a'')))\<lparr>q_State := sql_leased, q_Attempts := 2\<rparr>"

definition ex_payload :: "nat payload" where
  "ex_payload = \<lparr>pl_Version = 1, pl_Cell = empty_item, pl_Task = ex_task, pl_Match = ex_match ''a''\<rparr>"

definition ex_restarted :: dispatch_db where
  "ex_restarted = (case start_dispatch 10 ''n'' ex_payload empty_item ex_repaired of Started s d \<Rightarrow> d | _ \<Rightarrow> ex_repaired)"


end
