(* ===== verification/Poll_Loop.thy ===== *)
theory Poll_Loop
  imports Dispatch_Accounting "HOL-Library.Sublist" "HOL-Library.Multiset"
begin

text \<open>
  Polling (\<open>poll\<close>, \<open>pollLoop\<close>, \<open>fanOut\<close> and the pre-dispatch guards of \<open>internal/daemon/dispatcher.go\<close>; \<open>internal/daemon/resume_auto.go\<close>): each
  item of a source is routed, the guards drop the matches that must not start again, and the rest is handed to the queue or started at once. What the
  binder returns for an item is an argument, as is the answer of the store to each query. Log lines and events are left out, except that
  the report of a fully dropped task is told apart from its repetition.
\<close>

section \<open>The guards\<close>

record dropped_match =
  dm_Workflow :: string
  dm_Reason :: string
  dm_Detail :: string

definition dropped_String :: "dropped_match \<Rightarrow> string" where
  "dropped_String d = (if dm_Detail d = [] then dm_Workflow d @ '' ('' @ dm_Reason d @ '')'' else dm_Workflow d @ '' ('' @ dm_Reason d @ '': '' @ dm_Detail d @ '')'')"

text \<open>The error of a guard's query for a workflow, if it fails.\<close>

record guard_faults =
  gf_active :: "string \<Rightarrow> string option"
  gf_once :: "string \<Rightarrow> string option"
  gf_count :: "string \<Rightarrow> string option"

abbreviation flow :: "'w match \<Rightarrow> string" where
  "flow m \<equiv> rc_ID (m_Route m)"

fun run_guard :: "('w match \<Rightarrow> (string \<times> string) option) \<Rightarrow> 'w match list \<Rightarrow> 'w match list \<times> dropped_match list" where
  "run_guard verdict [] = ([], [])"
| "run_guard verdict (m # ms) =
     (let (out, dropped) = run_guard verdict ms in
      case verdict m of None \<Rightarrow> (m # out, dropped)
      | Some (reason, detail) \<Rightarrow> (out, \<lparr>dm_Workflow = flow m, dm_Reason = reason, dm_Detail = detail\<rparr> # dropped))"

definition dropAutoResumingMatches :: "(string \<Rightarrow> string \<Rightarrow> bool) \<Rightarrow> string \<Rightarrow> 'w match list \<Rightarrow> 'w match list \<times> dropped_match list" where
  "dropAutoResumingMatches resuming taskID ms = run_guard (\<lambda>m. if resuming taskID (flow m) then Some (''auto-resuming'', []) else None) ms"

definition dropActiveMatches :: "guard_faults \<Rightarrow> dispatch_db \<Rightarrow> string \<Rightarrow> 'w match list \<Rightarrow> 'w match list \<times> dropped_match list" where
  "dropActiveMatches gf d taskID ms = run_guard (\<lambda>m.
     case gf_active gf (flow m) of Some e \<Rightarrow> Some (''guard error'', e)
     | None \<Rightarrow> if HasActiveInstanceForRoute taskID (flow m) d then Some (''active instance'', []) else None) ms"

definition dropOnceMatches :: "guard_faults \<Rightarrow> dispatch_db \<Rightarrow> string \<Rightarrow> 'w match list \<Rightarrow> 'w match list \<times> dropped_match list" where
  "dropOnceMatches gf d taskID ms = run_guard (\<lambda>m.
     if \<not> rc_Once (m_Route m) then None
     else case gf_once gf (flow m) of Some e \<Rightarrow> Some (''guard error'', e)
     | None \<Rightarrow> if HasCompletedInstanceForRoute taskID (flow m) d then Some (''once'', ''already completed'') else None) ms"

definition dropCappedMatches :: "guard_faults \<Rightarrow> int \<Rightarrow> dispatch_db \<Rightarrow> string \<Rightarrow> 'w match list \<Rightarrow> 'w match list \<times> dropped_match list" where
  "dropCappedMatches gf limit d taskID ms =
     (if limit \<le> 0 then (ms, [])
      else run_guard (\<lambda>m.
        case gf_count gf (flow m) of Some e \<Rightarrow> None
        | None \<Rightarrow> let n = CountConsecutiveFailedInstances taskID (flow m) d in
            if n \<ge> limit then Some (''capped'', itoa n @ ''/'' @ itoa limit @ '' consecutive failures'') else None) ms)"

text \<open>The capped workflows whose \<open>on_fail\<close> hook is applied to the source.\<close>

definition parkCappedTask :: "(string \<Rightarrow> bool) \<Rightarrow> dropped_match list \<Rightarrow> string list" where
  "parkCappedTask has_on_fail dropped = filter has_on_fail (map dm_Workflow (filter (\<lambda>x. dm_Reason x = ''capped'') dropped))"

definition guard_matches ::
  "guard_faults \<Rightarrow> (string \<Rightarrow> string \<Rightarrow> bool) \<Rightarrow> int \<Rightarrow> dispatch_db \<Rightarrow> string \<Rightarrow> 'w match list \<Rightarrow> 'w match list \<times> dropped_match list" where
  "guard_matches gf resuming limit d taskID ms =
     (let (m1, b1) = dropAutoResumingMatches resuming taskID ms; (m2, b2) = dropActiveMatches gf d taskID m1;
          (m3, b3) = dropOnceMatches gf d taskID m2; (m4, b4) = dropCappedMatches gf limit d taskID m3
      in (m4, b1 @ b2 @ b3 @ b4))"

section \<open>Reporting a dropped task\<close>

record suppressed_routes =
  sr_Exclusive :: string
  sr_Workflows :: "string list"

definition suppressed_of :: "'w match list \<Rightarrow> 'w match list \<Rightarrow> suppressed_routes" where
  "suppressed_of matches suppressed =
     (if suppressed \<noteq> [] \<and> matches \<noteq> [] then \<lparr>sr_Exclusive = flow (last matches), sr_Workflows = map flow suppressed\<rparr>
      else \<lparr>sr_Exclusive = [], sr_Workflows = []\<rparr>)"

definition dropSignature :: "dropped_match list \<Rightarrow> suppressed_routes \<Rightarrow> string" where
  "dropSignature dropped suppressed =
     str_join '','' (sort (map (\<lambda>x. dm_Workflow x @ ''='' @ dm_Reason x) dropped @ map (\<lambda>i. i @ ''=suppressed'') (sr_Workflows suppressed)))"

section \<open>One cell\<close>

record poll_state =
  pl_db :: dispatch_db
  pl_inFlight :: "string \<rightharpoonup> time"
  pl_staleWarned :: "string list"
  pl_dropNotified :: "string \<rightharpoonup> string"

definition inFlightStaleAfter :: int where "inFlightStaleAfter = 15 * 60 * 1000000000"

definition reportStaleInFlight :: "time \<Rightarrow> string \<Rightarrow> time \<Rightarrow> poll_state \<Rightarrow> poll_state" where
  "reportStaleInFlight now cell since st =
     (if now - since < inFlightStaleAfter \<or> cell \<in> set (pl_staleWarned st) then st else st\<lparr>pl_staleWarned := cell # pl_staleWarned st\<rparr>)"

text \<open>The flag says whether the outcome is announced or is a repetition of the last announcement.\<close>

definition reportFullyDropped :: "string \<Rightarrow> dropped_match list \<Rightarrow> suppressed_routes \<Rightarrow> poll_state \<Rightarrow> bool \<times> poll_state" where
  "reportFullyDropped taskID dropped suppressed st =
     (let signature = dropSignature dropped suppressed in
      if pl_dropNotified st taskID = Some signature then (False, st)
      else (True, st\<lparr>pl_dropNotified := (pl_dropNotified st)(taskID \<mapsto> signature)\<rparr>))"

text \<open>
  \<open>fanOut\<close> of a poll, which owns the marker of its cell. The matches returned run at once, each on its own goroutine; the marker is then released when
  the last of them is over.
\<close>

definition fanOut ::
  "dispatcher \<Rightarrow> 'w codec \<Rightarrow> store_faults \<Rightarrow> bool \<Rightarrow> time \<Rightarrow> (nat \<Rightarrow> string \<times> time) \<Rightarrow> source_item \<Rightarrow> internal_task \<Rightarrow> bool \<Rightarrow> 'w match list
     \<Rightarrow> poll_state \<Rightarrow> 'w match list \<times> poll_state" where
  "fanOut dp c f queue now fresh cell task persisted ms st =
     (if ms = [] then ([], st\<lparr>pl_inFlight := (pl_inFlight st)(si_ID cell := None)\<rparr>)
      else if persisted \<and> queue then
        ([], st\<lparr>pl_db := enqueueFanOut dp c f now fresh [] cell task ms (pl_db st), pl_inFlight := (pl_inFlight st)(si_ID cell := None)\<rparr>)
      else (ms, if persisted \<and> \<not> sf_increment f then st\<lparr>pl_db := snd (IncrementOutstanding now (it_ID task) (int (length ms)) (pl_db st))\<rparr> else st))"

record 'w polled =
  pd_runs :: "'w match list"
  pd_dropped :: "dropped_match list"
  pd_announced :: bool

definition poll_cell ::
  "dispatcher \<Rightarrow> 'w codec \<Rightarrow> store_faults \<Rightarrow> guard_faults \<Rightarrow> (string \<Rightarrow> string \<Rightarrow> bool) \<Rightarrow> int \<Rightarrow> bool \<Rightarrow> 'w router \<Rightarrow> time \<Rightarrow> (nat \<Rightarrow> string \<times> time)
     \<Rightarrow> source_item \<Rightarrow> internal_task \<times> bool \<Rightarrow> poll_state \<Rightarrow> 'w polled \<times> poll_state" where
  "poll_cell dp c f gf resuming limit queue r now fresh cell bound st =
     (case pl_inFlight st (si_ID cell) of
        Some since \<Rightarrow> (\<lparr>pd_runs = [], pd_dropped = [], pd_announced = False\<rparr>, reportStaleInFlight now (si_ID cell) since st)
      | None \<Rightarrow>
          let st1 = st\<lparr>pl_inFlight := (pl_inFlight st)(si_ID cell \<mapsto> now)\<rparr>; (task, persisted) = bound;
              (matches, suppressed) = RouteAllWithSuppressed r task;
              (out, dropped) = (if persisted then guard_matches gf resuming limit (pl_db st) (it_ID task) matches else (matches, [])) in
          if out = [] then
            (let (announced, st2) = (if matches = [] \<or> dropped = [] then (False, st1)
                                     else reportFullyDropped (it_ID task) dropped (suppressed_of matches suppressed) st1)
             in (\<lparr>pd_runs = [], pd_dropped = dropped, pd_announced = announced\<rparr>, st2\<lparr>pl_inFlight := (pl_inFlight st2)(si_ID cell := None)\<rparr>))
          else let st2 = st1\<lparr>pl_dropNotified := (pl_dropNotified st1)(it_ID task := None)\<rparr>;
                   (runs, st3) = fanOut dp c f queue now fresh cell task persisted out st2
            in (\<lparr>pd_runs = runs, pd_dropped = dropped, pd_announced = False\<rparr>, st3))"

section \<open>The watermark\<close>

text \<open>One poll: when it was started, when the source answered and when it was over, and whether it reached the source.\<close>

record poll_event =
  pe_started :: time
  pe_fetched :: time
  pe_ended :: time
  pe_ok :: bool

definition orderly :: "poll_event \<Rightarrow> bool" where
  "orderly e \<longleftrightarrow> pe_started e \<le> pe_fetched e \<and> pe_fetched e \<le> pe_ended e"

text \<open>The ticks of \<open>pollLoop\<close>: each poll with the watermark it was given, and the watermark left behind.\<close>

fun ticks :: "time \<Rightarrow> poll_event list \<Rightarrow> (time \<times> poll_event) list" where
  "ticks lastPoll [] = []"
| "ticks lastPoll (e # es) = (lastPoll, e) # ticks (if pe_ok e then pe_started e else lastPoll) es"

definition pollLoop :: "poll_event \<Rightarrow> poll_event list \<Rightarrow> (time \<times> poll_event) list" where
  "pollLoop first es = (0, first) # ticks (if pe_ok first then pe_ended first else 0) es"

text \<open>A poll returns what changed since its watermark and before it was answered.\<close>

definition sees :: "time \<times> poll_event \<Rightarrow> time \<Rightarrow> bool" where
  "sees we u \<longleftrightarrow> pe_ok (snd we) \<and> fst we \<le> u \<and> u \<le> pe_fetched (snd we)"

section \<open>Resuming at startup\<close>

definition autoResumeKey :: "string \<Rightarrow> string \<Rightarrow> string" where
  "autoResumeKey taskID workflowID = taskID @ [CHR 0x00] @ workflowID"

definition resume_policy :: "string \<Rightarrow> string" where
  "resume_policy r = (if r = [] then ''allowed'' else r)"

definition resumes_auto :: "(string \<times> string) list \<Rightarrow> instance_rec \<Rightarrow> bool" where
  "resumes_auto workflows w = (case map_of workflows (ir_Workflow w) of None \<Rightarrow> False | Some r \<Rightarrow> resume_policy r = ''auto'')"

definition key_of :: "instance_rec \<Rightarrow> string" where
  "key_of w = autoResumeKey (ir_Task w) (ir_Workflow w)"

text \<open>The keys in the order they were first seen, and the last instance of each.\<close>

fun newest :: "(string \<times> string) list \<Rightarrow> instance_rec list \<Rightarrow> (string \<rightharpoonup> instance_rec) \<Rightarrow> string list \<Rightarrow> (string \<rightharpoonup> instance_rec) \<times> string list" where
  "newest workflows [] latest order = (latest, order)"
| "newest workflows (w # ws) latest order =
     (if \<not> resumes_auto workflows w then newest workflows ws latest order
      else newest workflows ws (latest(key_of w \<mapsto> w)) (if latest (key_of w) = None then order @ [key_of w] else order))"

definition taskSettled :: "string \<Rightarrow> dispatch_db \<Rightarrow> bool" where
  "taskSettled taskID d = (taskID \<noteq> [] \<and> (case find_task taskID d of None \<Rightarrow> False | Some t \<Rightarrow> it_State t = Done \<or> it_State t = Failed))"

text \<open>\<open>fails\<close> says for which instances the descendant query fails; \<open>launch\<close> is the outcome of \<open>startResume\<close>.\<close>

fun resume_each :: "(string \<Rightarrow> bool) \<Rightarrow> (instance_rec \<Rightarrow> string + string) \<Rightarrow> dispatch_db \<Rightarrow> (string \<rightharpoonup> instance_rec) \<Rightarrow> string list \<Rightarrow> string list
    \<Rightarrow> (instance_rec \<times> string) list \<times> string list" where
  "resume_each fails launch d latest claimed [] = ([], claimed)"
| "resume_each fails launch d latest claimed (key # keys) =
     (case latest key of None \<Rightarrow> resume_each fails launch d latest claimed keys
      | Some w \<Rightarrow>
          if fails (ir_ID w) \<or> HasResumeDescendant (ir_ID w) d \<or> taskSettled (ir_Task w) d \<or> key \<in> set claimed
          then resume_each fails launch d latest claimed keys
          else case launch w of Inl e \<Rightarrow> resume_each fails launch d latest claimed keys
          | Inr newID \<Rightarrow> (let (rs, cl) = resume_each fails launch d latest (key # claimed) keys in ((w, newID) # rs, cl)))"

definition resumeAutoInterrupted ::
  "(string \<times> string) list \<Rightarrow> (string \<Rightarrow> bool) \<Rightarrow> (instance_rec \<Rightarrow> string + string) \<Rightarrow> string list \<Rightarrow> dispatch_db \<Rightarrow> (instance_rec \<times> string) list \<times> string list" where
  "resumeAutoInterrupted workflows fails launch claimed d =
     (let (latest, order) = newest workflows (ListWorkflowInstancesBlockedBy [ReasonInterrupted] d) (\<lambda>_. None) []
      in resume_each fails launch d latest claimed order)"

section \<open>What the guards let through\<close>

lemma run_guard_fst: "fst (run_guard v ms) = filter (\<lambda>m. v m = None) ms"
  by (induction ms) (auto simp: case_prod_beta Let_def split: option.splits)

lemma run_guard_mset: "mset (map flow (fst (run_guard v ms))) + mset (map dm_Workflow (snd (run_guard v ms))) = mset (map flow ms)"
  by (induction ms) (auto simp: case_prod_beta Let_def split: option.splits)

lemma guard_matches_fst:
  "fst (guard_matches gf resuming limit d taskID ms) =
     fst (dropCappedMatches gf limit d taskID (fst (dropOnceMatches gf d taskID (fst (dropActiveMatches gf d taskID (fst (dropAutoResumingMatches resuming taskID ms)))))))"
  by (simp add: guard_matches_def case_prod_beta Let_def)

lemma capped_fst: "fst (dropCappedMatches gf limit d taskID ms) =
    filter (\<lambda>m. limit \<le> 0 \<or> gf_count gf (flow m) \<noteq> None \<or> CountConsecutiveFailedInstances taskID (flow m) d < limit) ms"
  by (auto simp: dropCappedMatches_def run_guard_fst Let_def intro!: filter_cong split: option.splits if_splits)

lemma capped_mset: "mset (map flow (fst (dropCappedMatches gf limit d taskID ms))) + mset (map dm_Workflow (snd (dropCappedMatches gf limit d taskID ms))) = mset (map flow ms)"
  by (simp add: dropCappedMatches_def run_guard_mset [unfolded mset_map])

definition may_start :: "guard_faults \<Rightarrow> (string \<Rightarrow> string \<Rightarrow> bool) \<Rightarrow> int \<Rightarrow> dispatch_db \<Rightarrow> string \<Rightarrow> 'w match \<Rightarrow> bool" where
  "may_start gf resuming limit d taskID m \<longleftrightarrow> \<not> resuming taskID (flow m) \<and> gf_active gf (flow m) = None \<and> \<not> HasActiveInstanceForRoute taskID (flow m) d
     \<and> (rc_Once (m_Route m) \<longrightarrow> gf_once gf (flow m) = None \<and> \<not> HasCompletedInstanceForRoute taskID (flow m) d)
     \<and> (limit \<le> 0 \<or> gf_count gf (flow m) \<noteq> None \<or> CountConsecutiveFailedInstances taskID (flow m) d < limit)"

lemma guard_matches_filter: "fst (guard_matches gf resuming limit d taskID ms) = filter (may_start gf resuming limit d taskID) ms"
  unfolding guard_matches_fst capped_fst dropOnceMatches_def dropActiveMatches_def dropAutoResumingMatches_def run_guard_fst filter_filter
  by (rule filter_cong) (auto simp: may_start_def split: option.splits if_splits)

lemma guard_matches_mset:
  "mset (map flow (fst (guard_matches gf resuming limit d taskID ms))) + mset (map dm_Workflow (snd (guard_matches gf resuming limit d taskID ms))) = mset (map flow ms)"
proof -
  define a where "a = dropAutoResumingMatches resuming taskID ms"
  define b where "b = dropActiveMatches gf d taskID (fst a)"
  define o1 where "o1 = dropOnceMatches gf d taskID (fst b)"
  define e where "e = dropCappedMatches gf limit d taskID (fst o1)"
  note parts = run_guard_mset [symmetric]
  have 1: "mset (map flow ms) = mset (map flow (fst a)) + mset (map dm_Workflow (snd a))" unfolding a_def dropAutoResumingMatches_def by (rule parts)
  have 2: "mset (map flow (fst a)) = mset (map flow (fst b)) + mset (map dm_Workflow (snd b))" unfolding b_def dropActiveMatches_def by (rule parts)
  have 3: "mset (map flow (fst b)) = mset (map flow (fst o1)) + mset (map dm_Workflow (snd o1))" unfolding o1_def dropOnceMatches_def by (rule parts)
  have 4: "mset (map flow (fst o1)) = mset (map flow (fst e)) + mset (map dm_Workflow (snd e))" unfolding e_def by (rule capped_mset [symmetric])
  have "guard_matches gf resuming limit d taskID ms = (fst e, snd a @ snd b @ snd o1 @ snd e)"
    by (simp add: guard_matches_def case_prod_beta Let_def a_def b_def o1_def e_def)
  then show ?thesis by (simp only: fst_conv snd_conv map_append mset_append 1 2 3 4 ac_simps)
qed

text \<open>The guards keep, in routing order, exactly the matches that may start: no live or resuming run of the workflow for the task, not completed when
  declared once, fewer consecutive failures than the cap; an error of the first two checks drops the match, an error of the count keeps it. Every
  match that is not kept is reported once.\<close>

theorem guards_exact:
  "fst (guard_matches gf resuming limit d taskID ms) = filter (may_start gf resuming limit d taskID) ms
   \<and> mset (map dm_Workflow (snd (guard_matches gf resuming limit d taskID ms))) = mset (map flow (filter (\<lambda>m. \<not> may_start gf resuming limit d taskID m) ms))"
proof -
  have "mset (map flow (filter P ms)) + mset (map flow (filter (\<lambda>m. \<not> P m) ms)) = mset (map flow ms)" for P by (induction ms) auto
  from this [of "may_start gf resuming limit d taskID"] guard_matches_mset [of gf resuming limit d taskID ms] show ?thesis
    unfolding guard_matches_filter by (metis add_left_cancel)
qed

section \<open>No change is missed, except by the first poll\<close>

lemma ticks_cover:
  assumes "list_all orderly es" "e \<in> set es" "pe_ok e" "lastPoll \<le> u" "u \<le> pe_fetched e"
  shows "\<exists>we\<in>set (ticks lastPoll es). sees we u"
  using assms
proof (induction es arbitrary: lastPoll)
  case (Cons x es)
  show ?case
  proof (cases "pe_ok x \<and> u \<le> pe_fetched x")
    case True
    with Cons.prems(4) show ?thesis by (simp add: sees_def)
  next
    case False
    with Cons.prems have e: "e \<in> set es" by auto
    have "(if pe_ok x then pe_started x else lastPoll) \<le> u" using False Cons.prems(1,4) by (auto simp: orderly_def)
    from Cons.IH [OF _ e Cons.prems(3) this Cons.prems(5)] Cons.prems(1) show ?thesis by auto
  qed
qed simp

lemma ticks_since: "we \<in> set (ticks lastPoll es) \<Longrightarrow> fst we = lastPoll \<or> fst we \<in> pe_started ` set es"
  by (induction es arbitrary: lastPoll) (auto split: if_splits)

text \<open>C34. After the first poll, whatever polls fail, every change up to the moment the last successful poll was answered is
  returned by some poll.\<close>

theorem watermark_complete:
  assumes "list_all orderly es" "e \<in> set es" "pe_ok e" "(if pe_ok first then pe_ended first else 0) \<le> u" "u \<le> pe_fetched e"
  shows "\<exists>we\<in>set (pollLoop first es). sees we u"
  using ticks_cover [OF assms] by (auto simp: pollLoop_def)


section \<open>A poll through the queue\<close>

lemma routed_unreserved: "m \<in> set (RouteAll r task) \<Longrightarrow> m_InstanceID m = []"
proof -
  have "m \<in> set (fst (route_all r t routes claimed)) \<Longrightarrow> m_InstanceID m = []" for t routes claimed
    by (induction r t routes claimed rule: route_all.induct) (auto simp: resolveMatch_def split: if_splits option.splits)
  then show "m \<in> set (RouteAll r task) \<Longrightarrow> m_InstanceID m = []" by (simp add: RouteAll_def RouteAllWithSuppressed_def)
qed

lemma fresh_ids_fewer: "fresh_ids fresh k n q \<Longrightarrow> n' \<le> n \<Longrightarrow> fresh_ids fresh k n' q"
proof -
  assume a: "fresh_ids fresh k n q" "n' \<le> n"
  then have "[k..<k + n] = [k..<k + n'] @ [k + n'..<k + n]" using upt_add_eq_append [of k "k + n'" "n - n'"] by simp
  with a show "fresh_ids fresh k n' q" by (auto simp: fresh_ids_def)
qed

text \<open>C33. Polling a cell through the queue adds jobs only for workflows its task is routed to and may start, and leaves the cell
  open to the next poll.\<close>

theorem poll_starts_guarded:
  assumes "poll_cell dp c sound_store gf resuming limit True r now fresh cell (task, True) st = (pd, st')" "pl_inFlight st (si_ID cell) = None"
    and "lawful_codec c cell task (RouteAll r task)" "fresh_ids fresh 0 (length (RouteAll r task)) (dd_queue (pl_db st))"
    and "find_task (it_ID task) (pl_db st) = Some t" "0 \<le> it_OutstandingWorkflows t"
  shows "pd_runs pd = [] \<and> pl_inFlight st' = pl_inFlight st
     \<and> (\<exists>new. t_jobs (dd_queue (pl_db st')) = t_jobs (dd_queue (pl_db st)) @ new
         \<and> (\<forall>j\<in>set new. q_Task j = it_ID task
             \<and> (\<exists>m\<in>set (RouteAll r task). q_Workflow j = flow m \<and> may_start gf resuming limit (pl_db st) (it_ID task) m)))"
proof -
  obtain matches suppressed where ra: "RouteAllWithSuppressed r task = (matches, suppressed)" by fastforce
  then have routed: "RouteAll r task = matches" by (simp add: RouteAll_def)
  obtain out dropped where g: "guard_matches gf resuming limit (pl_db st) (it_ID task) matches = (out, dropped)" by fastforce
  then have out: "out = filter (may_start gf resuming limit (pl_db st) (it_ID task)) matches" using guard_matches_filter by (metis fst_conv)
  have idem: "(pl_inFlight st)(si_ID cell := None) = pl_inFlight st" using assms(2) by (rule fun_upd_idem)
  show ?thesis
  proof (cases "out = []")
    case True
    have "pd_runs pd = []" "pl_db st' = pl_db st" "pl_inFlight st' = pl_inFlight st"
      using assms(1,2) True
      by (auto simp: poll_cell_def ra g Let_def reportFullyDropped_def case_prod_beta idem split: if_splits)
    then show ?thesis by auto
  next
    case False
    have p: "pd_runs pd = []" "pl_db st' = enqueueFanOut dp c sound_store now fresh [] cell task out (pl_db st)" "pl_inFlight st' = pl_inFlight st"
      using assms(1,2) False by (auto simp: poll_cell_def ra g Let_def fanOut_def idem)
    have c: "lawful_codec c cell task out" using assms(3) by (simp add: lawful_codec_def routed out list_all_iff)
    have i: "\<forall>m\<in>set out. m_InstanceID m = []" using routed_unreserved routed out by auto
    have "length out \<le> length matches" by (simp add: out)
    then have "fresh_ids fresh 0 (length out) (dd_queue (pl_db st))" using assms(4) fresh_ids_fewer routed by metis
    from enqueueFanOut_effect [OF c i this assms(5,6), of dp now "[]"] obtain g new t' where
      e: "fan_effect dp c fresh g [] cell task out 0 (pl_db st) (add_outstanding now (int (length out)) t) (pl_db st') new t'" unfolding p(2) by blast
    have "q_Task j = it_ID task \<and> (\<exists>m\<in>set (RouteAll r task). q_Workflow j = flow m \<and> may_start gf resuming limit (pl_db st) (it_ID task) m)" if "j \<in> set new" for j
      using e that sent_simps(1,3) [of dp c fresh g "[]" cell task out 0 j] by (auto simp: fan_effect_def out routed)
    with e p show ?thesis by (auto simp: fan_effect_def)
  qed
qed

section \<open>Resuming once\<close>

definition resumable :: "(string \<times> string) list \<Rightarrow> string \<Rightarrow> instance_rec list \<Rightarrow> instance_rec list" where
  "resumable workflows key ws = filter (\<lambda>w. resumes_auto workflows w \<and> key_of w = key) ws"

lemma newest_spec:
  assumes "newest workflows ws latest order = (l, ks)" "distinct order" "set order = dom latest"
  shows "distinct ks \<and> set ks = dom l \<and> l key = (if resumable workflows key ws = [] then latest key else Some (last (resumable workflows key ws)))"
  using assms
proof (induction ws arbitrary: latest order)
  case (Cons w ws)
  show ?case
  proof (cases "resumes_auto workflows w")
    case False
    with Cons show ?thesis by (simp add: resumable_def)
  next
    case True
    let ?latest = "latest(key_of w \<mapsto> w)" and ?order = "if latest (key_of w) = None then order @ [key_of w] else order"
    have n: "newest workflows ws ?latest ?order = (l, ks)" using Cons.prems(1) True by simp
    have "distinct ?order" "set ?order = dom ?latest" using Cons.prems(2,3) by (auto simp: domIff)
    from Cons.IH [OF n this] True show ?thesis by (auto simp: resumable_def)
  qed
qed (simp add: resumable_def)

lemma resume_each_spec:
  assumes "resume_each fails launch d latest claimed keys = (rs, claimed')" "distinct keys" "\<And>k w. latest k = Some w \<Longrightarrow> key_of w = k"
  shows "distinct (map (\<lambda>(w, n). key_of w) rs) \<and> (\<forall>(w, n)\<in>set rs. key_of w \<in> set keys \<and> latest (key_of w) = Some w \<and> \<not> HasResumeDescendant (ir_ID w) d
     \<and> \<not> taskSettled (ir_Task w) d \<and> key_of w \<notin> set claimed \<and> launch w = Inr n)"
  using assms(1,2)
proof (induction keys arbitrary: claimed rs claimed')
  case (Cons k ks)
  show ?case
  proof (cases "\<exists>w newID. latest k = Some w \<and> \<not> (fails (ir_ID w) \<or> HasResumeDescendant (ir_ID w) d \<or> taskSettled (ir_Task w) d \<or> k \<in> set claimed) \<and> launch w = Inr newID")
    case False
    then have "resume_each fails launch d latest claimed (k # ks) = resume_each fails launch d latest claimed ks"
      by (auto split: option.splits sum.splits)
    with Cons.prems(1) have "resume_each fails launch d latest claimed ks = (rs, claimed')" by simp
    from Cons.IH [OF this] Cons.prems(2) show ?thesis by auto
  next
    case True
    then obtain w newID where w: "latest k = Some w" "\<not> HasResumeDescendant (ir_ID w) d" "\<not> taskSettled (ir_Task w) d" "k \<notin> set claimed" "launch w = Inr newID"
      "\<not> fails (ir_ID w)" by auto
    obtain rs' cl where r: "resume_each fails launch d latest (k # claimed) ks = (rs', cl)" by fastforce
    with w Cons.prems(1) have rs: "rs = (w, newID) # rs'" by simp
    have "key_of w = k" by (rule assms(3) [OF w(1)])
    with Cons.IH [OF r] Cons.prems(2) w rs show ?thesis by (auto simp: image_iff)
  qed
qed simp

text \<open>Startup resumes at most one instance per task and workflow, the newest interrupted one of a workflow that resumes by itself, and never one
  that was continued already, whose task is settled or that another resume has claimed.\<close>

theorem auto_resume_newest:
  assumes "resumeAutoInterrupted workflows fails launch claimed d = (rs, claimed')"
  shows "distinct (map (\<lambda>(w, n). key_of w) rs)
     \<and> (\<forall>(w, n)\<in>set rs. resumable workflows (key_of w) (ListWorkflowInstancesBlockedBy [ReasonInterrupted] d) \<noteq> []
         \<and> w = last (resumable workflows (key_of w) (ListWorkflowInstancesBlockedBy [ReasonInterrupted] d))
         \<and> \<not> HasResumeDescendant (ir_ID w) d \<and> \<not> taskSettled (ir_Task w) d \<and> key_of w \<notin> set claimed)"
proof -
  let ?ws = "ListWorkflowInstancesBlockedBy [ReasonInterrupted] d"
  obtain l ks where n: "newest workflows ?ws (\<lambda>_. None) [] = (l, ks)" by fastforce
  then have spec: "distinct ks \<and> set ks = dom l \<and> l key = (if resumable workflows key ?ws = [] then None else Some (last (resumable workflows key ?ws)))" for key
    using newest_spec [OF n, of key] by simp
  have key: "key_of w = k" if "l k = Some w" for k w
  proof -
    from that spec [of k] have "resumable workflows k ?ws \<noteq> []" "w = last (resumable workflows k ?ws)" by (auto split: if_splits)
    then have "w \<in> set (resumable workflows k ?ws)" by simp
    then show ?thesis by (simp add: resumable_def)
  qed
  have r: "resume_each fails launch d l claimed ks = (rs, claimed')" using assms n by (simp add: resumeAutoInterrupted_def)
  from resume_each_spec [OF r _ key] spec have s: "distinct (map (\<lambda>(w, n). key_of w) rs)"
    "\<And>w n. (w, n) \<in> set rs \<Longrightarrow> l (key_of w) = Some w \<and> \<not> HasResumeDescendant (ir_ID w) d \<and> \<not> taskSettled (ir_Task w) d \<and> key_of w \<notin> set claimed" by auto
  have "resumable workflows (key_of w) ?ws \<noteq> [] \<and> w = last (resumable workflows (key_of w) ?ws)" if "(w, n) \<in> set rs" for w n
    using s(2) [OF that] spec [of "key_of w"] by (auto split: if_splits)
  with s show ?thesis by auto
qed

section \<open>Witnesses\<close>

definition ex_first :: poll_event where "ex_first = \<lparr>pe_started = 10, pe_fetched = 12, pe_ended = 20, pe_ok = True\<rparr>"
definition ex_failed :: poll_event where "ex_failed = \<lparr>pe_started = 30, pe_fetched = 31, pe_ended = 31, pe_ok = False\<rparr>"
definition ex_later :: poll_event where "ex_later = \<lparr>pe_started = 40, pe_fetched = 42, pe_ended = 45, pe_ok = True\<rparr>"

theorem watermark_complete_witness: "list_ex (\<lambda>we. sees we 31) (pollLoop ex_first [ex_failed, ex_later])"
  using watermark_complete [of "[ex_failed, ex_later]" ex_later ex_first 31]
  by (simp add: list_ex_iff ex_first_def ex_failed_def ex_later_def orderly_def)


definition ex_route_codec :: "nat codec" where
  "ex_route_codec = \<lparr>encode = (\<lambda>p. flow (pl_Match p)),
     decode = (\<lambda>s. map_option (\<lambda>m. \<lparr>pl_Version = dispatchPayloadVersion, pl_Cell = empty_item, pl_Task = ex_task, pl_Match = m\<rparr>)
       (find (\<lambda>m. flow m = s) (RouteAll ex_router ex_task))), json_ok = (\<lambda>_. True)\<rparr>"

definition ex_live :: "string \<Rightarrow> string \<Rightarrow> string \<Rightarrow> time \<Rightarrow> instance_rec" where
  "ex_live i st reason at = \<lparr>ir_ID = i, ir_Workflow = ''first'', ir_Task = ''t'', ir_Cell = [], ir_Source = [], ir_State = st, ir_Reason = reason, ir_Parent = [],
     ir_ResumedFrom = [], ir_Generation = 1, ir_CreatedAt = at, ir_UpdatedAt = at\<rparr>"

definition ex_sound_guards :: guard_faults where
  "ex_sound_guards = \<lparr>gf_active = (\<lambda>_. None), gf_once = (\<lambda>_. None), gf_count = (\<lambda>_. None)\<rparr>"

text \<open>The task is routed to two workflows, one of which is running.\<close>

definition ex_poll :: poll_state where
  "ex_poll = \<lparr>pl_db = \<lparr>w_tasks = [ex_task_row Running 1], w_instances = [ex_live ''x'' Running [] 1], dd_queue = empty_queue\<rparr>,
     pl_inFlight = (\<lambda>_. None), pl_staleWarned = [], pl_dropNotified = (\<lambda>_. None)\<rparr>"

definition ex_poll_result :: "nat polled \<times> poll_state" where
  "ex_poll_result = poll_cell ex_dispatcher ex_route_codec sound_store ex_sound_guards (\<lambda>_ _. False) 3 True ex_router 5 (ex_ids 5) empty_item (ex_task, True) ex_poll"

theorem poll_starts_guarded_witness:
  "map q_Workflow (t_jobs (dd_queue (pl_db (snd ex_poll_result)))) = [''own''] \<and> pl_inFlight (snd ex_poll_result) = pl_inFlight ex_poll"
proof -
  have c: "lawful_codec ex_route_codec empty_item ex_task (RouteAll ex_router ex_task)" by code_simp
  have i: "fresh_ids (ex_ids 5) 0 (length (RouteAll ex_router ex_task)) (dd_queue (pl_db ex_poll))" by code_simp
  have t: "find_task (it_ID ex_task) (pl_db ex_poll) = Some (ex_task_row Running 1)" "0 \<le> it_OutstandingWorkflows (ex_task_row Running 1)" by code_simp+
  have "pl_inFlight ex_poll (si_ID empty_item) = None" by (simp add: ex_poll_def)
  from poll_starts_guarded [OF _ this c i t, of ex_dispatcher ex_sound_guards "\<lambda>_ _. False" 3 5 "fst ex_poll_result" "snd ex_poll_result"]
  have "pl_inFlight (snd ex_poll_result) = pl_inFlight ex_poll" by (simp add: ex_poll_result_def)
  moreover have "map q_Workflow (t_jobs (dd_queue (pl_db (snd ex_poll_result)))) = [''own'']" by code_simp
  ultimately show ?thesis by simp
qed

text \<open>Two crashes left two interrupted runs of one workflow.\<close>

definition ex_interrupted :: dispatch_db where
  "ex_interrupted = \<lparr>w_tasks = [ex_task_row Running 0], w_instances = [ex_live ''x'' Blocked ReasonInterrupted 1, ex_live ''y'' Blocked ReasonInterrupted 2],
     dd_queue = empty_queue\<rparr>"

definition ex_resumes :: "(instance_rec \<times> string) list \<times> string list" where
  "ex_resumes = resumeAutoInterrupted [(''first'', ''auto'')] (\<lambda>_. False) (\<lambda>w. Inr ''n'') [] ex_interrupted"

theorem auto_resume_newest_witness:
  "map (\<lambda>(w, n). ir_ID w) (fst ex_resumes) = [''y''] \<and> distinct (map (\<lambda>(w, n). key_of w) (fst ex_resumes))"
proof -
  have "map (\<lambda>(w, n). ir_ID w) (fst ex_resumes) = [''y'']" by code_simp
  moreover have "resumeAutoInterrupted [(''first'', ''auto'')] (\<lambda>_. False) (\<lambda>w. Inr ''n'') [] ex_interrupted = (fst ex_resumes, snd ex_resumes)"
    by (simp add: ex_resumes_def)
  ultimately show ?thesis using auto_resume_newest by blast
qed

end
