(* ===== verification/Worker_Runtime.thy ===== *)
theory Worker_Runtime
  imports Queue_Moves Transition
begin

text \<open>
  The process that takes jobs from the queue and executes them (\<open>internal/worker/worker.go\<close>). It runs against the store of
  \<open>Queue_Store\<close>, which other workers and the control plane use at the same time: one step is one store operation of the
  process or of somebody else. The process has three kinds of goroutine: the loop that claims, the loop that reports the worker alive,
  and one execution per claim with its own lease heartbeat.
\<close>

section \<open>Configuration\<close>

record runtime_config =
  wc_Worker :: qworker
  wc_LeaseDuration :: int
  wc_HeartbeatInterval :: int
  wc_WorkerHeartbeat :: int
  wc_WorkerTimeout :: int
  wc_PollInterval :: int
  wc_Policy :: concurrency_policy

datatype runtime_error = WorkerIDMissing | HeartbeatTooLong

definition New_runtime :: "runtime_config \<Rightarrow> runtime_error + runtime_config" where
  "New_runtime c =
     (if wk_ID (wc_Worker c) = [] then Inl WorkerIDMissing
      else let w = wc_Worker c;
               w' = w\<lparr>wk_Protocol := (if wk_Protocol w = 0 then WorkerProtocolVersion else wk_Protocol w),
                      wk_Capacity := (if wk_Capacity w \<le> 0 then 1 else wk_Capacity w), wk_Ready := True\<rparr>;
               lease = (if wc_LeaseDuration c \<le> 0 then thirty_seconds else wc_LeaseDuration c);
               beat = (if wc_HeartbeatInterval c \<le> 0 then lease div 3 else wc_HeartbeatInterval c)
        in if beat \<ge> lease then Inl HeartbeatTooLong
           else Inr (c\<lparr>wc_Worker := w', wc_LeaseDuration := lease, wc_HeartbeatInterval := beat,
                       wc_WorkerHeartbeat := (if wc_WorkerHeartbeat c \<le> 0 then beat else wc_WorkerHeartbeat c),
                       wc_WorkerTimeout := (if wc_WorkerTimeout c \<le> 0 then thirty_seconds else wc_WorkerTimeout c),
                       wc_PollInterval := (if wc_PollInterval c \<le> 0 then 500000000 else wc_PollInterval c)\<rparr>))"

section \<open>The process and its surroundings\<close>

datatype rt_phase = Unregistered | Refused | Polling | Draining | Stopping | Returned

record runtime =
  rt_phase :: rt_phase
  rt_beating :: bool
  rt_claims :: "(string \<times> string \<times> string) list"

text \<open>Operations of the store by anybody but the worker \<open>i\<close>: they do not speak for it, but may end its leases.\<close>

inductive foreign_step :: "string \<Rightarrow> queue_db \<Rightarrow> queue_db \<Rightarrow> bool" for i where
  "Enqueue json_valid newID now job d = Inr (out, d') \<Longrightarrow> foreign_step i d d'"
| "RegisterWorker now w d = Inr d' \<Longrightarrow> wk_ID w \<noteq> i \<Longrightarrow> foreign_step i d d'"
| "HeartbeatWorker now k ready d = Inr d' \<Longrightarrow> k \<noteq> i \<Longrightarrow> foreign_step i d d'"
| "SetWorkerDrain k draining d = Inr d' \<Longrightarrow> k \<noteq> i \<Longrightarrow> foreign_step i d d'"
| "claim clock attemptID token req d = Inr (out, d') \<Longrightarrow> cr_Worker req \<noteq> i \<Longrightarrow> foreign_step i d d'"
| "heartbeat clock jobID attemptID token ext d = Inr (out, d') \<Longrightarrow> foreign_step i d d'"
| "Queue_Store.finish now jobID attemptID token res d = Inr d' \<Longrightarrow> foreign_step i d d'"
| "RequestCancel now jobID d = Inr d' \<Longrightarrow> foreign_step i d d'"
| "RequestCancelFor now taskID workflowID d = (n, d') \<Longrightarrow> foreign_step i d d'"
| "ReleaseAffinity now jobID d = Inr d' \<Longrightarrow> foreign_step i d d'"
| "reclaimExpired now cutoff d = (n, d') \<Longrightarrow> foreign_step i d d'"

abbreviation worker_id :: "runtime_config \<Rightarrow> string" where
  "worker_id c \<equiv> wk_ID (wc_Worker c)"

definition claim_req :: "runtime_config \<Rightarrow> claim_request" where
  "claim_req c = \<lparr>cr_Worker = worker_id c, cr_LeaseDuration = wc_LeaseDuration c, cr_WorkerTimeout = wc_WorkerTimeout c, cr_Policy = wc_Policy c\<rparr>"

definition ignoring :: "queue_error + queue_db \<Rightarrow> queue_db \<Rightarrow> queue_db" where
  "ignoring r d = (case r of Inl e \<Rightarrow> d | Inr d' \<Rightarrow> d')"

inductive worker_step :: "runtime_config \<Rightarrow> queue_db \<times> runtime \<Rightarrow> queue_db \<times> runtime \<Rightarrow> bool" for c where
  register: "rt_phase r = Unregistered \<Longrightarrow> RegisterWorker now (wc_Worker c) d = Inr d' \<Longrightarrow> worker_step c (d, r) (d', r\<lparr>rt_phase := Polling, rt_beating := True\<rparr>)"
| refuse: "rt_phase r = Unregistered \<Longrightarrow> RegisterWorker now (wc_Worker c) d = Inl e \<Longrightarrow> worker_step c (d, r) (d, r\<lparr>rt_phase := Refused\<rparr>)"
| reclaim: "rt_phase r = Polling \<Longrightarrow> reclaimExpired now now d = (n, d') \<Longrightarrow> worker_step c (d, r) (d', r)"
| take_job: "rt_phase r = Polling \<Longrightarrow> claim clock attemptID token (claim_req c) d = Inr ((j, a), d')
    \<Longrightarrow> worker_step c (d, r) (d', r\<lparr>rt_claims := (q_ID j, at_ID a, at_Token a) # rt_claims r\<rparr>)"
| alive: "rt_beating r \<Longrightarrow> HeartbeatWorker now (worker_id c) True d = Inr d' \<Longrightarrow> worker_step c (d, r) (d', r)"
| extend: "(jobID, attemptID, token) \<in> set (rt_claims r) \<Longrightarrow> heartbeat clock jobID attemptID token (wc_LeaseDuration c) d = Inr (out, d') \<Longrightarrow> worker_step c (d, r) (d', r)"
| finish: "(jobID, attemptID, token) \<in> set (rt_claims r) \<Longrightarrow> d' = ignoring (Queue_Store.finish now jobID attemptID token res d) d
    \<Longrightarrow> worker_step c (d, r) (d', r\<lparr>rt_claims := remove1 (jobID, attemptID, token) (rt_claims r)\<rparr>)"
| drain: "rt_phase r = Polling \<Longrightarrow> worker_step c (d, r) (ignoring (SetWorkerDrain (worker_id c) True d) d, r\<lparr>rt_phase := Draining\<rparr>)"
| stop: "rt_phase r = Draining \<Longrightarrow> rt_claims r = [] \<Longrightarrow> worker_step c (d, r) (d, r\<lparr>rt_phase := Stopping, rt_beating := False\<rparr>)"
| return: "rt_phase r = Stopping \<Longrightarrow> worker_step c (d, r) (ignoring (HeartbeatWorker now (worker_id c) False d) d, r\<lparr>rt_phase := Returned\<rparr>)"
| foreign: "foreign_step (worker_id c) d d' \<Longrightarrow> worker_step c (d, r) (d', r)"

section \<open>Leases\<close>

definition leases :: "string \<Rightarrow> queue_db \<Rightarrow> (string \<times> string option \<times> string option) set" where
  "leases i d = (\<lambda>j. (q_ID j, q_LeaseAttempt j, q_LeaseToken j)) ` {j \<in> set (t_jobs d). leased_to i j}"

definition unready :: "string \<Rightarrow> queue_db \<Rightarrow> bool" where
  "unready i d = list_all (\<lambda>w. wk_ID w = i \<longrightarrow> \<not> wk_Ready w) (t_workers d)"

lemma leases_update:
  assumes "t_jobs d' = update_rows P f (t_jobs d)"
    and "\<And>j. j \<in> set (t_jobs d) \<Longrightarrow> P j \<Longrightarrow> leased_to i (f j) \<Longrightarrow> leased_to i j \<and> q_ID (f j) = q_ID j \<and> q_LeaseAttempt (f j) = q_LeaseAttempt j \<and> q_LeaseToken (f j) = q_LeaseToken j"
  shows "leases i d' \<subseteq> leases i d"
proof
  fix x assume "x \<in> leases i d'"
  then obtain j where j: "j \<in> set (t_jobs d')" "leased_to i j" "x = (q_ID j, q_LeaseAttempt j, q_LeaseToken j)" by (auto simp: leases_def)
  from j(1) obtain y where y: "y \<in> set (t_jobs d)" "j = (if P y then f y else y)" by (auto simp: assms(1) set_update_rows)
  with assms(2) [of y] j(2,3) have "leased_to i y \<and> x = (q_ID y, q_LeaseAttempt y, q_LeaseToken y)" by (cases "P y") auto
  with y(1) show "x \<in> leases i d" by (auto simp: leases_def)
qed

lemma leases_same: "t_jobs d' = t_jobs d \<Longrightarrow> leases i d' = leases i d"
  by (simp add: leases_def)

lemma leased_simps [simp]:
  "leased_to i (end_lease st av t now j) \<longleftrightarrow> False" "leased_to i (lease_row aid tok wid ex now j) \<longleftrightarrow> wid = i"
  "leased_to i (j\<lparr>q_LeaseExpires := e, q_UpdatedAt := now\<rparr>) = leased_to i j" "leased_to i (j\<lparr>q_AffinityWorker := a, q_UpdatedAt := now\<rparr>) = leased_to i j"
  by (simp_all add: leased_to_def end_lease_def lease_row_def)

lemma leased_cancel [simp]: "leased_to i (cancel_row now j) = leased_to i j"
  by (simp add: leased_to_def cancel_row_def)

lemma cancel_row_keeps [simp]:
  "q_ID (cancel_row now j) = q_ID j" "q_LeaseAttempt (cancel_row now j) = q_LeaseAttempt j" "q_LeaseToken (cancel_row now j) = q_LeaseToken j"
  by (simp_all add: cancel_row_def)

lemma leases_reclaim: "leases i (snd (fold (reclaim_one now) js nd)) \<subseteq> leases i (snd nd)"
proof (induction js arbitrary: nd)
  case (Cons j js)
  have "leases i (snd (reclaim_one now j nd)) \<subseteq> leases i (snd nd)"
    by (rule leases_update [where P = "\<lambda>x. q_ID x = q_ID j \<and> q_State x = sql_leased \<and> q_LeaseAttempt x = q_LeaseAttempt j"
          and f = "end_lease (expired_state j) now (if expired_state j = JobQueued then None else Some now) now"])
      (simp_all add: reclaim_one_def Let_def case_prod_beta)
  with Cons.IH [of "reclaim_one now j nd"] show ?case by simp
qed simp

lemma leases_claim:
  assumes "claim clock aid tok req d = Inr ((j, a), d')"
  shows "leases i d' \<subseteq> leases i d \<union> (if cr_Worker req = i then {(q_ID j, Some (at_ID a), Some (at_Token a))} else {})"
proof -
  obtain w :: qworker and x ex where x: "wk_ID w = cr_Worker req" "grant_lease aid tok (wk_ID w) ex (clock 2) x d = Inr d'" "j = claimed_job (wk_ID w) ex (clock 2) x"
  proof (rule claim_cases [OF assms])
    fix w :: qworker and x ex assume "wk_ID w = cr_Worker req" "grant_lease aid tok (wk_ID w) ex (clock 2) x d = Inr d'" "fst (j, a) = claimed_job (wk_ID w) ex (clock 2) x"
    then show thesis using that [of w ex x] by simp
  qed
  have ida: "at_ID a = aid" "at_Token a = tok" using assms
    by (auto simp: claim_def Let_def bind_res_Inr_iff attempt_row_def split: option.splits if_splits)
  have idj: "q_ID j = q_ID x" by (simp add: x(3) claimed_job_def)
  show ?thesis
  proof
    fix l assume "l \<in> leases i d'"
    then obtain y where y: "y \<in> set (t_jobs d')" "leased_to i y" "l = (q_ID y, q_LeaseAttempt y, q_LeaseToken y)" by (auto simp: leases_def)
    from y(1) obtain z where z: "z \<in> set (t_jobs d)"
      "y = (if q_ID z = q_ID x \<and> q_State z = sql_queued \<and> \<not> q_Cancel z then lease_row aid tok (wk_ID w) ex (clock 2) z else z)"
      by (auto simp: grant_lease_cases(1) [OF x(2)] set_update_rows)
    show "l \<in> leases i d \<union> (if cr_Worker req = i then {(q_ID j, Some (at_ID a), Some (at_Token a))} else {})"
    proof (cases "q_ID z = q_ID x \<and> q_State z = sql_queued \<and> \<not> q_Cancel z")
      case True
      with z y have "wk_ID w = i" "l = (q_ID x, Some aid, Some tok)" by (auto simp: lease_row_def leased_to_def)
      with x(1) show ?thesis by (simp add: ida idj)
    next
      case False
      with z have "y = z" by auto
      with y z(1) show ?thesis by (auto simp: leases_def)
    qed
  qed
qed

lemma leases_finish:
  assumes "Queue_Store.finish now jobID aid tok res d = Inr d'"
  shows "leases i d' \<subseteq> leases i d - {(jobID, Some aid, Some tok)}"
proof -
  from assms obtain st av t where j: "t_jobs d' = update_rows (\<lambda>x. q_ID x = jobID \<and> q_LeaseAttempt x = Some aid \<and> q_LeaseToken x = Some tok) (end_lease st av t now) (t_jobs d)"
    by (rule finish_cases) (blast intro: that)
  have "leases i d' \<subseteq> leases i d" by (rule leases_update [OF j]) simp
  moreover have "(jobID, Some aid, Some tok) \<notin> leases i d'"
  proof
    assume "(jobID, Some aid, Some tok) \<in> leases i d'"
    then obtain y where y: "y \<in> set (t_jobs d')" "leased_to i y" "q_ID y = jobID" "q_LeaseAttempt y = Some aid" "q_LeaseToken y = Some tok" by (auto simp: leases_def)
    from y(1) obtain z where "y = (if q_ID z = jobID \<and> q_LeaseAttempt z = Some aid \<and> q_LeaseToken z = Some tok then end_lease st av t now z else z)"
      unfolding j set_update_rows by (rule imageE)
    with y(2-) show False by (auto split: if_splits)
  qed
  ultimately show ?thesis by auto
qed

lemma leases_stale:
  assumes "Queue_Store.finish now jobID aid tok res d = Inl e"
  shows "(jobID, Some aid, Some tok) \<notin> leases i d"
proof
  assume "(jobID, Some aid, Some tok) \<in> leases i d"
  then obtain j where "j \<in> set (t_jobs d)" "holds_lease jobID aid tok j" by (auto simp: leases_def holds_lease_def leased_to_def)
  then have "find (holds_lease jobID aid tok) (t_jobs d) \<noteq> None" by (auto simp: find_None_iff)
  with assms show False by (auto simp: finish_def Let_def split: option.splits prod.splits)
qed

lemma leases_heartbeat: "heartbeat clock jobID aid tok ext d = Inr (out, d') \<Longrightarrow> leases i d' \<subseteq> leases i d"
  by (rule leases_update [where P = "holds_lease jobID aid tok" and f = "\<lambda>j. j\<lparr>q_LeaseExpires := Some (clock 1 + (if ext \<le> 0 then thirty_seconds else ext)), q_UpdatedAt := clock 0\<rparr>"])
    (auto simp: heartbeat_def Let_def split: if_splits option.splits)

lemma foreign_leases:
  assumes "foreign_step i d d'"
  shows "leases i d' \<subseteq> leases i d"
  using assms
proof cases
  case (1 json_valid newID now job out)
  then show ?thesis by (auto simp: Enqueue_def Let_def leases_def enqueue_row_def leased_to_def split: if_splits option.splits)
next
  case (5 clock attemptID token req out)
  then show ?thesis using leases_claim [of clock attemptID token req d "fst out" "snd out" d' i] by simp
next
  case (6 clock jobID attemptID token ext out)
  then show ?thesis by (rule leases_heartbeat)
next
  case (7 now jobID attemptID token res)
  then show ?thesis using leases_finish by blast
next
  case (8 now jobID)
  then show ?thesis by (intro leases_update [where P = "\<lambda>j. q_ID j = jobID \<and> cancelable j" and f = "cancel_row now"]) (auto simp: RequestCancel_def split: if_splits)
next
  case (9 now taskID workflowID n)
  then show ?thesis by (intro leases_update [where P = "\<lambda>j. taskID \<noteq> [] \<and> workflowID \<noteq> [] \<and> q_Task j = taskID \<and> q_Workflow j = workflowID \<and> cancelable j" and f = "cancel_row now"])
      (auto simp: RequestCancelFor_def Let_def)
next
  case (10 now jobID)
  then show ?thesis by (intro leases_update [where P = "\<lambda>j. q_ID j = jobID \<and> q_State j = sql_queued" and f = "\<lambda>j. j\<lparr>q_AffinityWorker := [], q_UpdatedAt := now\<rparr>"])
      (auto simp: ReleaseAffinity_def Let_def split: if_splits)
next
  case (11 now cutoff n)
  then show ?thesis using leases_reclaim [of i now "expired_jobs cutoff d" "(0, d)"] by (simp add: reclaimExpired_def)
qed (auto simp: leases_same RegisterWorker_def HeartbeatWorker_def SetWorkerDrain_def requireWorkerRow_def leases_def Let_def split: if_splits)

section \<open>Readiness\<close>

lemma unready_update:
  assumes "unready i d" "t_workers d' = update_rows P f (t_workers d)" "\<And>w. wk_ID (f w) = wk_ID w" "\<And>w. P w \<Longrightarrow> wk_ID w = i \<Longrightarrow> wk_Ready (f w) \<Longrightarrow> wk_Ready w"
  shows "unready i d'"
  using assms(1,3,4) unfolding unready_def assms(2) list_all_iff set_update_rows by auto

lemma unready_same: "t_workers d' = t_workers d \<Longrightarrow> unready i d' = unready i d"
  by (simp add: unready_def)

lemma unready_row:
  assumes "unready i d" "requireWorkerRow k f d = Inr d'" "k \<noteq> i" "\<And>w. wk_ID (f w) = wk_ID w"
  shows "unready i d'"
  using assms by (intro unready_update [OF assms(1), where P = "\<lambda>x. wk_ID x = k" and f = f]) (auto simp: requireWorkerRow_def split: if_splits)

lemma unready_slot: "unready i d \<Longrightarrow> t_workers d' = free_slot k (t_workers d) \<Longrightarrow> unready i d'"
  unfolding free_slot_def by (erule (1) unready_update) auto

lemma unready_reclaim: "unready i (snd nd) \<Longrightarrow> unready i (snd (fold (reclaim_one now) js nd))"
proof (induction js arbitrary: nd)
  case (Cons j js)
  have "unready i (snd (reclaim_one now j nd))"
  proof -
    have "t_workers (snd (reclaim_one now j nd)) = t_workers (snd nd)
        \<or> t_workers (snd (reclaim_one now j nd)) = free_slot (case q_LeaseWorker j of None \<Rightarrow> [] | Some w \<Rightarrow> w) (t_workers (snd nd))"
      by (simp add: reclaim_one_def Let_def case_prod_beta)
    with Cons.prems show ?thesis using unready_same unready_slot by blast
  qed
  with Cons.IH show ?case by simp
qed simp

lemma unready_claim:
  assumes "unready i d" "claim clock aid tok req d = Inr (out, d')"
  shows "unready i d'"
proof (rule claim_cases [OF assms(2)])
  fix w :: qworker and x ex assume "grant_lease aid tok (wk_ID w) ex (clock 2) x d = Inr d'"
  from grant_lease_cases(3) [OF this] show ?thesis by (rule unready_update [OF assms(1)]) simp_all
qed

lemma unready_register:
  assumes "unready i d" "RegisterWorker now w d = Inr d'" "wk_ID w \<noteq> i"
  shows "unready i d'"
proof -
  define row where "row = w\<lparr>wk_Labels := uniqueSorted (wk_Labels w), wk_Capabilities := uniqueSorted (wk_Capabilities w),
      wk_Active := 0, wk_Heartbeat := now, wk_RegisteredAt := now\<rparr>"
  have "t_workers d' = update_rows (\<lambda>x. wk_ID x = wk_ID w) (\<lambda>x. row\<lparr>wk_RegisteredAt := wk_RegisteredAt x\<rparr>) (t_workers d) \<or> t_workers d' = t_workers d @ [row]"
    using assms(2) by (auto simp: RegisterWorker_def row_def Let_def split: if_splits)
  with assms(1,3) show ?thesis by (auto simp: unready_def list_all_iff set_update_rows row_def)
qed

lemma foreign_unready:
  assumes "unready i d" "foreign_step i d d'"
  shows "unready i d'"
  using assms(2)
proof cases
  case (2 now w)
  from unready_register [OF assms(1) this] show ?thesis .
next
  case (3 now k ready)
  then show ?thesis unfolding HeartbeatWorker_def by (rule unready_row [OF assms(1)]) auto
next
  case (4 k draining)
  then show ?thesis unfolding SetWorkerDrain_def by (rule unready_row [OF assms(1)]) auto
next
  case (5 clock attemptID token req out)
  with assms(1) show ?thesis using unready_claim by simp
next
  case (7 now jobID attemptID token res)
  then show ?thesis
  proof (rule finish_cases)
    fix j assume "t_workers d' = free_slot (case q_LeaseWorker j of None \<Rightarrow> [] | Some w \<Rightarrow> w) (t_workers d)"
    with assms(1) show ?thesis by (rule unready_slot)
  qed
next
  case (11 now cutoff n)
  then have "d' = snd (fold (reclaim_one now) (expired_jobs cutoff d) (0, d))" by (simp add: reclaimExpired_def)
  with unready_reclaim [of i "(0, d)" now "expired_jobs cutoff d"] assms(1) show ?thesis by simp
next
  case (1 json_valid newID now job out)
  then have "d' = d \<or> (\<exists>row. d' = d\<lparr>t_jobs := t_jobs d @ [row]\<rparr>)" by (auto simp: Enqueue_def Let_def split: if_splits option.splits)
  then have "t_workers d' = t_workers d" by auto
  from unready_same [OF this] assms(1) show ?thesis by simp
next
  case (6 clock jobID attemptID token ext out)
  then have "t_workers d' = t_workers d" by (auto simp: heartbeat_def Let_def split: if_splits option.splits)
  from unready_same [OF this] assms(1) show ?thesis by simp
next
  case (8 now jobID)
  then have "t_workers d' = t_workers d" by (auto simp: RequestCancel_def split: if_splits)
  from unready_same [OF this] assms(1) show ?thesis by simp
next
  case (9 now taskID workflowID n)
  then have "t_workers d' = t_workers d" by (auto simp: RequestCancelFor_def Let_def)
  from unready_same [OF this] assms(1) show ?thesis by simp
next
  case (10 now jobID)
  then have "t_workers d' = t_workers d" by (auto simp: ReleaseAffinity_def Let_def split: if_splits)
  from unready_same [OF this] assms(1) show ?thesis by simp
qed

section \<open>The invariant of the process\<close>

definition rt_start :: "runtime_config \<Rightarrow> queue_db \<times> runtime \<Rightarrow> bool" where
  "rt_start c s \<longleftrightarrow> leases (worker_id c) (fst s) = {} \<and> snd s = \<lparr>rt_phase = Unregistered, rt_beating = False, rt_claims = []\<rparr>"

definition executing :: "(string \<times> string \<times> string) list \<Rightarrow> (string \<times> string option \<times> string option) set" where
  "executing cs = (\<lambda>(j, a, t). (j, Some a, Some t)) ` set cs"

definition rt_inv :: "runtime_config \<Rightarrow> queue_db \<times> runtime \<Rightarrow> bool" where
  "rt_inv c s \<longleftrightarrow> leases (worker_id c) (fst s) \<subseteq> executing (rt_claims (snd s))
     \<and> (rt_phase (snd s) \<in> {Unregistered, Refused, Stopping, Returned} \<longrightarrow> rt_claims (snd s) = [])
     \<and> (rt_beating (snd s) \<longrightarrow> rt_phase (snd s) \<in> {Polling, Draining})
     \<and> (rt_phase (snd s) = Returned \<longrightarrow> unready (worker_id c) (fst s))"

lemma executing_remove: "executing cs - {(j, Some a, Some t)} \<subseteq> executing (remove1 (j, a, t) cs)"
proof
  fix x assume "x \<in> executing cs - {(j, Some a, Some t)}"
  then obtain y where y: "y \<in> set cs" "y \<noteq> (j, a, t)" "x = (\<lambda>(j, a, t). (j, Some a, Some t)) y" by (auto simp: executing_def)
  then have "y \<in> set (remove1 (j, a, t) cs)" by simp
  with y(3) show "x \<in> executing (remove1 (j, a, t) cs)" by (auto simp: executing_def)
qed

lemma leases_register: "RegisterWorker now w d = Inr d' \<Longrightarrow> leases i d' = leases i d"
  by (rule leases_same) (auto simp: RegisterWorker_def Let_def split: if_splits)

lemma leases_row: "requireWorkerRow k f d = Inr d' \<Longrightarrow> leases i d' = leases i d"
  by (rule leases_same) (auto simp: requireWorkerRow_def split: if_splits)

lemma leases_ignoring_row: "leases i (ignoring (requireWorkerRow k f d) d) = leases i d"
  by (auto simp: ignoring_def leases_row split: sum.splits)

lemma leases_ignoring_finish:
  "leases i (ignoring (Queue_Store.finish now j a t res d) d) \<subseteq> leases i d - {(j, Some a, Some t)}"
  using leases_finish [of now j a t res d _ i] leases_stale [of now j a t res d _ i] by (auto simp: ignoring_def split: sum.splits)

lemma unready_return: "unready i (ignoring (HeartbeatWorker now i False d) d)"
  by (auto simp: HeartbeatWorker_def requireWorkerRow_def ignoring_def unready_def list_all_iff list_ex_iff set_update_rows)

lemma rt_inv_step:
  assumes "rt_inv c s" "worker_step c s s'"
  shows "rt_inv c s'"
  using assms(2)
proof cases
  case (take_job r clock attemptID token d j a d')
  have "leases (worker_id c) d' \<subseteq> leases (worker_id c) d \<union> {(q_ID j, Some (at_ID a), Some (at_Token a))}"
    using leases_claim [OF take_job(4), of "worker_id c"] by (simp add: claim_req_def)
  with assms(1) take_job show ?thesis by (auto simp: rt_inv_def executing_def)
next
  case (finish jobID attemptID token r d' now res d)
  have "leases (worker_id c) d' \<subseteq> leases (worker_id c) d - {(jobID, Some attemptID, Some token)}" unfolding finish(4) by (rule leases_ignoring_finish)
  also have "\<dots> \<subseteq> executing (rt_claims r) - {(jobID, Some attemptID, Some token)}" using assms(1) finish(1) by (auto simp: rt_inv_def)
  also have "\<dots> \<subseteq> executing (remove1 (jobID, attemptID, token) (rt_claims r))" by (rule executing_remove)
  finally show ?thesis using assms(1) finish by (auto simp: rt_inv_def)
next
  case (reclaim r now d n d')
  then have "leases (worker_id c) d' \<subseteq> leases (worker_id c) d" using leases_reclaim [of "worker_id c" now "expired_jobs now d" "(0, d)"] by (simp add: reclaimExpired_def)
  with assms(1) reclaim show ?thesis by (auto simp: rt_inv_def)
next
  case (extend jobID attemptID token r clock d out d')
  with leases_heartbeat [OF extend(4), of "worker_id c"] assms(1) show ?thesis by (auto simp: rt_inv_def)
next
  case (foreign d d' r)
  with foreign_leases [OF foreign(3)] foreign_unready [OF _ foreign(3)] assms(1) show ?thesis by (auto simp: rt_inv_def)
next
  case (alive r now d d')
  then have "leases (worker_id c) d' = leases (worker_id c) d" by (simp add: HeartbeatWorker_def leases_row)
  with assms(1) alive show ?thesis by (auto simp: rt_inv_def)
next
  case (drain r d)
  then show ?thesis using assms(1) by (auto simp: rt_inv_def SetWorkerDrain_def leases_ignoring_row)
next
  case (return r now d)
  then show ?thesis using assms(1) unready_return by (auto simp: rt_inv_def HeartbeatWorker_def leases_ignoring_row)
qed (use assms(1) in \<open>auto simp: rt_inv_def leases_register\<close>)

interpretation worker_process: invariant_of "rt_start c" "worker_step c" "rt_inv c" for c
proof
  show "rt_inv c s" if "rt_start c s" for s using that by (auto simp: rt_start_def rt_inv_def executing_def)
qed (rule rt_inv_step)

section \<open>A concrete run\<close>

definition rt_worker :: qworker where
  "rt_worker = \<lparr>wk_ID = ''w'', wk_Protocol = 1, wk_Pool = [], wk_Labels = [], wk_Capabilities = [], wk_Capacity = 1,
     wk_Ready = True, wk_Draining = False, wk_Active = 0, wk_Heartbeat = 0, wk_RegisteredAt = 0\<rparr>"

definition rt_config :: runtime_config where
  "rt_config = \<lparr>wc_Worker = rt_worker, wc_LeaseDuration = 30, wc_HeartbeatInterval = 10, wc_WorkerHeartbeat = 10, wc_WorkerTimeout = 30,
     wc_PollInterval = 5, wc_Policy = \<lparr>cp_DefaultProject = 0, cp_Projects = Map.empty, cp_DefaultSource = 0, cp_Sources = Map.empty,
       cp_DefaultAgent = 0, cp_Agents = Map.empty, cp_DefaultRunner = 0, cp_Runners = Map.empty, cp_DefaultPool = 0, cp_Pools = Map.empty\<rparr>\<rparr>"

definition rt_job :: job where
  "rt_job = \<lparr>q_ID = ''j'', q_Key = ''j'', q_Project = ''p'', q_Source = [], q_Task = [], q_Workflow = [], q_Agent = [], q_Runner = [],
     q_Pool = [], q_Labels = [], q_Capabilities = [], q_AffinityKey = [], q_AffinityWorker = [], q_PayloadVersion = 1,
     q_Payload = ''{}'', q_Priority = 0, q_State = [], q_Attempts = 0, q_Max = 0, q_Cancel = False, q_AvailableAt = 0,
     q_LeaseAttempt = None, q_LeaseToken = None, q_LeaseWorker = None, q_LeaseExpires = None, q_TerminalAt = None,
     q_CreatedAt = 0, q_UpdatedAt = 0\<rparr>"

definition rt_waiting :: queue_db where
  "rt_waiting = snd (projr (Enqueue (\<lambda>_. True) ''j'' 1 rt_job \<lparr>t_jobs = [], t_attempts = [], t_workers = []\<rparr>))"

definition rt_ready :: queue_db where
  "rt_ready = projr (RegisterWorker 1 rt_worker rt_waiting)"

definition rt_leased :: queue_db where
  "rt_leased = snd (projr (claim (\<lambda>_. 2) ''x'' ''t'' (claim_req rt_config) rt_ready))"

definition rt_drained :: queue_db where
  "rt_drained = ignoring (SetWorkerDrain ''w'' True rt_leased) rt_leased"

definition rt_finished :: queue_db where
  "rt_finished = ignoring (Queue_Store.finish 3 ''j'' ''x'' ''t'' \<lparr>fr_Success = True, fr_Error = [], fr_Note = [], fr_Retry = False, fr_RetryAt = None\<rparr> rt_drained) rt_drained"

definition rt_returned :: queue_db where
  "rt_returned = ignoring (HeartbeatWorker 4 ''w'' False rt_finished) rt_finished"

abbreviation rt_at :: "rt_phase \<Rightarrow> bool \<Rightarrow> (string \<times> string \<times> string) list \<Rightarrow> runtime" where
  "rt_at p b cs \<equiv> \<lparr>rt_phase = p, rt_beating = b, rt_claims = cs\<rparr>"

lemma projr_Inr: "\<not> isl r \<Longrightarrow> r = Inr (projr r)"
  by (cases r) simp_all

lemma rt_run:
  "worker_step rt_config (rt_waiting, rt_at Unregistered False []) (rt_ready, rt_at Polling True [])"
  "worker_step rt_config (rt_ready, rt_at Polling True []) (rt_leased, rt_at Polling True [(''j'', ''x'', ''t'')])"
  "worker_step rt_config (rt_leased, rt_at Polling True [(''j'', ''x'', ''t'')]) (rt_drained, rt_at Draining True [(''j'', ''x'', ''t'')])"
  "worker_step rt_config (rt_drained, rt_at Draining True [(''j'', ''x'', ''t'')]) (rt_finished, rt_at Draining True [])"
  "worker_step rt_config (rt_finished, rt_at Draining True []) (rt_finished, rt_at Stopping False [])"
  "worker_step rt_config (rt_finished, rt_at Stopping False []) (rt_returned, rt_at Returned False [])"
proof -
  have id: "worker_id rt_config = ''w''" by (simp add: rt_config_def rt_worker_def)
  have "\<not> isl (RegisterWorker 1 (wc_Worker rt_config) rt_waiting)" by code_simp
  from projr_Inr [OF this] have "RegisterWorker 1 (wc_Worker rt_config) rt_waiting = Inr rt_ready" by (simp add: rt_ready_def rt_config_def)
  from worker_step.register [where r = "rt_at Unregistered False []", OF _ this]
  show "worker_step rt_config (rt_waiting, rt_at Unregistered False []) (rt_ready, rt_at Polling True [])" by simp
  define out where "out = projr (claim (\<lambda>_. 2) ''x'' ''t'' (claim_req rt_config) rt_ready)"
  have "\<not> isl (claim (\<lambda>_. 2) ''x'' ''t'' (claim_req rt_config) rt_ready)" by code_simp
  from projr_Inr [OF this] have "claim (\<lambda>_. 2) ''x'' ''t'' (claim_req rt_config) rt_ready = Inr ((fst (fst out), snd (fst out)), rt_leased)"
    by (simp add: rt_leased_def out_def)
  moreover have "q_ID (fst (fst out)) = ''j''" "at_ID (snd (fst out)) = ''x''" "at_Token (snd (fst out)) = ''t''" unfolding out_def by code_simp+
  ultimately show "worker_step rt_config (rt_ready, rt_at Polling True []) (rt_leased, rt_at Polling True [(''j'', ''x'', ''t'')])"
    using worker_step.take_job [where r = "rt_at Polling True []", of "\<lambda>_. 2" "''x''" "''t''" rt_config rt_ready "fst (fst out)" "snd (fst out)" rt_leased] by simp
  show "worker_step rt_config (rt_leased, rt_at Polling True [(''j'', ''x'', ''t'')]) (rt_drained, rt_at Draining True [(''j'', ''x'', ''t'')])"
    using worker_step.drain [of "rt_at Polling True [(''j'', ''x'', ''t'')]" rt_config rt_leased] by (simp add: id rt_drained_def)
  show "worker_step rt_config (rt_drained, rt_at Draining True [(''j'', ''x'', ''t'')]) (rt_finished, rt_at Draining True [])"
    using worker_step.finish [where r = "rt_at Draining True [(''j'', ''x'', ''t'')]", OF _ rt_finished_def, of rt_config] by simp
  show "worker_step rt_config (rt_finished, rt_at Draining True []) (rt_finished, rt_at Stopping False [])"
    using worker_step.stop [of "rt_at Draining True []" rt_config rt_finished] by simp
  show "worker_step rt_config (rt_finished, rt_at Stopping False []) (rt_returned, rt_at Returned False [])"
    using worker_step.return [of "rt_at Stopping False []" rt_config rt_finished 4] by (simp add: id rt_returned_def)
qed





text \<open>A configuration that is accepted renews a lease before it can expire.\<close>

theorem lease_outlives_beat:
  assumes "New_runtime c = Inr c'"
  shows "0 \<le> wc_HeartbeatInterval c' \<and> wc_HeartbeatInterval c' < wc_LeaseDuration c' \<and> 0 < wk_Capacity (wc_Worker c') \<and> wk_Ready (wc_Worker c')
     \<and> 0 < wc_WorkerTimeout c' \<and> 0 < wc_PollInterval c'"
proof -
  define lease where "lease = (if wc_LeaseDuration c \<le> 0 then thirty_seconds else wc_LeaseDuration c)"
  define beat where "beat = (if wc_HeartbeatInterval c \<le> 0 then lease div 3 else wc_HeartbeatInterval c)"
  have "0 < lease" by (simp add: lease_def thirty_seconds_def)
  then have "0 \<le> beat" by (simp add: beat_def pos_imp_zdiv_nonneg_iff)
  moreover have "beat < lease" "wc_HeartbeatInterval c' = beat" "wc_LeaseDuration c' = lease"
    using assms unfolding New_runtime_def Let_def lease_def [symmetric] beat_def [symmetric] by (simp_all split: if_split_asm) auto
  moreover have "wk_Capacity (wc_Worker c') = (if wk_Capacity (wc_Worker c) \<le> 0 then 1 else wk_Capacity (wc_Worker c))" "wk_Ready (wc_Worker c')"
    "wc_WorkerTimeout c' = (if wc_WorkerTimeout c \<le> 0 then thirty_seconds else wc_WorkerTimeout c)"
    "wc_PollInterval c' = (if wc_PollInterval c \<le> 0 then 500000000 else wc_PollInterval c)"
    using assms unfolding New_runtime_def Let_def lease_def [symmetric] beat_def [symmetric] by (simp_all split: if_split_asm) auto
  ultimately show ?thesis by (simp add: thirty_seconds_def)
qed

theorem lease_outlives_beat_witness:
  "\<exists>c'. New_runtime (rt_config\<lparr>wc_HeartbeatInterval := 0\<rparr>) = Inr c' \<and> wc_HeartbeatInterval c' < wc_LeaseDuration c' \<and> 0 < wc_PollInterval c'"
proof -
  have "\<not> isl (New_runtime (rt_config\<lparr>wc_HeartbeatInterval := 0\<rparr>))" by code_simp
  from projr_Inr [OF this] lease_outlives_beat [OF projr_Inr [OF this]] show ?thesis by blast
qed

end
