(* ===== verification/Patch.thy ===== *)
theory Patch
  imports Expr_Eval
begin

text \<open>
  Unified diffs of one file (\<open>internal/improve/patch.go\<close>): the parser, the strict application and the statistics. A position in a file is
  a 0-based line index; the counts of a hunk header are Go's 64-bit integers, read by \<open>Sscanf\<close> with the verb \<open>%d\<close>, which accepts a sign and
  ignores what follows the digits. Error texts are the constructors of \<open>patch_error\<close>.
\<close>

section \<open>Data\<close>

record hunk =
  h_OldStart :: int
  h_OldLines :: int
  h_NewStart :: int
  h_NewLines :: int
  h_Lines :: "string list"

record patch =
  p_Path :: string
  p_Hunks :: "hunk list"

datatype patch_error =
  NotAFile string | MissingClose string | MalformedHeader string | NotSigned string | NonNumericCount string | NonNumericStart string | NegativeRange string
| NoTarget | NoHunks string | Overlap nat | PastEnd nat | ContextPastEnd nat string | ContextMismatch nat string | RemovePastEnd nat string
| RemoveMismatch nat string | UnknownMarker nat string

section \<open>Parsing\<close>

fun replace_crlf :: "string \<Rightarrow> string" where
  "replace_crlf (a # b # s) = (if a = CHR 0x0D \<and> b = CHR 0x0A then b # replace_crlf s else a # replace_crlf (b # s))"
| "replace_crlf s = s"

function go_fields :: "string \<Rightarrow> string list" where
  "go_fields s = (let r = dropWhile is_space s in
     if r = [] then [] else takeWhile (\<lambda>c. \<not> is_space c) r # go_fields (dropWhile (\<lambda>c. \<not> is_space c) r))"
  by auto
termination
proof (relation "measure length")
  fix s r assume r: "r = dropWhile is_space s" "r \<noteq> []"
  then have "\<not> is_space (hd r)" by (simp add: hd_dropWhile)
  with r(2) have "length (dropWhile (\<lambda>c. \<not> is_space c) r) < length r" by (cases r) (auto simp: length_dropWhile_le less_Suc_eq_le)
  also have "\<dots> \<le> length s" using r(1) by (simp add: length_dropWhile_le)
  finally show "(dropWhile (\<lambda>c. \<not> is_space c) r, s) \<in> measure length" by simp
qed simp

declare go_fields.simps [simp del]

fun text_before :: "string \<Rightarrow> string \<Rightarrow> string option" where
  "text_before sub [] = (if sub = [] then Some [] else None)"
| "text_before sub (c # cs) = (if has_prefix (c # cs) sub then Some [] else map_option ((#) c) (text_before sub cs))"

definition scan_int :: "string \<Rightarrow> int option" where
  "scan_int s =
     (let neg = (s \<noteq> [] \<and> hd s = CHR ''-''); r = (if s \<noteq> [] \<and> hd s \<in> {CHR ''-'', CHR ''+''} then tl s else s);
          ds = takeWhile is_digit r; v = (if neg then - int (digits_val 0 ds) else int (digits_val 0 ds))
      in if ds = [] \<or> v \<ge> 2 ^ 63 \<or> v < - (2 ^ 63) then None else Some v)"

definition parseRange :: "string \<Rightarrow> char \<Rightarrow> patch_error + int \<times> int" where
  "parseRange s sign =
     (if s = [] \<or> hd s \<noteq> sign then Inl (NotSigned s)
      else let body = tl s; start = takeWhile (\<lambda>c. c \<noteq> CHR '','') body; rest = dropWhile (\<lambda>c. c \<noteq> CHR '','') body in
        case (if rest = [] then Some 1 else scan_int (tl rest)) of None \<Rightarrow> Inl (NonNumericCount s)
        | Some count \<Rightarrow> (case scan_int start of None \<Rightarrow> Inl (NonNumericStart s)
            | Some n \<Rightarrow> if n < 0 \<or> count < 0 then Inl (NegativeRange s) else Inr (n, count)))"

definition parseHunkHeader :: "string \<Rightarrow> patch_error + hunk" where
  "parseHunkHeader line =
     (case text_before ''@@'' (drop 2 line) of None \<Rightarrow> Inl (MissingClose line)
      | Some spec \<Rightarrow> (case go_fields (trim_space spec) of
            [old, new] \<Rightarrow> bind_res (parseRange old (CHR ''-'')) (\<lambda>(os, ol). bind_res (parseRange new (CHR ''+'')) (\<lambda>(ns, nl).
              Inr \<lparr>h_OldStart = os, h_OldLines = ol, h_NewStart = ns, h_NewLines = nl, h_Lines = []\<rparr>))
          | _ \<Rightarrow> Inl (MalformedHeader line)))"

text \<open>The loop variables: the patch so far, whether its last hunk is open, and the body lines that hunk still expects.\<close>

record parse_state =
  ps_path :: string
  ps_hunks :: "hunk list"
  ps_open :: bool
  ps_old :: int
  ps_new :: int

definition add_line :: "string \<Rightarrow> hunk list \<Rightarrow> hunk list" where
  "add_line l hs = (if hs = [] then [] else butlast hs @ [(last hs)\<lparr>h_Lines := h_Lines (last hs) @ [l]\<rparr>])"

definition target_path :: "string \<Rightarrow> string" where
  "target_path line =
     (let path = takeWhile (\<lambda>c. c \<noteq> CHR 0x09) (trim_space (drop 4 line)); p = (if has_prefix path ''a/'' then drop 2 path else path)
      in if has_prefix p ''b/'' then drop 2 p else p)"

definition header_noise :: "string list" where
  "header_noise = [''diff '', ''index '', ''new file'', ''deleted file'', ''similarity '', ''rename '', CHR 92 # '' No newline'']"

definition body_line :: "string \<Rightarrow> parse_state \<Rightarrow> parse_state" where
  "body_line line st =
     (if \<not> ps_open st \<or> ps_old st \<le> 0 \<and> ps_new st \<le> 0 \<or> line \<noteq> [] \<and> hd line \<notin> {CHR '' '', CHR ''-'', CHR ''+''} then st\<lparr>ps_open := False\<rparr>
      else let l = (if line = [] then '' '' else line) in
        st\<lparr>ps_old := (if hd l \<in> {CHR '' '', CHR ''-''} then ps_old st - 1 else ps_old st),
           ps_new := (if hd l \<in> {CHR '' '', CHR ''+''} then ps_new st - 1 else ps_new st), ps_hunks := add_line l (ps_hunks st)\<rparr>)"

definition parse_line :: "string \<Rightarrow> parse_state \<Rightarrow> patch_error + parse_state" where
  "parse_line line st =
     (if has_prefix line ''--- '' then Inr st
      else if has_prefix line ''+++ '' then
        (let path = target_path line in if path = [] \<or> path = ''/dev/null'' then Inl (NotAFile path) else Inr (st\<lparr>ps_path := path\<rparr>))
      else if has_prefix line ''@@'' then
        bind_res (parseHunkHeader line) (\<lambda>h. Inr (st\<lparr>ps_hunks := ps_hunks st @ [h], ps_open := True, ps_old := h_OldLines h, ps_new := h_NewLines h\<rparr>))
      else if list_ex (has_prefix line) header_noise then Inr st
      else Inr (body_line line st))"

fun parse_lines :: "string list \<Rightarrow> parse_state \<Rightarrow> patch_error + parse_state" where
  "parse_lines [] st = Inr st"
| "parse_lines (l # ls) st = bind_res (parse_line l st) (parse_lines ls)"

definition fresh_parse :: parse_state where
  "fresh_parse = \<lparr>ps_path = [], ps_hunks = [], ps_open = False, ps_old = 0, ps_new = 0\<rparr>"

definition ParsePatch :: "string \<Rightarrow> patch_error + patch" where
  "ParsePatch diff =
     bind_res (parse_lines (split_on (CHR 0x0A) (replace_crlf diff)) fresh_parse) (\<lambda>st.
       if ps_path st = [] then Inl NoTarget else if ps_hunks st = [] then Inl (NoHunks (ps_path st))
       else Inr \<lparr>p_Path = ps_path st, p_Hunks = ps_hunks st\<rparr>)"

section \<open>Applying\<close>

text \<open>\<open>hi\<close> numbers the hunk in errors; the state is the cursor and the lines written.\<close>

fun apply_body :: "nat \<Rightarrow> string list \<Rightarrow> string list \<Rightarrow> nat \<times> string list \<Rightarrow> patch_error + nat \<times> string list" where
  "apply_body hi lines [] (cursor, out) = Inr (cursor, out)"
| "apply_body hi lines ([] # ls) (cursor, out) = apply_body hi lines ls (cursor, out)"
| "apply_body hi lines ((marker # t) # ls) (cursor, out) =
     (if marker = CHR '' '' then
        (if cursor \<ge> length lines then Inl (ContextPastEnd hi t)
         else if lines ! cursor \<noteq> t then Inl (ContextMismatch hi t)
         else apply_body hi lines ls (Suc cursor, out @ [t]))
      else if marker = CHR ''-'' then
        (if cursor \<ge> length lines then Inl (RemovePastEnd hi t)
         else if lines ! cursor \<noteq> t then Inl (RemoveMismatch hi t)
         else apply_body hi lines ls (Suc cursor, out))
      else if marker = CHR ''+'' then apply_body hi lines ls (cursor, out @ [t])
      else Inl (UnknownMarker hi (marker # t)))"

definition hunk_start :: "hunk \<Rightarrow> int" where
  "hunk_start h = (if h_OldLines h = 0 then h_OldStart h else h_OldStart h - 1)"

fun apply_hunks :: "nat \<Rightarrow> string list \<Rightarrow> hunk list \<Rightarrow> nat \<times> string list \<Rightarrow> patch_error + string list" where
  "apply_hunks hi lines [] (cursor, out) = Inr (out @ drop cursor lines)"
| "apply_hunks hi lines (h # hs) (cursor, out) =
     (let start = hunk_start h in
      if start < int cursor then Inl (Overlap hi)
      else if start > int (length lines) then Inl (PastEnd hi)
      else bind_res (apply_body hi lines (h_Lines h) (nat start, out @ take (nat start - cursor) (drop cursor lines))) (apply_hunks (Suc hi) lines hs))"

definition file_lines :: "string \<Rightarrow> string list" where
  "file_lines content =
     (if content = [] then [] else split_on (CHR 0x0A) (if has_suffix content [CHR 0x0A] then butlast content else content))"

definition file_text :: "bool \<Rightarrow> string list \<Rightarrow> string" where
  "file_text trailing ls = (let result = str_join [CHR 0x0A] ls in if trailing \<and> result \<noteq> [] then result @ [CHR 0x0A] else result)"

definition Apply :: "patch \<Rightarrow> string \<Rightarrow> patch_error + string" where
  "Apply p content =
     bind_res (apply_hunks 1 (file_lines content) (p_Hunks p) (0, [])) (\<lambda>out. Inr (file_text (has_suffix content [CHR 0x0A]) out))"

definition Stats :: "patch \<Rightarrow> nat \<times> nat" where
  "Stats p = (let ls = concat (map h_Lines (p_Hunks p)) in
     (count_if (\<lambda>l. l \<noteq> [] \<and> hd l = CHR ''+'') ls, count_if (\<lambda>l. l \<noteq> [] \<and> hd l = CHR ''-'') ls))"

section \<open>What a hunk replaces, and by what\<close>

fun old_side :: "string list \<Rightarrow> string list" where
  "old_side [] = []"
| "old_side ([] # ls) = old_side ls"
| "old_side ((m # t) # ls) = (if m = CHR ''+'' then old_side ls else t # old_side ls)"

fun new_side :: "string list \<Rightarrow> string list" where
  "new_side [] = []"
| "new_side ([] # ls) = new_side ls"
| "new_side ((m # t) # ls) = (if m = CHR ''-'' then new_side ls else t # new_side ls)"

definition marked :: "string list \<Rightarrow> bool" where
  "marked ls \<longleftrightarrow> (\<forall>l\<in>set ls. l = [] \<or> hd l \<in> {CHR '' '', CHR ''-'', CHR ''+''})"

text \<open>
  \<open>splices pos hs ls out\<close>: in the lines \<open>ls\<close>, which begin at position \<open>pos\<close>, every hunk finds its old side exactly at its
  start, and \<open>out\<close> is \<open>ls\<close> with each old side replaced by the new one.
\<close>

inductive splices :: "nat \<Rightarrow> hunk list \<Rightarrow> string list \<Rightarrow> string list \<Rightarrow> bool" where
  rest: "splices pos [] ls ls"
| hunk: "marked (h_Lines h) \<Longrightarrow> hunk_start h = int (pos + length gap) \<Longrightarrow> splices (pos + length gap + length (old_side (h_Lines h))) hs ls out
    \<Longrightarrow> splices pos (h # hs) (gap @ old_side (h_Lines h) @ ls) (gap @ new_side (h_Lines h) @ out)"

inductive_simps splices_Nil: "splices pos [] ls out"
inductive_cases splices_Cons: "splices pos (h # hs) ls out"

lemma marked_simps [simp]:
  "marked []" "marked ([] # ls) = marked ls" "marked ((m # t) # ls) \<longleftrightarrow> m \<in> {CHR '' '', CHR ''-'', CHR ''+''} \<and> marked ls"
  by (auto simp: marked_def)

lemma drop_nth: "i < length xs \<Longrightarrow> drop i xs = xs ! i # drop (Suc i) xs"
  by (simp add: Cons_nth_drop_Suc)

lemma apply_body_sound:
  assumes "apply_body hi lines ls (cursor, out) = Inr (cursor', out')" "cursor \<le> length lines"
  shows "marked ls \<and> cursor' = cursor + length (old_side ls) \<and> out' = out @ new_side ls \<and> drop cursor lines = old_side ls @ drop cursor' lines
     \<and> cursor' \<le> length lines"
  using assms
proof (induction hi lines ls "(cursor, out)" arbitrary: cursor out rule: apply_body.induct)
  case (3 hi lines marker t ls cursor out)
  from 3(4,5) consider "marker = CHR '' ''" "cursor < length lines" "lines ! cursor = t" "apply_body hi lines ls (Suc cursor, out @ [t]) = Inr (cursor', out')"
    | "marker = CHR ''-''" "cursor < length lines" "lines ! cursor = t" "apply_body hi lines ls (Suc cursor, out) = Inr (cursor', out')"
    | "marker = CHR ''+''" "apply_body hi lines ls (cursor, out @ [t]) = Inr (cursor', out')"
    by (auto split: if_splits)
  then show ?case
  proof cases
    case 1
    with 3(1) show ?thesis by (auto simp: drop_nth)
  next
    case 2
    with 3(2) show ?thesis by (auto simp: drop_nth)
  next
    case 3
    with "3.hyps"(3) "3.prems"(2) show ?thesis by auto
  qed
qed auto

lemma apply_body_complete:
  assumes "marked ls" "drop cursor lines = old_side ls @ rest" "cursor \<le> length lines"
  shows "apply_body hi lines ls (cursor, out) = Inr (cursor + length (old_side ls), out @ new_side ls)"
  using assms
proof (induction ls arbitrary: cursor out)
  case (Cons l ls)
  show ?case
  proof (cases l)
    case Nil
    with Cons show ?thesis by simp
  next
    case l: (Cons m t)
    show ?thesis
    proof (cases "m = CHR ''+''")
      case True
      with Cons l show ?thesis by simp
    next
      case False
      with Cons.prems l have d: "drop cursor lines = t # old_side ls @ rest" by auto
      then have "cursor < length lines" by (metis drop_all le_less_linear list.distinct(1))
      with d have "lines ! cursor = t" "drop (Suc cursor) lines = old_side ls @ rest" by (simp_all add: drop_nth)
      with Cons l False \<open>cursor < length lines\<close> show ?thesis by auto
    qed
  qed
qed simp

lemma apply_hunks_iff:
  assumes "cursor \<le> length lines"
  shows "apply_hunks hi lines hs (cursor, out) = Inr r \<longleftrightarrow> (\<exists>out'. r = out @ out' \<and> splices cursor hs (drop cursor lines) out')"
  using assms
proof (induction hs arbitrary: hi cursor out)
  case Nil
  then show ?case by (auto simp: splices_Nil)
next
  case (Cons h hs)
  let ?s = "nat (hunk_start h)" and ?ls = "h_Lines h"
  show ?case
  proof
    assume a: "apply_hunks hi lines (h # hs) (cursor, out) = Inr r"
    define gap where "gap = take (?s - cursor) (drop cursor lines)"
    from a have s: "int cursor \<le> hunk_start h" "hunk_start h \<le> int (length lines)" by (auto simp: Let_def split: if_splits)
    with a obtain c o' where b: "apply_body hi lines ?ls (?s, out @ gap) = Inr (c, o')" "apply_hunks (Suc hi) lines hs (c, o') = Inr r"
      by (auto simp: Let_def bind_res_Inr_iff gap_def)
    have "?s \<le> length lines" "cursor \<le> ?s" using s by linarith+
    note b1 = apply_body_sound [OF b(1) this(1)]
    with Cons.IH b(2) obtain out' where o: "r = o' @ out'" "splices c hs (drop c lines) out'" by blast
    have "length gap = ?s - cursor" using \<open>?s \<le> length lines\<close> by (simp add: gap_def)
    then have g: "hunk_start h = int (cursor + length gap)" "c = cursor + length gap + length (old_side ?ls)" using s b1 \<open>cursor \<le> ?s\<close> by auto
    have "drop cursor lines = gap @ drop ?s lines" using \<open>cursor \<le> ?s\<close>
      by (metis append_take_drop_id drop_drop gap_def le_add_diff_inverse2)
    with b1 have "drop cursor lines = gap @ old_side ?ls @ drop c lines" by simp
    with splices.hunk [of h cursor gap hs "drop c lines" out'] b1 g o show "\<exists>out'. r = out @ out' \<and> splices cursor (h # hs) (drop cursor lines) out'"
      by auto
  next
    assume "\<exists>out'. r = out @ out' \<and> splices cursor (h # hs) (drop cursor lines) out'"
    then obtain out' where r: "r = out @ out'" "splices cursor (h # hs) (drop cursor lines) out'" by blast
    from r(2) obtain gap ls o' where s: "marked ?ls" "hunk_start h = int (cursor + length gap)" "splices (cursor + length gap + length (old_side ?ls)) hs ls o'"
      "drop cursor lines = gap @ old_side ?ls @ ls" "out' = gap @ new_side ?ls @ o'" by (rule splices_Cons) auto
    let ?c = "cursor + length gap"
    have len: "length lines - cursor = length gap + length (old_side ?ls) + length ls" using arg_cong [OF s(4), of length] by simp
    then have le: "?c \<le> length lines" "?c + length (old_side ?ls) \<le> length lines" using Cons.prems by linarith+
    have d: "drop ?c lines = old_side ?ls @ ls" using arg_cong [OF s(4), of "drop (length gap)"] by (simp add: add.commute)
    then have d2: "drop (?c + length (old_side ?ls)) lines = ls" by (metis add.commute append_eq_conv_conj drop_drop)
    have "take (?c - cursor) (drop cursor lines) = gap" using s(4) by simp
    moreover have "nat (hunk_start h) = ?c" "\<not> hunk_start h < int cursor" "\<not> hunk_start h > int (length lines)" using s(2) le(1) by linarith+
    ultimately show "apply_hunks hi lines (h # hs) (cursor, out) = Inr r" using apply_body_complete [OF s(1) d le(1), of hi "out @ gap"] Cons.IH [OF le(2), of "Suc hi" "out @ gap @ new_side ?ls"] s(3,5) r(1) d2
      by (simp add: Let_def)
  qed
qed

text \<open>C38. A patch applies exactly when the file has every context line and every removed line of every hunk, in order, at the line the
  hunk names; the result is the file with each old side replaced by the new one and nothing else changed.\<close>

theorem patch_exact:
  "Apply p content = Inr r \<longleftrightarrow>
     (\<exists>out. splices 0 (p_Hunks p) (file_lines content) out \<and> r = file_text (has_suffix content [CHR 0x0A]) out)"
  using apply_hunks_iff [of 0 "file_lines content" 1 "p_Hunks p" "[]"] by (auto simp: Apply_def bind_res_Inr_iff)

section \<open>Undoing a patch\<close>

definition flip :: "string \<Rightarrow> string" where
  "flip l = (if l = [] then [] else (if hd l = CHR ''-'' then CHR ''+'' else if hd l = CHR ''+'' then CHR ''-'' else hd l) # tl l)"

text \<open>\<open>d\<close> is by how much the hunks before it have lengthened the file.\<close>

fun reverse_hunks :: "int \<Rightarrow> hunk list \<Rightarrow> hunk list" where
  "reverse_hunks d [] = []"
| "reverse_hunks d (h # hs) =
     (let n = int (length (new_side (h_Lines h))); k = int (length (old_side (h_Lines h))); s = hunk_start h + d in
      \<lparr>h_OldStart = (if n = 0 then s else s + 1), h_OldLines = n, h_NewStart = h_OldStart h, h_NewLines = k, h_Lines = map flip (h_Lines h)\<rparr>
        # reverse_hunks (d + n - k) hs)"

lemma flip_sides: "old_side (map flip ls) = new_side ls" "new_side (map flip ls) = old_side ls" "marked (map flip ls) = marked ls"
proof -
  show "old_side (map flip ls) = new_side ls" "new_side (map flip ls) = old_side ls" by (induction ls rule: old_side.induct) (auto simp: flip_def)
  show "marked (map flip ls) = marked ls" by (induction ls rule: old_side.induct) (auto simp: flip_def)
qed

lemma splices_reverse:
  assumes "splices pos hs ls out" "int pos' = int pos + d"
  shows "splices pos' (reverse_hunks d hs) out ls"
  using assms
proof (induction arbitrary: pos' d rule: splices.induct)
  case (rest pos ls)
  then show ?case by (simp add: splices.rest)
next
  case (hunk h pos gap hs ls out)
  let ?n = "length (new_side (h_Lines h))" and ?o = "length (old_side (h_Lines h))"
  obtain r where r: "reverse_hunks d (h # hs) = r # reverse_hunks (d + int ?n - int ?o) hs" "h_Lines r = map flip (h_Lines h)" "hunk_start r = hunk_start h + d"
    by (simp add: Let_def hunk_start_def)
  have s: "hunk_start r = int (pos' + length gap)" using hunk.hyps(2) hunk.prems r(3) by simp
  have "int (pos' + length gap + ?n) = int (pos + length gap + ?o) + (d + int ?n - int ?o)" using hunk.prems by simp
  from hunk.IH [OF this] have "splices (pos' + length gap + length (old_side (h_Lines r))) (reverse_hunks (d + int ?n - int ?o) hs) out ls"
    by (simp add: r(2) flip_sides)
  from splices.hunk [OF _ s this] hunk.hyps(1) have "splices pos' (r # reverse_hunks (d + int ?n - int ?o) hs)
      (gap @ new_side (h_Lines h) @ out) (gap @ old_side (h_Lines h) @ ls)" by (simp add: r(2) flip_sides)
  then show ?case by (simp only: r(1))
qed

lemma sides_count:
  "marked ls \<Longrightarrow> length (new_side ls) + count_if (\<lambda>l. l \<noteq> [] \<and> hd l = CHR ''-'') ls = length (old_side ls) + count_if (\<lambda>l. l \<noteq> [] \<and> hd l = CHR ''+'') ls"
  by (induction ls rule: old_side.induct) auto

lemma splices_length: "splices pos hs ls out \<Longrightarrow> length out + snd (Stats \<lparr>p_Path = x, p_Hunks = hs\<rparr>) = length ls + fst (Stats \<lparr>p_Path = x, p_Hunks = hs\<rparr>)"
proof (induction rule: splices.induct)
  case (hunk h pos gap hs ls out)
  with sides_count [OF hunk.hyps(1)] show ?case by (simp add: Stats_def Let_def)
qed (simp add: Stats_def)


section \<open>Printing and parsing\<close>

text \<open>The form in which a patch is written down: two file headers, then each hunk under its header.\<close>

definition render_range :: "char \<Rightarrow> int \<Rightarrow> int \<Rightarrow> string" where
  "render_range sign start count = sign # itoa start @ '','' @ itoa count"

definition render_hunk :: "hunk \<Rightarrow> string list" where
  "render_hunk h = (''@@ '' @ render_range (CHR ''-'') (h_OldStart h) (h_OldLines h) @ '' '' @ render_range (CHR ''+'') (h_NewStart h) (h_NewLines h) @ '' @@'')
     # h_Lines h"

definition render_patch :: "patch \<Rightarrow> string" where
  "render_patch p = str_join [CHR 0x0A] ((''--- a/'' @ p_Path p) # (''+++ b/'' @ p_Path p) # concat (map render_hunk (p_Hunks p)))"

definition plain :: "string \<Rightarrow> bool" where
  "plain s \<longleftrightarrow> CHR 0x0A \<notin> set s \<and> CHR 0x0D \<notin> set s"

text \<open>A body line begins with a marker; it must not look like a file header.\<close>

definition good_line :: "string \<Rightarrow> bool" where
  "good_line l \<longleftrightarrow> l \<noteq> [] \<and> hd l \<in> {CHR '' '', CHR ''-'', CHR ''+''} \<and> plain l \<and> \<not> has_prefix l ''--- '' \<and> \<not> has_prefix l ''+++ ''"

definition good_hunk :: "hunk \<Rightarrow> bool" where
  "good_hunk h \<longleftrightarrow> h_OldStart h \<in> {0..<2 ^ 63} \<and> h_NewStart h \<in> {0..<2 ^ 63} \<and> h_OldLines h < 2 ^ 63 \<and> h_NewLines h < 2 ^ 63
     \<and> h_OldLines h = int (length (old_side (h_Lines h))) \<and> h_NewLines h = int (length (new_side (h_Lines h))) \<and> list_all good_line (h_Lines h)"

definition good_path :: "string \<Rightarrow> bool" where
  "good_path s \<longleftrightarrow> s \<noteq> [] \<and> s \<noteq> ''/dev/null'' \<and> plain s \<and> CHR 0x09 \<notin> set s \<and> \<not> is_space (last s)"

lemma replace_crlf_id: "CHR 0x0D \<notin> set s \<Longrightarrow> replace_crlf s = s"
  by (induction s rule: replace_crlf.induct) auto

lemma split_join:
  assumes "ls \<noteq> []" "\<forall>l\<in>set ls. d \<notin> set l"
  shows "split_on d (str_join [d] ls) = ls"
proof -
  have one: "d \<notin> set l \<Longrightarrow> split_on d l = [l]" for l by (induction l) auto
  have two: "d \<notin> set l \<Longrightarrow> split_on d (l @ d # s) = l # split_on d s" for l s by (induction l) auto
  show ?thesis using assms by (induction ls rule: list_nonempty_induct) (auto simp: one two neq_Nil_conv)
qed

lemma digit_spaces: "is_digit c \<Longrightarrow> \<not> is_space c \<and> c \<noteq> CHR '','' \<and> c \<noteq> CHR ''@'' \<and> c \<noteq> CHR ''-'' \<and> c \<noteq> CHR ''+''"
  by (auto simp: is_digit_def is_space_def)

lemma itoa_digits: "0 \<le> n \<Longrightarrow> list_all is_digit (itoa n) \<and> itoa n \<noteq> [] \<and> int (digits_val 0 (itoa n)) = n"
  by (simp add: itoa_def nat_digits_digit nat_digits_ne digits_val_nat_digits)

lemma scan_itoa: "0 \<le> n \<Longrightarrow> n < 2 ^ 63 \<Longrightarrow> scan_int (itoa n) = Some n"
proof -
  assume n: "0 \<le> n" "n < 2 ^ 63"
  obtain c cs where i: "itoa n = c # cs" using itoa_digits [OF n(1)] by (cases "itoa n") auto
  have t: "takeWhile is_digit (itoa n) = itoa n" using itoa_digits [OF n(1)] by (simp add: list_all_iff takeWhile_eq_all_conv)
  have "hd (itoa n) \<noteq> CHR ''-''" "hd (itoa n) \<noteq> CHR ''+''" using itoa_digits [OF n(1)] i digit_spaces by auto
  then have "scan_int (itoa n) = (let v = int (digits_val 0 (itoa n)) in if itoa n = [] \<or> v \<ge> 2 ^ 63 \<or> v < - (2 ^ 63) then None else Some v)"
    by (simp add: scan_int_def Let_def t)
  with itoa_digits [OF n(1)] n show ?thesis by simp
qed

lemma parse_render_range:
  assumes "s \<in> {0..<2 ^ 63}" "0 \<le> k" "k < 2 ^ 63"
  shows "parseRange (render_range sign s k) sign = Inr (s, k)"
proof -
  have c: "\<forall>c\<in>set (itoa s). c \<noteq> CHR '',''" using itoa_digits [of s] assms(1) digit_spaces by (auto simp: list_all_iff)
  then have "takeWhile (\<lambda>c. c \<noteq> CHR '','') (itoa s @ '','' @ itoa k) = itoa s" "dropWhile (\<lambda>c. c \<noteq> CHR '','') (itoa s @ '','' @ itoa k) = '','' @ itoa k"
    by (simp_all add: takeWhile_append2 dropWhile_append2)
  then show ?thesis using assms scan_itoa [of s] scan_itoa [of k] by (simp add: parseRange_def render_range_def Let_def)
qed

lemma go_fields_word:
  assumes "w \<noteq> []" "\<forall>c\<in>set w. \<not> is_space c" "s = [] \<or> is_space (hd s)"
  shows "go_fields (w @ s) = w # go_fields s"
proof -
  have d: "dropWhile is_space (w @ s) = w @ s" using assms(1,2) by (cases w) auto
  have "takeWhile (\<lambda>c. \<not> is_space c) (w @ s) = w" "dropWhile (\<lambda>c. \<not> is_space c) (w @ s) = s"
    using assms(2,3) by (cases s; auto simp: takeWhile_append2 dropWhile_append2)+
  with d assms(1) show ?thesis by (subst go_fields.simps) (simp add: Let_def)
qed

lemma go_fields_space: "go_fields (CHR '' '' # s) = go_fields s"
  by (subst (1 2) go_fields.simps) (simp add: is_space_def)

lemma before_found: "\<forall>c\<in>set s. c \<noteq> CHR ''@'' \<Longrightarrow> text_before ''@@'' (s @ ''@@'') = Some s"
  by (induction s) (auto simp: has_prefix_def)

lemma render_range_chars: "0 \<le> s \<Longrightarrow> 0 \<le> k \<Longrightarrow> sign \<in> {CHR ''-'', CHR ''+''} \<Longrightarrow> c \<in> set (render_range sign s k) \<Longrightarrow> \<not> is_space c \<and> c \<noteq> CHR ''@'' \<and> c \<noteq> CHR 0x0A \<and> c \<noteq> CHR 0x0D"
  using itoa_digits [of s] itoa_digits [of k] digit_spaces by (auto simp: render_range_def list_all_iff is_space_def)

lemma parse_render_header:
  assumes "good_hunk h"
  shows "parseHunkHeader (hd (render_hunk h)) = Inr (h\<lparr>h_Lines := []\<rparr>)"
proof -
  let ?o = "render_range (CHR ''-'') (h_OldStart h) (h_OldLines h)" and ?n = "render_range (CHR ''+'') (h_NewStart h) (h_NewLines h)"
  have pos: "0 \<le> h_OldStart h" "0 \<le> h_OldLines h" "0 \<le> h_NewStart h" "0 \<le> h_NewLines h" using assms by (auto simp: good_hunk_def)
  have o: "\<forall>c\<in>set ?o. \<not> is_space c \<and> c \<noteq> CHR ''@''" and n: "\<forall>c\<in>set ?n. \<not> is_space c \<and> c \<noteq> CHR ''@''"
    using render_range_chars pos by blast+
  have ne: "?o \<noteq> []" "?n \<noteq> []" by (simp_all add: render_range_def)
  let ?spec = "'' '' @ ?o @ '' '' @ ?n @ '' ''"
  have "\<forall>c\<in>set ?spec. c \<noteq> CHR ''@''" using o n by auto
  from before_found [OF this] have b: "text_before ''@@'' (drop 2 (hd (render_hunk h))) = Some ?spec" by (simp add: render_hunk_def)
  have "dropWhile is_space ?spec = ?o @ '' '' @ ?n @ '' ''" using o ne(1) by (cases ?o) (auto simp: is_space_def)
  moreover have "dropWhile is_space (rev (?o @ '' '' @ ?n @ '' '')) = rev (?o @ '' '' @ ?n)"
    using n ne(2) by (cases "rev ?n") (auto simp: is_space_def)
  ultimately have t: "trim_space ?spec = ?o @ '' '' @ ?n" by (simp add: trim_space_def)
  have "go_fields (?o @ '' '' @ ?n) = [?o, ?n]"
    using go_fields_word [OF ne(1), of "'' '' @ ?n"] go_fields_word [OF ne(2), of "[]"] o n
    by (simp add: go_fields_space is_space_def) (simp add: go_fields.simps)
  with t have f: "go_fields (trim_space ?spec) = [?o, ?n]" by metis
  have "parseRange ?o (CHR ''-'') = Inr (h_OldStart h, h_OldLines h)" "parseRange ?n (CHR ''+'') = Inr (h_NewStart h, h_NewLines h)"
    using assms pos by (simp_all add: parse_render_range good_hunk_def)
  then show ?thesis unfolding parseHunkHeader_def b option.case f by simp
qed

lemma has_prefix_Cons: "has_prefix (m # t) (c # cs) \<longleftrightarrow> m = c \<and> has_prefix t cs"
  by (auto simp: has_prefix_def)

lemma parse_good_line:
  assumes "good_line l"
  shows "parse_line l st = Inr (body_line l st)"
proof -
  obtain m t where l: "l = m # t" "m \<in> {CHR '' '', CHR ''-'', CHR ''+''}" using assms by (cases l) (auto simp: good_line_def)
  then have "\<not> has_prefix l ''@@''" "\<not> list_ex (has_prefix l) header_noise" by (auto simp: header_noise_def has_prefix_Cons)
  with assms show ?thesis by (simp add: parse_line_def good_line_def)
qed

lemma body_good:
  assumes "good_line l" "ps_open st" "ps_hunks st = hs @ [h]"
    and "ps_old st = int (length (old_side (l # ls)))" "ps_new st = int (length (new_side (l # ls)))"
  shows "body_line l st = st\<lparr>ps_old := int (length (old_side ls)), ps_new := int (length (new_side ls)), ps_hunks := hs @ [h\<lparr>h_Lines := h_Lines h @ [l]\<rparr>]\<rparr>"
  using assms by (cases l) (auto simp: good_line_def body_line_def add_line_def Let_def)

lemma parse_body:
  assumes "list_all good_line ls" "ps_open st" "ps_hunks st = hs @ [h]" "ps_old st = int (length (old_side ls))" "ps_new st = int (length (new_side ls))"
  shows "parse_lines (ls @ rest) st = parse_lines rest (st\<lparr>ps_old := 0, ps_new := 0, ps_hunks := hs @ [h\<lparr>h_Lines := h_Lines h @ ls\<rparr>]\<rparr>)"
  using assms
proof (induction ls arbitrary: st h)
  case Nil
  then show ?case by (cases st) simp
next
  case (Cons l ls)
  from Cons.prems(1) have g: "good_line l" "list_all good_line ls" by auto
  note b = body_good [OF g(1) Cons.prems(2-5)]
  have "parse_lines ((l # ls) @ rest) st = parse_lines (ls @ rest) (body_line l st)" by (simp add: parse_good_line [OF g(1)])
  also have "\<dots> = parse_lines rest (st\<lparr>ps_old := 0, ps_new := 0, ps_hunks := hs @ [h\<lparr>h_Lines := h_Lines h @ l # ls\<rparr>]\<rparr>)"
    by (subst Cons.IH [OF g(2), of _ "h\<lparr>h_Lines := h_Lines h @ [l]\<rparr>"]) (use Cons.prems(2) in \<open>simp_all add: b\<close>)
  finally show ?case .
qed

lemma parse_header_line:
  assumes "good_hunk h"
  shows "parse_line (hd (render_hunk h)) st =
     Inr (st\<lparr>ps_hunks := ps_hunks st @ [h\<lparr>h_Lines := []\<rparr>], ps_open := True, ps_old := h_OldLines h, ps_new := h_NewLines h\<rparr>)"
  using parse_render_header [OF assms] by (simp add: parse_line_def render_hunk_def has_prefix_def)

lemma parse_hunks:
  assumes "list_all good_hunk hs"
  shows "\<exists>st'. parse_lines (concat (map render_hunk hs)) st = Inr st' \<and> ps_path st' = ps_path st \<and> ps_hunks st' = ps_hunks st @ hs"
  using assms
proof (induction hs arbitrary: st)
  case (Cons h hs)
  from Cons.prems have g: "good_hunk h" "list_all good_hunk hs" by auto
  define st1 where "st1 = st\<lparr>ps_hunks := ps_hunks st @ [h\<lparr>h_Lines := []\<rparr>], ps_open := True, ps_old := h_OldLines h, ps_new := h_NewLines h\<rparr>"
  define st2 where "st2 = st1\<lparr>ps_old := 0, ps_new := 0, ps_hunks := ps_hunks st @ [h]\<rparr>"
  have r: "render_hunk h = hd (render_hunk h) # h_Lines h" by (simp add: render_hunk_def)
  have "parse_lines (concat (map render_hunk (h # hs))) st = parse_lines (h_Lines h @ concat (map render_hunk hs)) st1"
    by (subst list.map, subst r) (simp add: parse_header_line [OF g(1)] st1_def)
  also have "\<dots> = parse_lines (concat (map render_hunk hs)) st2"
    by (subst parse_body [of _ _ "ps_hunks st" "h\<lparr>h_Lines := []\<rparr>"]) (use g(1) in \<open>simp_all add: st1_def st2_def good_hunk_def\<close>)
  finally show ?case using Cons.IH [OF g(2), of st2] by (auto simp: st2_def st1_def)
qed simp

lemma rendered_plain:
  assumes "good_path (p_Path p)" "list_all good_hunk (p_Hunks p)" "l \<in> set ((''--- a/'' @ p_Path p) # (''+++ b/'' @ p_Path p) # concat (map render_hunk (p_Hunks p)))"
  shows "plain l"
proof -
  have "plain l" if "good_hunk h" "l \<in> set (render_hunk h)" for h
  proof (cases "l \<in> set (h_Lines h)")
    case True
    with that(1) show ?thesis by (auto simp: good_hunk_def good_line_def list_all_iff)
  next
    case False
    with that(2) have "l = hd (render_hunk h)" by (simp add: render_hunk_def)
    moreover have "0 \<le> h_OldStart h" "0 \<le> h_OldLines h" "0 \<le> h_NewStart h" "0 \<le> h_NewLines h" using that(1) by (auto simp: good_hunk_def)
    then have "plain (render_range (CHR ''-'') (h_OldStart h) (h_OldLines h))" "plain (render_range (CHR ''+'') (h_NewStart h) (h_NewLines h))"
      using render_range_chars unfolding plain_def by blast+
    ultimately show ?thesis by (simp add: plain_def render_hunk_def)
  qed
  with assms show ?thesis by (auto simp: good_path_def plain_def list_all_iff)
qed

text \<open>A patch whose hunks count their own lines, written out as a unified diff, is read back unchanged.\<close>

theorem parse_render:
  assumes "good_path (p_Path p)" "p_Hunks p \<noteq> []" "list_all good_hunk (p_Hunks p)"
  shows "ParsePatch (render_patch p) = Inr p"
proof -
  let ?ls = "(''--- a/'' @ p_Path p) # (''+++ b/'' @ p_Path p) # concat (map render_hunk (p_Hunks p))"
  note pl = rendered_plain [OF assms(1,3)]
  have cr: "CHR 0x0D \<notin> set (str_join [CHR 0x0A] ls)" if "\<forall>l\<in>set ls. plain l" for ls
    using that by (induction ls rule: induct_list012) (auto simp: plain_def)
  have "replace_crlf (render_patch p) = render_patch p" using cr [of ?ls] pl by (intro replace_crlf_id) (auto simp: render_patch_def)
  moreover have "split_on (CHR 0x0A) (render_patch p) = ?ls" unfolding render_patch_def by (rule split_join) (use pl in \<open>auto simp: plain_def\<close>)
  moreover have "target_path (''+++ b/'' @ p_Path p) = p_Path p"
  proof -
    have "trim_space (''b/'' @ p_Path p) = ''b/'' @ p_Path p" by (rule trim_space_id) (use assms(1) in \<open>auto simp: good_path_def is_space_def\<close>)
    moreover have "takeWhile (\<lambda>c. c \<noteq> CHR 0x09) (''b/'' @ p_Path p) = ''b/'' @ p_Path p" using assms(1) by (auto simp: good_path_def takeWhile_eq_all_conv)
    ultimately show ?thesis by (simp add: target_path_def Let_def has_prefix_def)
  qed
  then have "parse_line (''--- a/'' @ p_Path p) st = Inr st" "parse_line (''+++ b/'' @ p_Path p) st = Inr (st\<lparr>ps_path := p_Path p\<rparr>)" for st
    using assms(1) by (simp_all add: parse_line_def has_prefix_def good_path_def)
  moreover obtain st where "parse_lines (concat (map render_hunk (p_Hunks p))) (fresh_parse\<lparr>ps_path := p_Path p\<rparr>) = Inr st"
      "ps_path st = p_Path p" "ps_hunks st = p_Hunks p"
    using parse_hunks [OF assms(3), of "fresh_parse\<lparr>ps_path := p_Path p\<rparr>"] by (auto simp: fresh_parse_def)
  ultimately show ?thesis using assms(1,2) by (simp add: ParsePatch_def good_path_def)
qed

section \<open>Lines that look like headers\<close>

text \<open>The diff removes the last line, which begins with two dashes; the parser takes the removal for a file header.\<close>

definition dashed_diff :: string where
  "dashed_diff = str_join [CHR 0x0A] [''--- a/f'', ''+++ b/f'', ''@@ -1,2 +1,1 @@'', '' keep'', ''--- old'']"

text \<open>A removal of a line that begins with two dashes and a space is accepted and silently not made.\<close>

theorem dashed_removal_lost:
  "(case ParsePatch dashed_diff of Inl e \<Rightarrow> False
    | Inr p \<Rightarrow> Stats p = (0, 0) \<and> map h_OldLines (p_Hunks p) = [2] \<and> Apply p (str_join [CHR 0x0A] [''keep'', ''-- old'', []]) = Inr (str_join [CHR 0x0A] [''keep'', ''-- old'', []]))"
  by code_simp

text \<open>Applying a patch that leaves a single blank line writes an empty file.\<close>

theorem blank_file_emptied:
  "Apply \<lparr>p_Path = ''f'', p_Hunks = [\<lparr>h_OldStart = 1, h_OldLines = 1, h_NewStart = 0, h_NewLines = 0, h_Lines = [''-a'']\<rparr>]\<rparr> (str_join [CHR 0x0A] [''a'', [], []]) = Inr []"
  by code_simp

section \<open>Witnesses\<close>

definition ex_patch :: patch where
  "ex_patch = \<lparr>p_Path = ''f'', p_Hunks =
     [\<lparr>h_OldStart = 1, h_OldLines = 2, h_NewStart = 1, h_NewLines = 2, h_Lines = ['' a'', ''-b'', ''+B'']\<rparr>,
      \<lparr>h_OldStart = 3, h_OldLines = 0, h_NewStart = 4, h_NewLines = 1, h_Lines = [''+x'']\<rparr>]\<rparr>"


theorem parse_render_witness: "ParsePatch (render_patch ex_patch) = Inr ex_patch"
  by (rule parse_render)
    (simp_all add: ex_patch_def good_path_def good_hunk_def good_line_def plain_def is_space_def has_prefix_def)

end
