(* ===== verification/Improve_Gate.thy ===== *)
theory Improve_Gate
  imports Patch
begin

text \<open>
  The gate between an advisor's proposals and the files of the workspace (\<open>internal/improve/validate.go\<close>, \<open>workspace.go\<close>, \<open>apply.go\<close>): which
  paths are out of bounds, the stages a proposal passes, and the writing of the accepted ones. Paths are Unix paths without line breaks. The file
  system as the validator reads it, and the loading and validation of a candidate configuration, are the fields of \<open>improve_env\<close>.
\<close>

section \<open>Paths\<close>

fun clean_elems :: "bool \<Rightarrow> string list \<Rightarrow> string list \<Rightarrow> string list" where
  "clean_elems rooted acc [] = rev acc"
| "clean_elems rooted acc (e # es) =
     (if e = [] \<or> e = ''.'' then clean_elems rooted acc es
      else if e = ''..'' then
        (if acc = [] then clean_elems rooted (if rooted then [] else [e]) es
         else if hd acc = ''..'' then clean_elems rooted (e # acc) es else clean_elems rooted (tl acc) es)
      else clean_elems rooted (e # acc) es)"

definition IsAbs :: "string \<Rightarrow> bool" where
  "IsAbs p = has_prefix p ''/''"

definition path_elems :: "string \<Rightarrow> string list" where
  "path_elems p = clean_elems (IsAbs p) [] (split_on (CHR ''/'') p)"

definition Clean :: "string \<Rightarrow> string" where
  "Clean p = (let out = str_join ''/'' (path_elems p) in if IsAbs p then ''/'' @ out else if out = [] then ''.'' else out)"

definition Join :: "string \<Rightarrow> string \<Rightarrow> string" where
  "Join a b = (let es = filter (\<lambda>e. e \<noteq> []) [a, b] in if es = [] then [] else Clean (str_join ''/'' es))"

definition Ext :: "string \<Rightarrow> string" where
  "Ext p = (let base = last (split_on (CHR ''/'') p) in
     if CHR ''.'' \<in> set base then CHR ''.'' # last (split_on (CHR ''.'') base) else [])"

text \<open>\<open>filepath.Rel\<close> fails or climbs out of the base.\<close>

definition escapes :: "string \<Rightarrow> string \<Rightarrow> bool" where
  "escapes root path \<longleftrightarrow> IsAbs root \<noteq> IsAbs path
     \<or> (let r = path_elems root; p = path_elems path in take (length r) p \<noteq> r \<or> (length r < length p \<and> p ! length r = ''..''))"

fun starts :: "string \<Rightarrow> string list" where
  "starts [] = []"
| "starts (c # cs) = (if c = CHR ''/'' then cs # starts cs else starts cs)"

definition excludedNames :: "string \<Rightarrow> bool" where
  "excludedNames s \<longleftrightarrow> list_ex (\<lambda>t. t = ''.env'' \<or> has_prefix t ''.env.'') (s # starts s) \<or> has_suffix s ''.env'' \<or> str_contains s ''secret''
     \<or> str_contains s ''credential'' \<or> has_suffix s ''.pem'' \<or> has_suffix s ''.key''"

definition excludedDirs :: "string list" where
  "excludedDirs = [''.git/'', ''/logs/'', ''/transcripts/'', ''/memory/'', ''node_modules/'']"

definition Excluded :: "string \<Rightarrow> string \<Rightarrow> bool" where
  "Excluded path root =
     (let clean = Clean path in
      root \<noteq> [] \<and> escapes root clean \<or> excludedNames clean \<or> list_ex (str_contains (clean @ ''/'')) excludedDirs
      \<or> Ext clean \<in> {''.db'', ''.db-wal'', ''.db-shm'', ''.sock''})"

section \<open>Validation\<close>

record recommendation =
  re_ID :: string
  re_File :: string
  re_Patch :: string

datatype stage = StagePath | StageApply | StageConfig | StageExpr | StageWarnings | StageValidated

datatype gate_reason =
  NoReason | AdvisoryOnly | BadPatch patch_error | NamesOther string string | OutOfBounds string | NotShown string | CannotRead string
| DoesNotLoad string | DoesNotValidate string

record verdict =
  v_Recommendation :: recommendation
  v_Reached :: stage
  v_OK :: bool
  v_Reason :: gate_reason
  v_Path :: string
  v_Result :: string
  v_Added :: nat
  v_Removed :: nat
  v_NewWarnings :: "string list"
  v_MachineChecked :: bool

record 'c improve_env =
  en_Root :: string
  en_Files :: "string list"
  en_read :: "string \<Rightarrow> string option"
  en_load :: "string \<Rightarrow> string \<Rightarrow> string + 'c"
  en_errors :: "'c \<Rightarrow> string list"
  en_warnings :: "'c \<Rightarrow> string list"
  en_Baseline :: "string list"

definition absolute :: "string \<Rightarrow> string \<Rightarrow> string" where
  "absolute root p = Clean (if IsAbs p then p else Join root p)"

definition inWorkspace :: "'c improve_env \<Rightarrow> string \<Rightarrow> bool" where
  "inWorkspace en full = list_ex (\<lambda>f. absolute (en_Root en) f = full) (en_Files en)"

definition isConfigLike :: "string \<Rightarrow> bool" where
  "isConfigLike full \<longleftrightarrow> to_lower (Ext full) \<in> {''.yaml'', ''.yml''}"

definition fresh_verdict :: "recommendation \<Rightarrow> verdict" where
  "fresh_verdict r = \<lparr>v_Recommendation = r, v_Reached = StagePath, v_OK = False, v_Reason = NoReason, v_Path = [], v_Result = [], v_Added = 0,
     v_Removed = 0, v_NewWarnings = [], v_MachineChecked = False\<rparr>"

text \<open>The stages from the loaded candidate on.\<close>

definition check_config :: "'c improve_env \<Rightarrow> verdict \<Rightarrow> verdict" where
  "check_config en v =
     (case en_load en (v_Path v) (v_Result v) of
        Inl e \<Rightarrow> v\<lparr>v_Reached := StageConfig, v_Reason := DoesNotLoad e\<rparr>
      | Inr cand \<Rightarrow>
          if en_errors en cand \<noteq> [] then v\<lparr>v_Reached := StageConfig, v_Reason := DoesNotValidate (hd (en_errors en cand))\<rparr>
          else v\<lparr>v_NewWarnings := filter (\<lambda>w. w \<notin> set (en_Baseline en)) (en_warnings en cand), v_OK := True, v_Reached := StageValidated\<rparr>)"

definition check_apply :: "'c improve_env \<Rightarrow> patch \<Rightarrow> verdict \<Rightarrow> verdict" where
  "check_apply en p v =
     (let v1 = v\<lparr>v_Reached := StageApply\<rparr> in
      case en_read en (v_Path v) of None \<Rightarrow> v1\<lparr>v_Reason := CannotRead (p_Path p)\<rparr>
      | Some original \<Rightarrow>
          (case Apply p original of Inl e \<Rightarrow> v1\<lparr>v_Reason := BadPatch e\<rparr>
           | Inr patched \<Rightarrow>
               let v2 = v1\<lparr>v_Result := patched, v_Added := fst (Stats p), v_Removed := snd (Stats p)\<rparr> in
               if \<not> isConfigLike (v_Path v) then v2\<lparr>v_OK := True, v_Reached := StageValidated\<rparr>
               else check_config en (v2\<lparr>v_MachineChecked := True\<rparr>)))"

definition validateOne :: "'c improve_env \<Rightarrow> recommendation \<Rightarrow> verdict" where
  "validateOne en r =
     (let v = fresh_verdict r in
      if trim_space (re_Patch r) = [] then v\<lparr>v_OK := True, v_Reached := StageValidated, v_Reason := AdvisoryOnly\<rparr>
      else case ParsePatch (re_Patch r) of Inl e \<Rightarrow> v\<lparr>v_Reason := BadPatch e\<rparr>
      | Inr p \<Rightarrow>
          if re_File r \<noteq> [] \<and> re_File r \<noteq> p_Path p then v\<lparr>v_Reason := NamesOther (re_File r) (p_Path p)\<rparr>
          else let full = absolute (en_Root en) (p_Path p) in
            if Excluded full (en_Root en) then v\<lparr>v_Reason := OutOfBounds (p_Path p)\<rparr>
            else if \<not> inWorkspace en full then v\<lparr>v_Reason := NotShown (p_Path p)\<rparr>
            else check_apply en p (v\<lparr>v_Path := full\<rparr>))"

definition Validate_all :: "'c improve_env \<Rightarrow> recommendation list \<Rightarrow> verdict list" where
  "Validate_all en recs = map (validateOne en) recs"

definition Summarize :: "verdict list \<Rightarrow> verdict list \<times> verdict list" where
  "Summarize vs = (filter v_OK vs, filter (\<lambda>v. \<not> v_OK v) vs)"

section \<open>Writing\<close>

definition writes :: "verdict \<Rightarrow> bool" where
  "writes v \<longleftrightarrow> v_OK v \<and> v_Path v \<noteq> [] \<and> trim_space (re_Patch (v_Recommendation v)) \<noteq> []"

fun collision :: "verdict list \<Rightarrow> (string \<times> string) list \<Rightarrow> (string \<times> string \<times> string) option" where
  "collision [] seen = None"
| "collision (v # vs) seen =
     (if \<not> writes v then collision vs seen
      else case map_of seen (v_Path v) of Some prev \<Rightarrow> Some (v_Path v, prev, re_ID (v_Recommendation v))
      | None \<Rightarrow> collision vs ((v_Path v, re_ID (v_Recommendation v)) # seen))"

record applied_file =
  af_Path :: string
  af_Added :: nat
  af_Removed :: nat
  af_MachineChecked :: bool

datatype apply_outcome = TwoProposals string string string | WriteFailed string "applied_file list" | Applied "applied_file list" bool

text \<open>\<open>rel\<close> shortens a path for the report, \<open>writable\<close> says whether the system lets a file be written.\<close>

fun write_all :: "(string \<Rightarrow> string) \<Rightarrow> (string \<Rightarrow> bool) \<Rightarrow> verdict list \<Rightarrow> (string \<rightharpoonup> string) \<Rightarrow> applied_file list \<Rightarrow> bool
    \<Rightarrow> apply_outcome \<times> (string \<rightharpoonup> string)" where
  "write_all rel writable [] fs files changed = (Applied (sort_key af_Path files) changed, fs)"
| "write_all rel writable (v # vs) fs files changed =
     (if \<not> writes v then write_all rel writable vs fs files changed
      else if \<not> writable (v_Path v) then (WriteFailed (v_Path v) files, fs)
      else write_all rel writable vs (fs(v_Path v \<mapsto> v_Result v))
        (files @ [\<lparr>af_Path = rel (v_Path v), af_Added = v_Added v, af_Removed = v_Removed v, af_MachineChecked = v_MachineChecked v\<rparr>])
        (changed \<or> v_MachineChecked v))"

definition Apply_verdicts :: "(string \<Rightarrow> string) \<Rightarrow> (string \<Rightarrow> bool) \<Rightarrow> verdict list \<Rightarrow> (string \<rightharpoonup> string) \<Rightarrow> apply_outcome \<times> (string \<rightharpoonup> string)" where
  "Apply_verdicts rel writable vs fs =
     (case collision vs [] of Some (path, prev, this) \<Rightarrow> (TwoProposals path prev this, fs)
      | None \<Rightarrow> write_all rel writable vs fs [] False)"

section \<open>What can be written\<close>

definition cleared :: "'c improve_env \<Rightarrow> recommendation \<Rightarrow> string \<Rightarrow> string \<Rightarrow> bool" where
  "cleared en r path result \<longleftrightarrow> \<not> Excluded path (en_Root en) \<and> inWorkspace en path
     \<and> (\<exists>p content out. ParsePatch (re_Patch r) = Inr p \<and> (re_File r = [] \<or> re_File r = p_Path p) \<and> en_read en path = Some content
         \<and> splices 0 (p_Hunks p) (file_lines content) out \<and> result = file_text (has_suffix content [CHR 0x0A]) out)
     \<and> (isConfigLike path \<longrightarrow> (\<exists>cand. en_load en path result = Inr cand \<and> en_errors en cand = []))"

lemma check_config_ok:
  assumes "v_OK (check_config en v)" "\<not> v_OK v"
  shows "v_Path (check_config en v) = v_Path v" "v_Result (check_config en v) = v_Result v" "v_Recommendation (check_config en v) = v_Recommendation v"
    "\<exists>cand. en_load en (v_Path v) (v_Result v) = Inr cand \<and> en_errors en cand = []"
  using assms by (auto simp: check_config_def split: sum.splits if_splits)

lemma check_apply_ok:
  assumes "v_OK (check_apply en p v)" "\<not> v_OK v"
  shows "v_Path (check_apply en p v) = v_Path v" "v_Recommendation (check_apply en p v) = v_Recommendation v"
    "\<exists>content. en_read en (v_Path v) = Some content \<and> Apply p content = Inr (v_Result (check_apply en p v))"
    "isConfigLike (v_Path v) \<Longrightarrow> \<exists>cand. en_load en (v_Path v) (v_Result (check_apply en p v)) = Inr cand \<and> en_errors en cand = []"
proof -
  obtain content patched where c: "en_read en (v_Path v) = Some content" "Apply p content = Inr patched"
    using assms by (auto simp: check_apply_def Let_def split: option.splits sum.splits)
  define v2 where "v2 = v\<lparr>v_Reached := StageApply, v_Result := patched, v_Added := fst (Stats p), v_Removed := snd (Stats p)\<rparr>"
  have v: "check_apply en p v = (if \<not> isConfigLike (v_Path v) then v2\<lparr>v_OK := True, v_Reached := StageValidated\<rparr> else check_config en (v2\<lparr>v_MachineChecked := True\<rparr>))"
    using c by (simp add: check_apply_def v2_def Let_def)
  show "v_Path (check_apply en p v) = v_Path v" "v_Recommendation (check_apply en p v) = v_Recommendation v"
      "\<exists>content. en_read en (v_Path v) = Some content \<and> Apply p content = Inr (v_Result (check_apply en p v))"
    using check_config_ok(1-3) [of en "v2\<lparr>v_MachineChecked := True\<rparr>"] assms c unfolding v by (auto simp: v2_def)
  show "isConfigLike (v_Path v) \<Longrightarrow> \<exists>cand. en_load en (v_Path v) (v_Result (check_apply en p v)) = Inr cand \<and> en_errors en cand = []"
    using check_config_ok(2,4) [of en "v2\<lparr>v_MachineChecked := True\<rparr>"] assms unfolding v by (auto simp: v2_def)
qed

lemma validateOne_cleared:
  assumes "writes (validateOne en r)"
  shows "v_Recommendation (validateOne en r) = r" "cleared en r (v_Path (validateOne en r)) (v_Result (validateOne en r))"
proof -
  have ne: "trim_space (re_Patch r) \<noteq> []" using assms by (auto simp: writes_def validateOne_def fresh_verdict_def)
  with assms obtain p where p: "ParsePatch (re_Patch r) = Inr p"
    by (auto simp: writes_def validateOne_def fresh_verdict_def Let_def split: sum.splits)
  let ?abs = "absolute (en_Root en) (p_Path p)" and ?v = "fresh_verdict r"
  have g: "re_File r = [] \<or> re_File r = p_Path p" "\<not> Excluded ?abs (en_Root en)" "inWorkspace en ?abs"
    and v: "validateOne en r = check_apply en p (?v\<lparr>v_Path := ?abs\<rparr>)"
    using assms ne p by (auto simp: writes_def validateOne_def fresh_verdict_def Let_def split: if_splits)
  have "v_OK (check_apply en p (?v\<lparr>v_Path := ?abs\<rparr>))" "\<not> v_OK (?v\<lparr>v_Path := ?abs\<rparr>)" using assms v by (simp_all add: writes_def fresh_verdict_def)
  note ok = check_apply_ok [OF this]
  from ok(2) show "v_Recommendation (validateOne en r) = r" by (simp add: v fresh_verdict_def)
  show "cleared en r (v_Path (validateOne en r)) (v_Result (validateOne en r))"
    unfolding cleared_def v ok(1) using g p ok(3,4) by (auto simp: patch_exact)
qed

lemma write_all_changes:
  assumes "write_all rel writable vs fs files changed = (res, fs')" "fs' path \<noteq> fs path"
  shows "\<exists>v\<in>set vs. writes v \<and> v_Path v = path \<and> fs' path = Some (v_Result v)"
  using assms
proof (induction vs arbitrary: fs files changed)
  case (Cons v vs)
  show ?case
  proof (cases "writes v \<and> writable (v_Path v)")
    case False
    with Cons show ?thesis by (auto split: if_splits)
  next
    case True
    let ?fs = "fs(v_Path v \<mapsto> v_Result v)"
    from True Cons.prems(1) obtain fl ch where w: "write_all rel writable vs ?fs fl ch = (res, fs')" by auto
    show ?thesis
    proof (cases "fs' path = ?fs path")
      case False
      from Cons.IH [OF w False] show ?thesis by auto
    next
      case eq: True
      with Cons.prems(2) have "path = v_Path v" "fs' path = Some (v_Result v)" by (auto split: if_splits)
      with True show ?thesis by auto
    qed
  qed
qed simp

lemma collision_None:
  "collision vs seen = None \<Longrightarrow> distinct (map v_Path (filter writes vs)) \<and> set (map v_Path (filter writes vs)) \<inter> fst ` set seen = {}"
proof (induction vs seen rule: collision.induct)
  case (2 v vs seen)
  then show ?case by (auto split: if_splits option.splits simp: map_of_eq_None_iff)
qed simp

lemma not_excluded_inside:
  assumes "\<not> Excluded path root" "root \<noteq> []"
  shows "IsAbs (Clean path) = IsAbs root \<and> (\<exists>rest. path_elems (Clean path) = path_elems root @ rest \<and> (rest = [] \<or> hd rest \<noteq> ''..''))"
proof -
  have "\<not> escapes root (Clean path)" using assms by (auto simp: Excluded_def Let_def)
  then have e: "IsAbs root = IsAbs (Clean path)" "take (length (path_elems root)) (path_elems (Clean path)) = path_elems root"
    "\<not> (length (path_elems root) < length (path_elems (Clean path)) \<and> path_elems (Clean path) ! length (path_elems root) = ''..'')"
    by (auto simp: escapes_def Let_def)
  define rest where "rest = drop (length (path_elems root)) (path_elems (Clean path))"
  have "path_elems (Clean path) = path_elems root @ rest" by (metis append_take_drop_id e(2) rest_def)
  moreover have "rest = [] \<or> hd rest \<noteq> ''..''" using e(3) by (auto simp: rest_def hd_drop_conv_nth)
  ultimately show ?thesis using e(1) by auto
qed

text \<open>C40. Whatever an advisor proposes, a file changes only when it lies inside the workspace, is not excluded and was shown to the advisor; its
  new content is the old one with exactly the hunks of one proposal applied, and a configuration file must load and validate with it.\<close>

theorem improve_confined:
  assumes "Apply_verdicts rel writable (Validate_all en recs) fs = (res, fs')" "fs' path \<noteq> fs path" "en_Root en \<noteq> []"
  shows "(\<exists>r\<in>set recs. \<exists>result. cleared en r path result \<and> fs' path = Some result)
     \<and> (\<exists>rest. path_elems (Clean path) = path_elems (en_Root en) @ rest \<and> (rest = [] \<or> hd rest \<noteq> ''..''))"
proof -
  have "collision (Validate_all en recs) [] = None" and w: "write_all rel writable (Validate_all en recs) fs [] False = (res, fs')"
    using assms(1,2) by (auto simp: Apply_verdicts_def split: option.splits prod.splits)
  from write_all_changes [OF w assms(2)] obtain r where r: "r \<in> set recs" "writes (validateOne en r)" "v_Path (validateOne en r) = path"
    "fs' path = Some (v_Result (validateOne en r))" by (auto simp: Validate_all_def)
  from validateOne_cleared(2) [OF r(2)] r(3) have c: "cleared en r path (v_Result (validateOne en r))" by simp
  then have "\<not> Excluded path (en_Root en)" by (simp add: cleared_def)
  from not_excluded_inside [OF this assms(3)] c r(1,4) show ?thesis by auto
qed

text \<open>Two accepted proposals for one file are refused before anything is written; otherwise a complete run writes every accepted
  proposal, each file once, and nothing else.\<close>

theorem one_patch_per_file:
  "(case Apply_verdicts rel writable vs fs of
      (TwoProposals path prev this, fs') \<Rightarrow> fs' = fs \<and> \<not> distinct (map v_Path (filter writes vs))
    | (Applied files changed, fs') \<Rightarrow> distinct (map v_Path (filter writes vs)) \<and> fs' = fs ++ map_of (map (\<lambda>v. (v_Path v, v_Result v)) (filter writes vs))
    | (WriteFailed path files, fs') \<Rightarrow> \<not> writable path)"
proof -
  have col: "collision vs seen \<noteq> None \<Longrightarrow> \<not> (distinct (map v_Path (filter writes vs)) \<and> set (map v_Path (filter writes vs)) \<inter> fst ` set seen = {})" for seen
  proof (induction vs seen rule: collision.induct)
    case (2 v vs seen)
    then show ?case by (auto split: if_splits option.splits dest: map_of_SomeD simp: rev_image_eqI)
  qed simp
  have fin: "write_all rel writable vs fs files changed = (Applied fl ch, fs') \<Longrightarrow> distinct (map v_Path (filter writes vs))
      \<Longrightarrow> fs' = fs ++ map_of (map (\<lambda>v. (v_Path v, v_Result v)) (filter writes vs))" for vs fs files changed fl ch fs'
  proof (induction vs arbitrary: fs files changed)
    case (Cons v vs)
    show ?case
    proof (cases "writes v")
      case True
      let ?m = "map_of (map (\<lambda>v. (v_Path v, v_Result v)) (filter writes vs))"
      have "v_Path v \<notin> dom ?m" using Cons.prems(2) True by (simp add: dom_map_of_conv_image_fst image_image)
      then have "fs(v_Path v \<mapsto> v_Result v) ++ ?m = fs ++ ?m(v_Path v \<mapsto> v_Result v)" by (simp add: map_add_upd_left)
      moreover obtain files' changed' where w: "write_all rel writable vs (fs(v_Path v \<mapsto> v_Result v)) files' changed' = (Applied fl ch, fs')"
        using Cons.prems(1) True by (cases "writable (v_Path v)") auto
      have "fs' = fs(v_Path v \<mapsto> v_Result v) ++ ?m" by (rule Cons.IH [OF w]) (use Cons.prems(2) True in simp)
      moreover have "map_of (map (\<lambda>v. (v_Path v, v_Result v)) (filter writes (v # vs))) = ?m(v_Path v \<mapsto> v_Result v)" using True by simp
      ultimately show ?thesis by (simp only:)
    qed (use Cons in auto)
  qed simp
  have bad: "write_all rel writable vs fs files changed = (WriteFailed path fl, fs') \<Longrightarrow> \<not> writable path" for vs fs files changed path fl fs'
    by (induction vs arbitrary: fs files changed) (auto split: if_splits)
  have no: "write_all rel writable vs fs files changed \<noteq> (TwoProposals a b x, fs')" for vs fs files changed a b x fs'
    by (induction vs arbitrary: fs files changed) auto
  show ?thesis
  proof (cases "collision vs []")
    case None
    obtain res fs' where w: "write_all rel writable vs fs [] False = (res, fs')" by fastforce
    with None collision_None [OF None] fin bad no show ?thesis by (cases res) (auto simp: Apply_verdicts_def)
  next
    case (Some x)
    with col [of "[]"] show ?thesis by (cases x) (auto simp: Apply_verdicts_def)
  qed
qed

section \<open>Witness\<close>

definition ex_gate_env :: "unit improve_env" where
  "ex_gate_env = \<lparr>en_Root = ''/w'', en_Files = [''f''], en_read = [''/w/f'' \<mapsto> str_join [CHR 0x0A] [''a'', ''b'', ''c'', []]], en_load = (\<lambda>_ _. Inr ()),
     en_errors = (\<lambda>_. []), en_warnings = (\<lambda>_. []), en_Baseline = []\<rparr>"

definition ex_rec :: recommendation where
  "ex_rec = \<lparr>re_ID = ''r'', re_File = ''f'', re_Patch = render_patch ex_patch\<rparr>"

definition ex_written :: "apply_outcome \<times> (string \<rightharpoonup> string)" where
  "ex_written = Apply_verdicts (\<lambda>p. p) (\<lambda>_. True) (Validate_all ex_gate_env [ex_rec]) (en_read ex_gate_env)"

theorem improve_confined_witness:
  "snd ex_written ''/w/f'' = Some (str_join [CHR 0x0A] [''a'', ''B'', ''c'', ''x'', []]) \<and> \<not> Excluded ''/w/f'' ''/w''"
proof -
  have w: "Apply_verdicts (\<lambda>p. p) (\<lambda>_. True) (Validate_all ex_gate_env [ex_rec]) (en_read ex_gate_env) = (fst ex_written, snd ex_written)"
    by (simp add: ex_written_def)
  have new: "snd ex_written ''/w/f'' = Some (str_join [CHR 0x0A] [''a'', ''B'', ''c'', ''x'', []])" by code_simp
  have "snd ex_written ''/w/f'' \<noteq> en_read ex_gate_env ''/w/f''" unfolding new by code_simp
  from improve_confined [OF w this] have "\<not> Excluded ''/w/f'' (en_Root ex_gate_env)" by (auto simp: ex_gate_env_def cleared_def)
  with new show ?thesis by (simp add: ex_gate_env_def)
qed

end
