(* ===== verification/Spec2Isabelle.thy ===== *)
theory Spec2Isabelle
  imports Lifecycle Expr_Properties Config_Properties Dag_Theorems Queue_Properties Wait_Step Router Parking_Properties Resume Validate_Properties Subworkflow Spawner Foreach Approval_Gate Dispatch_Recovery Poll_Loop Worker_Runtime Improve_Gate
begin

text \<open>
  A verification development of apiary, a daemon that polls work sources (GitHub, Jira, alerts), routes every item to workflows of a
  configuration file, and runs the steps of those workflows with agents. File names below are relative to \<open>src/src/internal/\<close>.

  \<^bold>\<open>The program and how its parts interact.\<close> A configuration (\<open>config/\<close>) is loaded, lowered from its authored form to a graph of steps and
  validated. The daemon (\<open>daemon/\<close>) polls each source, the router (\<open>router/\<close>) selects workflows for a task, guards drop what must not start again,
  and the rest is enqueued in a durable queue (\<open>db/queue_store.go\<close>) or started at once. A worker process (\<open>worker/\<close>) claims jobs under leases and
  hands each to the engine (\<open>workflow/\<close>), whose scheduler runs the graph: agent steps, splits, parallel groups, foreach, sub-workflows, waits
  and approval gates, with loop-backs and conditions over the memory that earlier steps wrote. A run may park at a gate or a wait,
  be stopped, be rehydrated after a restart or be resumed. Tasks count their outstanding workflows in the store (\<open>db/\<close>). An advisor
  (\<open>improve/\<close>) proposes patches of the configuration, which a gate validates before they are written.

  \<^bold>\<open>Common ground.\<close>
  \<^item> \<open>Go_Prelude\<close>: strings, formatting and results of Go, shared list lemmas. \<open>Float64\<close>: the comparison of numbers that the condition language uses.
    \<open>Tables\<close>: tables of the store as lists of rows. \<open>Graph_Search\<close>: depth-first marking. \<open>Transition\<close>: the locales \<open>invariant_of\<close> and
    \<open>monotone_run\<close>, interpreted on the steps of the approval store, the queue, the scheduler, parking, the spawner, foreach, dispatch and
    the worker process; each invariant property is the instance of one rule of these locales.
  \<^item> \<open>Lifecycle\<close> (\<open>state/state.go\<close>), \<open>Model_Types\<close> (\<open>model/\<close>): the vocabulary of states and the data.

  \<^bold>\<open>Condition language and configuration.\<close>
  \<^item> \<open>Expr_Lang\<close> is \<open>workflow/expr.go\<close>: lexer, recursive-descent parser, evaluation. \<open>Expr_Parse\<close>, \<open>Expr_Roundtrip\<close>, \<open>Expr_Embed\<close> and
    \<open>Expr_Eval\<close> hold its theory, \<open>Expr_Properties\<close> the results: parsing ends, spelling a tree and parsing it gives the tree back, evaluation
    reads only the memory keys that \<open>MemoryRefs\<close> lists.
  \<^item> \<open>Wf_Config\<close>, \<open>Step_Graph\<close>, \<open>Lowering\<close>, \<open>Contract\<close> and \<open>Validate\<close> are \<open>config/workflow.go\<close>, \<open>workflow_graph.go\<close>, \<open>lower_v2.go\<close>,
    \<open>workflow_contract.go\<close>, \<open>workflow_validate.go\<close> and the parts of \<open>validate.go\<close>, \<open>workflow_validate_v2.go\<close> and \<open>source_caps_validate.go\<close> that they
    call. \<open>Config_Properties\<close>: cycle and ancestor search are exact, lowering is idempotent, composed guards are conjunctions.
    \<open>Validate_Properties\<close>: what an accepted configuration guarantees the scheduler, and the gate that validation lets a run bypass.

  \<^bold>\<open>The engine.\<close>
  \<^item> \<open>Memory_Doc\<close> (\<open>workflow/memory.go\<close>): what agents and conditions read of earlier steps.
  \<^item> \<open>Dag_Run\<close>, \<open>Dag_Gates\<close> and \<open>Dag_Sched\<close> are \<open>workflow/dag.go\<close>: the state of a run, the gates on a result, the loop of \<open>driveDAG\<close>. The
    goroutine of the scheduler is the only one that touches the run; which workers finish, in which order and with what answer, is an input of each
    round of the loop, and the theorems hold for every input. \<open>Dag_Invariant\<close>, \<open>Dag_Progress\<close> and \<open>Dag_Theorems\<close> show termination, the meaning of the
    outcome, the limits and the order of execution, and what a park loses.
  \<^item> \<open>Parallel_Step\<close>, \<open>Wait_Step\<close>, \<open>Foreach\<close>, \<open>Subworkflow\<close>, \<open>Spawner\<close>: the step kinds of the files with these names. The concurrent parts
    (foreach, spawner) are step relations over the critical sections of the code.
  \<^item> \<open>Approval_Store\<close> (\<open>db/approval_store.go\<close>) and \<open>Approval_Gate\<close> (\<open>workflow/approval.go\<close>): requests, quorum and answers.
  \<^item> \<open>Parking\<close> and \<open>Parking_Properties\<close> (\<open>workflow/wait_park.go\<close>, \<open>settle\<close> and \<open>completeTask\<close> of \<open>engine.go\<close>): who owns a run that may be stopped, woken and
    settled at the same time. \<open>Resume\<close> (\<open>workflow/resume.go\<close>): restoring the steps that passed.

  \<^bold>\<open>Dispatch.\<close>
  \<^item> \<open>Router\<close> (\<open>router/\<close>). \<open>sort.Slice\<close> is not stable, so the sorted list of routes is any permutation in priority order (locale \<open>priority_sort\<close>).
  \<^item> \<open>Queue_Store\<close>, \<open>Queue_Invariant\<close>, \<open>Queue_Moves\<close>, \<open>Queue_Properties\<close> (\<open>queue/queue.go\<close>, \<open>db/queue_store.go\<close>): every operation is one transaction;
    the properties hold for all interleavings of operations, with clocks and identifiers arbitrary.
  \<^item> \<open>Task_Store\<close> (\<open>db/task_store.go\<close>, \<open>db/workflow_store.go\<close>), \<open>Dispatch_Queue\<close> (\<open>daemon/queue_dispatch.go\<close>), \<open>Dispatch_Accounting\<close> and
    \<open>Dispatch_Recovery\<close>: the counter of a task's outstanding workflows under repeated polls, lost leases and restarts.
  \<^item> \<open>Poll_Loop\<close> (\<open>daemon/dispatcher.go\<close>, \<open>daemon/resume_auto.go\<close>): the guards, the watermark, resuming at startup.
  \<^item> \<open>Worker_Runtime\<close> (\<open>worker/worker.go\<close>): the process against the store, which everybody else uses at the same time.

  \<^bold>\<open>Advisor.\<close> \<open>Patch\<close> (\<open>improve/patch.go\<close>) and \<open>Improve_Gate\<close> (\<open>improve/validate.go\<close>, \<open>workspace.go\<close>, \<open>apply.go\<close>): an exact specification of
  applying a diff, and what a proposal can change.

  \<^bold>\<open>Conventions.\<close> A Go struct is a record, an enumeration a datatype, a map a partial function or, where its order is observed, an association list; a
  function that returns an error is a sum with the error on the left. Times are integers (nanoseconds), Go's \<open>int\<close> is unbounded: no modelled
  count comes near its width. Names keep the spelling of the code; a prefix marks the record of a field. Errors of the database are arguments
  where the code reacts to them (\<open>store_faults\<close>, \<open>guard_faults\<close>) and are otherwise left out.

  \<^bold>\<open>Fuel.\<close> The parser gets six units per token and four more, and never runs out (\<open>ParseExpr_total\<close>); the cycle searches of \<open>Step_Graph\<close> and \<open>Contract\<close> get
  one unit more than there are nodes, each visit consuming a node; the scheduler consumes one input per round, and \<open>scheduler_terminates\<close> gives a number
  of rounds, from the steps and the retry limits, after which it has returned for every behaviour of the workers. All other recursion is structural
  or has a measure.

  \<^bold>\<open>Arguments.\<close> Regular expressions of routes, JSON and template rendering of the standard library, agents, CI and source services, random identifiers
  and clocks are arguments of the definitions. Hypotheses on them state what their documentation promises (a codec decodes what it encoded, identifiers
  are fresh), and each property that has one has a witness that instantiates it.

  \<^bold>\<open>Not modelled.\<close> Terminal user interface (\<open>dashboard/\<close>), command line (\<open>cli/\<close>, \<open>cmd/\<close>), source adapters (\<open>source/\<close>), process execution
  (\<open>runner/\<close>), plugin installation (\<open>plugin/\<close>), reports and exports (\<open>export/\<close>, \<open>format/\<close>, \<open>cursorusage/\<close>, the rest of \<open>improve/\<close>), logging, skills, the
  long-term memory files (\<open>memory/\<close>) and the HTTP and socket servers: they are input and output, rendering, or calls of other programs. Of
  \<open>config/\<close> the YAML loading, profiles and path resolution are left out, and the checks of sections that no workflow reads; of \<open>db/\<close> the schema migrations, snapshots,
  bindings and the queries that only feed the dashboard; of \<open>daemon/\<close> the servers, git hooks, notifications, pull-request polling and the wiring of
  startup other than its repairs; of \<open>workflow/engine.go\<close> the execution of an agent step (prompt, retries of the runner, cost) and
  the records it writes only for display. The map of running instances that the engine keeps outside a run is not part of the scheduler's state.
\<close>

section \<open>Shared vocabulary and data\<close>

text \<open>
  Translating a stored state is total and idempotent: the result is one of the seven canonical states
  or an unknown string left as it is, and translating again changes nothing.
\<close>

theorem normalize_total:
  "Normalize (Normalize s) = Normalize s \<and> (Normalize s \<in> set canonical_states \<or> legacy s = None \<and> Normalize s = s)"
  by (rule Normalize_cases [of s]) (simp_all add: Normalize_canonical_id)

text \<open>
  A reason comes out of the translation only beside the blocked or the skipped state, so a running or
  finished row is never labelled with one.
\<close>

theorem reason_only_parked:
  assumes "snd (NormalizeWithReason s) \<noteq> []"
  shows "fst (NormalizeWithReason s) = Blocked \<or> fst (NormalizeWithReason s) = Skipped"
proof (cases "legacy s")
  case (Some p)
  then obtain st r where p: "legacy s = Some (st, r)" by (cases p) auto
  with assms legacy_reason [OF p] show ?thesis by (simp add: NormalizeWithReason_def)
qed (use assms in \<open>simp add: NormalizeWithReason_def\<close>)

theorem reason_only_parked_witness: "fst (NormalizeWithReason ''approval_waiting'') = Blocked"
proof -
  have "snd (NormalizeWithReason ''approval_waiting'') \<noteq> []" "fst (NormalizeWithReason ''approval_waiting'') \<noteq> Skipped"
    by code_simp+
  with reason_only_parked show ?thesis by blast
qed

text \<open>
  Merging MCP server lists is an overlay: a name defined by an override resolves to its last override, any
  other name to its base entry, and the names of the result are distinct.
\<close>

theorem mcp_overlay:
  assumes "distinct (map mcp_Name base)" and "base \<noteq> []" and "overrides \<noteq> []"
  shows "mcp_lookup (MergeMCPServers base overrides) n =
      (case mcp_lookup (rev overrides) n of Some s \<Rightarrow> Some s | None \<Rightarrow> mcp_lookup base n)
    \<and> distinct (map mcp_Name (MergeMCPServers base overrides))"
  using overlay_lookup [OF index_names_base [OF assms(1)], of overrides n]
    overlay_distinct [OF index_names_base [OF assms(1)], of overrides] assms(2,3)
  by (simp add: MergeMCPServers_def)

definition ex_mcp :: "string \<Rightarrow> string \<Rightarrow> mcp_server" where
  "ex_mcp n c = \<lparr>mcp_Name = n, mcp_Command = c, mcp_Args = [], mcp_Env = []\<rparr>"

theorem mcp_overlay_witness:
  "mcp_lookup (MergeMCPServers [ex_mcp ''a'' ''x'', ex_mcp ''b'' ''y''] [ex_mcp ''b'' ''z'']) ''b'' = Some (ex_mcp ''b'' ''z'')"
  using mcp_overlay [of "[ex_mcp ''a'' ''x'', ex_mcp ''b'' ''y'']" "[ex_mcp ''b'' ''z'']" "''b''"]
  by (simp add: ex_mcp_def)

section \<open>Workflow memory\<close>

text \<open>
  The value of a memory key is the one written by the last step, in order, that both declares the key and
  emitted it; a key no step wrote is absent.
\<close>

theorem memory_last_write:
  assumes "writes_key s key" and "\<forall>t\<in>set after. \<not> writes_key t key"
  shows "memoryValuesFrom lib (before @ s # after) key = Some (renderValue lib (the (map_of (ms_Structured s) key)))"
  using assms by (rule memoryValuesFrom_last_write)

definition ex_mem :: "string \<Rightarrow> memory_step" where
  "ex_mem v = \<lparr>ms_StepID = ''s'', ms_WriteFields = [''k''], ms_Structured = [(''k'', GStr v)], ms_Summary = []\<rparr>"

theorem memory_last_write_witness: "memoryValuesFrom ex_lib [ex_mem ''old'', ex_mem ''new''] ''k'' = Some ''new''"
proof -
  have "writes_key (ex_mem ''new'') ''k''" "\<forall>t\<in>set []. \<not> writes_key t ''k''" by (simp_all add: writes_key_def ex_mem_def)
  from memory_last_write [OF this, of ex_lib "[ex_mem ''old'']"] show ?thesis by (simp add: ex_mem_def)
qed

text \<open>
  The document shown to an agent and the values conditions read are the same data: the step-data table of
  \<open>Build\<close> is the map that expression evaluation uses.
\<close>

theorem memory_views_agree: "snd (step_data lib steps) = memoryValuesFrom lib steps"
  by (rule step_data_values)

text \<open>
  The memory document keeps as many of the newest summaries as fit: it is the rendering with some number
  of summaries, within the limit unless it has none, and one more summary would exceed the limit.
\<close>

theorem memory_doc_bounded:
  "\<exists>k\<le>length (summaries_of steps). let m = (if MaxChars \<le> 0 then DefaultMemoryMaxChars else MaxChars) in
     Build lib MaxChars cell steps = render_doc lib cell steps k
     \<and> (k = 0 \<or> int (length (render_doc lib cell steps k)) \<le> m)
     \<and> (\<forall>j. k < j \<and> j \<le> length (summaries_of steps) \<longrightarrow> m < int (length (render_doc lib cell steps j)))"
  using Build_result [of steps lib MaxChars cell] by (simp add: Let_def)

theorem memory_doc_bounded_witness:
  "\<exists>k\<le>1. Build ex_lib 0 empty_item [(ex_mem ''v'')\<lparr>ms_Summary := ''done''\<rparr>] =
     render_doc ex_lib empty_item [(ex_mem ''v'')\<lparr>ms_Summary := ''done''\<rparr>] k"
proof -
  have "length (summaries_of [(ex_mem ''v'')\<lparr>ms_Summary := ''done''\<rparr>]) = 1" by code_simp
  with memory_doc_bounded [of "[(ex_mem ''v'')\<lparr>ms_Summary := ''done''\<rparr>]" 0 ex_lib empty_item]
  show ?thesis by (auto simp: Let_def)
qed

end
